(* ===== verification/Xv6_Prelude.thy ===== *)
theory Xv6_Prelude
  imports Main "HOL-Library.Word"
begin

text \<open>
  Shared vocabulary of the development: the C integer types of
  \<open>kernel/types.h\<close>, the outcomes a kernel routine can have besides returning
  (\<open>panic\<close>, going to sleep, an out-of-range access), the sequencing of routines that may
  have such an outcome, little-endian encodings of integers, and list facts used by
  several components.
\<close>

unbundle bit_operations_syntax

section \<open>Integer types of kernel/types.h\<close>

type_synonym u8 = "8 word"
type_synonym u16 = "16 word"
type_synonym u32 = "32 word"
type_synonym u64 = "64 word"

text \<open>Kernel memory, byte by byte.\<close>

type_synonym bmem = "u64 \<Rightarrow> u8"

text \<open>The modes of \<open>open\<close>, from \<open>kernel/fcntl.h\<close>.\<close>

definition O_RDONLY :: u32 where "O_RDONLY = 0x000"

definition O_WRONLY :: u32 where "O_WRONLY = 0x001"

definition O_RDWR :: u32 where "O_RDWR = 0x002"

definition O_CREATE :: u32 where "O_CREATE = 0x200"

definition O_TRUNC :: u32 where "O_TRUNC = 0x400"

section \<open>Outcomes\<close>

text \<open>
  A sleep channel is an address in the C code. The kernel sleeps on the addresses of the
  objects below and nowhere else; distinct objects have distinct addresses, so a channel
  is the object it names. Buffers, inodes and processes are named by their index in
  \<open>bcache.buf\<close>, \<open>itable.inode\<close> and \<open>proc\<close>; a pipe by the address of its page.
\<close>

datatype chan =
    Chan_buf_lock nat
  | Chan_buf nat
  | Chan_inode_lock nat
  | Chan_proc nat
  | Chan_log
  | Chan_ticks
  | Chan_pipe_nread u64
  | Chan_pipe_nwrite u64
  | Chan_cons_r
  | Chan_uart_tx_r
  | Chan_disk_free

text \<open>
  \<open>Panic m\<close> is a call of \<open>panic(m)\<close>. \<open>Sleep c\<close> is a call of
  \<open>sleep(c, lk)\<close>: the caller gives up the CPU at that point and the condition it tests
  is examined again after a wakeup. \<open>Fault\<close> is an access outside an object, undefined
  in C. \<open>Diverge\<close> is a loop that never ends.
\<close>

datatype halt = Panic string | Sleep chan | Fault | Diverge

type_synonym 'a res = "halt + 'a"

named_theorems res_simps \<open>facts on the sequencing of routines\<close>

definition bindE :: "'a res \<Rightarrow> ('a \<Rightarrow> 'b res) \<Rightarrow> 'b res" where
  "bindE m f = (case m of Inl h \<Rightarrow> Inl h | Inr a \<Rightarrow> f a)"

lemma bindE_Inl [simp, res_simps]: "bindE (Inl h) f = Inl h"
  by (simp add: bindE_def)

lemma bindE_Inr [simp, res_simps]: "bindE (Inr a) f = f a"
  by (simp add: bindE_def)

lemma bindE_eq_Inr [res_simps]:
  "bindE m f = Inr y \<longleftrightarrow> (\<exists>x. m = Inr x \<and> f x = Inr y)"
  by (cases m) auto

lemma bindE_eq_Inl [res_simps]:
  "bindE m f = Inl h \<longleftrightarrow> m = Inl h \<or> (\<exists>x. m = Inr x \<and> f x = Inl h)"
  by (cases m) auto

lemma bindE_assoc: "bindE (bindE m f) g = bindE m (\<lambda>x. bindE (f x) g)"
  by (cases m) auto

lemma bindE_InrE [elim]:
  assumes "bindE m f = Inr y"
  obtains x where "m = Inr x" and "f x = Inr y"
  using assms by (auto simp: bindE_eq_Inr)

lemma bindE_cong [fundef_cong]:
  assumes "m = m'" and "\<And>x. m' = Inr x \<Longrightarrow> f x = f' x"
  shows "bindE m f = bindE m' f'"
  using assms by (cases m') auto

section \<open>Words as numbers\<close>

lemma unat_of_nat_lt [simp]:
  "n < 2 ^ LENGTH('a) \<Longrightarrow> unat (of_nat n :: 'a::len word) = n"
  by (simp add: unat_of_nat take_bit_nat_eq_self)

lemma of_nat_unat_id: "of_nat (unat w) = (w :: 'a::len word)"
  by simp

lemma eq_of_nat_iff_unat:
  "n < 2 ^ LENGTH('a) \<Longrightarrow> w = (of_nat n :: 'a::len word) \<longleftrightarrow> unat w = n"
  by (metis of_nat_unat_id unat_of_nat_lt)

lemma unat_minus_1: "unat (- 1 :: 'a::len word) = 2 ^ LENGTH('a) - 1"
  by (simp add: unsigned_minus_1_eq_mask mask_eq_exp_minus_1)

section \<open>Slices of lists\<close>

text \<open>Overwriting \<open>length new\<close> elements from index \<open>off\<close> on.\<close>

definition upd_seg :: "nat \<Rightarrow> 'a list \<Rightarrow> 'a list \<Rightarrow> 'a list" where
  "upd_seg off new xs = take off xs @ new @ drop (off + length new) xs"

definition seg :: "nat \<Rightarrow> nat \<Rightarrow> 'a list \<Rightarrow> 'a list" where
  "seg off n xs = take n (drop off xs)"

lemma length_upd_seg [simp]:
  "off + length new \<le> length xs \<Longrightarrow> length (upd_seg off new xs) = length xs"
  by (simp add: upd_seg_def)

lemma length_seg [simp]: "length (seg off n xs) = min n (length xs - off)"
  by (simp add: seg_def)

lemma nth_upd_seg:
  assumes "off + length new \<le> length xs" and "i < length xs"
  shows "upd_seg off new xs ! i =
    (if off \<le> i \<and> i < off + length new then new ! (i - off) else xs ! i)"
  using assms by (auto simp: upd_seg_def nth_append min_def)

lemma drop_upd_seg:
  assumes "off + length new \<le> k" and "off \<le> length xs"
  shows "drop k (upd_seg off new xs) = drop k xs"
  using assms by (simp add: upd_seg_def min_def)

lemma nth_seg: "off + n \<le> length xs \<Longrightarrow> i < n \<Longrightarrow> seg off n xs ! i = xs ! (off + i)"
  by (simp add: seg_def add.commute)

lemma seg_upd_seg_same:
  assumes "off + length new \<le> length xs"
  shows "seg off (length new) (upd_seg off new xs) = new"
  using assms by (simp add: seg_def upd_seg_def)

lemma seg_upd_seg_disjoint:
  assumes "off + length new \<le> length xs" and "o' + n \<le> length xs"
    and "o' + n \<le> off \<or> off + length new \<le> o'"
  shows "seg o' n (upd_seg off new xs) = seg o' n xs"
  using assms by (intro nth_equalityI) (auto simp: nth_seg nth_upd_seg)

lemma upd_seg_seg_id:
  "off + n \<le> length xs \<Longrightarrow> upd_seg off (seg off n xs) xs = xs"
  by (intro nth_equalityI) (auto simp: nth_seg nth_upd_seg)

section \<open>Little-endian encodings\<close>

text \<open>
  The machine is little-endian: a \<open>k\<close>-byte integer is stored with its least
  significant byte first.
\<close>

definition le_bytes :: "nat \<Rightarrow> 'a::len word \<Rightarrow> u8 list" where
  "le_bytes k w = map (\<lambda>i. ucast (drop_bit (8 * i) w)) [0..<k]"

primrec le_word :: "u8 list \<Rightarrow> 'a::len word" where
  "le_word [] = 0"
| "le_word (b # bs) = ucast b OR push_bit 8 (le_word bs)"

lemma length_le_bytes [simp]: "length (le_bytes k w) = k"
  by (simp add: le_bytes_def)

lemma nth_le_bytes: "i < k \<Longrightarrow> le_bytes k w ! i = ucast (drop_bit (8 * i) w)"
  by (simp add: le_bytes_def)

lemma bit_le_word:
  "bit (le_word bs :: 'a::len word) i \<longleftrightarrow>
     i < LENGTH('a) \<and> i div 8 < length bs \<and> bit (bs ! (i div 8)) (i mod 8)"
proof (induction bs arbitrary: i)
  case Nil
  then show ?case by simp
next
  case (Cons b bs)
  show ?case
  proof (cases "i < 8")
    case True
    then show ?thesis
      by (auto simp: bit_or_iff bit_push_bit_iff bit_ucast_iff)
  next
    case False
    then have "i div 8 = Suc ((i - 8) div 8)" and "i mod 8 = (i - 8) mod 8"
      by (simp_all add: le_div_geq le_mod_geq)
    moreover from False have "\<not> bit b i"
      using bit_imp_le_length [of b i] by auto
    ultimately show ?thesis
      using False Cons.IH [of "i - 8"]
      by (auto simp: bit_or_iff bit_push_bit_iff bit_ucast_iff)
  qed
qed

lemma bit_nth_le_bytes:
  "i < k \<Longrightarrow> bit (le_bytes k w ! i) j \<longleftrightarrow> j < 8 \<and> bit w (8 * i + j)"
  using bit_imp_le_length [of w "8 * i + j"]
  by (auto simp: nth_le_bytes bit_ucast_iff bit_drop_bit_eq)

lemma le_word_le_bytes:
  fixes w :: "'a::len word"
  assumes "LENGTH('a) = 8 * k"
  shows "le_word (le_bytes k w) = w"
  using assms by (intro bit_word_eqI) (auto simp: bit_le_word bit_nth_le_bytes)

lemma le_bytes_le_word:
  assumes "LENGTH('a::len) = 8 * k" and "length bs = k"
  shows "le_bytes k (le_word bs :: 'a word) = bs"
proof (intro nth_equalityI bit_word_eqI)
  show "length (le_bytes k (le_word bs :: 'a word)) = length bs"
    using assms by simp
next
  fix i j
  assume "i < length (le_bytes k (le_word bs :: 'a word))" and "j < LENGTH(8)"
  then show "bit (le_bytes k (le_word bs :: 'a word) ! i) j = bit (bs ! i) j"
    using assms by (simp add: bit_nth_le_bytes bit_le_word)
qed

lemmas le_roundtrip16 [simp] =
  le_word_le_bytes [where 'a = 16 and k = 2, simplified]
  le_bytes_le_word [where 'a = 16 and k = 2, simplified]

lemmas le_roundtrip32 [simp] =
  le_word_le_bytes [where 'a = 32 and k = 4, simplified]
  le_bytes_le_word [where 'a = 32 and k = 4, simplified]

lemmas le_roundtrip64 [simp] =
  le_word_le_bytes [where 'a = 64 and k = 8, simplified]
  le_bytes_le_word [where 'a = 64 and k = 8, simplified]

text \<open>An integer field at byte offset \<open>off\<close> of a structure kept as bytes.\<close>

definition get16 :: "nat \<Rightarrow> u8 list \<Rightarrow> u16" where
  "get16 off bs = le_word (seg off 2 bs)"

definition put16 :: "nat \<Rightarrow> u16 \<Rightarrow> u8 list \<Rightarrow> u8 list" where
  "put16 off w bs = upd_seg off (le_bytes 2 w) bs"

definition get32 :: "nat \<Rightarrow> u8 list \<Rightarrow> u32" where
  "get32 off bs = le_word (seg off 4 bs)"

definition put32 :: "nat \<Rightarrow> u32 \<Rightarrow> u8 list \<Rightarrow> u8 list" where
  "put32 off w bs = upd_seg off (le_bytes 4 w) bs"

lemma length_put [simp]:
  "off + 2 \<le> length bs \<Longrightarrow> length (put16 off w bs) = length bs"
  "off + 4 \<le> length bs \<Longrightarrow> length (put32 off v bs) = length bs"
  by (simp_all add: put16_def put32_def)

lemma get_put_same [simp]:
  "off + 2 \<le> length bs \<Longrightarrow> get16 off (put16 off w bs) = w"
  "off + 4 \<le> length bs \<Longrightarrow> get32 off (put32 off v bs) = v"
  using seg_upd_seg_same [of off "le_bytes 2 w" bs] seg_upd_seg_same [of off "le_bytes 4 v" bs]
  by (simp_all add: get16_def put16_def get32_def put32_def)

lemma seg_put_disjoint:
  "off + 2 \<le> length bs \<Longrightarrow> o' + n \<le> length bs \<Longrightarrow> o' + n \<le> off \<or> off + 2 \<le> o' \<Longrightarrow>
     seg o' n (put16 off w bs) = seg o' n bs"
  "off + 4 \<le> length bs \<Longrightarrow> o' + n \<le> length bs \<Longrightarrow> o' + n \<le> off \<or> off + 4 \<le> o' \<Longrightarrow>
     seg o' n (put32 off v bs) = seg o' n bs"
  by (simp_all add: put16_def put32_def seg_upd_seg_disjoint)

lemma get_put_disjoint:
  "off + 2 \<le> length bs \<Longrightarrow> o' + 2 \<le> length bs \<Longrightarrow> o' + 2 \<le> off \<or> off + 2 \<le> o' \<Longrightarrow>
     get16 o' (put16 off w bs) = get16 o' bs"
  "off + 2 \<le> length bs \<Longrightarrow> o' + 4 \<le> length bs \<Longrightarrow> o' + 4 \<le> off \<or> off + 2 \<le> o' \<Longrightarrow>
     get32 o' (put16 off w bs) = get32 o' bs"
  "off + 4 \<le> length bs \<Longrightarrow> o' + 2 \<le> length bs \<Longrightarrow> o' + 2 \<le> off \<or> off + 4 \<le> o' \<Longrightarrow>
     get16 o' (put32 off v bs) = get16 o' bs"
  "off + 4 \<le> length bs \<Longrightarrow> o' + 4 \<le> length bs \<Longrightarrow> o' + 4 \<le> off \<or> off + 4 \<le> o' \<Longrightarrow>
     get32 o' (put32 off v bs) = get32 o' bs"
  by (simp_all add: get16_def get32_def seg_put_disjoint)

section \<open>Loops\<close>

text \<open>A \<open>for\<close> loop over the values \<open>xs\<close> of its variable, left by the first failure.\<close>

primrec foreach :: "('b \<Rightarrow> 's \<Rightarrow> 's res) \<Rightarrow> 'b list \<Rightarrow> 's \<Rightarrow> 's res" where
  "foreach f [] s = Inr s"
| "foreach f (x # xs) s = bindE (f x s) (foreach f xs)"

lemma foreach_append [res_simps]:
  "foreach f (xs @ ys) s = bindE (foreach f xs s) (foreach f ys)"
proof (induction xs arbitrary: s)
  case (Cons x xs)
  then show ?case
    by (cases "f x s") simp_all
qed simp

text \<open>The rule for total correctness: an invariant indexed by the number of rounds done.\<close>

lemma foreach_upt:
  assumes "I 0 s" and "\<And>i s. i < n \<Longrightarrow> I i s \<Longrightarrow> \<exists>s'. f i s = Inr s' \<and> I (Suc i) s'"
  shows "\<exists>s'. foreach f [0..<n] s = Inr s' \<and> I n s'"
proof -
  have "\<exists>s'. foreach f [0..<k] s = Inr s' \<and> I k s'" if "k \<le> n" for k
    using that
  proof (induction k)
    case (Suc k)
    then obtain t where t: "foreach f [0..<k] s = Inr t" "I k t"
      by auto
    moreover obtain s' where "f k t = Inr s'" "I (Suc k) s'"
      using assms(2) [OF _ t(2)] Suc.prems by auto
    ultimately show ?case
      by (auto simp: foreach_append)
  qed (use assms(1) in simp)
  then show ?thesis by blast
qed

end
