(* ===== verification/Cstring.thy ===== *)
theory Cstring
  imports Xv6_Prelude
begin

text \<open>
  The byte and string routines of \<open>kernel/string.c\<close>. Routines that write memory work on
  kernel memory \<^typ>\<open>bmem\<close> with 64-bit pointers that wrap like the machine's. A string
  that is only read is given by the function from an offset to the byte at that offset of
  the pointer. Counts are \<^typ>\<open>nat\<close>: the callers pass values of \<open>uint\<close> or
  \<open>int\<close> type, each loop runs that many times at most.
\<close>

section \<open>Memory routines\<close>

text \<open>After \<open>Suc n\<close> iterations the loop of \<open>memset\<close> has also written \<open>cdst[n]\<close>.\<close>

primrec memset :: "bmem \<Rightarrow> u64 \<Rightarrow> u8 \<Rightarrow> nat \<Rightarrow> bmem" where
  "memset m dst c 0 = m"
| "memset m dst c (Suc n) = (memset m dst c n)(dst + of_nat n := c)"

primrec memcmp :: "bmem \<Rightarrow> u64 \<Rightarrow> u64 \<Rightarrow> nat \<Rightarrow> int" where
  "memcmp m s1 s2 0 = 0"
| "memcmp m s1 s2 (Suc n) =
     (if m s1 \<noteq> m s2 then uint (m s1) - uint (m s2)
      else memcmp m (s1 + 1) (s2 + 1) n)"

text \<open>The two copying loops of \<open>memmove\<close>: \<open>*d++ = *s++\<close> and \<open>*--d = *--s\<close>.\<close>

primrec copy_up :: "nat \<Rightarrow> bmem \<Rightarrow> u64 \<Rightarrow> u64 \<Rightarrow> bmem" where
  "copy_up 0 m d s = m"
| "copy_up (Suc n) m d s = copy_up n (m(d := m s)) (d + 1) (s + 1)"

primrec copy_down :: "nat \<Rightarrow> bmem \<Rightarrow> u64 \<Rightarrow> u64 \<Rightarrow> bmem" where
  "copy_down 0 m d s = m"
| "copy_down (Suc n) m d s = copy_down n (m(d - 1 := m (s - 1))) (d - 1) (s - 1)"

definition memmove :: "bmem \<Rightarrow> u64 \<Rightarrow> u64 \<Rightarrow> nat \<Rightarrow> bmem" where
  "memmove m dst src n =
     (if n = 0 then m
      else if src < dst \<and> dst < src + of_nat n
      then copy_down n m (dst + of_nat n) (src + of_nat n)
      else copy_up n m dst src)"

definition memcpy :: "bmem \<Rightarrow> u64 \<Rightarrow> u64 \<Rightarrow> nat \<Rightarrow> bmem" where
  "memcpy m dst src n = memmove m dst src n"

section \<open>Strings\<close>

text \<open>
  The loop of \<open>strlen\<close> ends only where the string has a NUL. The counter is a signed
  32-bit \<open>int\<close>; \<^term>\<open>None\<close> stands for a loop that does not stop.
\<close>

partial_function (option) strlen_from :: "(nat \<Rightarrow> u8) \<Rightarrow> nat \<Rightarrow> nat option" where
  "strlen_from s n = (if s n = 0 then Some n else strlen_from s (Suc n))"

definition strlen :: "(nat \<Rightarrow> u8) \<Rightarrow> nat option" where
  "strlen s = strlen_from s 0"

primrec strncmp :: "nat \<Rightarrow> (nat \<Rightarrow> u8) \<Rightarrow> (nat \<Rightarrow> u8) \<Rightarrow> int" where
  "strncmp 0 p q = 0"
| "strncmp (Suc n) p q =
     (if p 0 \<noteq> 0 \<and> p 0 = q 0 then strncmp n (\<lambda>i. p (Suc i)) (\<lambda>i. q (Suc i))
      else uint (p 0) - uint (q 0))"

text \<open>
  \<open>strncpy(s, t, n)\<close> overwrites exactly \<open>n\<close> bytes of its destination; the list is
  what it writes.
\<close>

primrec strncpy :: "nat \<Rightarrow> (nat \<Rightarrow> u8) \<Rightarrow> u8 list" where
  "strncpy 0 t = []"
| "strncpy (Suc n) t =
     (if t 0 = 0 then replicate (Suc n) 0 else t 0 # strncpy n (\<lambda>i. t (Suc i)))"

text \<open>
  \<open>safestrcpy(s, t, n)\<close>: the loop writes at most \<open>n - 1\<close> bytes and stops after a
  NUL; then \<open>*s = 0\<close>. \<open>safestrcpy_loop k t\<close> is what the loop writes with \<open>k\<close>
  iterations left; the rest of the destination array \<open>s\<close> is untouched.
\<close>

primrec safestrcpy_loop :: "nat \<Rightarrow> (nat \<Rightarrow> u8) \<Rightarrow> u8 list" where
  "safestrcpy_loop 0 t = []"
| "safestrcpy_loop (Suc k) t =
     (if t 0 = 0 then [0] else t 0 # safestrcpy_loop k (\<lambda>i. t (Suc i)))"

definition safestrcpy :: "u8 list \<Rightarrow> (nat \<Rightarrow> u8) \<Rightarrow> int \<Rightarrow> u8 list res" where
  "safestrcpy s t n =
     (if n \<le> 0 then Inr s
      else (let w = safestrcpy_loop (nat n - 1) t @ [0]
            in if length s < length w then Inl Fault else Inr (upd_seg 0 w s)))"


section \<open>What the memory routines do\<close>

lemma unat_minus_Suc:
  fixes a d :: u64
  assumes "a \<noteq> d"
  shows "unat (a - d) = Suc (unat (a - (d + 1)))"
proof -
  have "a - d \<noteq> 0"
    using assms by simp
  then have "unat (a - d) = Suc (unat (a - d - 1))"
    by (metis Suc_diff_1 unat_gt_0 unat_minus_one)
  then show ?thesis
    by (simp add: diff_diff_eq)
qed

lemma memset_apply:
  "n \<le> 2 ^ 64 \<Longrightarrow> memset m dst c n a = (if unat (a - dst) < n then c else m a)"
proof (induction n)
  case 0
  then show ?case by simp
next
  case (Suc n)
  have "a = dst + of_nat n \<longleftrightarrow> unat (a - dst) = n"
  proof
    assume "a = dst + of_nat n"
    then show "unat (a - dst) = n"
      using Suc.prems by simp
  next
    assume "unat (a - dst) = n"
    then have "a - dst = of_nat n"
      by (metis of_nat_unat_id)
    then show "a = dst + of_nat n"
      by (simp add: algebra_simps)
  qed
  then show ?case
    using Suc by auto
qed

lemma copy_up_apply:
  "n < 2 ^ 64 \<Longrightarrow> n \<le> unat (d - s) \<or> d = s \<Longrightarrow>
   copy_up n m d s a = (if unat (a - d) < n then m (s + (a - d)) else m a)"
proof (induction n arbitrary: m d s)
  case 0
  then show ?case by simp
next
  case (Suc n)
  let ?m = "m(d := m s)"
  have IH: "copy_up n ?m (d + 1) (s + 1) a =
      (if unat (a - (d + 1)) < n then ?m (s + 1 + (a - (d + 1))) else ?m a)"
    using Suc.prems by (intro Suc.IH) auto
  show ?case
  proof (cases "a = d")
    case True
    then show ?thesis
      using IH Suc.prems by (simp add: unat_minus_1)
  next
    case False
    have off: "s + 1 + (a - (d + 1)) = s + (a - d)"
      by simp
    have "s + (a - d) \<noteq> d" if "unat (a - d) < Suc n"
    proof
      assume "s + (a - d) = d"
      then have "a - d = d - s"
        by (simp add: algebra_simps)
      with that False Suc.prems(2) show False
        by auto
    qed
    then show ?thesis
      using IH False unat_minus_Suc [OF False] by (auto simp: off)
  qed
qed

lemma of_nat_neq_add:
  fixes x y :: u64
  assumes "unat x < n" and "n < unat y" and "n < 2 ^ 64"
  shows "of_nat n \<noteq> x + y"
proof
  assume "of_nat n = x + y"
  then have "unat (x + y) = n"
    using assms(3) unat_of_nat_lt [of n, where 'a = 64] by simp
  then show False
    using assms unsigned_less [of y, where ?'a = nat] by (simp add: unat_plus_if' split: if_splits)
qed

lemma copy_down_apply:
  "n < 2 ^ 64 \<Longrightarrow> n \<le> unat (s - d) \<or> d = s \<Longrightarrow>
   copy_down n m d s a =
     (if unat (a - (d - of_nat n)) < n then m (s + (a - d)) else m a)"
proof (induction n arbitrary: m d s)
  case 0
  then show ?case by simp
next
  case (Suc n)
  let ?m = "m(d - 1 := m (s - 1))"
  let ?o = "a - (d - of_nat (Suc n))"
  have o: "a - (d - 1 - of_nat n) = ?o"
    by (simp add: algebra_simps)
  have IH: "copy_down n ?m (d - 1) (s - 1) a =
      (if unat ?o < n then ?m (s - 1 + (a - (d - 1))) else ?m a)"
    unfolding o [symmetric] using Suc.prems by (intro Suc.IH) auto
  have top: "a = d - 1 \<longleftrightarrow> unat ?o = n"
  proof
    assume "a = d - 1"
    then show "unat ?o = n"
      using Suc.prems by simp
  next
    assume "unat ?o = n"
    then have "?o = of_nat n"
      by (metis of_nat_unat_id)
    then show "a = d - 1"
      by (simp add: algebra_simps)
  qed
  have "s + (a - d) \<noteq> d - 1" if "unat ?o < n"
  proof
    assume e: "s + (a - d) = d - 1"
    then have ad: "a - d = d - 1 - s"
      by (metis add_diff_cancel_left')
    have "?o + (s - d) = (a - d) + of_nat (Suc n) + (s - d)"
      by simp
    also have "\<dots> = of_nat n"
      unfolding ad by simp
    finally have "of_nat n = ?o + (s - d)"
      by simp
    moreover have "s \<noteq> d"
    proof
      assume "s = d"
      with ad have "a = d - 1"
        by (simp add: diff_eq_eq)
      with top that show False
        by simp
    qed
    with Suc.prems(2) have "Suc n \<le> unat (s - d)"
      by blast
    ultimately show False
      using of_nat_neq_add [OF that, of "s - d"] Suc.prems(1) by fastforce
  qed
  moreover have "s - 1 + (a - (d - 1)) = s + (a - d)"
    by simp
  ultimately show ?case
    using IH top by (auto simp: less_Suc_eq simp del: of_nat_Suc)
qed


lemma memmove_apply:
  assumes "unat src + n < 2 ^ 64" and "unat dst + n < 2 ^ 64"
  shows "memmove m dst src n a = (if unat (a - dst) < n then m (src + (a - dst)) else m a)"
proof -
  have n: "n < 2 ^ 64" and un: "unat (of_nat n :: u64) = n"
    using assms by (simp_all add: unat_of_nat_lt)
  have lt: "src < dst \<longleftrightarrow> unat src < unat dst"
    by (simp add: word_less_nat_alt)
  have end_lt: "dst < src + of_nat n \<longleftrightarrow> unat dst < unat src + n"
    using assms un by (simp add: word_less_nat_alt unat_plus_if')
  show ?thesis
  proof (cases "src < dst \<and> dst < src + of_nat n")
    case True
    then have "n \<le> unat (src + of_nat n - (dst + of_nat n))"
      using assms lt by (simp add: unat_sub_if')
    then show ?thesis
      using copy_down_apply [of n "src + of_nat n" "dst + of_nat n" m a] n True
      by (auto simp: memmove_def algebra_simps)
  next
    case False
    then have "n \<le> unat (dst - src) \<or> dst = src"
      using assms lt end_lt by (auto simp: unat_sub_if' word_unat_eq_iff)
    then show ?thesis
      using copy_up_apply [of n dst src m a] n False by (auto simp: memmove_def)
  qed
qed

lemma memcmp_eq_0_iff:
  "memcmp m s1 s2 n = 0 \<longleftrightarrow> (\<forall>i<n. m (s1 + of_nat i) = m (s2 + of_nat i))"
proof (induction n arbitrary: s1 s2)
  case 0
  then show ?case by simp
next
  case (Suc n)
  have split: "(\<forall>i<Suc n. P i) \<longleftrightarrow> P 0 \<and> (\<forall>i<n. P (Suc i))" for P
    by (auto simp: less_Suc_eq_0_disj)
  have "(\<forall>i<Suc n. m (s1 + of_nat i) = m (s2 + of_nat i)) \<longleftrightarrow>
      m s1 = m s2 \<and> (\<forall>i<n. m (s1 + 1 + of_nat i) = m (s2 + 1 + of_nat i))"
    unfolding split by (simp add: add.assoc)
  moreover have "uint (m s1) = uint (m s2) \<longleftrightarrow> m s1 = m s2"
    by (metis word_uint_eq_iff)
  ultimately show ?case
    using Suc.IH [of "s1 + 1" "s2 + 1"] by simp
qed

section \<open>What the string routines do\<close>

lemma strlen_from_finds:
  assumes "s (k + j) = 0" and "\<forall>i<j. s (k + i) \<noteq> 0"
  shows "strlen_from s k = Some (k + j)"
  using assms
proof (induction j arbitrary: k)
  case 0
  then show ?case by (simp add: strlen_from.simps)
next
  case (Suc j)
  have "s (Suc k + i) \<noteq> 0" if "i < j" for i
    using Suc.prems(2) [rule_format, of "Suc i"] that by simp
  then have "strlen_from s (Suc k) = Some (Suc k + j)"
    using Suc by simp
  moreover have "s k \<noteq> 0"
    using Suc.prems(2) by force
  ultimately show ?case
    by (subst strlen_from.simps) simp
qed

text \<open>The string a pointer denotes when at most \<open>n\<close> bytes are looked at.\<close>

definition cstr :: "nat \<Rightarrow> (nat \<Rightarrow> u8) \<Rightarrow> u8 list" where
  "cstr n p = takeWhile (\<lambda>b. b \<noteq> 0) (map p [0..<n])"

text \<open>The pointer to a byte array, seen as a function; a byte past its end reads as NUL.\<close>

definition bptr :: "u8 list \<Rightarrow> nat \<Rightarrow> u8" where
  "bptr xs i = (if i < length xs then xs ! i else 0)"

lemma cstr_0 [simp]: "cstr 0 p = []"
  by (simp add: cstr_def)

lemma cstr_Suc: "cstr (Suc n) p = (if p 0 = 0 then [] else p 0 # cstr n (\<lambda>i. p (Suc i)))"
  by (simp add: cstr_def upt_conv_Cons map_Suc_upt [symmetric] comp_def
      del: upt_Suc map_Suc_upt)

lemma length_cstr_le: "length (cstr n p) \<le> n"
  by (metis cstr_def length_map length_takeWhile_le length_upt diff_zero)

lemma nonzero_cstr: "0 \<notin> set (cstr n p)"
  by (auto simp: cstr_def dest: set_takeWhileD)

lemma bptr_tail: "(\<lambda>i. bptr (x # xs) (Suc i)) = bptr xs"
  by (auto simp: bptr_def)

lemma bptr_0: "bptr (x # xs) 0 = x"
  by (simp add: bptr_def)

lemma strncmp_eq_0_iff: "strncmp n p q = 0 \<longleftrightarrow> cstr n p = cstr n q"
proof (induction n arbitrary: p q)
  case 0
  then show ?case by simp
next
  case (Suc n)
  have "uint (p 0) = uint (q 0) \<longleftrightarrow> p 0 = q 0"
    by (metis word_uint_eq_iff)
  with Suc show ?case by (auto simp: cstr_Suc)
qed

lemma length_strncpy [simp]: "length (strncpy n t) = n"
  by (induction n arbitrary: t) auto

lemma strncpy_eq: "strncpy n t = cstr n t @ replicate (n - length (cstr n t)) 0"
  by (induction n arbitrary: t) (auto simp: cstr_Suc)

lemma cstr_bptr_append:
  "0 \<notin> set xs \<Longrightarrow> length xs \<le> n \<Longrightarrow> cstr n (bptr (xs @ replicate k 0)) = xs"
proof (induction xs arbitrary: n)
  case Nil
  have "bptr (replicate k 0) = (\<lambda>_. 0)"
    by (auto simp: bptr_def)
  then show ?case
    by (cases n) (simp_all add: cstr_Suc)
next
  case (Cons x xs)
  then show ?case
    by (cases n) (auto simp: cstr_Suc bptr_tail bptr_0)
qed

lemma cstr_strncpy: "cstr n (bptr (strncpy n t)) = cstr n t"
  unfolding strncpy_eq by (rule cstr_bptr_append [OF nonzero_cstr length_cstr_le])

lemma length_safestrcpy_loop: "length (safestrcpy_loop k t) \<le> k"
  by (induction k arbitrary: t) auto

lemma safestrcpy_loop_eq:
  "safestrcpy_loop k t = cstr k t @ (if length (cstr k t) < k then [0] else [])"
  by (induction k arbitrary: t) (auto simp: cstr_Suc)


lemma strlen_bptr:
  assumes "0 \<notin> set xs"
  shows "strlen (bptr (xs @ 0 # ys)) = Some (length xs)"
proof -
  have "\<forall>i<length xs. bptr (xs @ 0 # ys) (0 + i) \<noteq> 0"
    using assms by (auto simp: bptr_def nth_append in_set_conv_nth)
  moreover have "bptr (xs @ 0 # ys) (0 + length xs) = 0"
    by (simp add: bptr_def)
  ultimately show ?thesis
    unfolding strlen_def by (metis add_0 strlen_from_finds)
qed

lemma safestrcpy_Inr:
  assumes "0 < n" and "nat n \<le> length s"
  shows "safestrcpy s t n = Inr (upd_seg 0 (safestrcpy_loop (nat n - 1) t @ [0]) s)"
proof -
  have "length (safestrcpy_loop (nat n - 1) t @ [0]) \<le> nat n"
    using length_safestrcpy_loop [of "nat n - 1" t] assms(1) by simp
  then show ?thesis
    using assms by (simp add: safestrcpy_def Let_def)
qed

section \<open>Properties\<close>

text \<open>
  Property C10. \<open>memmove\<close> copies the original \<open>n\<close> source bytes to the destination and
  changes nothing else, however the two ranges overlap, as long as neither range reaches
  the end of the address space.
\<close>

theorem memmove_correct:
  assumes "unat src + n < 2 ^ 64" and "unat dst + n < 2 ^ 64"
  shows "(\<forall>i<n. memmove m dst src n (dst + of_nat i) = m (src + of_nat i)) \<and>
    (\<forall>a. n \<le> unat (a - dst) \<longrightarrow> memmove m dst src n a = m a)"
  using assms by (auto simp: memmove_apply)

theorem memmove_correct_witness:
  "unat (16 :: u64) + 4 < 2 ^ 64 \<and> unat (18 :: u64) + 4 < 2 ^ 64 \<and>
   memmove (\<lambda>a. ucast a) 18 16 4 (18 + of_nat 3) = (\<lambda>a. ucast a) (16 + of_nat 3 :: u64)"
  using memmove_correct [of 16 4 18 "\<lambda>a. ucast a", THEN conjunct1, rule_format, of 3] by simp

text \<open>
  Property C11. \<open>safestrcpy(s, t, n)\<close> on an array of at least \<open>n > 0\<close> bytes stays inside
  the array, leaves a NUL-terminated string that is the first \<open>n - 1\<close> bytes of
  \<open>t\<close> (fewer when \<open>t\<close> is shorter), and leaves the bytes from index \<open>n\<close> on
  alone.
\<close>

theorem safestrcpy_terminates_string:
  assumes "0 < n" and "nat n \<le> length s"
  shows "\<exists>s'. safestrcpy s t n = Inr s' \<and> length s' = length s \<and>
    strlen (bptr s') = Some (length (cstr (nat n - 1) t)) \<and>
    take (length (cstr (nat n - 1) t)) s' = cstr (nat n - 1) t \<and>
    drop (nat n) s' = drop (nat n) s"
proof -
  let ?c = "cstr (nat n - 1) t" and ?w = "safestrcpy_loop (nat n - 1) t @ [0]"
  have len: "length ?w \<le> nat n"
    using length_safestrcpy_loop [of "nat n - 1" t] assms(1) by simp
  have "\<exists>ys. ?w = ?c @ 0 # ys"
    by (simp add: safestrcpy_loop_eq)
  then obtain ys where w: "?w = ?c @ 0 # ys" ..
  let ?s = "upd_seg 0 ?w s"
  have s: "?s = ?c @ 0 # ys @ drop (length ?w) s"
    by (simp add: upd_seg_def w [simplified])
  have "strlen (bptr ?s) = Some (length ?c)"
    unfolding s by (rule strlen_bptr [OF nonzero_cstr])
  moreover have "drop (nat n) ?s = drop (nat n) s"
    using len by (simp add: drop_upd_seg)
  moreover have "take (length ?c) ?s = ?c"
    unfolding s by simp
  ultimately show ?thesis
    using safestrcpy_Inr [OF assms] len assms(2) by simp
qed

theorem safestrcpy_terminates_string_witness:
  "\<exists>s'. safestrcpy [1, 1, 1, 1] (bptr [104, 105, 33, 33, 0]) 3 = Inr s' \<and> length s' = 4 \<and>
    strlen (bptr s') = Some (length (cstr 2 (bptr [104, 105, 33, 33, 0])))"
  using safestrcpy_terminates_string [of 3 "[1, 1, 1, 1]" "bptr [104, 105, 33, 33, 0]"] by auto

end
