(* ===== verification/Kalloc.thy ===== *)
theory Kalloc
  imports Cstring
begin

text \<open>
  The physical page allocator of \<open>kernel/kalloc.c\<close>, with the address-space constants of
  \<open>kernel/mmu.h\<close> and \<open>kernel/memlayout.h\<close>. Free pages are chained through their own
  first eight bytes (\<open>struct run\<close>), so the free list lives in kernel memory. The linker
  symbol \<open>end\<close> of \<open>kernel/kernel.ld\<close>, the first address after the kernel image, is
  the field \<open>kend\<close> that no routine changes. \<open>kmem.lock\<close> makes each routine atomic.
\<close>

section \<open>Address-space constants\<close>

definition PG_SIZE :: nat where
  "PG_SIZE = 4096"

definition PG_ROUND_UP :: "u64 \<Rightarrow> u64" where
  "PG_ROUND_UP x = (x + 4096 - 1) AND NOT (4096 - 1)"

definition PG_ROUND_DOWN :: "u64 \<Rightarrow> u64" where
  "PG_ROUND_DOWN x = x AND NOT (4096 - 1)"

definition KERN_BASE :: u64 where
  "KERN_BASE = 0xffff000000000000"

definition PHY_BASE :: u64 where
  "PHY_BASE = 0x40000000"

definition PHY_STOP :: u64 where
  "PHY_STOP = PHY_BASE + 0x8000000"

definition V2P :: "u64 \<Rightarrow> u64" where
  "V2P x = x - KERN_BASE"

definition P2V :: "u64 \<Rightarrow> u64" where
  "P2V x = x + KERN_BASE"

section \<open>64-bit loads and stores\<close>

definition ld64 :: "bmem \<Rightarrow> u64 \<Rightarrow> u64" where
  "ld64 m a = le_word (map (\<lambda>i. m (a + of_nat i)) [0..<8])"

definition st64 :: "bmem \<Rightarrow> u64 \<Rightarrow> u64 \<Rightarrow> bmem" where
  "st64 m a v = (\<lambda>x. if unat (x - a) < 8 then le_bytes 8 v ! unat (x - a) else m x)"

section \<open>The allocator\<close>

record kmem =
  mem :: bmem
  freelist :: u64
  kend :: u64

definition kfree :: "u64 \<Rightarrow> 'a kmem_scheme \<Rightarrow> 'a kmem_scheme res" where
  "kfree paddr s =
     (if paddr mod of_nat PG_SIZE \<noteq> 0 \<or> paddr < KERN_BASE + kend s \<or>
         KERN_BASE + PHY_STOP \<le> paddr
      then Inl (Panic ''kfree'')
      else Inr (s\<lparr>mem := st64 (mem s) paddr (freelist s), freelist := paddr\<rparr>))"

definition kalloc :: "'a kmem_scheme \<Rightarrow> u64 \<times> 'a kmem_scheme" where
  "kalloc s =
     (let r = freelist s in
      if r \<noteq> 0
      then (r, s\<lparr>freelist := ld64 (mem s) r, mem := memset (mem s) r 5 PG_SIZE\<rparr>)
      else (0, s))"

text \<open>
  \<open>freerange\<close> stops only when \<open>p + PG_SIZE\<close> exceeds its limit, which for a limit in
  the last page of the address space never happens: the addition wraps. \<^term>\<open>None\<close> is
  that non-termination.
\<close>

partial_function (option) freerange_loop ::
  "u64 \<Rightarrow> u64 \<Rightarrow> 'a kmem_scheme \<Rightarrow> 'a kmem_scheme res option" where
  "freerange_loop p pa_end s =
     (if p + of_nat PG_SIZE \<le> pa_end
      then (case kfree p s of
              Inl h \<Rightarrow> Some (Inl h)
            | Inr s' \<Rightarrow> freerange_loop (p + of_nat PG_SIZE) pa_end s')
      else Some (Inr s))"

definition freerange :: "u64 \<Rightarrow> u64 \<Rightarrow> 'a kmem_scheme \<Rightarrow> 'a kmem_scheme res option" where
  "freerange pa_start pa_end s = freerange_loop (PG_ROUND_UP pa_start) pa_end s"

definition kinit :: "'a kmem_scheme \<Rightarrow> 'a kmem_scheme res option" where
  "kinit s = freerange (kend s) (KERN_BASE + PHY_STOP) s"

section \<open>Loads, stores and pages\<close>

lemma ld64_st64_same [simp]: "ld64 (st64 m a v) a = v"
proof -
  have "map (\<lambda>i. st64 m a v (a + of_nat i)) [0..<8] = le_bytes 8 v"
    by (intro nth_equalityI) (auto simp: st64_def)
  then show ?thesis
    by (simp add: ld64_def)
qed

lemma ld64_cong:
  "(\<And>i. i < 8 \<Longrightarrow> m (a + of_nat i) = m' (a + of_nat i)) \<Longrightarrow> ld64 m a = ld64 m' a"
  unfolding ld64_def by (rule arg_cong [where f = le_word]) auto

definition page_aligned :: "u64 \<Rightarrow> bool" where
  "page_aligned p \<longleftrightarrow> unat p mod 4096 = 0"

definition in_page :: "u64 \<Rightarrow> u64 \<Rightarrow> bool" where
  "in_page p a \<longleftrightarrow> unat (a - p) < 4096"

lemma page_aligned_iff_mod: "page_aligned p \<longleftrightarrow> p mod 4096 = 0"
  by (simp add: page_aligned_def word_unat_eq_iff unat_mod_distrib)

lemma page_alignedE:
  assumes "page_aligned p"
  obtains k where "unat p = 4096 * k"
  using assms by (auto simp: page_aligned_def dest: mod_0_imp_dvd elim: dvdE)

lemma page_alignedI: "unat p = 4096 * k \<Longrightarrow> page_aligned p"
  by (simp add: page_aligned_def)

lemma in_page_iff:
  assumes "page_aligned p"
  shows "in_page p a \<longleftrightarrow> unat a div 4096 = unat p div 4096"
proof -
  obtain k where k: "unat p = 4096 * k"
    using assms by (auto simp: page_aligned_def dest: mod_0_imp_dvd elim: dvdE)
  have "unat p < 2 ^ 64" and "unat a < 2 ^ 64"
    using unsigned_less [of p, where ?'a = nat] unsigned_less [of a, where ?'a = nat] by simp_all
  then show ?thesis
    using k by (auto simp: in_page_def unat_sub_if')
qed

lemma in_page_unique: "page_aligned p \<Longrightarrow> page_aligned q \<Longrightarrow> in_page p a \<Longrightarrow> in_page q a \<Longrightarrow> p = q"
  by (auto simp: in_page_iff page_aligned_def word_unat_eq_iff
      dest!: mod_0_imp_dvd elim!: dvdE)

lemma in_page_word:
  assumes "page_aligned p" and "i < 8"
  shows "in_page p (p + of_nat i)"
  using assms by (simp add: in_page_def)

lemma ld64_frame:
  assumes "page_aligned p" and "page_aligned q" and "p \<noteq> q"
    and "\<And>a. \<not> in_page q a \<Longrightarrow> m' a = m a"
  shows "ld64 m' p = ld64 m p"
  using assms in_page_unique in_page_word by (intro ld64_cong) metis

lemma st64_outside_page: "\<not> in_page p a \<Longrightarrow> st64 m p v a = m a"
  by (simp add: in_page_def st64_def)

lemma memset_page: "memset m p c PG_SIZE a = (if in_page p a then c else m a)"
  by (simp add: memset_apply in_page_def PG_SIZE_def)


lemma and_not_mask_eq: "x AND NOT (mask n) = x - x mod 2 ^ n" for x :: "'a::len word"
proof -
  have "x AND NOT (mask n) = push_bit n (drop_bit n x)"
    by (rule bit_word_eqI)
      (auto simp: bit_and_iff bit_not_iff bit_mask_iff bit_push_bit_iff bit_drop_bit_eq
        dest: bit_imp_le_length)
  then show ?thesis
    by (simp add: push_bit_eq_mult drop_bit_eq_div minus_mod_eq_div_mult)
qed

lemma PG_ROUND_DOWN_eq: "PG_ROUND_DOWN x = x - x mod 4096"
  using and_not_mask_eq [of x 12] by (simp add: PG_ROUND_DOWN_def mask_eq_exp_minus_1)

lemma unat_PG_ROUND_DOWN: "unat (PG_ROUND_DOWN x) = unat x - unat x mod 4096"
proof -
  have "unat (x mod 4096) = unat x mod 4096"
    by (simp add: unat_mod_distrib)
  then show ?thesis
    by (simp add: PG_ROUND_DOWN_eq unat_sub_if')
qed

lemma PG_ROUND_UP_eq: "PG_ROUND_UP x = PG_ROUND_DOWN (x + 4095)"
  by (simp add: PG_ROUND_UP_def PG_ROUND_DOWN_def add.commute)

lemma unat_PG_ROUND_UP:
  "unat x + 4095 < 2 ^ 64 \<Longrightarrow> unat (PG_ROUND_UP x) = (unat x + 4095) div 4096 * 4096"
  by (simp add: PG_ROUND_UP_eq unat_PG_ROUND_DOWN unat_plus_if' minus_mod_eq_div_mult)

lemma page_aligned_PG_ROUND_DOWN [simp]: "page_aligned (PG_ROUND_DOWN x)"
  by (simp add: page_aligned_def unat_PG_ROUND_DOWN minus_mod_eq_div_mult)

lemma page_aligned_PG_ROUND_UP [simp]: "page_aligned (PG_ROUND_UP x)"
  by (simp add: PG_ROUND_UP_eq)

section \<open>The free list\<close>

primrec free_chain :: "bmem \<Rightarrow> u64 \<Rightarrow> u64 list \<Rightarrow> bool" where
  "free_chain m p [] \<longleftrightarrow> p = 0"
| "free_chain m p (x # xs) \<longleftrightarrow> p = x \<and> x \<noteq> 0 \<and> free_chain m (ld64 m x) xs"

lemma free_chain_unique: "free_chain m p xs \<Longrightarrow> free_chain m p ys \<Longrightarrow> xs = ys"
proof (induction xs arbitrary: p ys)
  case Nil
  then show ?case by (cases ys) auto
next
  case (Cons x xs)
  then show ?case by (cases ys) auto
qed

lemma free_chain_frame:
  assumes "\<And>x. x \<in> set xs \<Longrightarrow> ld64 m' x = ld64 m x"
  shows "free_chain m' p xs = free_chain m p xs"
  using assms by (induction xs arbitrary: p) auto

text \<open>
  A page that belongs to the allocator lies between the end of the kernel image and
  \<open>PHY_STOP\<close>. \<open>kernel.ld\<close> places the image in the upper half, so \<open>end\<close> is
  already a kernel virtual address.
\<close>

definition linked :: "'a kmem_scheme \<Rightarrow> bool" where
  "linked s \<longleftrightarrow> KERN_BASE + PHY_BASE \<le> kend s \<and> kend s \<le> KERN_BASE + PHY_STOP"

definition page_ok :: "'a kmem_scheme \<Rightarrow> u64 \<Rightarrow> bool" where
  "page_ok s p \<longleftrightarrow> page_aligned p \<and> kend s \<le> p \<and> p < KERN_BASE + PHY_STOP"

definition free_pages :: "'a kmem_scheme \<Rightarrow> u64 list \<Rightarrow> bool" where
  "free_pages s xs \<longleftrightarrow> free_chain (mem s) (freelist s) xs \<and> distinct xs \<and>
     (\<forall>x\<in>set xs. page_ok s x)"

definition kmem_inv :: "'a kmem_scheme \<Rightarrow> bool" where
  "kmem_inv s \<longleftrightarrow> linked s \<and> (\<exists>xs. free_pages s xs)"

definition free_set :: "'a kmem_scheme \<Rightarrow> u64 set" where
  "free_set s = {x. \<exists>xs. free_pages s xs \<and> x \<in> set xs}"

lemma free_pages_unique: "free_pages s xs \<Longrightarrow> free_pages s ys \<Longrightarrow> xs = ys"
  by (auto simp: free_pages_def dest: free_chain_unique)

lemma free_set_eq: "free_pages s xs \<Longrightarrow> free_set s = set xs"
  by (auto simp: free_set_def dest: free_pages_unique)

lemma page_ok_nonzero: "linked s \<Longrightarrow> page_ok s p \<Longrightarrow> p \<noteq> 0"
  by (auto simp: linked_def page_ok_def KERN_BASE_def PHY_BASE_def PHY_STOP_def
      word_le_nat_alt)

lemma kfree_page_ok:
  assumes "linked s" and "page_ok s p"
  shows "kfree p s = Inr (s\<lparr>mem := st64 (mem s) p (freelist s), freelist := p\<rparr>)"
proof -
  have "unat (KERN_BASE + kend s) \<le> unat (kend s)"
    using assms by (simp add: linked_def KERN_BASE_def PHY_BASE_def PHY_STOP_def
        word_le_nat_alt unat_plus_if')
  then have "KERN_BASE + kend s \<le> p"
    using assms(2) by (simp add: page_ok_def word_le_nat_alt)
  then show ?thesis
    using assms(2)
    by (auto simp: kfree_def page_ok_def page_aligned_iff_mod PG_SIZE_def)
qed

lemma free_pages_elem:
  "free_pages s xs \<Longrightarrow> x \<in> set xs \<Longrightarrow> page_ok s x"
  by (simp add: free_pages_def)

text \<open>Changing memory inside one page leaves a free list that avoids the page intact.\<close>

lemma free_chain_other_page:
  assumes "\<forall>x\<in>set xs. page_aligned x" and "page_aligned p" and "p \<notin> set xs"
    and "\<And>a. \<not> in_page p a \<Longrightarrow> m' a = m a"
  shows "free_chain m' q xs = free_chain m q xs"
proof (rule free_chain_frame)
  fix x
  assume "x \<in> set xs"
  then show "ld64 m' x = ld64 m x"
    using assms by (intro ld64_frame [of x p]) auto
qed

lemma free_pages_kfree:
  assumes "linked s" and "free_pages s xs" and "page_ok s p" and "p \<notin> set xs"
  shows "free_pages (s\<lparr>mem := st64 (mem s) p (freelist s), freelist := p\<rparr>) (p # xs)"
proof -
  have "free_chain (st64 (mem s) p (freelist s)) (freelist s) xs"
    using assms free_chain_other_page [of xs p "st64 (mem s) p (freelist s)" "mem s"]
    by (simp add: free_pages_def page_ok_def st64_outside_page)
  then show ?thesis
    using assms page_ok_nonzero [OF assms(1,3)] by (simp add: free_pages_def page_ok_def)
qed

lemma free_pages_kalloc:
  assumes "free_pages s (p # xs)"
  shows "kalloc s = (p, s\<lparr>freelist := ld64 (mem s) p, mem := memset (mem s) p 5 PG_SIZE\<rparr>)"
    and "free_pages (s\<lparr>freelist := ld64 (mem s) p, mem := memset (mem s) p 5 PG_SIZE\<rparr>) xs"
proof -
  show "kalloc s = (p, s\<lparr>freelist := ld64 (mem s) p, mem := memset (mem s) p 5 PG_SIZE\<rparr>)"
    using assms by (auto simp: kalloc_def free_pages_def Let_def)
  have "free_chain (memset (mem s) p 5 PG_SIZE) (ld64 (mem s) p) xs"
    using assms free_chain_other_page [of xs p "memset (mem s) p 5 PG_SIZE" "mem s"]
    by (simp add: free_pages_def page_ok_def memset_page)
  then show "free_pages (s\<lparr>freelist := ld64 (mem s) p, mem := memset (mem s) p 5 PG_SIZE\<rparr>) xs"
    using assms by (simp add: free_pages_def page_ok_def)
qed


section \<open>The interface of a page allocator\<close>

text \<open>
  What the memory-management code relies on: \<open>alloc\<close> takes some page out of the free
  set, returning NULL only when the set is empty; \<open>free\<close> puts a page back and does not
  panic on a page of the allocator that is not free.
\<close>

locale page_allocator =
  fixes alloc :: "'s \<Rightarrow> u64 \<times> 's"
    and free :: "u64 \<Rightarrow> 's \<Rightarrow> 's res"
    and frees :: "'s \<Rightarrow> u64 set"
    and ok :: "'s \<Rightarrow> u64 \<Rightarrow> bool"
    and inv :: "'s \<Rightarrow> bool"
  assumes frees_ok: "inv s \<Longrightarrow> p \<in> frees s \<Longrightarrow> ok s p"
    and alloc_NULL: "inv s \<Longrightarrow> fst (alloc s) = 0 \<longleftrightarrow> frees s = {}"
    and alloc_NULL_id: "inv s \<Longrightarrow> alloc s = (0, s') \<Longrightarrow> s' = s"
    and alloc_page: "inv s \<Longrightarrow> alloc s = (p, s') \<Longrightarrow> p \<noteq> 0 \<Longrightarrow>
      p \<in> frees s \<and> frees s' = frees s - {p} \<and> inv s'"
    and alloc_ok: "inv s \<Longrightarrow> alloc s = (p, s') \<Longrightarrow> ok s' q = ok s q"
    and free_page: "inv s \<Longrightarrow> ok s p \<Longrightarrow> p \<notin> frees s \<Longrightarrow>
      \<exists>s'. free p s = Inr s' \<and> frees s' = insert p (frees s) \<and> inv s'"
begin

lemma alloc_inv: "inv s \<Longrightarrow> alloc s = (p, s') \<Longrightarrow> inv s'"
  by (cases "p = 0") (auto dest: alloc_page alloc_NULL_id)

lemma alloc_twice_distinct:
  assumes "inv s" and "alloc s = (p, s')" and "alloc s' = (q, s'')" and "p \<noteq> 0" and "q \<noteq> 0"
  shows "p \<noteq> q"
  using assms alloc_page [OF assms(1,2,4)] alloc_page [of s' q s''] by blast

lemma alloc_free_restores:
  assumes "inv s" and "alloc s = (p, s')" and "p \<noteq> 0"
  shows "\<exists>s''. free p s' = Inr s'' \<and> frees s'' = frees s \<and> inv s''"
proof -
  have "p \<in> frees s" and fr: "frees s' = frees s - {p}" and "inv s'"
    using alloc_page [OF assms] by auto
  moreover have "ok s' p"
    using frees_ok alloc_ok assms calculation by blast
  ultimately show ?thesis
    using free_page [of s' p] by (auto simp: insert_absorb)
qed

end

text \<open>\<open>kalloc\<close> and \<open>kfree\<close> provide it.\<close>

interpretation kpages: page_allocator kalloc kfree free_set page_ok kmem_inv
proof (unfold_locales, goal_cases)
  case (1 s p)
  then show ?case
    by (auto simp: free_set_def free_pages_elem)
next
  case (2 s)
  then obtain xs where xs: "free_pages s xs"
    by (auto simp: kmem_inv_def)
  show ?case
  proof (cases xs)
    case Nil
    then show ?thesis
      using xs by (auto simp: free_set_eq [OF xs] kalloc_def free_pages_def)
  next
    case (Cons p ys)
    then show ?thesis
      using xs free_pages_kalloc(1) [of s p ys]
      by (simp add: free_set_eq [OF xs] free_pages_def)
  qed
next
  case (3 s s')
  then show ?case
    by (auto simp: kalloc_def Let_def split: if_splits)
next
  case (4 s p s')
  then obtain xs where xs: "free_pages s xs"
    by (auto simp: kmem_inv_def)
  moreover have "freelist s \<noteq> 0"
    using 4 by (auto simp: kalloc_def Let_def split: if_splits)
  ultimately obtain q ys where q: "free_pages s (q # ys)"
    by (cases xs) (auto simp: free_pages_def)
  with 4 have s': "p = q" "free_pages s' ys"
    using free_pages_kalloc [OF q] by auto
  moreover have "linked s'"
    using 4 free_pages_kalloc(1) [OF q] by (auto simp: kmem_inv_def linked_def)
  moreover have "q \<notin> set ys"
    using q by (simp add: free_pages_def)
  ultimately show ?case
    using free_set_eq [OF q] free_set_eq [OF s'(2)] by (auto simp: kmem_inv_def)
next
  case (5 s p s' q)
  then show ?case
    by (auto simp: kalloc_def Let_def page_ok_def split: if_splits)
next
  case (6 s p)
  then obtain xs where xs: "free_pages s xs" and l: "linked s"
    by (auto simp: kmem_inv_def)
  let ?s = "s\<lparr>mem := st64 (mem s) p (freelist s), freelist := p\<rparr>"
  have "free_pages ?s (p # xs)"
    using 6 xs l by (intro free_pages_kfree) (auto simp: free_set_eq)
  moreover have "linked ?s"
    using l by (simp add: linked_def)
  ultimately show ?case
    using kfree_page_ok [OF l] 6 xs by (auto simp: free_set_eq kmem_inv_def)
qed


section \<open>Initialisation\<close>

lemma unat_KERN_BASE_PHY_STOP: "unat (KERN_BASE + PHY_STOP) = 0xffff000048000000"
  by (simp add: KERN_BASE_def PHY_STOP_def PHY_BASE_def)

lemma next_page_le:
  assumes "page_aligned p" and "page_aligned q" and "unat p + 4096 < 2 ^ 64"
  shows "p \<le> q \<longleftrightarrow> q = p \<or> p + 4096 \<le> q"
proof -
  obtain j k where "unat q = 4096 * j" and "unat p = 4096 * k"
    using assms(1,2) by (auto elim!: page_alignedE)
  moreover have "unat (p + 4096) = unat p + 4096"
    using assms(3) by (simp add: unat_plus_if')
  ultimately show ?thesis
    by (auto simp: word_le_nat_alt word_unat_eq_iff)
qed

lemma freerange_loop_frees:
  assumes "linked s" and "page_aligned p" and "kend s \<le> p" and "free_pages s xs"
    and "\<forall>x\<in>set xs. x < p" and "n = (0xffff000048000000 - unat p) div 4096"
    and "unat p \<le> 0xffff000048000000"
  shows "\<exists>s' ys. freerange_loop p (KERN_BASE + PHY_STOP) s = Some (Inr s') \<and>
    free_pages s' ys \<and> linked s' \<and> kend s' = kend s \<and>
    set ys = set xs \<union> {q. page_aligned q \<and> p \<le> q \<and> q < KERN_BASE + PHY_STOP}"
  using assms
proof (induction n arbitrary: p s xs)
  case 0
  have "\<not> p + 4096 \<le> KERN_BASE + PHY_STOP"
  proof
    assume "p + 4096 \<le> KERN_BASE + PHY_STOP"
    then have "unat (p + 4096) \<le> 0xffff000048000000"
      by (simp only: word_le_nat_alt unat_KERN_BASE_PHY_STOP)
    then show False
      using 0(6,7) by (simp add: unat_plus_if')
  qed
  then have "freerange_loop p (KERN_BASE + PHY_STOP) s = Some (Inr s)"
    by (subst freerange_loop.simps) (simp add: PG_SIZE_def)
  moreover have "{q. page_aligned q \<and> p \<le> q \<and> q < KERN_BASE + PHY_STOP} = {}"
  proof -
    have False if q: "page_aligned q" "p \<le> q" "q < KERN_BASE + PHY_STOP" for q
    proof -
      obtain j k where "unat q = 4096 * j" and "unat p = 4096 * k"
        using q(1) 0(2) by (auto elim!: page_alignedE)
      moreover have "unat p \<le> unat q" and "unat q < 0xffff000048000000"
        using q(2,3) unfolding word_le_nat_alt word_less_nat_alt unat_KERN_BASE_PHY_STOP
        by simp_all
      moreover have "0xffff000048000000 - unat p < 4096"
        using 0(6) by (metis div_greater_zero_iff not_less zero_neq_numeral zero_less_numeral less_numeral_extra(3))
      ultimately show False
        by simp
    qed
    then show ?thesis
      by blast
  qed
  ultimately show ?case
    using 0 by auto
next
  case (Suc n)
  let ?s = "s\<lparr>mem := st64 (mem s) p (freelist s), freelist := p\<rparr>"
  have up: "unat p + 4096 \<le> 0xffff000048000000"
    using Suc.prems(6) by simp
  then have up': "unat (p + 4096) = unat p + 4096"
    by (simp add: unat_plus_if')
  have ok: "page_ok s p"
    using Suc.prems(2,3) up by (simp add: page_ok_def word_less_nat_alt unat_KERN_BASE_PHY_STOP)
  have fp: "free_pages ?s (p # xs)"
    using Suc.prems(1,4,5) ok by (intro free_pages_kfree) auto
  have al: "page_aligned (p + 4096)"
    using Suc.prems(2) by (simp add: page_aligned_def up')
  have "n = (0xffff000048000000 - unat (p + 4096)) div 4096"
    using Suc.prems(6) by (simp add: up')
  moreover have "\<forall>x\<in>set (p # xs). x < p + 4096" and "kend ?s \<le> p + 4096"
    using Suc.prems(3,5) by (auto simp: word_less_nat_alt word_le_nat_alt up')
  ultimately obtain s' ys where s':
    "freerange_loop (p + 4096) (KERN_BASE + PHY_STOP) ?s = Some (Inr s')"
    "free_pages s' ys" "linked s'" "kend s' = kend s"
    "set ys = set (p # xs) \<union> {q. page_aligned q \<and> p + 4096 \<le> q \<and> q < KERN_BASE + PHY_STOP}"
    using Suc.IH [of ?s "p + 4096" "p # xs"] Suc.prems(1) fp al up up' by (auto simp: linked_def)
  have "p + 4096 \<le> KERN_BASE + PHY_STOP"
    using up by (simp add: word_le_nat_alt unat_KERN_BASE_PHY_STOP up')
  then have fl: "freerange_loop p (KERN_BASE + PHY_STOP) s = Some (Inr s')"
    using s'(1) kfree_page_ok [OF Suc.prems(1) ok]
    by (subst freerange_loop.simps) (simp add: PG_SIZE_def)
  have "p < KERN_BASE + PHY_STOP"
    using ok by (simp add: page_ok_def)
  moreover have "p \<le> q \<longleftrightarrow> q = p \<or> p + 4096 \<le> q" if "page_aligned q" for q
    using next_page_le [OF Suc.prems(2) that] up by simp
  ultimately have "set ys = set xs \<union> {q. page_aligned q \<and> p \<le> q \<and> q < KERN_BASE + PHY_STOP}"
    using s'(5) Suc.prems(2) by auto
  then show ?case
    using s'(2-4) fl by blast
qed


section \<open>Properties\<close>

text \<open>
  Property C8. Booting the allocator terminates and hands it exactly the pages between the
  end of the kernel image and \<open>PHY_STOP\<close>.
\<close>

theorem kinit_frees_all_pages:
  assumes "linked s" and "freelist s = 0"
  shows "\<exists>s'. kinit s = Some (Inr s') \<and> kmem_inv s' \<and>
    free_set s' = {p. page_aligned p \<and> kend s \<le> p \<and> p < KERN_BASE + PHY_STOP}"
proof -
  let ?p = "PG_ROUND_UP (kend s)"
  have lim: "unat (kend s) \<le> 0xffff000048000000"
    using assms(1) unfolding linked_def word_le_nat_alt unat_KERN_BASE_PHY_STOP by simp
  then have up: "unat ?p = (unat (kend s) + 4095) div 4096 * 4096"
    by (intro unat_PG_ROUND_UP) simp
  define d where "d = (unat (kend s) + 4095) div 4096"
  have d: "unat ?p = 4096 * d" "4096 * d \<le> unat (kend s) + 4095" "unat (kend s) \<le> 4096 * d"
    using up by (simp_all add: d_def)
  then have "kend s \<le> ?p" and "unat ?p \<le> 0xffff000048000000"
    using lim unfolding word_le_nat_alt by simp_all
  moreover have "free_pages s []"
    using assms(2) by (simp add: free_pages_def)
  ultimately obtain s' ys where s': "freerange_loop ?p (KERN_BASE + PHY_STOP) s = Some (Inr s')"
    "free_pages s' ys" "linked s'"
    "set ys = {q. page_aligned q \<and> ?p \<le> q \<and> q < KERN_BASE + PHY_STOP}"
    using freerange_loop_frees [of s ?p "[]"] assms(1) by auto
  have "?p \<le> q \<longleftrightarrow> kend s \<le> q" if al: "page_aligned q" for q
  proof -
    obtain j where "unat q = 4096 * j"
      using al by (rule page_alignedE)
    then show ?thesis
      using d by (auto simp: word_le_nat_alt)
  qed
  then have "set ys = {p. page_aligned p \<and> kend s \<le> p \<and> p < KERN_BASE + PHY_STOP}"
    using s'(4) by blast
  then show ?thesis
    using s' by (auto simp: kinit_def freerange_def kmem_inv_def free_set_eq [OF s'(2)])
qed

theorem kinit_frees_all_pages_witness:
  "\<exists>s'. kinit \<lparr>mem = (\<lambda>_. 0), freelist = 0, kend = 0xffff000040080000\<rparr> = Some (Inr s') \<and>
     0xffff000040080000 \<in> free_set s'"
  using kinit_frees_all_pages [of "\<lparr>mem = (\<lambda>_. 0), freelist = 0, kend = 0xffff000040080000\<rparr>"]
  by (auto simp: linked_def KERN_BASE_def PHY_BASE_def PHY_STOP_def page_aligned_def)

text \<open>
  Property C9. \<open>kalloc\<close> returns NULL exactly when no page is free; otherwise the page was
  free, is not free afterwards, is filled with the byte 5, and no byte outside it changes.
\<close>

theorem kalloc_correct:
  assumes "kmem_inv s" and "kalloc s = (p, s')"
  shows "(p = 0 \<longleftrightarrow> free_set s = {}) \<and> kmem_inv s' \<and>
    (p = 0 \<longrightarrow> s' = s) \<and>
    (p \<noteq> 0 \<longrightarrow> p \<in> free_set s \<and> free_set s' = free_set s - {p} \<and>
      (\<forall>a. mem s' a = (if in_page p a then 5 else mem s a)))"
proof -
  have "mem s' a = (if in_page p a then 5 else mem s a)" if "p \<noteq> 0" for a
    using that assms(2) by (auto simp: kalloc_def Let_def memset_page split: if_splits)
  then show ?thesis
    using kpages.alloc_NULL [OF assms(1)] kpages.alloc_inv [OF assms]
      kpages.alloc_NULL_id [OF assms(1), of s'] kpages.alloc_page [OF assms] assms(2)
    by auto
qed

theorem kalloc_correct_witness:
  "\<exists>p s'. kalloc \<lparr>mem = (\<lambda>_. 0), freelist = 0xffff000040080000, kend = 0xffff000040080000\<rparr> = (p, s') \<and>
     p \<noteq> 0 \<and> kmem_inv s' \<and> mem s' (p + 7) = 5"
proof -
  let ?s = "\<lparr>mem = (\<lambda>_. 0), freelist = 0xffff000040080000, kend = 0xffff000040080000\<rparr>"
  have "ld64 (mem ?s) (freelist ?s) = 0"
    by (simp add: ld64_def upt_rec)
  then have "free_pages ?s [freelist ?s]"
    by (simp add: free_pages_def page_ok_def page_aligned_def KERN_BASE_def PHY_STOP_def PHY_BASE_def)
  then have inv: "kmem_inv ?s"
    by (auto simp: kmem_inv_def linked_def KERN_BASE_def PHY_STOP_def PHY_BASE_def)
  obtain p s' where k: "kalloc ?s = (p, s')"
    by fastforce
  then have "p = 0xffff000040080000"
    by (auto simp: kalloc_def)
  then show ?thesis
    using kalloc_correct [OF inv k] k by (auto simp: in_page_def)
qed

text \<open>
  A page that was allocated can be given back: \<open>kfree\<close> after \<open>kalloc\<close>
  does not panic and restores the set of free pages.
\<close>

theorem kfree_after_kalloc:
  assumes "kmem_inv s" and "kalloc s = (p, s')" and "p \<noteq> 0"
  shows "\<exists>s''. kfree p s' = Inr s'' \<and> free_set s'' = free_set s \<and> kmem_inv s''"
  by (rule kpages.alloc_free_restores [OF assms])

theorem kfree_after_kalloc_witness:
  "\<exists>p s' s''. kalloc \<lparr>mem = (\<lambda>_. 0), freelist = 0xffff000040080000, kend = 0xffff000040080000\<rparr> = (p, s') \<and>
     kfree p s' = Inr s''"
proof -
  let ?s = "\<lparr>mem = (\<lambda>_. 0), freelist = 0xffff000040080000, kend = 0xffff000040080000\<rparr>"
  have "ld64 (mem ?s) (freelist ?s) = 0"
    by (simp add: ld64_def upt_rec)
  then have "free_pages ?s [freelist ?s]"
    by (simp add: free_pages_def page_ok_def page_aligned_def KERN_BASE_def PHY_STOP_def PHY_BASE_def)
  then have inv: "kmem_inv ?s"
    by (auto simp: kmem_inv_def linked_def KERN_BASE_def PHY_STOP_def PHY_BASE_def)
  obtain p s' where k: "kalloc ?s = (p, s')"
    by fastforce
  then have "p \<noteq> 0"
    by (auto simp: kalloc_def)
  then show ?thesis
    using kfree_after_kalloc [OF inv k] k by auto
qed

text \<open>
  Property C12. The lower bound in \<open>kfree\<close>'s guard has no effect: \<open>end\<close> is already a
  kernel virtual address, so \<open>KERN_BASE + end\<close> wraps below every kernel address, and
  \<open>kfree\<close> accepts every page of RAM below \<open>PHY_STOP\<close>, those of the kernel image
  included.
\<close>

theorem kfree_accepts_kernel_image:
  assumes "linked s" and "page_aligned p" and "KERN_BASE + PHY_BASE \<le> p"
    and "p < KERN_BASE + PHY_STOP"
  shows "\<exists>s'. kfree p s = Inr s' \<and> freelist s' = p"
proof -
  have "unat (KERN_BASE + kend s) < unat (KERN_BASE + PHY_BASE)"
    using assms(1) by (auto simp: linked_def KERN_BASE_def PHY_BASE_def PHY_STOP_def
        word_le_nat_alt unat_plus_if')
  then have "KERN_BASE + kend s < KERN_BASE + PHY_BASE"
    by (simp only: word_less_nat_alt)
  with assms(3) have "KERN_BASE + kend s \<le> p"
    by simp
  then show ?thesis
    using assms(2,4) by (simp add: kfree_def page_aligned_iff_mod PG_SIZE_def not_less not_le)
qed

theorem kfree_accepts_kernel_image_witness:
  "\<exists>s'. kfree 0xffff000040000000 \<lparr>mem = (\<lambda>_. 0), freelist = 0, kend = 0xffff000040080000\<rparr> = Inr s'"
  using kfree_accepts_kernel_image [of "\<lparr>mem = (\<lambda>_. 0), freelist = 0, kend = 0xffff000040080000\<rparr>"
      "0xffff000040000000"]
  by (auto simp: linked_def KERN_BASE_def PHY_BASE_def PHY_STOP_def page_aligned_def)

end
