(* ===== verification/Proctab.thy ===== *)
theory Proctab
  imports Kalloc
begin

text \<open>
  The process table of \<open>kernel/proc.h\<close> and \<open>kernel/proc.c\<close> as far as the layers below
  process management need it: the structures, \<open>myproc\<close>, \<open>wakeup\<close>, \<open>killed\<close>,
  \<open>setkilled\<close>, and the sleep locks of \<open>kernel/sleeplock.c\<close>.

  The state is that of a kernel thread running on behalf of process \<open>cur\<close> (an index in
  \<open>proc[]\<close>). A spin lock protects each critical section of these routines, which
  therefore runs atomically; a call of \<open>sleep\<close> is the outcome \<^term>\<open>Sleep c\<close>, at
  which the thread gives up the CPU.
\<close>

section \<open>Structures of proc.h\<close>

definition NPROC :: nat where
  "NPROC = 64"

definition NOFILE :: nat where
  "NOFILE = 16"

datatype procstate = UNUSED | USED | SLEEPING | RUNNABLE | RUNNING | ZOMBIE

record regcontext =
  ctx_x16 :: u64
  ctx_x17 :: u64
  ctx_x18 :: u64
  ctx_x19 :: u64
  ctx_x20 :: u64
  ctx_x21 :: u64
  ctx_x22 :: u64
  ctx_x23 :: u64
  ctx_x24 :: u64
  ctx_x25 :: u64
  ctx_x26 :: u64
  ctx_x27 :: u64
  ctx_x28 :: u64
  ctx_x29 :: u64
  ctx_lr :: u64
  ctx_sp :: u64

text \<open>
  Pointers to other table entries are indices: \<open>parent\<close> in \<open>proc[]\<close>, \<open>ofile\<close> in
  \<open>ftable.file[]\<close>, \<open>cwd\<close> in \<open>itable.inode[]\<close>, with \<^term>\<open>None\<close> for NULL.
  \<open>kstack\<close>, \<open>pagetable\<close> and \<open>trapframe\<close> are kernel addresses.
\<close>

record proc =
  p_state :: procstate
  p_chan :: "chan option"
  p_killed :: bool
  p_xstate :: int
  p_pid :: int
  p_parent :: "nat option"
  p_kstack :: u64
  p_size :: u64
  p_pagetable :: u64
  p_trapframe :: u64
  p_context :: regcontext
  p_ofile :: "nat option list"
  p_cwd :: "nat option"
  p_name :: "u8 list"

record proctab = kmem +
  procs :: "proc list"
  cur :: nat
  initproc :: nat
  nextpid :: int

definition myproc :: "'a proctab_scheme \<Rightarrow> proc" where
  "myproc s = procs s ! cur s"

definition mypid :: "'a proctab_scheme \<Rightarrow> int" where
  "mypid s = p_pid (myproc s)"

definition upd_proc :: "nat \<Rightarrow> (proc \<Rightarrow> proc) \<Rightarrow> 'a proctab_scheme \<Rightarrow> 'a proctab_scheme" where
  "upd_proc i f s = s\<lparr>procs := (procs s)[i := f (procs s ! i)]\<rparr>"

section \<open>Waking and killing\<close>

definition wakeup :: "chan \<Rightarrow> 'a proctab_scheme \<Rightarrow> 'a proctab_scheme" where
  "wakeup ch s = s\<lparr>procs := map (\<lambda>i.
     let p = procs s ! i in
     if i \<noteq> cur s then
       (if p_state p = SLEEPING \<and> p_chan p = Some ch then p\<lparr>p_state := RUNNABLE\<rparr> else p)
     else p) [0..<length (procs s)]\<rparr>"

definition killed :: "nat \<Rightarrow> 'a proctab_scheme \<Rightarrow> bool" where
  "killed i s = p_killed (procs s ! i)"

definition setkilled :: "nat \<Rightarrow> 'a proctab_scheme \<Rightarrow> 'a proctab_scheme" where
  "setkilled i s = upd_proc i (\<lambda>p. p\<lparr>p_killed := True\<rparr>) s"

section \<open>Sleep locks\<close>

record sleeplock =
  sl_locked :: bool
  sl_pid :: int

definition initsleeplock :: sleeplock where
  "initsleeplock = \<lparr>sl_locked = False, sl_pid = 0\<rparr>"

text \<open>
  \<open>acquiresleep\<close> on a lock whose channel is \<open>ch\<close>: the loop sleeps as long as the
  lock is held. \<open>releasesleep\<close> frees the lock and wakes the sleepers on its channel.
\<close>

definition acquiresleep ::
  "chan \<Rightarrow> sleeplock \<Rightarrow> 'a proctab_scheme \<Rightarrow> sleeplock res" where
  "acquiresleep ch lk s =
     (if sl_locked lk then Inl (Sleep ch)
      else Inr (lk\<lparr>sl_locked := True, sl_pid := mypid s\<rparr>))"

definition releasesleep ::
  "chan \<Rightarrow> sleeplock \<Rightarrow> 'a proctab_scheme \<Rightarrow> sleeplock \<times> 'a proctab_scheme" where
  "releasesleep ch lk s = (lk\<lparr>sl_locked := False, sl_pid := 0\<rparr>, wakeup ch s)"

definition holdingsleep :: "sleeplock \<Rightarrow> 'a proctab_scheme \<Rightarrow> bool" where
  "holdingsleep lk s \<longleftrightarrow> sl_locked lk \<and> sl_pid lk = mypid s"

section \<open>Facts\<close>

lemma length_procs_wakeup [simp]: "length (procs (wakeup ch s)) = length (procs s)"
  by (simp add: wakeup_def)

lemma wakeup_sel [simp]:
  "cur (wakeup ch s) = cur s" "initproc (wakeup ch s) = initproc s"
  "nextpid (wakeup ch s) = nextpid s" "mem (wakeup ch s) = mem s"
  "freelist (wakeup ch s) = freelist s" "kend (wakeup ch s) = kend s"
  "proctab.more (wakeup ch s) = proctab.more s"
  by (simp_all add: wakeup_def)

lemma nth_procs_wakeup:
  "i < length (procs s) \<Longrightarrow> procs (wakeup ch s) ! i =
     (if i \<noteq> cur s \<and> p_state (procs s ! i) = SLEEPING \<and> p_chan (procs s ! i) = Some ch
      then (procs s ! i)\<lparr>p_state := RUNNABLE\<rparr> else procs s ! i)"
  by (simp add: wakeup_def Let_def)

lemma mypid_wakeup [simp]: "cur s < length (procs s) \<Longrightarrow> mypid (wakeup ch s) = mypid s"
  by (simp add: mypid_def myproc_def nth_procs_wakeup)

lemma holdingsleep_acquired [simp]:
  "acquiresleep ch lk s = Inr lk' \<Longrightarrow> mypid s' = mypid s \<Longrightarrow> holdingsleep lk' s'"
  by (auto simp: acquiresleep_def holdingsleep_def split: if_splits)

lemma acquiresleep_eq_Inr:
  "acquiresleep ch lk s = Inr lk' \<longleftrightarrow>
     \<not> sl_locked lk \<and> lk' = lk\<lparr>sl_locked := True, sl_pid := mypid s\<rparr>"
  by (auto simp: acquiresleep_def)

text \<open>
  The effect of \<open>wakeup\<close> on the process table, as a relation closed under composition:
  some sleeping threads other than the caller have become runnable.
\<close>

definition woken :: "'a proctab_scheme \<Rightarrow> 'a proctab_scheme \<Rightarrow> bool" where
  "woken s s' \<longleftrightarrow> cur s' = cur s \<and> length (procs s') = length (procs s) \<and>
     (\<forall>i<length (procs s). procs s' ! i = procs s ! i \<or>
        i \<noteq> cur s \<and> p_state (procs s ! i) = SLEEPING \<and>
        procs s' ! i = (procs s ! i)\<lparr>p_state := RUNNABLE\<rparr>)"

lemma woken_refl [simp]: "woken s s"
  by (simp add: woken_def)

lemma woken_wakeup [simp]: "woken s (wakeup ch s)"
  by (simp add: woken_def nth_procs_wakeup)

lemma woken_trans:
  assumes "woken s t" and "woken t u"
  shows "woken s u"
proof -
  have "procs u ! i = procs s ! i \<or> i \<noteq> cur s \<and> p_state (procs s ! i) = SLEEPING \<and>
      procs u ! i = (procs s ! i)\<lparr>p_state := RUNNABLE\<rparr>"
    if i: "i < length (procs s)" for i
  proof -
    have 1: "procs t ! i = procs s ! i \<or> i \<noteq> cur s \<and> p_state (procs s ! i) = SLEEPING \<and>
        procs t ! i = (procs s ! i)\<lparr>p_state := RUNNABLE\<rparr>"
      using assms(1) i by (simp add: woken_def)
    have 2: "procs u ! i = procs t ! i \<or> i \<noteq> cur s \<and> p_state (procs t ! i) = SLEEPING \<and>
        procs u ! i = (procs t ! i)\<lparr>p_state := RUNNABLE\<rparr>"
      using assms i by (simp add: woken_def)
    from 1 2 show ?thesis by (elim disjE) auto
  qed
  then show ?thesis
    using assms by (simp add: woken_def)
qed

lemma woken_sel:
  assumes "woken s s'"
  shows "cur s' = cur s" "length (procs s') = length (procs s)"
    "cur s < length (procs s) \<Longrightarrow> procs s' ! cur s = procs s ! cur s"
    "cur s < length (procs s) \<Longrightarrow> mypid s' = mypid s"
  using assms by (auto simp: woken_def mypid_def myproc_def)

text \<open>An entry of the table in zeroed memory.\<close>

definition bss_proc :: proc where
  "bss_proc = \<lparr>p_state = UNUSED, p_chan = None, p_killed = False, p_xstate = 0, p_pid = 0,
     p_parent = None, p_kstack = 0, p_size = 0, p_pagetable = 0, p_trapframe = 0,
     p_context = \<lparr>ctx_x16 = 0, ctx_x17 = 0, ctx_x18 = 0, ctx_x19 = 0, ctx_x20 = 0, ctx_x21 = 0,
       ctx_x22 = 0, ctx_x23 = 0, ctx_x24 = 0, ctx_x25 = 0, ctx_x26 = 0, ctx_x27 = 0, ctx_x28 = 0,
       ctx_x29 = 0, ctx_lr = 0, ctx_sp = 0\<rparr>,
     p_ofile = replicate NOFILE None, p_cwd = None, p_name = replicate 16 0\<rparr>"

end
