(* ===== verification/Bio.thy ===== *)
theory Bio
  imports Proctab
begin

text \<open>
  The buffer cache of \<open>kernel/bio.c\<close>. The buffers and the list head form one array:
  \<open>bcache.head\<close> lies right after \<open>bcache.buf[NBUF]\<close>, so index \<open>NBUF\<close> is
  \<open>&bcache.head\<close> and \<open>prev\<close>/\<open>next\<close> are indices in the array. The recency list is
  kept as the C code keeps it, by these links; \<open>lru\<close> below relates it to a list.

  \<open>disk\<close> is the content of the disk, block by block, and \<open>dwrites\<close> the history of
  the write requests the disk has completed, oldest first; \<open>virtio_disk_rw\<close> returns when
  its request is completed, so a call of it is \<open>disk_rw\<close>.
\<close>

section \<open>Structures\<close>

definition BSIZE :: nat where
  "BSIZE = 1024"

definition NBUF :: nat where
  "NBUF = 30"

definition ROOTDEV :: u32 where
  "ROOTDEV = 1"

abbreviation HEAD :: nat where
  "HEAD \<equiv> NBUF"

record buf =
  b_valid :: bool
  b_disk :: bool
  b_dev :: u32
  b_blockno :: u32
  b_lock :: sleeplock
  b_refcnt :: u32
  b_prev :: nat
  b_next :: nat
  b_data :: "u8 list"

record bstate = proctab +
  bufs :: "buf list"
  disk :: "u32 \<Rightarrow> u8 list"
  dwrites :: "(u32 \<times> u8 list) list"

definition upd_buf :: "nat \<Rightarrow> (buf \<Rightarrow> buf) \<Rightarrow> 'a bstate_scheme \<Rightarrow> 'a bstate_scheme" where
  "upd_buf b f s = s\<lparr>bufs := (bufs s)[b := f (bufs s ! b)]\<rparr>"

section \<open>Operations\<close>

text \<open>Linking buffer \<open>b\<close> in right after the head, as \<open>binit\<close> and \<open>brelse\<close> do.\<close>

definition insert_head :: "nat \<Rightarrow> 'a bstate_scheme \<Rightarrow> 'a bstate_scheme" where
  "insert_head b s =
     (let s = upd_buf b (\<lambda>x. x\<lparr>b_next := b_next (bufs s ! HEAD)\<rparr>) s;
          s = upd_buf b (\<lambda>x. x\<lparr>b_prev := HEAD\<rparr>) s;
          s = upd_buf (b_next (bufs s ! HEAD)) (\<lambda>x. x\<lparr>b_prev := b\<rparr>) s
      in upd_buf HEAD (\<lambda>x. x\<lparr>b_next := b\<rparr>) s)"

primrec binit_loop :: "nat \<Rightarrow> 'a bstate_scheme \<Rightarrow> 'a bstate_scheme" where
  "binit_loop 0 s = s"
| "binit_loop (Suc b) s =
     insert_head b (upd_buf b (\<lambda>x. x\<lparr>b_lock := initsleeplock\<rparr>) (binit_loop b s))"

definition binit :: "'a bstate_scheme \<Rightarrow> 'a bstate_scheme" where
  "binit s = binit_loop NBUF (upd_buf HEAD (\<lambda>x. x\<lparr>b_prev := HEAD, b_next := HEAD\<rparr>) s)"

text \<open>
  The two scans of \<open>bget\<close>. The list has \<open>NBUF + 1\<close> cells, so a walk that has not met
  the head after that many steps goes round a cycle without it and never ends.
\<close>

primrec find_next :: "nat \<Rightarrow> (buf \<Rightarrow> bool) \<Rightarrow> buf list \<Rightarrow> nat \<Rightarrow> nat option res" where
  "find_next 0 P bs b = Inl Diverge"
| "find_next (Suc k) P bs b =
     (if b = HEAD then Inr None
      else if length bs \<le> b then Inl Fault
      else if P (bs ! b) then Inr (Some b)
      else find_next k P bs (b_next (bs ! b)))"

primrec find_prev :: "nat \<Rightarrow> (buf \<Rightarrow> bool) \<Rightarrow> buf list \<Rightarrow> nat \<Rightarrow> nat option res" where
  "find_prev 0 P bs b = Inl Diverge"
| "find_prev (Suc k) P bs b =
     (if b = HEAD then Inr None
      else if length bs \<le> b then Inl Fault
      else if P (bs ! b) then Inr (Some b)
      else find_prev k P bs (b_prev (bs ! b)))"

definition lock_buf :: "nat \<Rightarrow> 'a bstate_scheme \<Rightarrow> (nat \<times> 'a bstate_scheme) res" where
  "lock_buf b s =
     bindE (acquiresleep (Chan_buf_lock b) (b_lock (bufs s ! b)) s)
       (\<lambda>lk. Inr (b, upd_buf b (\<lambda>x. x\<lparr>b_lock := lk\<rparr>) s))"

text \<open>
  \<open>bget\<close>. When the sleep lock of the buffer is taken the result is \<^term>\<open>Sleep\<close>, and the state in which the
  process waits, with its reference counted, is not part of it: the theories above take the case in
  which the lock is free.
\<close>

definition bget :: "u32 \<Rightarrow> u32 \<Rightarrow> 'a bstate_scheme \<Rightarrow> (nat \<times> 'a bstate_scheme) res" where
  "bget dev blockno s =
     bindE (find_next (Suc NBUF) (\<lambda>x. b_dev x = dev \<and> b_blockno x = blockno)
              (bufs s) (b_next (bufs s ! HEAD)))
       (\<lambda>r. case r of
          Some b \<Rightarrow> lock_buf b (upd_buf b (\<lambda>x. x\<lparr>b_refcnt := b_refcnt x + 1\<rparr>) s)
        | None \<Rightarrow>
            bindE (find_prev (Suc NBUF) (\<lambda>x. b_refcnt x = 0)
                     (bufs s) (b_prev (bufs s ! HEAD)))
              (\<lambda>r. case r of
                 Some b \<Rightarrow> lock_buf b (upd_buf b (\<lambda>x. x\<lparr>b_dev := dev, b_blockno := blockno,
                             b_valid := False, b_refcnt := 1\<rparr>) s)
               | None \<Rightarrow> Inl (Panic ''no buffers'')))"

text \<open>A completed request of the disk driver: the device has moved one block.\<close>

definition disk_rw :: "nat \<Rightarrow> bool \<Rightarrow> 'a bstate_scheme \<Rightarrow> 'a bstate_scheme" where
  "disk_rw b write s =
     (let x = bufs s ! b in
      if write
      then s\<lparr>disk := (disk s)(b_blockno x := b_data x),
             dwrites := dwrites s @ [(b_blockno x, b_data x)]\<rparr>
      else upd_buf b (\<lambda>x. x\<lparr>b_data := disk s (b_blockno x)\<rparr>) s)"

definition bread :: "u32 \<Rightarrow> u32 \<Rightarrow> 'a bstate_scheme \<Rightarrow> (nat \<times> 'a bstate_scheme) res" where
  "bread dev blockno s =
     bindE (bget dev blockno s) (\<lambda>(b, s).
       if \<not> b_valid (bufs s ! b)
       then Inr (b, upd_buf b (\<lambda>x. x\<lparr>b_valid := True\<rparr>) (disk_rw b False s))
       else Inr (b, s))"

definition bwrite :: "nat \<Rightarrow> 'a bstate_scheme \<Rightarrow> 'a bstate_scheme res" where
  "bwrite b s =
     (if \<not> holdingsleep (b_lock (bufs s ! b)) s then Inl (Panic ''bwrite'')
      else Inr (disk_rw b True s))"

definition unlink_buf :: "nat \<Rightarrow> 'a bstate_scheme \<Rightarrow> 'a bstate_scheme" where
  "unlink_buf b s =
     (let s = upd_buf (b_next (bufs s ! b)) (\<lambda>x. x\<lparr>b_prev := b_prev (bufs s ! b)\<rparr>) s
      in upd_buf (b_prev (bufs s ! b)) (\<lambda>x. x\<lparr>b_next := b_next (bufs s ! b)\<rparr>) s)"

definition brelse :: "nat \<Rightarrow> 'a bstate_scheme \<Rightarrow> 'a bstate_scheme res" where
  "brelse b s =
     (if \<not> holdingsleep (b_lock (bufs s ! b)) s then Inl (Panic ''brelse'')
      else
        (let (lk, s) = releasesleep (Chan_buf_lock b) (b_lock (bufs s ! b)) s;
             s = upd_buf b (\<lambda>x. x\<lparr>b_lock := lk\<rparr>) s;
             s = upd_buf b (\<lambda>x. x\<lparr>b_refcnt := b_refcnt x - 1\<rparr>) s
         in if b_refcnt (bufs s ! b) = 0 then Inr (insert_head b (unlink_buf b s))
            else Inr s))"

definition bpin :: "nat \<Rightarrow> 'a bstate_scheme \<Rightarrow> 'a bstate_scheme" where
  "bpin b s = upd_buf b (\<lambda>x. x\<lparr>b_refcnt := b_refcnt x + 1\<rparr>) s"

definition bunpin :: "nat \<Rightarrow> 'a bstate_scheme \<Rightarrow> 'a bstate_scheme" where
  "bunpin b s = upd_buf b (\<lambda>x. x\<lparr>b_refcnt := b_refcnt x - 1\<rparr>) s"


section \<open>Doubly linked segments\<close>

text \<open>
  \<open>dseg nx pv a xs c\<close>: following \<open>nx\<close> from \<open>a\<close> visits \<open>xs\<close> and then
  \<open>c\<close>, and \<open>pv\<close> goes back the same way. The recency list is such a segment from
  the head to the head.
\<close>

primrec dseg :: "(nat \<Rightarrow> nat) \<Rightarrow> (nat \<Rightarrow> nat) \<Rightarrow> nat \<Rightarrow> nat list \<Rightarrow> nat \<Rightarrow> bool" where
  "dseg nx pv a [] c \<longleftrightarrow> nx a = c \<and> pv c = a"
| "dseg nx pv a (x # xs) c \<longleftrightarrow> nx a = x \<and> pv x = a \<and> dseg nx pv x xs c"

lemma dseg_append:
  "dseg nx pv a (xs @ x # ys) c \<longleftrightarrow> dseg nx pv a xs x \<and> dseg nx pv x ys c"
  by (induction xs arbitrary: a) auto

lemma dseg_cong:
  assumes "\<And>y. y \<in> set (a # xs) \<Longrightarrow> nx' y = nx y" and "\<And>y. y \<in> set (c # xs) \<Longrightarrow> pv' y = pv y"
  shows "dseg nx' pv' a xs c = dseg nx pv a xs c"
  using assms by (induction xs arbitrary: a) auto

lemma dseg_first: "dseg nx pv a xs c \<Longrightarrow> nx a = hd (xs @ [c])"
  by (cases xs) auto

lemma dseg_last: "dseg nx pv a xs c \<Longrightarrow> pv c = last (a # xs)"
  by (induction xs arbitrary: a) auto

lemma dseg_unlink:
  assumes "dseg nx pv h (us @ x # vs) h" and "distinct (h # us @ x # vs)"
  shows "dseg (nx(pv x := nx x)) (pv(nx x := pv x)) h (us @ vs) h"
proof -
  have 1: "dseg nx pv h us x" and 2: "dseg nx pv x vs h"
    using assms(1) by (auto simp: dseg_append)
  let ?nx = "nx(pv x := nx x)" and ?pv = "pv(nx x := pv x)"
  have p: "pv x = last (h # us)" and n: "nx x = hd (vs @ [h])"
    using dseg_last [OF 1] dseg_first [OF 2] by auto
  show ?thesis
  proof (cases vs)
    case Nil
    show ?thesis
    proof (cases us rule: rev_cases)
      case (snoc us' y)
      then have "dseg ?nx ?pv h us' y = dseg nx pv h us' y"
        using assms(2) p n Nil by (intro dseg_cong) auto
      then show ?thesis
        using snoc Nil 1 n p assms(2) by (auto simp: dseg_append)
    qed (use Nil n p in simp)
  next
    case (Cons z vs')
    have "pv x \<in> set (h # us)"
      unfolding p by (rule last_in_set) simp
    then have z: "dseg ?nx ?pv z vs' h = dseg nx pv z vs' h"
      using assms(2) n Cons by (intro dseg_cong) auto
    show ?thesis
    proof (cases us rule: rev_cases)
      case Nil
      then show ?thesis
        using Cons 2 n p z by simp
    next
      case (snoc us' y)
      have "dseg ?nx ?pv h us' y = dseg nx pv h us' y"
        using assms(2) p n Cons snoc by (intro dseg_cong) auto
      then show ?thesis
        using snoc Cons 1 2 n p z by (simp add: dseg_append)
    qed
  qed
qed

lemma dseg_insert:
  assumes "dseg nx pv h xs h" and "distinct (h # xs)" and "b \<notin> set (h # xs)"
  shows "dseg (nx(b := nx h, h := b)) (pv(b := h, nx h := b)) h (b # xs) h"
proof (cases xs)
  case Nil
  then show ?thesis
    using assms by auto
next
  case (Cons z zs)
  have "dseg (nx(b := nx h, h := b)) (pv(b := h, nx h := b)) z zs h = dseg nx pv z zs h"
    using assms Cons by (intro dseg_cong) auto
  then show ?thesis
    using assms Cons by auto
qed

section \<open>The recency list\<close>

definition lru :: "buf list \<Rightarrow> nat list \<Rightarrow> bool" where
  "lru bs xs \<longleftrightarrow> length bs = Suc NBUF \<and> distinct xs \<and> set xs = {0..<NBUF} \<and>
     dseg (\<lambda>i. b_next (bs ! i)) (\<lambda>i. b_prev (bs ! i)) HEAD xs HEAD"

lemma find_next_dseg:
  assumes "dseg (\<lambda>i. b_next (bs ! i)) pv a xs HEAD" and "length xs < k"
    and "\<forall>x\<in>set xs. x < NBUF" and "length bs = Suc NBUF"
  shows "find_next k P bs (b_next (bs ! a)) = Inr (List.find (\<lambda>i. P (bs ! i)) xs)"
  using assms
proof (induction xs arbitrary: a k)
  case Nil
  then show ?case by (cases k) auto
next
  case (Cons x xs)
  then show ?case by (cases k) auto
qed

lemma find_prev_dseg:
  assumes "dseg nx (\<lambda>i. b_prev (bs ! i)) HEAD xs c" and "length xs < k"
    and "\<forall>x\<in>set xs. x < NBUF" and "length bs = Suc NBUF"
  shows "find_prev k P bs (b_prev (bs ! c)) = Inr (List.find (\<lambda>i. P (bs ! i)) (rev xs))"
  using assms
proof (induction xs arbitrary: c k rule: rev_induct)
  case Nil
  then show ?case by (cases k) auto
next
  case (snoc x xs)
  then show ?case by (cases k) (auto simp: dseg_append)
qed

lemma lru_length: "lru bs xs \<Longrightarrow> length xs = NBUF"
  by (metis lru_def atLeast0LessThan card_lessThan distinct_card)

lemma find_next_lru:
  "lru bs xs \<Longrightarrow> find_next (Suc NBUF) P bs (b_next (bs ! HEAD)) =
     Inr (List.find (\<lambda>i. P (bs ! i)) xs)"
  using lru_length [of bs xs] by (intro find_next_dseg) (auto simp: lru_def)

lemma find_prev_lru:
  "lru bs xs \<Longrightarrow> find_prev (Suc NBUF) P bs (b_prev (bs ! HEAD)) =
     Inr (List.find (\<lambda>i. P (bs ! i)) (rev xs))"
  using lru_length [of bs xs] by (intro find_prev_dseg) (auto simp: lru_def)

text \<open>Changing a buffer without touching its links keeps the list.\<close>

lemma lru_upd:
  assumes "lru bs xs" and "b_next x = b_next (bs ! b)" and "b_prev x = b_prev (bs ! b)"
  shows "lru (bs[b := x]) xs"
proof -
  have "(\<lambda>i. b_next (bs[b := x] ! i)) = (\<lambda>i. b_next (bs ! i))"
    and "(\<lambda>i. b_prev (bs[b := x] ! i)) = (\<lambda>i. b_prev (bs ! i))"
    using assms(2,3)
    by (cases "b < length bs"; auto simp: nth_list_update list_update_beyond fun_eq_iff;
        metis nth_list_update_eq nth_list_update_neq)+
  then show ?thesis
    using assms(1) by (simp add: lru_def)
qed


abbreviation nexts :: "buf list \<Rightarrow> nat \<Rightarrow> nat" where
  "nexts bs \<equiv> \<lambda>i. b_next (bs ! i)"

abbreviation prevs :: "buf list \<Rightarrow> nat \<Rightarrow> nat" where
  "prevs bs \<equiv> \<lambda>i. b_prev (bs ! i)"

lemma nexts_upd: "b < length bs \<Longrightarrow> nexts (bs[b := x]) = (nexts bs)(b := b_next x)"
  and prevs_upd: "b < length bs \<Longrightarrow> prevs (bs[b := x]) = (prevs bs)(b := b_prev x)"
  by (auto simp: fun_eq_iff nth_list_update)

lemma bufs_upd_buf [simp]: "bufs (upd_buf b f s) = (bufs s)[b := f (bufs s ! b)]"
  by (simp add: upd_buf_def)

text \<open>Two arrays of buffers that differ at most in the links.\<close>

definition same_but_links :: "buf list \<Rightarrow> buf list \<Rightarrow> bool" where
  "same_but_links bs bs' \<longleftrightarrow> length bs' = length bs \<and>
     (\<forall>i<length bs. \<exists>p n. bs' ! i = (bs ! i)\<lparr>b_prev := p, b_next := n\<rparr>)"

lemma same_but_links_refl [simp]: "same_but_links bs bs"
proof -
  have "x = x\<lparr>b_prev := b_prev x, b_next := b_next x\<rparr>" for x :: buf
    by simp
  then show ?thesis
    unfolding same_but_links_def by blast
qed

lemma same_but_links_trans:
  assumes "same_but_links as bs" and "same_but_links bs cs"
  shows "same_but_links as cs"
proof -
  have "\<exists>p n. cs ! i = (as ! i)\<lparr>b_prev := p, b_next := n\<rparr>" if "i < length as" for i
  proof -
    obtain p n where b: "bs ! i = (as ! i)\<lparr>b_prev := p, b_next := n\<rparr>"
      using assms(1) \<open>i < length as\<close> unfolding same_but_links_def by blast
    have "i < length bs"
      using assms(1) \<open>i < length as\<close> unfolding same_but_links_def by simp
    then obtain p' n' where c: "cs ! i = (bs ! i)\<lparr>b_prev := p', b_next := n'\<rparr>"
      using assms(2) unfolding same_but_links_def by blast
    have "cs ! i = (as ! i)\<lparr>b_prev := p', b_next := n'\<rparr>"
      unfolding c b by simp
    then show ?thesis by blast
  qed
  then show ?thesis
    using assms by (simp add: same_but_links_def)
qed

lemma same_but_links_upd:
  "x = (bs ! b)\<lparr>b_prev := p, b_next := n\<rparr> \<Longrightarrow> same_but_links bs (bs[b := x])"
  using same_but_links_refl [of bs]
  by (cases "b < length bs")
    (auto simp: same_but_links_def nth_list_update list_update_beyond simp del: same_but_links_refl)

lemma lru_neighbours:
  assumes "lru bs xs" and "b < NBUF"
  shows "b_next (bs ! b) < Suc NBUF" and "b_prev (bs ! b) < Suc NBUF" and "b_next (bs ! HEAD) < Suc NBUF"
proof -
  obtain us vs where xs: "xs = us @ b # vs"
    using assms by (metis lru_def atLeast0LessThan lessThan_iff split_list)
  have d: "dseg (nexts bs) (prevs bs) HEAD us b" "dseg (nexts bs) (prevs bs) b vs HEAD"
    using assms(1) xs by (auto simp: lru_def dseg_append)
  have "b_next (bs ! b) = hd (vs @ [HEAD])" "b_prev (bs ! b) = last (HEAD # us)"
    "b_next (bs ! HEAD) = hd (us @ [b])"
    using dseg_first [OF d(2)] dseg_last [OF d(1)] dseg_first [OF d(1)] by simp_all
  then have "b_next (bs ! b) \<in> set (vs @ [HEAD])" "b_prev (bs ! b) \<in> set (HEAD # us)"
    "b_next (bs ! HEAD) \<in> set (us @ [b])"
    using hd_in_set [of "vs @ [HEAD]"] last_in_set [of "HEAD # us"] hd_in_set [of "us @ [b]"]
    by simp_all
  moreover have "\<forall>y\<in>set (us @ b # vs). y < NBUF"
    using assms(1) xs by (auto simp: lru_def)
  ultimately show "b_next (bs ! b) < Suc NBUF" "b_prev (bs ! b) < Suc NBUF"
    "b_next (bs ! HEAD) < Suc NBUF"
    by (auto simp: less_Suc_eq)
qed

text \<open>
  The links of \<open>insert_head\<close> and \<open>unlink_buf\<close> are the pointer updates of
  \<open>dseg_insert\<close> and \<open>dseg_unlink\<close>.
\<close>

lemma bufs_insert_head:
  assumes "length (bufs s) = Suc NBUF" and "b < NBUF" and "b_next (bufs s ! HEAD) < Suc NBUF"
  shows "length (bufs (insert_head b s)) = Suc NBUF"
    and "nexts (bufs (insert_head b s)) =
         (nexts (bufs s))(b := b_next (bufs s ! HEAD), HEAD := b)"
    and "prevs (bufs (insert_head b s)) =
         (prevs (bufs s))(b := HEAD, b_next (bufs s ! HEAD) := b)"
  using assms by (auto simp: insert_head_def Let_def nexts_upd prevs_upd nth_list_update fun_eq_iff)

lemma bufs_unlink_buf:
  assumes "length (bufs s) = Suc NBUF" and "b < NBUF" and "b_next (bufs s ! b) < Suc NBUF"
    and "b_prev (bufs s ! b) < Suc NBUF" and "b_next (bufs s ! b) \<noteq> b" 
  shows "length (bufs (unlink_buf b s)) = Suc NBUF"
    and "nexts (bufs (unlink_buf b s)) =
         (nexts (bufs s))(b_prev (bufs s ! b) := b_next (bufs s ! b))"
    and "prevs (bufs (unlink_buf b s)) =
         (prevs (bufs s))(b_next (bufs s ! b) := b_prev (bufs s ! b))"
  using assms by (auto simp: unlink_buf_def Let_def nexts_upd prevs_upd nth_list_update fun_eq_iff)

lemma same_but_links_prev:
  assumes "same_but_links as (bufs s)"
  shows "same_but_links as (bufs (upd_buf b (b_prev_update f) s))"
  unfolding bufs_upd_buf
  by (rule same_but_links_trans [OF assms same_but_links_upd
        [where p = "f (b_prev (bufs s ! b))" and n = "b_next (bufs s ! b)"]]) simp

lemma same_but_links_next:
  assumes "same_but_links as (bufs s)"
  shows "same_but_links as (bufs (upd_buf b (b_next_update f) s))"
  unfolding bufs_upd_buf
  by (rule same_but_links_trans [OF assms same_but_links_upd
        [where p = "b_prev (bufs s ! b)" and n = "f (b_next (bufs s ! b))"]]) simp

lemma same_but_links_insert_head: "same_but_links (bufs s) (bufs (insert_head b s))"
  unfolding insert_head_def Let_def
  by (intro same_but_links_prev same_but_links_next same_but_links_refl)

lemma same_but_links_unlink_buf: "same_but_links (bufs s) (bufs (unlink_buf b s))"
  unfolding unlink_buf_def Let_def
  by (intro same_but_links_prev same_but_links_next same_but_links_refl)

text \<open>A released buffer moves to the front of the list.\<close>

lemma lru_move_to_front:
  assumes "lru (bufs s) (us @ b # vs)"
  shows "lru (bufs (insert_head b (unlink_buf b s))) (b # us @ vs)"
proof -
  let ?s = "unlink_buf b s"
  have d: "distinct (HEAD # us @ b # vs)" and S: "set (us @ b # vs) = {0..<NBUF}"
    and l: "length (bufs s) = Suc NBUF"
    and D: "dseg (nexts (bufs s)) (prevs (bufs s)) HEAD (us @ b # vs) HEAD"
    using assms by (auto simp: lru_def simp del: set_append)
  have b: "b < NBUF"
    using S by auto
  have n: "b_next (bufs s ! b) < Suc NBUF" "b_prev (bufs s ! b) < Suc NBUF"
    using lru_neighbours [OF assms b] by auto
  have "b_next (bufs s ! b) = hd (vs @ [HEAD])"
    using D by (auto simp: dseg_append dest: dseg_first)
  then have nb: "b_next (bufs s ! b) \<noteq> b"
    using d hd_in_set [of "vs @ [HEAD]"] by auto
  note U = bufs_unlink_buf [OF l b n nb]
  have u: "dseg (nexts (bufs ?s)) (prevs (bufs ?s)) HEAD (us @ vs) HEAD"
    unfolding U by (rule dseg_unlink [OF D d])
  have "b_next (bufs ?s ! HEAD) = hd ((us @ vs) @ [HEAD])"
    using dseg_first [OF u] by simp
  then have "b_next (bufs ?s ! HEAD) \<in> set ((us @ vs) @ [HEAD])"
    by (metis hd_in_set snoc_eq_iff_butlast)
  moreover have "\<forall>y\<in>set (us @ b # vs). y < NBUF"
    using S by auto
  ultimately have h: "b_next (bufs ?s ! HEAD) < Suc NBUF"
    by (auto simp: less_Suc_eq)
  note I = bufs_insert_head [OF U(1) b h]
  have "dseg (nexts (bufs (insert_head b ?s))) (prevs (bufs (insert_head b ?s))) HEAD (b # us @ vs) HEAD"
    unfolding I by (rule dseg_insert [OF u]) (use d in auto)
  then show ?thesis
    using I(1) d S by (auto simp: lru_def)
qed

text \<open>\<open>binit\<close> links all buffers, the last one first, and changes nothing else but the locks.\<close>

lemma binit_loop_dseg:
  assumes "length (bufs s) = Suc NBUF" and "k \<le> NBUF"
    and "dseg (nexts (bufs s)) (prevs (bufs s)) HEAD [] HEAD"
  shows "length (bufs (binit_loop k s)) = Suc NBUF \<and>
    dseg (nexts (bufs (binit_loop k s))) (prevs (bufs (binit_loop k s))) HEAD (rev [0..<k]) HEAD"
  using assms(2)
proof (induction k)
  case 0
  then show ?case using assms by simp
next
  case (Suc k)
  let ?s = "upd_buf k (\<lambda>x. x\<lparr>b_lock := initsleeplock\<rparr>) (binit_loop k s)"
  have l: "length (bufs ?s) = Suc NBUF"
    and d: "dseg (nexts (bufs ?s)) (prevs (bufs ?s)) HEAD (rev [0..<k]) HEAD"
    using Suc by (simp_all add: nexts_upd prevs_upd fun_upd_idem)
  have "b_next (bufs ?s ! HEAD) = hd (rev [0..<k] @ [HEAD])"
    using dseg_first [OF d] by blast
  also have "\<dots> \<in> set (rev [0..<k] @ [HEAD])"
    by (rule hd_in_set) simp
  finally have h: "b_next (bufs ?s ! HEAD) < Suc NBUF"
    using Suc.prems by auto
  have k: "k < NBUF"
    using Suc.prems by simp
  note I = bufs_insert_head [OF l k h]
  have "dseg (nexts (bufs (insert_head k ?s))) (prevs (bufs (insert_head k ?s))) HEAD
      (k # rev [0..<k]) HEAD"
    unfolding I by (rule dseg_insert [OF d]) (use k in auto)
  then show ?case
    using I(1) by simp
qed

lemma lru_binit:
  assumes "length (bufs s) = Suc NBUF"
  shows "lru (bufs (binit s)) (rev [0..<NBUF])"
  using binit_loop_dseg [of "upd_buf HEAD (\<lambda>x. x\<lparr>b_prev := HEAD, b_next := HEAD\<rparr>) s" NBUF] assms
  by (simp add: lru_def binit_def nth_list_update)

section \<open>The cache invariant\<close>

text \<open>
  \<open>bcache_inv P s\<close>: the cache is well formed, the buffers of \<open>P\<close> being pinned by
  \<open>bpin\<close> and every other reference being the one of the thread that holds the lock. A
  buffer that is neither locked nor pinned agrees with the disk.
\<close>

definition buf_ok :: "nat set \<Rightarrow> 'a bstate_scheme \<Rightarrow> nat \<Rightarrow> bool" where
  "buf_ok P s i \<longleftrightarrow> (let x = bufs s ! i in
     length (b_data x) = BSIZE \<and>
     (b_valid x \<longrightarrow> b_dev x = ROOTDEV) \<and>
     b_refcnt x = of_bool (sl_locked (b_lock x)) + of_bool (i \<in> P) \<and>
     (i \<in> P \<longrightarrow> b_valid x) \<and>
     (b_valid x \<and> \<not> sl_locked (b_lock x) \<and> i \<notin> P \<longrightarrow> b_data x = disk s (b_blockno x)))"

definition bcache_inv :: "nat set \<Rightarrow> 'a bstate_scheme \<Rightarrow> bool" where
  "bcache_inv P s \<longleftrightarrow>
     (\<exists>xs. lru (bufs s) xs) \<and> P \<subseteq> {..<NBUF} \<and> cur s < length (procs s) \<and>
     (\<forall>bno. length (disk s bno) = BSIZE) \<and>
     (\<forall>i<NBUF. buf_ok P s i) \<and>
     (\<forall>i<NBUF. \<forall>j<NBUF. b_dev (bufs s ! i) = ROOTDEV \<longrightarrow> b_dev (bufs s ! j) = ROOTDEV \<longrightarrow>
        b_blockno (bufs s ! i) = b_blockno (bufs s ! j) \<longrightarrow> i = j)"

text \<open>The content of block \<open>bno\<close> as the rest of the kernel sees it.\<close>

definition is_cached :: "'a bstate_scheme \<Rightarrow> u32 \<Rightarrow> nat \<Rightarrow> bool" where
  "is_cached s bno i \<longleftrightarrow> b_valid (bufs s ! i) \<and> b_dev (bufs s ! i) = ROOTDEV \<and>
     b_blockno (bufs s ! i) = bno"

definition bview :: "'a bstate_scheme \<Rightarrow> u32 \<Rightarrow> u8 list" where
  "bview s bno = (case List.find (is_cached s bno) [0..<NBUF] of
     Some i \<Rightarrow> b_data (bufs s ! i) | None \<Rightarrow> disk s bno)"

text \<open>The calling thread holds buffer \<open>b\<close>, with block \<open>bno\<close> in it.\<close>

definition holds_buf :: "'a bstate_scheme \<Rightarrow> nat \<Rightarrow> u32 \<Rightarrow> bool" where
  "holds_buf s b bno \<longleftrightarrow> b < NBUF \<and> is_cached s bno b \<and> holdingsleep (b_lock (bufs s ! b)) s"

text \<open>What a call of the buffer cache leaves alone: all but the buffers, and sleepers it wakes.\<close>

definition only_bufs :: "'a bstate_scheme \<Rightarrow> 'a bstate_scheme \<Rightarrow> bool" where
  "only_bufs s s' \<longleftrightarrow> s' = s\<lparr>procs := procs s', bufs := bufs s'\<rparr> \<and> woken s s'"

lemma only_bufs_refl [simp]: "only_bufs s s"
  by (simp add: only_bufs_def)

lemma only_bufs_upd_buf [simp]: "only_bufs s (upd_buf b f s)"
  by (simp add: only_bufs_def upd_buf_def woken_def)

lemma only_bufs_trans:
  assumes "only_bufs s t" and "only_bufs t u"
  shows "only_bufs s u"
proof -
  have t: "t = s\<lparr>procs := procs t, bufs := bufs t\<rparr>"
    and u: "u = t\<lparr>procs := procs u, bufs := bufs u\<rparr>"
    using assms by (auto simp: only_bufs_def)
  have "s\<lparr>procs := procs u, bufs := bufs u\<rparr> =
      s\<lparr>procs := procs t, bufs := bufs t\<rparr>\<lparr>procs := procs u, bufs := bufs u\<rparr>"
    by simp
  also have "\<dots> = t\<lparr>procs := procs u, bufs := bufs u\<rparr>"
    by (simp only: t [symmetric])
  also have "\<dots> = u"
    by (rule u [symmetric])
  finally show ?thesis
    using assms by (auto simp: only_bufs_def intro: woken_trans)
qed

lemma only_bufs_wakeup [simp]: "only_bufs s (wakeup ch s)"
  by (simp add: only_bufs_def) (simp add: wakeup_def)

lemma only_bufs_links [simp]: "only_bufs s (insert_head b s)" "only_bufs s (unlink_buf b s)"
  unfolding insert_head_def unlink_buf_def Let_def
  by (meson only_bufs_trans only_bufs_upd_buf)+

lemma only_bufs_sel:
  assumes "only_bufs s s'"
  shows "disk s' = disk s" "dwrites s' = dwrites s" "cur s' = cur s"
    "length (procs s') = length (procs s)" "bstate.more s' = bstate.more s"
    "mem s' = mem s" "freelist s' = freelist s" "kend s' = kend s"
    "cur s < length (procs s) \<Longrightarrow> mypid s' = mypid s"
proof -
  have s': "s' = s\<lparr>procs := procs s', bufs := bufs s'\<rparr>" and w: "woken s s'"
    using assms by (auto simp: only_bufs_def)
  show "disk s' = disk s" "dwrites s' = dwrites s" "bstate.more s' = bstate.more s"
    "mem s' = mem s" "freelist s' = freelist s" "kend s' = kend s"
    by (subst s', simp)+
  show "cur s' = cur s" "length (procs s') = length (procs s)"
    "cur s < length (procs s) \<Longrightarrow> mypid s' = mypid s"
    using woken_sel [OF w] by auto
qed

lemma bcache_invD:
  assumes "bcache_inv P s"
  shows "length (bufs s) = Suc NBUF" "cur s < length (procs s)" "length (disk s bno) = BSIZE"
    "i < NBUF \<Longrightarrow> buf_ok P s i"
  using assms by (auto simp: bcache_inv_def lru_def)

lemma bcache_inv_unique:
  "bcache_inv P s \<Longrightarrow> i < NBUF \<Longrightarrow> j < NBUF \<Longrightarrow> b_dev (bufs s ! i) = ROOTDEV \<Longrightarrow>
   b_dev (bufs s ! j) = ROOTDEV \<Longrightarrow> b_blockno (bufs s ! i) = b_blockno (bufs s ! j) \<Longrightarrow> i = j"
  by (auto simp: bcache_inv_def)

lemma buf_ok_cong:
  assumes "bufs s' ! i = bufs s ! i" and "i \<in> P' \<longleftrightarrow> i \<in> P"
    and "disk s' (b_blockno (bufs s ! i)) = disk s (b_blockno (bufs s ! i)) \<or> \<not> b_valid (bufs s ! i)"
  shows "buf_ok P' s' i = buf_ok P s i"
  using assms by (auto simp: buf_ok_def Let_def)

text \<open>The one rule by which every operation on a single buffer keeps the invariant.\<close>

lemma bcache_inv_upd:
  assumes "bcache_inv P s" and b: "b < NBUF"
    and s': "bufs s' = (bufs s)[b := x]" "cur s' = cur s" "length (procs s') = length (procs s)"
    and d: "\<And>bno. length (disk s' bno) = BSIZE"
      "\<And>i. i < NBUF \<Longrightarrow> i \<noteq> b \<Longrightarrow> b_valid (bufs s ! i) \<Longrightarrow>
         disk s' (b_blockno (bufs s ! i)) = disk s (b_blockno (bufs s ! i))"
    and l: "b_next x = b_next (bufs s ! b)" "b_prev x = b_prev (bufs s ! b)"
    and P': "P' \<subseteq> {..<NBUF}" "P' - {b} = P - {b}"
    and ok: "buf_ok P' s' b"
    and u: "\<And>i. i < NBUF \<Longrightarrow> i \<noteq> b \<Longrightarrow> b_dev x = ROOTDEV \<Longrightarrow> b_dev (bufs s ! i) = ROOTDEV \<Longrightarrow>
       b_blockno (bufs s ! i) \<noteq> b_blockno x"
  shows "bcache_inv P' s'"
proof -
  have "\<exists>xs. lru (bufs s') xs"
    using assms(1) lru_upd [OF _ l] by (auto simp: bcache_inv_def s')
  moreover have "buf_ok P' s' i" if "i < NBUF" for i
  proof (cases "i = b")
    case False
    then have "buf_ok P' s' i = buf_ok P s i"
      using P'(2) d(2) that by (intro buf_ok_cong) (auto simp: s')
    then show ?thesis
      using bcache_invD [OF assms(1)] that by simp
  qed (use ok in simp)
  moreover have "i = j" if "i < NBUF" "j < NBUF" "b_dev (bufs s' ! i) = ROOTDEV"
    "b_dev (bufs s' ! j) = ROOTDEV" "b_blockno (bufs s' ! i) = b_blockno (bufs s' ! j)" for i j
  proof (cases "i = b \<or> j = b")
    case True
    then show ?thesis
      using that u [of i] u [of j] b bcache_invD(1) [OF assms(1)]
      by (auto simp: s' nth_list_update split: if_splits)
  next
    case False
    then show ?thesis
      using that bcache_inv_unique [OF assms(1)] by (auto simp: s')
  qed
  ultimately show ?thesis
    using assms(1) d(1) P'(1) s'(2,3) unfolding bcache_inv_def by auto
qed

lemma bview_cached:
  assumes "bcache_inv P s" and "i < NBUF" and "is_cached s bno i"
  shows "bview s bno = b_data (bufs s ! i)"
proof -
  have "List.find (is_cached s bno) [0..<NBUF] \<noteq> None"
    using assms by (auto simp: find_None_iff)
  then obtain j where j: "List.find (is_cached s bno) [0..<NBUF] = Some j"
    by auto
  then have "j < NBUF" "is_cached s bno j"
    by (auto simp: find_Some_iff)
  then have "j = i"
    using assms by (auto simp: is_cached_def intro: bcache_inv_unique [OF assms(1)])
  then show ?thesis
    using j by (simp add: bview_def)
qed

lemma bview_not_cached: "(\<And>i. i < NBUF \<Longrightarrow> \<not> is_cached s bno i) \<Longrightarrow> bview s bno = disk s bno"
  by (auto simp: bview_def find_Some_iff split: option.split)

lemma length_bview:
  assumes "bcache_inv P s"
  shows "length (bview s bno) = BSIZE"
proof (cases "\<exists>i<NBUF. is_cached s bno i")
  case True
  then obtain i where "i < NBUF" "is_cached s bno i"
    by blast
  then show ?thesis
    using bview_cached [OF assms] bcache_invD(4) [OF assms] by (simp add: buf_ok_def Let_def)
next
  case False
  then show ?thesis
    using bview_not_cached [of s bno] bcache_invD(3) [OF assms] by simp
qed

text \<open>The view is known once it is known buffer by buffer.\<close>

lemma bview_eqI:
  assumes "bcache_inv P' s'"
    and "\<And>i. i < NBUF \<Longrightarrow> is_cached s' bno i \<Longrightarrow> b_data (bufs s' ! i) = v"
    and "(\<And>i. i < NBUF \<Longrightarrow> \<not> is_cached s' bno i) \<Longrightarrow> disk s' bno = v"
  shows "bview s' bno = v"
proof (cases "\<exists>i<NBUF. is_cached s' bno i")
  case True
  then show ?thesis
    using assms(1,2) bview_cached by metis
next
  case False
  then show ?thesis
    using assms(3) bview_not_cached [of s' bno] by auto
qed

section \<open>Behaviour of the operations\<close>

lemma upd_buf_upd_buf:
  "b < length (bufs s) \<Longrightarrow> upd_buf b f (upd_buf b g s) = upd_buf b (\<lambda>x. f (g x)) s"
  by (simp add: upd_buf_def)

lemma mypid_upd_buf [simp]: "mypid (upd_buf b f s) = mypid s"
  by (simp add: upd_buf_def mypid_def myproc_def)

lemma lock_buf_eq_Inr:
  assumes "b < length (bufs s)"
  shows "lock_buf b s = Inr (b', s') \<longleftrightarrow> b' = b \<and> \<not> sl_locked (b_lock (bufs s ! b)) \<and>
    s' = upd_buf b (\<lambda>x. x\<lparr>b_lock := \<lparr>sl_locked = True, sl_pid = mypid s\<rparr>\<rparr>) s"
  using assms
  by (cases "b_lock (bufs s ! b)")
    (auto simp: lock_buf_def res_simps acquiresleep_eq_Inr upd_buf_def)

text \<open>
  \<open>bget\<close> returns the buffer that has the block, or takes over an unreferenced one, the
  least recently released first.
\<close>

lemma bget_eq:
  assumes "lru (bufs s) xs"
  shows "bget dev bno s =
    (case List.find (\<lambda>i. b_dev (bufs s ! i) = dev \<and> b_blockno (bufs s ! i) = bno) xs of
       Some b \<Rightarrow> lock_buf b (upd_buf b (\<lambda>x. x\<lparr>b_refcnt := b_refcnt x + 1\<rparr>) s)
     | None \<Rightarrow> (case List.find (\<lambda>i. b_refcnt (bufs s ! i) = 0) (rev xs) of
         Some b \<Rightarrow> lock_buf b (upd_buf b (\<lambda>x. x\<lparr>b_dev := dev, b_blockno := bno,
                             b_valid := False, b_refcnt := 1\<rparr>) s)
       | None \<Rightarrow> Inl (Panic ''no buffers'')))"
  by (simp only: bget_def find_next_lru [OF assms] find_prev_lru [OF assms] bindE_Inr)

lemma bget_cases:
  assumes "bcache_inv P s" and "bget ROOTDEV bno s = Inr (b, s')"
  obtains
    (hit) "b < NBUF" "\<not> sl_locked (b_lock (bufs s ! b))" "b_dev (bufs s ! b) = ROOTDEV"
      "b_blockno (bufs s ! b) = bno"
      "s' = upd_buf b (\<lambda>x. x\<lparr>b_refcnt := b_refcnt x + 1,
         b_lock := \<lparr>sl_locked = True, sl_pid = mypid s\<rparr>\<rparr>) s"
  | (miss) "b < NBUF" "\<not> sl_locked (b_lock (bufs s ! b))" "b_refcnt (bufs s ! b) = 0"
      "\<forall>i<NBUF. b_dev (bufs s ! i) = ROOTDEV \<longrightarrow> b_blockno (bufs s ! i) \<noteq> bno"
      "s' = upd_buf b (\<lambda>x. x\<lparr>b_dev := ROOTDEV, b_blockno := bno, b_valid := False, b_refcnt := 1,
         b_lock := \<lparr>sl_locked = True, sl_pid = mypid s\<rparr>\<rparr>) s"
proof -
  obtain xs where xs: "lru (bufs s) xs"
    using assms(1) by (auto simp: bcache_inv_def)
  have set: "set xs = {0..<NBUF}" and l: "length (bufs s) = Suc NBUF"
    using xs by (auto simp: lru_def)
  show thesis
  proof (cases "List.find (\<lambda>i. b_dev (bufs s ! i) = ROOTDEV \<and> b_blockno (bufs s ! i) = bno) xs")
    case (Some c)
    then have c: "c < NBUF" "b_dev (bufs s ! c) = ROOTDEV" "b_blockno (bufs s ! c) = bno"
      using set by (auto simp: find_Some_iff dest: nth_mem)
    have "b = c \<and> \<not> sl_locked (b_lock (bufs s ! b)) \<and>
      s' = upd_buf b (\<lambda>x. x\<lparr>b_refcnt := b_refcnt x + 1,
         b_lock := \<lparr>sl_locked = True, sl_pid = mypid s\<rparr>\<rparr>) s"
      using assms(2) c(1) l by (auto simp: bget_eq [OF xs] Some lock_buf_eq_Inr upd_buf_upd_buf)
    then show thesis
      using c by (auto intro!: hit)
  next
    case None
    then obtain c where f: "List.find (\<lambda>i. b_refcnt (bufs s ! i) = 0) (rev xs) = Some c"
      using assms(2) by (auto simp: bget_eq [OF xs] split: option.splits)
    then have c: "c < NBUF" "b_refcnt (bufs s ! c) = 0"
      using set by (auto simp: find_Some_iff dest: nth_mem)
         (metis atLeastLessThan_iff length_rev nth_mem set_rev)
    have "b = c \<and> \<not> sl_locked (b_lock (bufs s ! b)) \<and>
      s' = upd_buf b (\<lambda>x. x\<lparr>b_dev := ROOTDEV, b_blockno := bno, b_valid := False, b_refcnt := 1,
         b_lock := \<lparr>sl_locked = True, sl_pid = mypid s\<rparr>\<rparr>) s"
      using assms(2) c(1) l
      by (auto simp: bget_eq [OF xs] None f lock_buf_eq_Inr upd_buf_upd_buf)
    then show thesis
      using c None set by (auto simp: find_None_iff intro!: miss)
  qed
qed

text \<open>
  \<open>bread\<close> returns the block, locked, and nothing else changes: in particular no block
  looks different to anybody.
\<close>

lemma bread_shape:
  assumes I: "bcache_inv P s" and r: "bread ROOTDEV bno s = Inr (b, s')"
  obtains x where "b < NBUF" "\<not> sl_locked (b_lock (bufs s ! b))" "s' = upd_buf b (\<lambda>_. x) s"
    "x = (bufs s ! b)\<lparr>b_valid := True, b_dev := ROOTDEV, b_blockno := bno,
       b_lock := \<lparr>sl_locked = True, sl_pid = mypid s\<rparr>, b_refcnt := 1 + of_bool (b \<in> P),
       b_data := bview s bno\<rparr>"
    "b_dev (bufs s ! b) = ROOTDEV \<and> b_blockno (bufs s ! b) = bno \<or>
     b \<notin> P \<and> (\<forall>i<NBUF. b_dev (bufs s ! i) = ROOTDEV \<longrightarrow> b_blockno (bufs s ! i) \<noteq> bno)"
proof -
  obtain c t where c: "bget ROOTDEV bno s = Inr (c, t)"
    and r': "(if \<not> b_valid (bufs t ! c)
       then Inr (c, upd_buf c (\<lambda>x. x\<lparr>b_valid := True\<rparr>) (disk_rw c False t)) else Inr (c, t)) =
         (Inr (b, s') :: (nat \<times> 'a bstate_scheme) res)"
    using r by (auto simp: bread_def res_simps)
  then have t: "bget ROOTDEV bno s = Inr (b, t)"
    and s': "s' = (if \<not> b_valid (bufs t ! b)
       then upd_buf b (\<lambda>x. x\<lparr>b_valid := True\<rparr>) (disk_rw b False t) else t)"
    by (auto split: if_splits)
  have l: "length (bufs s) = Suc NBUF"
    using bcache_invD [OF I] by simp
  let ?x = "(bufs s ! b)\<lparr>b_valid := True, b_dev := ROOTDEV, b_blockno := bno,
       b_lock := \<lparr>sl_locked = True, sl_pid = mypid s\<rparr>, b_refcnt := 1 + of_bool (b \<in> P),
       b_data := bview s bno\<rparr>"
  show thesis
    using I t
  proof (cases rule: bget_cases)
    case hit
    have ok: "buf_ok P s b"
      using bcache_invD [OF I] hit by simp
    have rc: "b_refcnt (bufs s ! b) = of_bool (b \<in> P)"
      using ok hit by (simp add: buf_ok_def Let_def)
    have v: "bview s bno = (if b_valid (bufs s ! b) then b_data (bufs s ! b) else disk s bno)"
    proof (cases "b_valid (bufs s ! b)")
      case True
      then show ?thesis
        using bview_cached [OF I hit(1)] hit by (simp add: is_cached_def)
    next
      case False
      have "b = i" if "i < NBUF" "is_cached s bno i" for i
        by (rule bcache_inv_unique [OF I hit(1) that(1) hit(3)])
          (use that(2) hit(4) in \<open>simp_all add: is_cached_def\<close>)
      then have "\<not> is_cached s bno i" if "i < NBUF" for i
        using that False unfolding is_cached_def by blast
      then show ?thesis
        using False by (simp add: bview_not_cached)
    qed
    have "s' = upd_buf b (\<lambda>_. ?x) s"
    proof (cases "b_valid (bufs s ! b)")
      case True
      have "(bufs s ! b)\<lparr>b_refcnt := b_refcnt (bufs s ! b) + 1,
          b_lock := \<lparr>sl_locked = True, sl_pid = mypid s\<rparr>\<rparr> = ?x"
        using True hit rc v by (intro buf.equality) simp_all
      then show ?thesis
        using True hit l by (simp add: s' upd_buf_def)
    next
      case False
      have "(bufs s ! b)\<lparr>b_refcnt := b_refcnt (bufs s ! b) + 1,
          b_lock := \<lparr>sl_locked = True, sl_pid = mypid s\<rparr>, b_data := disk s bno, b_valid := True\<rparr> = ?x"
        using False hit rc v by (intro buf.equality) simp_all
      then show ?thesis
        using False hit l by (simp add: s' upd_buf_def disk_rw_def)
    qed
    then show thesis
      using hit by (intro that [OF hit(1,2) _ refl]) auto
  next
    case miss
    have nP: "b \<notin> P"
      using bcache_invD(4) [OF I miss(1)] miss
      by (auto simp: buf_ok_def Let_def split: if_splits)
    have v: "bview s bno = disk s bno"
      using miss by (auto simp: is_cached_def intro!: bview_not_cached)
    have "(bufs s ! b)\<lparr>b_dev := ROOTDEV, b_blockno := bno, b_refcnt := 1,
        b_lock := \<lparr>sl_locked = True, sl_pid = mypid s\<rparr>, b_data := disk s bno, b_valid := True\<rparr> = ?x"
      using nP v by (intro buf.equality) simp_all
    then have "s' = upd_buf b (\<lambda>_. ?x) s"
      using miss l by (simp add: s' upd_buf_def disk_rw_def)
    then show thesis
      using miss nP by (intro that [OF miss(1,2) _ refl]) auto
  qed
qed

lemma bread_spec:
  assumes I: "bcache_inv P s" and r: "bread ROOTDEV bno s = Inr (b, s')"
  shows "bcache_inv P s'" and "holds_buf s' b bno" and "b_data (bufs s' ! b) = bview s bno"
    and "bview s' = bview s" and "only_bufs s s'" and "\<not> sl_locked (b_lock (bufs s ! b))"
    and "\<And>i. i \<noteq> b \<Longrightarrow> bufs s' ! i = bufs s ! i"
proof -
  obtain x where b: "b < NBUF" "\<not> sl_locked (b_lock (bufs s ! b))" and s': "s' = upd_buf b (\<lambda>_. x) s"
    and x: "x = (bufs s ! b)\<lparr>b_valid := True, b_dev := ROOTDEV, b_blockno := bno,
       b_lock := \<lparr>sl_locked = True, sl_pid = mypid s\<rparr>, b_refcnt := 1 + of_bool (b \<in> P),
       b_data := bview s bno\<rparr>"
    and d: "b_dev (bufs s ! b) = ROOTDEV \<and> b_blockno (bufs s ! b) = bno \<or>
     b \<notin> P \<and> (\<forall>i<NBUF. b_dev (bufs s ! i) = ROOTDEV \<longrightarrow> b_blockno (bufs s ! i) \<noteq> bno)"
    using bread_shape [OF assms] .
  have l: "length (bufs s) = Suc NBUF" "\<And>bno. length (disk s bno) = BSIZE"
    using bcache_invD [OF I] by auto
  have u: "b_blockno (bufs s ! i) \<noteq> bno"
    if "i < NBUF" "i \<noteq> b" "b_dev (bufs s ! i) = ROOTDEV" for i
    using d bcache_inv_unique [OF I b(1) that(1)] that by blast
  have len: "length (bview s bno) = BSIZE"
    by (rule length_bview [OF I])
  show I': "bcache_inv P s'"
  proof (rule bcache_inv_upd [OF I b(1)])
    show "bufs s' = (bufs s)[b := x]"
      by (simp add: s')
    show "buf_ok P s' b"
      using b l len by (simp add: s' buf_ok_def Let_def) (simp add: x)
    show "P \<subseteq> {..<NBUF}"
      using I by (simp add: bcache_inv_def)
  qed (use u l in \<open>simp_all add: s' upd_buf_def x\<close>)
  show data: "b_data (bufs s' ! b) = bview s bno"
    using b l by (simp add: s' x)
  show "holds_buf s' b bno"
    using b l by (simp add: holds_buf_def is_cached_def holdingsleep_def s') (simp add: x)
  show "only_bufs s s'" "\<not> sl_locked (b_lock (bufs s ! b))"
    "\<And>i. i \<noteq> b \<Longrightarrow> bufs s' ! i = bufs s ! i"
    using b by (simp_all add: s')
  show "bview s' = bview s"
  proof
    fix c
    show "bview s' c = bview s c"
    proof (rule bview_eqI [OF I'])
      fix i
      assume i: "i < NBUF" "is_cached s' c i"
      show "b_data (bufs s' ! i) = bview s c"
      proof (cases "i = b")
        case True
        then show ?thesis
          using i data b l by (simp add: is_cached_def s' x)
      next
        case False
        then have "bufs s' ! i = bufs s ! i"
          by (simp add: s')
        then show ?thesis
          using i bview_cached [OF I i(1), of c] by (simp add: is_cached_def)
      qed
    next
      assume n: "\<And>i. i < NBUF \<Longrightarrow> \<not> is_cached s' c i"
      have "bview s c = disk s c"
      proof (cases "is_cached s c b")
        case True
        have c: "c \<noteq> bno"
          using n [OF b(1)] b l by (auto simp: is_cached_def s' x)
        then have "b \<notin> P"
          using d True by (auto simp: is_cached_def)
        then show ?thesis
          using True bcache_invD(4) [OF I b(1)] b bview_cached [OF I b(1) True]
          by (simp add: buf_ok_def Let_def is_cached_def)
      next
        case False
        have "\<not> is_cached s c i" if "i < NBUF" for i
          using n [OF that] False by (cases "i = b") (auto simp: is_cached_def s')
        then show ?thesis
          by (rule bview_not_cached)
      qed
      then show "disk s' c = bview s c"
        by (simp add: s' upd_buf_def)
    qed
  qed
qed

text \<open>The buffers some thread has locked.\<close>

definition locked_bufs :: "'a bstate_scheme \<Rightarrow> nat set" where
  "locked_bufs s = {i. i < NBUF \<and> sl_locked (b_lock (bufs s ! i))}"

lemma refcnt_zero_iff:
  assumes "bcache_inv P s" and "i < NBUF"
  shows "b_refcnt (bufs s ! i) = 0 \<longleftrightarrow> i \<notin> locked_bufs s \<union> P"
  using bcache_invD(4) [OF assms] assms(2) by (auto simp: buf_ok_def Let_def locked_bufs_def)

text \<open>
  \<open>bread\<close> returns when the block is not locked already and is cached, or some buffer is
  neither locked nor pinned.
\<close>

lemma bread_returns:
  assumes I: "bcache_inv P s"
    and f: "(\<exists>i<NBUF. is_cached s bno i) \<or> \<not> {..<NBUF} \<subseteq> locked_bufs s \<union> P"
    and u: "\<And>i. i \<in> locked_bufs s \<Longrightarrow> b_blockno (bufs s ! i) \<noteq> bno"
  obtains b s' where "bread ROOTDEV bno s = Inr (b, s')"
proof -
  obtain xs where xs: "lru (bufs s) xs"
    using I by (auto simp: bcache_inv_def)
  have set: "set xs = {0..<NBUF}" and l: "length (bufs s) = Suc NBUF"
    using xs by (auto simp: lru_def)
  have "\<exists>r. bget ROOTDEV bno s = Inr r"
  proof (cases "List.find (\<lambda>i. b_dev (bufs s ! i) = ROOTDEV \<and> b_blockno (bufs s ! i) = bno) xs")
    case (Some c)
    then have c: "c < NBUF" "b_blockno (bufs s ! c) = bno"
      using set by (auto simp: find_Some_iff dest: nth_mem)
    then have "\<not> sl_locked (b_lock (bufs s ! c))"
      using u by (auto simp: locked_bufs_def)
    then show ?thesis
      using c(1) l by (simp add: bget_eq [OF xs] Some lock_buf_def acquiresleep_def)
  next
    case None
    then have "\<not> (\<exists>i<NBUF. is_cached s bno i)"
      using set by (auto simp: find_None_iff is_cached_def)
    then obtain i where i: "i < NBUF" "i \<notin> locked_bufs s \<union> P"
      using f by auto
    then have "List.find (\<lambda>i. b_refcnt (bufs s ! i) = 0) (rev xs) \<noteq> None"
      using set refcnt_zero_iff [OF I i(1)] by (auto simp: find_None_iff)
    then obtain c where c: "List.find (\<lambda>i. b_refcnt (bufs s ! i) = 0) (rev xs) = Some c"
      by auto
    then have "c \<in> set (rev xs)" "b_refcnt (bufs s ! c) = 0"
      by (metis (mono_tags, lifting) find_Some_iff nth_mem)+
    then have "c < NBUF" "\<not> sl_locked (b_lock (bufs s ! c))"
      using set refcnt_zero_iff [OF I, of c] by (auto simp: locked_bufs_def)
    then show ?thesis
      using l by (simp add: bget_eq [OF xs] None c lock_buf_def acquiresleep_def)
  qed
  then obtain c t where "bget ROOTDEV bno s = Inr (c, t)"
    by auto
  then have "\<exists>s'. bread ROOTDEV bno s = Inr (c, s')"
    by (simp add: bread_def)
  then show thesis
    using that by blast
qed

text \<open>A thread that holds a buffer may store into it.\<close>

definition set_data :: "nat \<Rightarrow> u8 list \<Rightarrow> 'a bstate_scheme \<Rightarrow> 'a bstate_scheme" where
  "set_data b d s = upd_buf b (\<lambda>x. x\<lparr>b_data := d\<rparr>) s"

lemma holds_bufD:
  assumes "bcache_inv P s" and "holds_buf s b bno"
  shows "b < NBUF" "b < length (bufs s)" "b_valid (bufs s ! b)" "b_dev (bufs s ! b) = ROOTDEV"
    "b_blockno (bufs s ! b) = bno" "sl_locked (b_lock (bufs s ! b))"
    "bview s bno = b_data (bufs s ! b)" "b \<in> locked_bufs s"
    "b_refcnt (bufs s ! b) = 1 + of_bool (b \<in> P)"
  using assms bcache_invD(1,4) [OF assms(1)] bview_cached [OF assms(1), of b bno]
  by (auto simp: holds_buf_def is_cached_def holdingsleep_def locked_bufs_def buf_ok_def Let_def)

text \<open>A change of the held buffer that keeps its identity, its lock and its links.\<close>

lemma bview_upd_held:
  assumes I: "bcache_inv P s" and I': "bcache_inv P' s'" and h: "holds_buf s b bno"
    and s': "bufs s' = (bufs s)[b := x]" "\<And>c. c \<noteq> bno \<Longrightarrow> disk s' c = disk s c"
    and x: "b_valid x" "b_dev x = ROOTDEV" "b_blockno x = bno"
  shows "bview s' = (bview s)(bno := b_data x)"
proof
  fix c
  note B = holds_bufD [OF I h]
  have c: "is_cached s' c i = is_cached s c i" if "i < NBUF" for i
    using B x that by (cases "i = b") (auto simp: is_cached_def s')
  show "bview s' c = ((bview s)(bno := b_data x)) c"
  proof (rule bview_eqI [OF I'])
    fix i
    assume i: "i < NBUF" "is_cached s' c i"
    show "b_data (bufs s' ! i) = ((bview s)(bno := b_data x)) c"
    proof (cases "i = b")
      case True
      then show ?thesis
        using i x B by (simp add: is_cached_def s')
    next
      case False
      have "c \<noteq> bno"
        using False i B bcache_inv_unique [OF I i(1) B(1)] by (auto simp: is_cached_def s')
      then show ?thesis
        using False i c bview_cached [OF I i(1)] by (simp add: s')
    qed
  next
    assume n: "\<And>i. i < NBUF \<Longrightarrow> \<not> is_cached s' c i"
    have "c \<noteq> bno"
      using n [OF B(1)] B x by (auto simp: is_cached_def s')
    moreover have "bview s c = disk s c"
      using n c by (intro bview_not_cached) auto
    ultimately show "disk s' c = ((bview s)(bno := b_data x)) c"
      by (simp add: s')
  qed
qed

lemma holds_buf_frame:
  assumes "holds_buf s b bno" and "bufs s' ! b = (bufs s ! b)\<lparr>b_refcnt := r, b_data := d\<rparr>"
    and "mypid s' = mypid s"
  shows "holds_buf s' b bno"
  using assms by (simp add: holds_buf_def is_cached_def holdingsleep_def)

text \<open>
  Storing into the held buffer, pinning it and unpinning it are one kind of step: its data and
  its reference count change.
\<close>

lemma upd_held_spec:
  assumes I: "bcache_inv P s" and h: "holds_buf s b bno" and d: "length d = BSIZE"
    and P': "P' - {b} = P - {b}" and r: "r = 1 + of_bool (b \<in> P')"
  defines "s' \<equiv> upd_buf b (\<lambda>x. x\<lparr>b_refcnt := r, b_data := d\<rparr>) s"
  shows "bcache_inv P' s'" and "holds_buf s' b bno" and "bview s' = (bview s)(bno := d)"
proof -
  note B = holds_bufD [OF I h]
  let ?x = "(bufs s ! b)\<lparr>b_refcnt := r, b_data := d\<rparr>"
  have bufs': "bufs s' = (bufs s)[b := ?x]"
    by (simp add: s'_def)
  show I': "bcache_inv P' s'"
  proof (rule bcache_inv_upd [OF I B(1) bufs'])
    show "buf_ok P' s' b"
      using B d r by (simp add: bufs' buf_ok_def Let_def)
    have "P \<subseteq> {..<NBUF}"
      using I by (simp add: bcache_inv_def)
    then show "P' \<subseteq> {..<NBUF}"
      using P' B(1) by auto
    show "b_blockno (bufs s ! i) \<noteq> b_blockno ?x"
      if "i < NBUF" "i \<noteq> b" "b_dev (bufs s ! i) = ROOTDEV" for i
      using bcache_inv_unique [OF I that(1) B(1) that(3) B(4)] that(2) by auto
  qed (use P' bcache_invD [OF I] in \<open>simp_all add: s'_def upd_buf_def\<close>)
  show "holds_buf s' b bno"
    by (rule holds_buf_frame [OF h]) (use B in \<open>simp_all add: s'_def\<close>)
  show "bview s' = (bview s)(bno := d)"
    using bview_upd_held [OF I I' h bufs'] B by (simp add: s'_def upd_buf_def)
qed

lemma set_data_spec:
  assumes I: "bcache_inv P s" and h: "holds_buf s b bno" and d: "length d = BSIZE"
  shows "bcache_inv P (set_data b d s)" and "holds_buf (set_data b d s) b bno"
    and "bview (set_data b d s) = (bview s)(bno := d)" and "only_bufs s (set_data b d s)"
proof -
  have "set_data b d s = upd_buf b (\<lambda>x. x\<lparr>b_refcnt := 1 + of_bool (b \<in> P), b_data := d\<rparr>) s"
    unfolding set_data_def upd_buf_def
    by (intro arg_cong [where f = "\<lambda>x. s\<lparr>bufs := (bufs s)[b := x]\<rparr>"] buf.equality)
      (use holds_bufD [OF I h] in simp_all)
  then show "bcache_inv P (set_data b d s)" "holds_buf (set_data b d s) b bno"
    "bview (set_data b d s) = (bview s)(bno := d)"
    using upd_held_spec [OF I h d refl refl] by simp_all
  show "only_bufs s (set_data b d s)"
    by (simp add: set_data_def)
qed

lemma bpin_spec:
  assumes I: "bcache_inv P s" and h: "holds_buf s b bno" and b: "b \<notin> P"
  shows "bcache_inv (insert b P) (bpin b s)" and "holds_buf (bpin b s) b bno"
    and "bview (bpin b s) = bview s" and "only_bufs s (bpin b s)"
proof -
  note B = holds_bufD [OF I h]
  have e: "bpin b s = upd_buf b (\<lambda>x. x\<lparr>b_refcnt := 2, b_data := bview s bno\<rparr>) s"
    unfolding bpin_def upd_buf_def
    by (intro arg_cong [where f = "\<lambda>x. s\<lparr>bufs := (bufs s)[b := x]\<rparr>"] buf.equality)
      (use B b in simp_all)
  have "insert b P - {b} = P - {b}" "(2 :: u32) = 1 + of_bool (b \<in> insert b P)"
    by auto
  from upd_held_spec [OF I h length_bview [OF I] this, of bno]
  show "bcache_inv (insert b P) (bpin b s)" "holds_buf (bpin b s) b bno" "bview (bpin b s) = bview s"
    by (simp_all add: e fun_upd_idem)
  show "only_bufs s (bpin b s)"
    by (simp add: bpin_def)
qed

lemma bunpin_spec:
  assumes I: "bcache_inv P s" and h: "holds_buf s b bno" and b: "b \<in> P"
  shows "bcache_inv (P - {b}) (bunpin b s)" and "holds_buf (bunpin b s) b bno"
    and "bview (bunpin b s) = bview s" and "only_bufs s (bunpin b s)"
proof -
  note B = holds_bufD [OF I h]
  have e: "bunpin b s = upd_buf b (\<lambda>x. x\<lparr>b_refcnt := 1, b_data := bview s bno\<rparr>) s"
    unfolding bunpin_def upd_buf_def
    by (intro arg_cong [where f = "\<lambda>x. s\<lparr>bufs := (bufs s)[b := x]\<rparr>"] buf.equality)
      (use B b in simp_all)
  have "P - {b} - {b} = P - {b}" "(1 :: u32) = 1 + of_bool (b \<in> P - {b})"
    by auto
  from upd_held_spec [OF I h length_bview [OF I] this, of bno]
  show "bcache_inv (P - {b}) (bunpin b s)" "holds_buf (bunpin b s) b bno" "bview (bunpin b s) = bview s"
    by (simp_all add: e fun_upd_idem)
  show "only_bufs s (bunpin b s)"
    by (simp add: bunpin_def)
qed

lemma bwrite_spec:
  assumes I: "bcache_inv P s" and h: "holds_buf s b bno"
  defines "s' \<equiv> s\<lparr>disk := (disk s)(bno := bview s bno), dwrites := dwrites s @ [(bno, bview s bno)]\<rparr>"
  shows "bwrite b s = Inr s'" and "bcache_inv P s'" and "holds_buf s' b bno" and "bview s' = bview s"
proof -
  note B = holds_bufD [OF I h]
  show "bwrite b s = Inr s'"
    using h B by (simp add: bwrite_def disk_rw_def Let_def holds_buf_def s'_def)
  show I': "bcache_inv P s'"
  proof (rule bcache_inv_upd [OF I B(1)])
    show "bufs s' = (bufs s)[b := bufs s ! b]"
      by (simp add: s'_def)
    show "buf_ok P s' b"
      using bcache_invD(4) [OF I B(1)] B by (simp add: s'_def buf_ok_def Let_def)
    show "P \<subseteq> {..<NBUF}"
      using I by (simp add: bcache_inv_def)
    show u: "b_blockno (bufs s ! i) \<noteq> b_blockno (bufs s ! b)"
      if "i < NBUF" "i \<noteq> b" "b_dev (bufs s ! i) = ROOTDEV" for i
      using bcache_inv_unique [OF I that(1) B(1) that(3) B(4)] that(2) by auto
    show "disk s' (b_blockno (bufs s ! i)) = disk s (b_blockno (bufs s ! i))"
      if "i < NBUF" "i \<noteq> b" "b_valid (bufs s ! i)" for i
      using u [OF that(1,2)] bcache_invD(4) [OF I that(1)] that(3) B(5)
      by (simp add: s'_def buf_ok_def Let_def)
  qed (use bcache_invD [OF I] length_bview [OF I] in \<open>simp_all add: s'_def\<close>)
  show "holds_buf s' b bno"
    using h by (simp add: s'_def holds_buf_def is_cached_def holdingsleep_def mypid_def myproc_def)
  show "bview s' = bview s"
    using bview_upd_held [OF I I' h, where x = "bufs s ! b"] B by (simp add: s'_def fun_upd_idem)
qed

lemma same_but_linksE:
  assumes "same_but_links bs bs'" and "i < length bs"
  obtains p n where "bs' ! i = (bs ! i)\<lparr>b_prev := p, b_next := n\<rparr>"
  using assms unfolding same_but_links_def by blast

lemma bcache_inv_links:
  assumes I: "bcache_inv P s" and l: "lru (bufs s') xs"
    and L: "same_but_links (bufs s) (bufs s')" and o: "only_bufs s s'"
  shows "bcache_inv P s'" and "bview s' = bview s"
proof -
  have nth: "\<exists>p n. bufs s' ! i = (bufs s ! i)\<lparr>b_prev := p, b_next := n\<rparr>" if "i < NBUF" for i
    using same_but_linksE [OF L, of i] bcache_invD(1) [OF I] that by (metis less_SucI)
  have sel: "b_dev (bufs s' ! i) = b_dev (bufs s ! i)" "b_blockno (bufs s' ! i) = b_blockno (bufs s ! i)"
    "b_data (bufs s' ! i) = b_data (bufs s ! i)" "is_cached s' c i = is_cached s c i"
    "buf_ok P s' i = buf_ok P s i" if "i < NBUF" for i c
    using nth [OF that] only_bufs_sel(1) [OF o] by (auto simp: is_cached_def buf_ok_def Let_def)
  show I': "bcache_inv P s'"
    using I l only_bufs_sel [OF o] sel unfolding bcache_inv_def by auto
  show "bview s' = bview s"
  proof
    fix c
    show "bview s' c = bview s c"
    proof (rule bview_eqI [OF I'])
      fix i
      assume i: "i < NBUF" "is_cached s' c i"
      show "b_data (bufs s' ! i) = bview s c"
        using i sel [OF i(1)] bview_cached [OF I i(1), of c] by simp
    next
      assume "\<And>i. i < NBUF \<Longrightarrow> \<not> is_cached s' c i"
      then have "bview s c = disk s c"
        using sel by (intro bview_not_cached) auto
      then show "disk s' c = bview s c"
        using only_bufs_sel(1) [OF o] by simp
    qed
  qed
qed

lemma wakeup_bstate [simp]:
  "bufs (wakeup ch s) = bufs s" "disk (wakeup ch s) = disk s" "dwrites (wakeup ch s) = dwrites s"
  by (simp_all add: wakeup_def)

text \<open>The state in which \<open>brelse\<close> decides whether the buffer moves in the recency list.\<close>

definition brelse_unlock :: "nat \<Rightarrow> 'a bstate_scheme \<Rightarrow> 'a bstate_scheme" where
  "brelse_unlock b s = upd_buf b (\<lambda>x. x\<lparr>b_lock := \<lparr>sl_locked = False, sl_pid = 0\<rparr>,
     b_refcnt := b_refcnt x - 1\<rparr>) (wakeup (Chan_buf_lock b) s)"

lemma brelse_eq:
  assumes "b < length (bufs s)" and "holdingsleep (b_lock (bufs s ! b)) s"
  shows "brelse b s = Inr (if b_refcnt (bufs s ! b) - 1 = 0
    then insert_head b (unlink_buf b (brelse_unlock b s)) else brelse_unlock b s)"
  using assms by (cases "b_lock (bufs s ! b)")
    (simp add: brelse_def releasesleep_def brelse_unlock_def upd_buf_upd_buf upd_buf_def)

lemma brelse_unlock_spec:
  assumes I: "bcache_inv P s" and h: "holds_buf s b bno"
    and d: "b \<in> P \<or> bview s bno = disk s bno"
  shows "bcache_inv P (brelse_unlock b s)" and "bview (brelse_unlock b s) = bview s"
    and "only_bufs s (brelse_unlock b s)"
proof -
  note B = holds_bufD [OF I h]
  let ?s = "brelse_unlock b s"
  let ?x = "(bufs s ! b)\<lparr>b_lock := \<lparr>sl_locked = False, sl_pid = 0\<rparr>, b_refcnt := of_bool (b \<in> P)\<rparr>"
  have bufs': "bufs ?s = (bufs s)[b := ?x]"
    using B by (simp add: brelse_unlock_def)
  show o: "only_bufs s ?s"
    unfolding brelse_unlock_def by (rule only_bufs_trans [OF only_bufs_wakeup only_bufs_upd_buf])
  show I': "bcache_inv P ?s"
  proof (rule bcache_inv_upd [OF I B(1) bufs'])
    show "buf_ok P ?s b"
      using B d bcache_invD(4) [OF I B(1)] only_bufs_sel(1) [OF o]
      by (auto simp: bufs' buf_ok_def Let_def)
    show "P \<subseteq> {..<NBUF}"
      using I by (simp add: bcache_inv_def)
    show "b_blockno (bufs s ! i) \<noteq> b_blockno ?x"
      if "i < NBUF" "i \<noteq> b" "b_dev (bufs s ! i) = ROOTDEV" for i
      using bcache_inv_unique [OF I that(1) B(1) that(3) B(4)] that(2) by auto
  qed (use bcache_invD [OF I] only_bufs_sel [OF o] in simp_all)
  show "bview ?s = bview s"
    using bview_upd_held [OF I I' h bufs'] only_bufs_sel(1) [OF o] B by (simp add: fun_upd_idem)
qed

lemma locked_bufs_links:
  assumes "b < length (bufs s)" and l: "length (bufs s) = Suc NBUF"
    and L: "same_but_links ((bufs s)[b := x]) (bufs s')" and "\<not> sl_locked (b_lock x)"
  shows "locked_bufs s' = locked_bufs s - {b}"
proof -
  have "sl_locked (b_lock (bufs s' ! i)) = (i \<noteq> b \<and> sl_locked (b_lock (bufs s ! i)))" if "i < NBUF" for i
    by (rule same_but_linksE [OF L, of i]) (use that assms in \<open>auto simp: nth_list_update\<close>)
  then show ?thesis
    by (auto simp: locked_bufs_def)
qed

text \<open>
  A buffer may be released when it is pinned or agrees with the disk. Whether or not it moves
  to the front of the recency list, nobody sees a block change.
\<close>

lemma brelse_spec:
  assumes I: "bcache_inv P s" and h: "holds_buf s b bno"
    and d: "b \<in> P \<or> bview s bno = disk s bno"
  obtains s' where "brelse b s = Inr s'" "bcache_inv P s'" "bview s' = bview s" "only_bufs s s'"
    "same_but_links ((bufs s)[b := (bufs s ! b)\<lparr>b_lock := \<lparr>sl_locked = False, sl_pid = 0\<rparr>,
       b_refcnt := of_bool (b \<in> P)\<rparr>]) (bufs s')"
proof -
  note B = holds_bufD [OF I h] and U = brelse_unlock_spec [OF assms]
  let ?t = "brelse_unlock b s"
  have bufs': "bufs ?t = (bufs s)[b := (bufs s ! b)\<lparr>b_lock := \<lparr>sl_locked = False, sl_pid = 0\<rparr>,
       b_refcnt := of_bool (b \<in> P)\<rparr>]"
    using B by (simp add: brelse_unlock_def)
  have r: "brelse b s = Inr (if b_refcnt (bufs s ! b) - 1 = 0
      then insert_head b (unlink_buf b ?t) else ?t)"
    using h B by (intro brelse_eq) (auto simp: holds_buf_def)
  show thesis
  proof (cases "b_refcnt (bufs s ! b) - 1 = 0")
    case True
    let ?s = "insert_head b (unlink_buf b ?t)"
    obtain xs where xs: "lru (bufs ?t) xs"
      using U(1) by (auto simp: bcache_inv_def)
    then have "b \<in> set xs"
      using B by (auto simp: lru_def)
    then obtain us vs where "xs = us @ b # vs"
      by (meson split_list)
    then have l: "lru (bufs ?s) (b # us @ vs)"
      using xs lru_move_to_front by blast
    have L: "same_but_links (bufs ?t) (bufs ?s)"
      by (rule same_but_links_trans [OF same_but_links_unlink_buf same_but_links_insert_head])
    have o: "only_bufs ?t ?s"
      by (rule only_bufs_trans [OF only_bufs_links(2,1)])
    show thesis
      using bcache_inv_links [OF U(1) l L o] U(2,3) L o r True
      by (intro that [of ?s]) (auto simp: bufs' intro: only_bufs_trans)
  next
    case False
    then show thesis
      using r U by (intro that [of ?t]) (auto simp: bufs')
  qed
qed

section \<open>Start-up\<close>

lemma length_bufs_links [simp]:
  "length (bufs (insert_head b s)) = length (bufs s)" "length (bufs (unlink_buf b s)) = length (bufs s)"
  using same_but_links_insert_head [of s b] same_but_links_unlink_buf [of s b]
  by (simp_all add: same_but_links_def)

lemma length_bufs_binit_loop [simp]: "length (bufs (binit_loop k s)) = length (bufs s)"
  by (induction k) simp_all

lemma binit_loop_bufs:
  assumes "length (bufs s) = Suc NBUF" and "i < NBUF" and "k \<le> NBUF"
  shows "\<exists>p n. bufs (binit_loop k s) ! i =
    (bufs s ! i)\<lparr>b_lock := (if i < k then initsleeplock else b_lock (bufs s ! i)), b_prev := p, b_next := n\<rparr>"
  using assms(3)
proof (induction k)
  case 0
  show ?case
    by (rule exI [of _ "b_prev (bufs s ! i)"], rule exI [of _ "b_next (bufs s ! i)"]) simp
next
  case (Suc k)
  let ?t = "upd_buf k (\<lambda>x. x\<lparr>b_lock := initsleeplock\<rparr>) (binit_loop k s)"
  obtain p n where 1: "bufs (binit_loop k s) ! i = (bufs s ! i)\<lparr>b_lock :=
      (if i < k then initsleeplock else b_lock (bufs s ! i)), b_prev := p, b_next := n\<rparr>"
    using Suc by auto
  obtain p' n' where 2: "bufs (insert_head k ?t) ! i = (bufs ?t ! i)\<lparr>b_prev := p', b_next := n'\<rparr>"
    by (rule same_but_linksE [OF same_but_links_insert_head [of ?t k], of i]) (use assms in simp_all)
  have "bufs (binit_loop (Suc k) s) ! i = (bufs s ! i)\<lparr>b_lock :=
      (if i < Suc k then initsleeplock else b_lock (bufs s ! i)), b_prev := p', b_next := n'\<rparr>"
    using assms Suc.prems 1 2 by (cases "i = k") (simp_all add: less_Suc_eq)
  then show ?case
    by blast
qed

lemma only_bufs_binit: "only_bufs s (binit s)"
proof -
  have "only_bufs s (binit_loop k s)" for k :: nat and s :: "'a bstate_scheme"
  proof (induction k)
    case (Suc k)
    show ?case
      unfolding binit_loop.simps
      by (rule only_bufs_trans [OF Suc only_bufs_trans [OF only_bufs_upd_buf only_bufs_links(1)]])
  qed simp
  then show ?thesis
    unfolding binit_def by (rule only_bufs_trans [OF only_bufs_upd_buf])
qed

text \<open>The cache as the loader leaves it, in zeroed memory.\<close>

definition bss_buf :: buf where
  "bss_buf = \<lparr>b_valid = False, b_disk = False, b_dev = 0, b_blockno = 0,
     b_lock = \<lparr>sl_locked = False, sl_pid = 0\<rparr>, b_refcnt = 0, b_prev = 0, b_next = 0,
     b_data = replicate BSIZE 0\<rparr>"

lemma binit_inv:
  assumes z: "bufs s = replicate (Suc NBUF) bss_buf" and "cur s < length (procs s)"
    and "\<And>bno. length (disk s bno) = BSIZE"
  shows "bcache_inv {} (binit s)" and "bview (binit s) = disk s" and "locked_bufs (binit s) = {}"
    and "\<And>i. i < NBUF \<Longrightarrow> b_dev (bufs (binit s) ! i) \<noteq> ROOTDEV" and "lru (bufs (binit s)) (rev [0..<NBUF])"
proof -
  let ?t = "upd_buf HEAD (\<lambda>x. x\<lparr>b_prev := HEAD, b_next := HEAD\<rparr>) s"
  note o = only_bufs_sel [OF only_bufs_binit [of s]]
  have b: "\<exists>p n. bufs (binit s) ! i = bss_buf\<lparr>b_lock := initsleeplock, b_prev := p, b_next := n\<rparr>"
    if "i < NBUF" for i
    using binit_loop_bufs [of ?t i NBUF] that by (simp add: binit_def z nth_replicate del: replicate_Suc)
  have f: "b_valid (bufs (binit s) ! i) = False" "b_dev (bufs (binit s) ! i) \<noteq> ROOTDEV"
    "b_refcnt (bufs (binit s) ! i) = 0" "length (b_data (bufs (binit s) ! i)) = BSIZE"
    "\<not> sl_locked (b_lock (bufs (binit s) ! i))" if "i < NBUF" for i
    using b [OF that] by (auto simp: bss_buf_def initsleeplock_def ROOTDEV_def)
  show "\<And>i. i < NBUF \<Longrightarrow> b_dev (bufs (binit s) ! i) \<noteq> ROOTDEV"
    by (rule f)
  show "lru (bufs (binit s)) (rev [0..<NBUF])"
    by (rule lru_binit) (simp add: z)
  then show "bcache_inv {} (binit s)"
    using assms f o unfolding bcache_inv_def by (auto simp: buf_ok_def Let_def)
  show "bview (binit s) = disk s"
    using f o(1) bview_not_cached [of "binit s"] by (auto simp: fun_eq_iff is_cached_def)
  show "locked_bufs (binit s) = {}"
    using f by (auto simp: locked_bufs_def)
qed

text \<open>The machine with a zeroed disk when \<open>binit\<close> is about to run; \<open>r\<close> is the rest of it.\<close>

definition bss_state :: "'a \<Rightarrow> 'a bstate_scheme" where
  "bss_state r = \<lparr>mem = (\<lambda>_. 0), freelist = 0, kend = 0, procs = replicate NPROC bss_proc, cur = 0,
     initproc = 0, nextpid = 1, bufs = replicate (Suc NBUF) bss_buf,
     disk = (\<lambda>_. replicate BSIZE 0), dwrites = [], \<dots> = r\<rparr>"

lemma binit_bss_state:
  "bcache_inv {} (binit (bss_state r))" "bview (binit (bss_state r)) = (\<lambda>_. replicate BSIZE 0)"
  "locked_bufs (binit (bss_state r)) = {}" "disk (binit (bss_state r)) = (\<lambda>_. replicate BSIZE 0)"
  "lru (bufs (binit (bss_state r))) (rev [0..<NBUF])"
  using binit_inv [of "bss_state r"] only_bufs_sel(1) [OF only_bufs_binit [of "bss_state r"]]
  by (simp_all add: bss_state_def NPROC_def)

lemma binit_bss_dev: "\<forall>i<NBUF. b_dev (bufs (binit (bss_state r)) ! i) \<noteq> ROOTDEV"
  using binit_inv(4) [of "bss_state r"] by (simp add: bss_state_def NPROC_def)

lemma free_buf: "\<not> {..<NBUF} \<subseteq> {}"
proof -
  have "0 \<in> {..<NBUF}"
    by (simp add: NBUF_def)
  then show ?thesis by blast
qed

section \<open>Properties\<close>

text \<open>
  Property C5. Reading a block. When the block is not locked, and is cached or some buffer
  is free, \<open>bread\<close> returns a buffer the caller holds with the current content of the block in it;
  the cache stays well formed, the disk is not written, and every block reads as before, also
  the one whose buffer was taken over.
\<close>

theorem bread_correct:
  assumes "bcache_inv P s"
    and "(\<exists>i<NBUF. is_cached s bno i) \<or> \<not> {..<NBUF} \<subseteq> locked_bufs s \<union> P"
    and "\<And>i. i \<in> locked_bufs s \<Longrightarrow> b_blockno (bufs s ! i) \<noteq> bno"
  shows "\<exists>b s'. bread ROOTDEV bno s = Inr (b, s') \<and> bcache_inv P s' \<and> holds_buf s' b bno \<and>
    b_data (bufs s' ! b) = bview s bno \<and> bview s' = bview s \<and> disk s' = disk s"
proof -
  obtain b s' where r: "bread ROOTDEV bno s = Inr (b, s')"
    using bread_returns [OF assms] .
  then show ?thesis
    using bread_spec [OF assms(1) r] only_bufs_sel(1) by blast
qed

theorem bread_correct_witness:
  "\<exists>b s'. bread ROOTDEV 7 (binit (bss_state ())) = Inr (b, s') \<and> b_data (bufs s' ! b) = replicate BSIZE 0"
  using bread_correct [OF binit_bss_state(1) [of "()"], of 7] binit_bss_state [of "()"]
    free_buf by auto

text \<open>
  Property C6. Least recently used buffers go first: when no buffer has the block, \<open>bget\<close>
  takes the unreferenced buffer that is last in the recency list, so every buffer released
  before it is still in use.
\<close>

theorem bget_recycles_lru:
  assumes "bcache_inv P s" and "lru (bufs s) xs"
    and "\<forall>i<NBUF. b_dev (bufs s ! i) = ROOTDEV \<longrightarrow> b_blockno (bufs s ! i) \<noteq> bno"
    and "bget ROOTDEV bno s = Inr (b, s')"
  shows "\<exists>us vs. xs = us @ b # vs \<and> b_refcnt (bufs s ! b) = 0 \<and> (\<forall>i\<in>set vs. b_refcnt (bufs s ! i) \<noteq> 0)"
proof -
  have set: "set xs = {0..<NBUF}" and l: "length (bufs s) = Suc NBUF"
    using assms(2) by (auto simp: lru_def)
  then have n: "List.find (\<lambda>i. b_dev (bufs s ! i) = ROOTDEV \<and> b_blockno (bufs s ! i) = bno) xs = None"
    using assms(3) by (auto simp: find_None_iff)
  obtain c where c: "List.find (\<lambda>i. b_refcnt (bufs s ! i) = 0) (rev xs) = Some c"
    using assms(4) by (auto simp: bget_eq [OF assms(2)] n split: option.splits)
  then obtain k where k: "k < length xs" "c = rev xs ! k" "b_refcnt (bufs s ! c) = 0"
    "\<forall>j<k. b_refcnt (bufs s ! (rev xs ! j)) \<noteq> 0"
    by (auto simp: find_Some_iff)
  have "c \<in> set xs"
    using k by (metis length_rev nth_mem set_rev)
  then have bc: "b = c"
    using assms(4) set l by (auto simp: bget_eq [OF assms(2)] n c lock_buf_eq_Inr)
  have "rev xs = take k (rev xs) @ c # drop (Suc k) (rev xs)"
    using k by (simp add: id_take_nth_drop)
  then have "xs = rev (drop (Suc k) (rev xs)) @ c # rev (take k (rev xs))"
    by (metis append.assoc append_Cons append_Nil rev.simps(2) rev_append rev_rev_ident)
  moreover have "\<forall>i\<in>set (rev (take k (rev xs))). b_refcnt (bufs s ! i) \<noteq> 0"
    using k by (auto simp: in_set_conv_nth)
  ultimately show ?thesis
    using k(3) bc by blast
qed

theorem bget_recycles_lru_witness:
  "\<exists>b s' us vs. bget ROOTDEV 7 (binit (bss_state ())) = Inr (b, s') \<and> rev [0..<NBUF] = us @ b # vs"
proof -
  let ?s = "binit (bss_state ())"
  obtain b s' where "bread ROOTDEV 7 ?s = Inr (b, s')"
    using bread_returns [OF binit_bss_state(1), of "()" 7] binit_bss_state(3) [of "()"] free_buf by auto
  then obtain c t where g: "bget ROOTDEV 7 ?s = Inr (c, t)"
    by (auto simp: bread_def res_simps)
  show ?thesis
    using bget_recycles_lru [OF binit_bss_state(1,5) _ g] binit_bss_dev [of "()"] g by blast
qed

text \<open>
  Property C7. Releasing a buffer whose content is on the disk: \<open>brelse\<close> succeeds, puts the
  buffer at the front of the recency list, unlocks it, and leaves every block, cached or not,
  with the content it had.
\<close>

theorem brelse_correct:
  assumes "bcache_inv P s" and "holds_buf s b bno" and "b \<notin> P" and "bview s bno = disk s bno"
    and "lru (bufs s) (us @ b # vs)"
  shows "\<exists>s'. brelse b s = Inr s' \<and> bcache_inv P s' \<and> lru (bufs s') (b # us @ vs) \<and>
    locked_bufs s' = locked_bufs s - {b} \<and> bview s' = bview s \<and> disk s' = disk s"
proof -
  note B = holds_bufD [OF assms(1,2)]
  obtain s' where s': "brelse b s = Inr s'" "bcache_inv P s'" "bview s' = bview s" "only_bufs s s'"
    and L: "same_but_links ((bufs s)[b := (bufs s ! b)\<lparr>b_lock := \<lparr>sl_locked = False, sl_pid = 0\<rparr>,
       b_refcnt := of_bool (b \<in> P)\<rparr>]) (bufs s')"
    using brelse_spec [OF assms(1,2)] assms(4) by metis
  have "s' = insert_head b (unlink_buf b (brelse_unlock b s))"
    using brelse_eq [OF B(2)] assms(2,3) B s'(1) by (simp add: holds_buf_def)
  moreover have "lru (bufs (brelse_unlock b s)) (us @ b # vs)"
    using lru_upd [OF assms(5)] by (simp add: brelse_unlock_def)
  ultimately have "lru (bufs s') (b # us @ vs)"
    by (simp add: lru_move_to_front)
  then show ?thesis
    using s' locked_bufs_links [OF B(2) bcache_invD(1) [OF assms(1)] L] only_bufs_sel(1) [OF s'(4)] by auto
qed

lemma bread_bss:
  obtains b s where "bread ROOTDEV bno (binit (bss_state r)) = Inr (b, s)" "bcache_inv {} s"
    "holds_buf s b bno" "bview s = (\<lambda>_. replicate BSIZE 0)" "disk s = (\<lambda>_. replicate BSIZE 0)"
proof -
  obtain b s where b: "bread ROOTDEV bno (binit (bss_state r)) = Inr (b, s)"
    using bread_returns [OF binit_bss_state(1), of r bno] binit_bss_state(3) [of r] free_buf by auto
  then show thesis
    using that bread_spec [OF binit_bss_state(1) b] only_bufs_sel(1) binit_bss_state by metis
qed

theorem brelse_correct_witness:
  "\<exists>b s s' us vs. bread ROOTDEV 7 (binit (bss_state ())) = Inr (b, s) \<and> brelse b s = Inr s' \<and>
     lru (bufs s') (b # us @ vs)"
proof -
  obtain b s where b: "bread ROOTDEV 7 (binit (bss_state ())) = Inr (b, s)" "bcache_inv {} s"
    "holds_buf s b 7" "bview s 7 = disk s 7"
    using bread_bss [of 7 "()"] by metis
  obtain xs where xs: "lru (bufs s) xs" "b \<in> set xs"
    using b by (auto simp: bcache_inv_def holds_buf_def lru_def)
  then obtain us vs where "lru (bufs s) (us @ b # vs)"
    by (metis split_list)
  then show ?thesis
    using brelse_correct [OF b(2,3) _ b(4)] b(1) by blast
qed

text \<open>
  Writing a held block through: \<open>bwrite\<close> followed by \<open>brelse\<close> puts exactly
  the buffer's content on the disk, at its block and nowhere else, as one disk write.
\<close>

theorem bwrite_brelse_correct:
  assumes "bcache_inv P s" and "holds_buf s b bno"
  shows "\<exists>s'. bindE (bwrite b s) (brelse b) = Inr s' \<and> bcache_inv P s' \<and>
    disk s' = (disk s)(bno := b_data (bufs s ! b)) \<and>
    dwrites s' = dwrites s @ [(bno, b_data (bufs s ! b))] \<and> bview s' = bview s"
proof -
  note W = bwrite_spec [OF assms] and v = holds_bufD(7) [OF assms]
  let ?s = "s\<lparr>disk := (disk s)(bno := bview s bno), dwrites := dwrites s @ [(bno, bview s bno)]\<rparr>"
  have "bview ?s bno = disk ?s bno"
    unfolding W(4) by simp
  then obtain s' where "brelse b ?s = Inr s'" "bcache_inv P s'" "bview s' = bview ?s" "only_bufs ?s s'"
    using brelse_spec [OF W(2,3)] by metis
  then show ?thesis
    using W(1,4) v only_bufs_sel(1,2) [of ?s s'] by simp
qed

theorem bwrite_brelse_correct_witness:
  "\<exists>b s s'. bread ROOTDEV 7 (binit (bss_state ())) = Inr (b, s) \<and>
     bindE (bwrite b (set_data b (replicate BSIZE 1) s)) (brelse b) = Inr s' \<and>
     disk s' 7 = replicate BSIZE 1 \<and> disk s' 8 = replicate BSIZE 0"
proof -
  obtain b s where b: "bread ROOTDEV 7 (binit (bss_state ())) = Inr (b, s)" "bcache_inv {} s"
    "holds_buf s b 7" "disk s = (\<lambda>_. replicate BSIZE 0)"
    using bread_bss [of 7 "()"] by metis
  let ?t = "set_data b (replicate BSIZE 1) s"
  have t: "bcache_inv {} ?t" "holds_buf ?t b 7" "disk ?t = disk s"
    using set_data_spec [OF b(2,3), of "replicate BSIZE 1"] by (simp_all add: only_bufs_sel(1))
  moreover have "b_data (bufs ?t ! b) = replicate BSIZE 1"
    using holds_bufD(2) [OF b(2,3)] by (simp add: set_data_def)
  ultimately show ?thesis
    using bwrite_brelse_correct [OF t(1,2)] b(1,4) by force
qed

end
