(* ===== verification/Bcache.thy ===== *)
theory Bcache
  imports Bio
begin

text \<open>
  The contract of the buffer cache towards the layers above it, as a locale: which blocks are
  pinned, which are held by the running thread, what each block reads as and what is on the
  disk. \<open>bread\<close>, \<open>bwrite\<close>, \<open>brelse\<close>, \<open>bpin\<close> and \<open>bunpin\<close> of
  \<open>kernel/bio.c\<close> interpret it.
\<close>

section \<open>Frames\<close>

text \<open>A call may change the buffers, the disk and its history, and wake sleepers.\<close>

definition io_frame :: "'a bstate_scheme \<Rightarrow> 'a bstate_scheme \<Rightarrow> bool" where
  "io_frame s s' \<longleftrightarrow> woken s s' \<and> mem s' = mem s \<and> freelist s' = freelist s \<and> kend s' = kend s \<and>
     initproc s' = initproc s \<and> nextpid s' = nextpid s \<and> bstate.more s' = bstate.more s"

lemma io_frame_refl [simp]: "io_frame s s"
  by (simp add: io_frame_def)

lemma io_frame_trans: "io_frame s t \<Longrightarrow> io_frame t u \<Longrightarrow> io_frame s u"
  by (auto simp: io_frame_def intro: woken_trans)

lemma only_bufs_io_frame:
  assumes "only_bufs s s'"
  shows "io_frame s s'"
proof -
  have s': "s' = s\<lparr>procs := procs s', bufs := bufs s'\<rparr>"
    using assms by (simp add: only_bufs_def)
  have "initproc s' = initproc s" "nextpid s' = nextpid s"
    by (subst s', simp)+
  then show ?thesis
    using assms only_bufs_sel [OF assms] by (simp add: io_frame_def only_bufs_def)
qed

section \<open>The contract\<close>

text \<open>
  \<open>cache Q H s\<close>: the cache is well formed; \<open>Q\<close> maps each pinned buffer and \<open>H\<close>
  each held one to its block, and no other buffer is locked.
\<close>

definition cache :: "(nat \<rightharpoonup> u32) \<Rightarrow> (nat \<rightharpoonup> u32) \<Rightarrow> 'a bstate_scheme \<Rightarrow> bool" where
  "cache Q H s \<longleftrightarrow> bcache_inv (dom Q) s \<and> (\<forall>i c. Q i = Some c \<longrightarrow> is_cached s c i) \<and>
     (\<forall>i c. H i = Some c \<longrightarrow> holds_buf s i c) \<and> locked_bufs s = dom H"

definition buf_data :: "nat \<Rightarrow> 'a bstate_scheme \<Rightarrow> u8 list" where
  "buf_data b s = b_data (bufs s ! b)"

text \<open>A buffer is available for \<open>c\<close>: the block is pinned, or some buffer is free.\<close>

definition room :: "(nat \<rightharpoonup> u32) \<Rightarrow> (nat \<rightharpoonup> u32) \<Rightarrow> u32 \<Rightarrow> bool" where
  "room Q H c \<longleftrightarrow> c \<in> ran Q \<or> \<not> {..<NBUF} \<subseteq> dom H \<union> dom Q"

locale block_cache =
  fixes cache :: "(nat \<rightharpoonup> u32) \<Rightarrow> (nat \<rightharpoonup> u32) \<Rightarrow> 's \<Rightarrow> bool"
    and view :: "'s \<Rightarrow> u32 \<Rightarrow> u8 list"
    and dsk :: "'s \<Rightarrow> u32 \<Rightarrow> u8 list"
    and hist :: "'s \<Rightarrow> (u32 \<times> u8 list) list"
    and frame :: "'s \<Rightarrow> 's \<Rightarrow> bool"
    and dat :: "nat \<Rightarrow> 's \<Rightarrow> u8 list"
    and rd :: "u32 \<Rightarrow> 's \<Rightarrow> (nat \<times> 's) res"
    and put :: "nat \<Rightarrow> u8 list \<Rightarrow> 's \<Rightarrow> 's"
    and wr :: "nat \<Rightarrow> 's \<Rightarrow> 's res"
    and pin :: "nat \<Rightarrow> 's \<Rightarrow> 's"
    and unpin :: "nat \<Rightarrow> 's \<Rightarrow> 's"
    and rel :: "nat \<Rightarrow> 's \<Rightarrow> 's res"
  assumes frame_refl: "frame s s"
    and frame_trans: "frame s t \<Longrightarrow> frame t u \<Longrightarrow> frame s u"
    and view_length: "cache Q H s \<Longrightarrow> length (view s c) = BSIZE"
    and dat_held: "cache Q H s \<Longrightarrow> H b = Some c \<Longrightarrow> dat b s = view s c"
    and pinned_once: "cache Q H s \<Longrightarrow> Q i = Some c \<Longrightarrow> Q j = Some c \<Longrightarrow> i = j"
    and unheld_clean: "cache Q H s \<Longrightarrow> c \<notin> ran H \<Longrightarrow> c \<notin> ran Q \<Longrightarrow> view s c = dsk s c"
    and rd_ok: "cache Q H s \<Longrightarrow> c \<notin> ran H \<Longrightarrow> room Q H c \<Longrightarrow>
      \<exists>b s'. rd c s = Inr (b, s') \<and> cache Q (H(b \<mapsto> c)) s' \<and> b \<notin> dom H \<and>
        (\<forall>i. Q i = Some c \<longrightarrow> b = i) \<and> (c \<notin> ran Q \<longrightarrow> b \<notin> dom Q) \<and>
        view s' = view s \<and> dsk s' = dsk s \<and> hist s' = hist s \<and> frame s s'"
    and put_ok: "cache Q H s \<Longrightarrow> H b = Some c \<Longrightarrow> length d = BSIZE \<Longrightarrow>
      cache Q H (put b d s) \<and> view (put b d s) = (view s)(c := d) \<and>
      dsk (put b d s) = dsk s \<and> hist (put b d s) = hist s \<and> frame s (put b d s)"
    and wr_ok: "cache Q H s \<Longrightarrow> H b = Some c \<Longrightarrow>
      \<exists>s'. wr b s = Inr s' \<and> cache Q H s' \<and> view s' = view s \<and>
        dsk s' = (dsk s)(c := view s c) \<and> hist s' = hist s @ [(c, view s c)] \<and> frame s s'"
    and pin_ok: "cache Q H s \<Longrightarrow> H b = Some c \<Longrightarrow> b \<notin> dom Q \<Longrightarrow>
      cache (Q(b \<mapsto> c)) H (pin b s) \<and> view (pin b s) = view s \<and>
      dsk (pin b s) = dsk s \<and> hist (pin b s) = hist s \<and> frame s (pin b s)"
    and unpin_ok: "cache Q H s \<Longrightarrow> H b = Some c \<Longrightarrow> b \<in> dom Q \<Longrightarrow>
      cache (Q(b := None)) H (unpin b s) \<and> view (unpin b s) = view s \<and>
      dsk (unpin b s) = dsk s \<and> hist (unpin b s) = hist s \<and> frame s (unpin b s)"
    and rel_ok: "cache Q H s \<Longrightarrow> H b = Some c \<Longrightarrow> b \<in> dom Q \<or> view s c = dsk s c \<Longrightarrow>
      \<exists>s'. rel b s = Inr s' \<and> cache Q (H(b := None)) s' \<and> view s' = view s \<and>
        dsk s' = dsk s \<and> hist s' = hist s \<and> frame s s'"
begin

text \<open>Reading a block and letting it go again.\<close>

lemma read_block:
  assumes "cache Q Map.empty s" and "room Q Map.empty c"
  obtains b s1 s2 where "rd c s = Inr (b, s1)" "dat b s1 = view s c" "rel b s1 = Inr s2"
    "cache Q Map.empty s2" "view s2 = view s" "dsk s2 = dsk s" "hist s2 = hist s" "frame s s2"
proof -
  obtain b s1 where 1: "rd c s = Inr (b, s1)" "cache Q [b \<mapsto> c] s1" "\<forall>i. Q i = Some c \<longrightarrow> b = i"
    "view s1 = view s" "dsk s1 = dsk s" "hist s1 = hist s" "frame s s1"
    using rd_ok [OF assms(1) _ assms(2)] by auto
  have "b \<in> dom Q \<or> view s1 c = dsk s1 c"
    using 1 unheld_clean [OF assms(1)] by (cases "c \<in> ran Q") (auto simp: ran_def)
  then obtain s2 where 2: "rel b s1 = Inr s2" "cache Q Map.empty s2" "view s2 = view s1"
    "dsk s2 = dsk s1" "hist s2 = hist s1" "frame s1 s2"
    using rel_ok [OF 1(2), of b c] by (auto simp: fun_upd_idem)
  show thesis
    by (rule that [OF 1(1) _ 2(1,2) _ _ _ frame_trans [OF 1(7) 2(6)]])
      (use 1 2 dat_held [OF 1(2), of b c] in simp_all)
qed

text \<open>
  Replacing the content of a block by a function of it and writing it through.
\<close>

lemma rewrite_block:
  assumes "cache Q Map.empty s" and "room Q Map.empty c" and "c \<notin> ran Q"
    and "length (f (view s c)) = BSIZE"
  obtains s' where "bindE (rd c s) (\<lambda>(b, s). bindE (wr b (put b (f (dat b s)) s)) (rel b)) = Inr s'"
    "cache Q Map.empty s'" "view s' = (view s)(c := f (view s c))" "dsk s' = (dsk s)(c := f (view s c))"
    "hist s' = hist s @ [(c, f (view s c))]" "frame s s'"
proof -
  obtain b s1 where 1: "rd c s = Inr (b, s1)" "cache Q [b \<mapsto> c] s1"
    "view s1 = view s" "dsk s1 = dsk s" "hist s1 = hist s" "frame s s1"
    using rd_ok [OF assms(1) _ assms(2)] by auto
  have d: "dat b s1 = view s c"
    using dat_held [OF 1(2), of b c] 1 by simp
  let ?s2 = "put b (f (view s c)) s1"
  have 2: "cache Q [b \<mapsto> c] ?s2" "view ?s2 = (view s)(c := f (view s c))" "dsk ?s2 = dsk s"
    "hist ?s2 = hist s" "frame s ?s2"
    using put_ok [OF 1(2), of b c] assms(4) 1 frame_trans [OF 1(6)] by auto
  obtain s3 where 3: "wr b ?s2 = Inr s3" "cache Q [b \<mapsto> c] s3" "view s3 = view ?s2"
    "dsk s3 = (dsk s)(c := f (view s c))" "hist s3 = hist s @ [(c, f (view s c))]" "frame ?s2 s3"
    using wr_ok [OF 2(1), of b c] 2 by auto
  have "view s3 c = dsk s3 c"
    using 3(3,4) 2(2) by simp
  then obtain s4 where 4: "rel b s3 = Inr s4" "cache Q Map.empty s4" "view s4 = view s3"
    "dsk s4 = dsk s3" "hist s4 = hist s3" "frame s3 s4"
    using rel_ok [OF 3(2), of b c] by (auto simp: fun_upd_idem)
  show thesis
    by (rule that [OF _ 4(2) _ _ _ frame_trans [OF 2(5) frame_trans [OF 3(6) 4(6)]]])
      (use 1(1) 2(2) 3(1,3-5) 4(1,3-5) d in simp_all)
qed

text \<open>
  Copying block \<open>a\<close> over block \<open>c\<close> and writing it through, with the reads in either
  order: the last step of both uses, when both buffers are held.
\<close>

lemma copy_held:
  assumes "cache Q H s" and "H = [x \<mapsto> a, y \<mapsto> c]" and "x \<noteq> y" and "a \<noteq> c"
    and "x \<in> dom Q \<or> view s a = dsk s a"
  obtains s' where "bindE (wr y (put y (dat x s) s)) (\<lambda>s. bindE (rel x s) (rel y)) = Inr s'"
    "cache Q Map.empty s'" "view s' = (view s)(c := view s a)" "dsk s' = (dsk s)(c := view s a)"
    "hist s' = hist s @ [(c, view s a)]" "frame s s'"
proof -
  have d: "dat x s = view s a"
    using dat_held [OF assms(1), of x a] assms(2,3) by simp
  let ?s2 = "put y (view s a) s"
  have 2: "cache Q H ?s2" "view ?s2 = (view s)(c := view s a)" "dsk ?s2 = dsk s"
    "hist ?s2 = hist s" "frame s ?s2"
    using put_ok [OF assms(1), of y c] view_length [OF assms(1)] assms(2) by auto
  obtain s3 where 3: "wr y ?s2 = Inr s3" "cache Q H s3" "view s3 = view ?s2"
    "dsk s3 = (dsk s)(c := view s a)" "hist s3 = hist s @ [(c, view s a)]" "frame ?s2 s3"
    using wr_ok [OF 2(1), of y c] 2 assms(2) by auto
  have "x \<in> dom Q \<or> view s3 a = dsk s3 a" "H x = Some a" "H(x := None) = [y \<mapsto> c]"
    using assms(2-5) 3(3,4) 2(2) by (auto simp: fun_upd_idem fun_upd_twist)
  then obtain s4 where 4: "rel x s3 = Inr s4" "cache Q [y \<mapsto> c] s4" "view s4 = view s3"
    "dsk s4 = dsk s3" "hist s4 = hist s3" "frame s3 s4"
    using rel_ok [OF 3(2), of x a] by auto
  have "view s4 c = dsk s4 c"
    using 4(3,4) 3(3,4) 2(2) by simp
  then obtain s5 where 5: "rel y s4 = Inr s5" "cache Q Map.empty s5" "view s5 = view s4"
    "dsk s5 = dsk s4" "hist s5 = hist s4" "frame s4 s5"
    using rel_ok [OF 4(2), of y c] by (auto simp: fun_upd_idem)
  show thesis
    by (rule that [OF _ 5(2) _ _ _ frame_trans [OF 2(5) frame_trans [OF 3(6)
          frame_trans [OF 4(6) 5(6)]]]])
      (use 2(2) 3(1,3-5) 4(1,3-5) 5(1,3-5) d in simp_all)
qed

lemma rd_two:
  assumes "cache Q Map.empty s" and "a \<noteq> c" and "room Q Map.empty a" and "\<And>b. room Q [b \<mapsto> a] c"
  obtains x s1 y s2 where "rd a s = Inr (x, s1)" "rd c s1 = Inr (y, s2)" "cache Q [x \<mapsto> a, y \<mapsto> c] s2"
    "x \<noteq> y" "\<forall>i. Q i = Some a \<longrightarrow> x = i" "\<forall>i. Q i = Some c \<longrightarrow> y = i"
    "view s2 = view s" "dsk s2 = dsk s" "hist s2 = hist s" "frame s s2"
proof -
  obtain x s1 where 1: "rd a s = Inr (x, s1)" "cache Q [x \<mapsto> a] s1" "\<forall>i. Q i = Some a \<longrightarrow> x = i"
    "view s1 = view s" "dsk s1 = dsk s" "hist s1 = hist s" "frame s s1"
    using rd_ok [OF assms(1) _ assms(3)] by auto
  obtain y s2 where 2: "rd c s1 = Inr (y, s2)" "cache Q [x \<mapsto> a, y \<mapsto> c] s2" "y \<notin> dom [x \<mapsto> a]"
    "\<forall>i. Q i = Some c \<longrightarrow> y = i" "view s2 = view s1" "dsk s2 = dsk s1" "hist s2 = hist s1" "frame s1 s2"
    using rd_ok [OF 1(2) _ assms(4)] assms(2) by auto
  show thesis
    by (rule that [OF 1(1) 2(1,2) _ 1(3) 2(4) _ _ _ frame_trans [OF 1(7) 2(8)]])
      (use 1(4-6) 2(3,5-7) in auto)
qed

lemma clean_if_read:
  assumes "cache Q Map.empty s" and "\<forall>i. Q i = Some a \<longrightarrow> x = i"
  shows "x \<in> dom Q \<or> view s a = dsk s a"
  using assms unheld_clean [OF assms(1), of a] by (cases "a \<in> ran Q") (auto simp: ran_def)

lemma copy_src_first:
  assumes "cache Q Map.empty s" and "a \<noteq> c" and "room Q Map.empty a" and "\<And>b. room Q [b \<mapsto> a] c"
  obtains s' where "bindE (rd a s) (\<lambda>(x, s). bindE (rd c s) (\<lambda>(y, s).
      bindE (wr y (put y (dat x s) s)) (\<lambda>s. bindE (rel x s) (rel y)))) = Inr s'"
    "cache Q Map.empty s'" "view s' = (view s)(c := view s a)" "dsk s' = (dsk s)(c := view s a)"
    "hist s' = hist s @ [(c, view s a)]" "frame s s'"
proof -
  obtain x s1 y s2 where 2: "rd a s = Inr (x, s1)" "rd c s1 = Inr (y, s2)"
    "cache Q [x \<mapsto> a, y \<mapsto> c] s2" "x \<noteq> y" "\<forall>i. Q i = Some a \<longrightarrow> x = i"
    "view s2 = view s" "dsk s2 = dsk s" "hist s2 = hist s" "frame s s2"
    by (rule rd_two [OF assms])
  have "x \<in> dom Q \<or> view s2 a = dsk s2 a"
    using clean_if_read [OF assms(1) 2(5)] 2(6,7) by simp
  then obtain s3 where 3: "bindE (wr y (put y (dat x s2) s2)) (\<lambda>s. bindE (rel x s) (rel y)) = Inr s3"
    "cache Q Map.empty s3" "view s3 = (view s2)(c := view s2 a)" "dsk s3 = (dsk s2)(c := view s2 a)"
    "hist s3 = hist s2 @ [(c, view s2 a)]" "frame s2 s3"
    by (rule copy_held [OF 2(3) refl 2(4) assms(2)])
  show thesis
    by (rule that [OF _ 3(2) _ _ _ frame_trans [OF 2(9) 3(6)]]) (use 2(1,2,6-8) 3(1,3-5) in simp_all)
qed

lemma copy_dst_first:
  assumes "cache Q Map.empty s" and "a \<noteq> c" and "room Q Map.empty c" and "\<And>b. room Q [b \<mapsto> c] a"
  obtains s' where "bindE (rd c s) (\<lambda>(y, s). bindE (rd a s) (\<lambda>(x, s).
      bindE (wr y (put y (dat x s) s)) (\<lambda>s. bindE (rel x s) (rel y)))) = Inr s'"
    "cache Q Map.empty s'" "view s' = (view s)(c := view s a)" "dsk s' = (dsk s)(c := view s a)"
    "hist s' = hist s @ [(c, view s a)]" "frame s s'"
proof -
  obtain y s1 x s2 where 2: "rd c s = Inr (y, s1)" "rd a s1 = Inr (x, s2)"
    "cache Q [y \<mapsto> c, x \<mapsto> a] s2" "y \<noteq> x" "\<forall>i. Q i = Some a \<longrightarrow> x = i"
    "view s2 = view s" "dsk s2 = dsk s" "hist s2 = hist s" "frame s s2"
    by (rule rd_two [OF assms(1) assms(2) [symmetric] assms(3,4)])
  have cl: "x \<in> dom Q \<or> view s2 a = dsk s2 a"
    using clean_if_read [OF assms(1) 2(5)] 2(6,7) by simp
  have e: "[y \<mapsto> c, x \<mapsto> a] = [x \<mapsto> a, y \<mapsto> c]"
    using 2(4) by (rule fun_upd_twist)
  obtain s3 where 3: "bindE (wr y (put y (dat x s2) s2)) (\<lambda>s. bindE (rel x s) (rel y)) = Inr s3"
    "cache Q Map.empty s3" "view s3 = (view s2)(c := view s2 a)" "dsk s3 = (dsk s2)(c := view s2 a)"
    "hist s3 = hist s2 @ [(c, view s2 a)]" "frame s2 s3"
    by (rule copy_held [OF 2(3) e 2(4) [symmetric] assms(2) cl])
  show thesis
    by (rule that [OF _ 3(2) _ _ _ frame_trans [OF 2(9) 3(6)]]) (use 2(1,2,6-8) 3(1,3-5) in simp_all)
qed

text \<open>The same for a pinned destination, which is unpinned once it is on the disk.\<close>

lemma copy_unpin:
  assumes "cache Q Map.empty s" and "a \<noteq> c" and "room Q Map.empty a" and "Q j = Some c" and "a \<notin> ran Q"
  obtains s' where "bindE (rd a s) (\<lambda>(x, s). bindE (rd c s) (\<lambda>(y, s).
      bindE (wr y (put y (dat x s) s)) (\<lambda>s. bindE (rel x (unpin y s)) (rel y)))) = Inr s'"
    "cache (Q(j := None)) Map.empty s'" "view s' = (view s)(c := view s a)" "dsk s' = (dsk s)(c := view s a)"
    "hist s' = hist s @ [(c, view s a)]" "frame s s'"
proof -
  have r: "room Q [b \<mapsto> a] c" for b
    using assms(4) by (auto simp: room_def ran_def)
  obtain x s1 y s2 where 2: "rd a s = Inr (x, s1)" "rd c s1 = Inr (y, s2)"
    "cache Q [x \<mapsto> a, y \<mapsto> c] s2" "x \<noteq> y" "\<forall>i. Q i = Some c \<longrightarrow> y = i"
    "view s2 = view s" "dsk s2 = dsk s" "hist s2 = hist s" "frame s s2"
    by (rule rd_two [OF assms(1-3) r])
  define H where "H = [x \<mapsto> a, y \<mapsto> c]"
  let ?Q = "Q(j := None)"
  have c2: "cache Q H s2"
    using 2(3) by (simp add: H_def)
  have H: "H x = Some a" "H y = Some c" "H(x := None) = [y \<mapsto> c]" "y = j"
    using 2(4,5) assms(4) by (auto simp: H_def fun_upd_idem fun_upd_twist)
  have d: "dat x s2 = view s a" "length (view s a) = BSIZE"
    using dat_held [OF c2 H(1)] 2(6) view_length [OF assms(1)] by simp_all
  let ?s3 = "put y (view s a) s2"
  have 3: "cache Q H ?s3" "view ?s3 = (view s)(c := view s a)" "dsk ?s3 = dsk s" "hist ?s3 = hist s"
    "frame s2 ?s3"
    using put_ok [OF c2 H(2) d(2)] 2(6-8) by auto
  obtain s4 where 4: "wr y ?s3 = Inr s4" "cache Q H s4" "view s4 = view ?s3"
    "dsk s4 = (dsk s)(c := view s a)" "hist s4 = hist s @ [(c, view s a)]" "frame ?s3 s4"
    using wr_ok [OF 3(1) H(2)] 3(2-4) by auto
  have 5: "cache ?Q H (unpin y s4)" "view (unpin y s4) = view s4" "dsk (unpin y s4) = dsk s4"
    "hist (unpin y s4) = hist s4" "frame s4 (unpin y s4)"
    using unpin_ok [OF 4(2) H(2)] H(4) assms(4) by auto
  have "view s a = dsk s a"
    using assms(5) by (intro unheld_clean [OF assms(1)]) simp_all
  then have "view (unpin y s4) a = dsk (unpin y s4) a"
    using 5(2,3) 4(3,4) 3(2) assms(2) by simp
  then obtain s6 where 6: "rel x (unpin y s4) = Inr s6" "cache ?Q [y \<mapsto> c] s6" "view s6 = view s4"
    "dsk s6 = dsk s4" "hist s6 = hist s4" "frame (unpin y s4) s6"
    using rel_ok [OF 5(1) H(1)] H(3) 5(2-4) by auto
  have "view s6 c = dsk s6 c"
    using 6(3,4) 4(3,4) 3(2) by simp
  then obtain s7 where 7: "rel y s6 = Inr s7" "cache ?Q Map.empty s7" "view s7 = view s6"
    "dsk s7 = dsk s6" "hist s7 = hist s6" "frame s6 s7"
    using rel_ok [OF 6(2), of y c] by (auto simp: fun_upd_idem)
  show thesis
    by (rule that [OF _ 7(2) _ _ _ frame_trans [OF 2(9) frame_trans [OF 3(5) frame_trans [OF 4(6)
          frame_trans [OF 5(5) frame_trans [OF 6(6) 7(6)]]]]]])
      (use 2(1,2) 3(2) 4(1,3-5) 6(1,3-5) 7(1,3-5) d in simp_all)
qed

end

section \<open>The buffer cache meets the contract\<close>

lemma cacheD:
  assumes "cache Q H s"
  shows "bcache_inv (dom Q) s" "Q i = Some c \<Longrightarrow> is_cached s c i" "H i = Some c \<Longrightarrow> holds_buf s i c"
    "locked_bufs s = dom H" "Q i = Some c \<Longrightarrow> i < NBUF" "H i = Some c \<Longrightarrow> i < NBUF"
  using assms by (auto simp: cache_def bcache_inv_def holds_buf_def)

lemma is_cached_unique:
  "bcache_inv P s \<Longrightarrow> i < NBUF \<Longrightarrow> j < NBUF \<Longrightarrow> is_cached s c i \<Longrightarrow> is_cached s c j \<Longrightarrow> i = j"
  using bcache_inv_unique [of P s i j] by (simp add: is_cached_def)

lemma is_cached_block: "is_cached s c i \<Longrightarrow> is_cached s d i \<Longrightarrow> c = d"
  by (simp add: is_cached_def)

lemma mypid_io_frame: "io_frame s s' \<Longrightarrow> cur s < length (procs s) \<Longrightarrow> mypid s' = mypid s"
  by (simp add: io_frame_def woken_sel)

lemma holds_buf_same:
  assumes "holds_buf s i c" and "bcache_inv P s" and "io_frame s s'"
    and "\<exists>p n. bufs s' ! i = (bufs s ! i)\<lparr>b_prev := p, b_next := n\<rparr>"
  shows "holds_buf s' i c"
  using assms mypid_io_frame [OF assms(3) bcache_invD(2) [OF assms(2)]]
  by (auto simp: holds_buf_def is_cached_def holdingsleep_def)

lemma no_link_change: "x = y \<Longrightarrow> \<exists>p n. x = (y :: buf)\<lparr>b_prev := p, b_next := n\<rparr>"
  by (rule exI [of _ "b_prev y"], rule exI [of _ "b_next y"]) simp

lemma cache_bread:
  assumes c: "cache Q H s" and h: "c \<notin> ran H" and r: "room Q H c"
  shows "\<exists>b s'. bread ROOTDEV c s = Inr (b, s') \<and> cache Q (H(b \<mapsto> c)) s' \<and> b \<notin> dom H \<and>
    (\<forall>i. Q i = Some c \<longrightarrow> b = i) \<and> (c \<notin> ran Q \<longrightarrow> b \<notin> dom Q) \<and>
    bview s' = bview s \<and> disk s' = disk s \<and> dwrites s' = dwrites s \<and> io_frame s s'"
proof -
  note C = cacheD [OF c]
  have "(\<exists>i<NBUF. is_cached s c i) \<or> \<not> {..<NBUF} \<subseteq> locked_bufs s \<union> dom Q"
    using r C(2,5) unfolding room_def ran_def C(4) by blast
  moreover have "b_blockno (bufs s ! i) \<noteq> c" if "i \<in> locked_bufs s" for i
    using that C(3,4) h by (force simp: holds_buf_def is_cached_def ran_def)
  ultimately obtain b s' where b: "bread ROOTDEV c s = Inr (b, s')"
    using bread_returns [OF C(1)] by metis
  note S = bread_spec [OF C(1) b]
  have f: "io_frame s s'"
    by (rule only_bufs_io_frame [OF S(5)])
  have b': "b < NBUF" "is_cached s' c b"
    using S(2) by (auto simp: holds_buf_def)
  have bH: "b \<notin> dom H"
    using S(6) C(3) by (auto simp: holds_buf_def holdingsleep_def)
  have q: "is_cached s' d i" if "Q i = Some d" for i d
  proof (cases "i = b")
    case True
    have "b_dev (bufs s ! b) = ROOTDEV \<and> b_blockno (bufs s ! b) = c"
      using bread_shape [OF C(1) b] that True by blast
    then show ?thesis
      using b'(2) C(2) [OF that] True by (auto simp: is_cached_def)
  next
    case False
    then show ?thesis
      using S(7) C(2) [OF that] by (simp add: is_cached_def)
  qed
  have "holds_buf s' i d" if "(H(b \<mapsto> c)) i = Some d" for i d
  proof (cases "i = b")
    case False
    then show ?thesis
      using that holds_buf_same [OF C(3) C(1) f no_link_change [OF S(7) [OF False]]] by simp
  qed (use that S(2) in simp)
  moreover have "locked_bufs s' = insert b (locked_bufs s)"
  proof -
    have "sl_locked (b_lock (bufs s' ! i)) = (i = b \<or> sl_locked (b_lock (bufs s ! i)))" for i
      using S(2) S(7) [of i] by (cases "i = b") (auto simp: holds_buf_def holdingsleep_def)
    then show ?thesis
      using b'(1) by (auto simp: locked_bufs_def)
  qed
  ultimately have "cache Q (H(b \<mapsto> c)) s'"
    using S(1) q C(4) by (auto simp: cache_def)
  moreover have "b = i" if "Q i = Some c" for i
    using is_cached_unique [OF S(1) b'(1) C(5) [OF that] b'(2) q [OF that]] .
  moreover have "b \<notin> dom Q" if "c \<notin> ran Q"
    using that q b'(2) is_cached_block by (fastforce simp: ran_def)
  ultimately show ?thesis
    using b S(4) only_bufs_sel(1,2) [OF S(5)] bH f by blast
qed

lemma cache_put:
  assumes c: "cache Q H s" and b: "H b = Some c" and d: "length d = BSIZE"
  shows "cache Q H (set_data b d s) \<and> bview (set_data b d s) = (bview s)(c := d) \<and>
    disk (set_data b d s) = disk s \<and> dwrites (set_data b d s) = dwrites s \<and> io_frame s (set_data b d s)"
proof -
  note C = cacheD [OF c]
  note S = set_data_spec [OF C(1) C(3) [OF b] d]
  have l: "b < length (bufs s)"
    using holds_bufD(2) [OF C(1) C(3) [OF b]] .
  have "holds_buf (set_data b d s) i e" if "H i = Some e" for i e
    using C(3) [OF that] l
    by (cases "i = b") (auto simp: holds_buf_def is_cached_def holdingsleep_def set_data_def)
  moreover have "is_cached (set_data b d s) e i = is_cached s e i" for e i
    using l by (cases "i = b") (auto simp: is_cached_def set_data_def)
  moreover have "sl_locked (b_lock (bufs (set_data b d s) ! i)) = sl_locked (b_lock (bufs s ! i))" for i
    using l by (cases "i = b") (auto simp: set_data_def)
  then have "locked_bufs (set_data b d s) = locked_bufs s"
    by (simp add: locked_bufs_def)
  ultimately have "cache Q H (set_data b d s)"
    using S(1) C(2,4) by (auto simp: cache_def)
  then show ?thesis
    using S(3) only_bufs_sel(1,2) [OF S(4)] only_bufs_io_frame [OF S(4)] by blast
qed

lemma cache_wr:
  assumes c: "cache Q H s" and b: "H b = Some c"
  shows "\<exists>s'. bwrite b s = Inr s' \<and> cache Q H s' \<and> bview s' = bview s \<and>
    disk s' = (disk s)(c := bview s c) \<and> dwrites s' = dwrites s @ [(c, bview s c)] \<and> io_frame s s'"
proof -
  note C = cacheD [OF c]
  note S = bwrite_spec [OF C(1) C(3) [OF b]]
  let ?s = "s\<lparr>disk := (disk s)(c := bview s c), dwrites := dwrites s @ [(c, bview s c)]\<rparr>"
  have "cache Q H ?s"
    using S(2) C
    by (auto simp: cache_def is_cached_def holds_buf_def holdingsleep_def mypid_def myproc_def locked_bufs_def)
  then show ?thesis
    using S by (auto simp: io_frame_def woken_def)
qed

text \<open>Pinning and unpinning only change the reference count of the buffer.\<close>

lemma cache_refcnt:
  assumes c: "cache Q H s" and b: "H b = Some c" and Q: "Q' = Q(b := v)" "v = None \<or> v = Some c"
    and s': "s' = upd_buf b (\<lambda>x. x\<lparr>b_refcnt := f x\<rparr>) s" and I: "bcache_inv (dom Q') s'"
  shows "cache Q' H s'"
proof -
  note C = cacheD [OF c]
  have l: "b < length (bufs s)"
    using holds_bufD(2) [OF C(1) C(3) [OF b]] .
  have cc: "is_cached s' e i = is_cached s e i" for e i
    using l by (cases "i = b") (auto simp: is_cached_def s')
  have "holds_buf s' i e" if "H i = Some e" for i e
    using C(3) [OF that] l
    by (cases "i = b") (auto simp: holds_buf_def is_cached_def holdingsleep_def s')
  moreover have "sl_locked (b_lock (bufs s' ! i)) = sl_locked (b_lock (bufs s ! i))" for i
    using l by (cases "i = b") (auto simp: s')
  then have "locked_bufs s' = locked_bufs s"
    by (simp add: locked_bufs_def)
  moreover have "is_cached s' e i" if "Q' i = Some e" for i e
    using that C(2) C(3) [OF b] Q cc by (auto simp: holds_buf_def split: if_splits)
  ultimately show ?thesis
    using I C(4) by (auto simp: cache_def)
qed

lemma cache_pin:
  assumes c: "cache Q H s" and b: "H b = Some c" and "b \<notin> dom Q"
  shows "cache (Q(b \<mapsto> c)) H (bpin b s) \<and> bview (bpin b s) = bview s \<and>
    disk (bpin b s) = disk s \<and> dwrites (bpin b s) = dwrites s \<and> io_frame s (bpin b s)"
proof -
  note S = bpin_spec [OF cacheD(1) [OF c] cacheD(3) [OF c b] assms(3)]
  have "cache (Q(b \<mapsto> c)) H (bpin b s)"
    by (rule cache_refcnt [OF c b refl _ bpin_def]) (use S(1) in simp_all)
  then show ?thesis
    using S(3) only_bufs_sel(1,2) [OF S(4)] only_bufs_io_frame [OF S(4)] by blast
qed

lemma cache_unpin:
  assumes c: "cache Q H s" and b: "H b = Some c" and "b \<in> dom Q"
  shows "cache (Q(b := None)) H (bunpin b s) \<and> bview (bunpin b s) = bview s \<and>
    disk (bunpin b s) = disk s \<and> dwrites (bunpin b s) = dwrites s \<and> io_frame s (bunpin b s)"
proof -
  note S = bunpin_spec [OF cacheD(1) [OF c] cacheD(3) [OF c b] assms(3)]
  have "cache (Q(b := None)) H (bunpin b s)"
    by (rule cache_refcnt [OF c b refl _ bunpin_def]) (use S(1) in simp_all)
  then show ?thesis
    using S(3) only_bufs_sel(1,2) [OF S(4)] only_bufs_io_frame [OF S(4)] by blast
qed

lemma cache_rel:
  assumes c: "cache Q H s" and b: "H b = Some c" and d: "b \<in> dom Q \<or> bview s c = disk s c"
  shows "\<exists>s'. brelse b s = Inr s' \<and> cache Q (H(b := None)) s' \<and> bview s' = bview s \<and>
    disk s' = disk s \<and> dwrites s' = dwrites s \<and> io_frame s s'"
proof -
  note C = cacheD [OF c]
  note B = holds_bufD [OF C(1) C(3) [OF b]]
  obtain s' where s': "brelse b s = Inr s'" "bcache_inv (dom Q) s'" "bview s' = bview s" "only_bufs s s'"
    and L: "same_but_links ((bufs s)[b := (bufs s ! b)\<lparr>b_lock := \<lparr>sl_locked = False, sl_pid = 0\<rparr>,
       b_refcnt := of_bool (b \<in> dom Q)\<rparr>]) (bufs s')"
    using brelse_spec [OF C(1) C(3) [OF b] d] .
  have len: "length (bufs s) = Suc NBUF"
    using bcache_invD(1) [OF C(1)] .
  have f: "io_frame s s'"
    by (rule only_bufs_io_frame [OF s'(4)])
  have n: "\<exists>p n. bufs s' ! i = (bufs s ! i)\<lparr>b_prev := p, b_next := n\<rparr>" if "i < NBUF" "i \<noteq> b" for i
    by (rule same_but_linksE [OF L, of i]) (use that len in auto)
  have cc: "is_cached s' e i = is_cached s e i" if "i < NBUF" for i e
    by (rule same_but_linksE [OF L, of i], use that len in simp)
      (use that len in \<open>cases "i = b"; simp add: is_cached_def\<close>)
  have "holds_buf s' i e" if "(H(b := None)) i = Some e" for i e
  proof -
    have "H i = Some e" "i \<noteq> b"
      using that by (auto split: if_splits)
    then show ?thesis
      using holds_buf_same [OF C(3) C(1) f n] C(6) by blast
  qed
  moreover have "locked_bufs s' = dom (H(b := None))"
    using locked_bufs_links [OF B(2) len L] C(4) by auto
  moreover have "is_cached s' e i" if "Q i = Some e" for i e
    using cc C(2,5) that by blast
  ultimately have "cache Q (H(b := None)) s'"
    using s'(2) by (simp add: cache_def)
  then show ?thesis
    using s' only_bufs_sel(1,2) [OF s'(4)] f by blast
qed

lemma cache_clean:
  assumes c: "cache Q H s" and "c \<notin> ran H" and "c \<notin> ran Q"
  shows "bview s c = disk s c"
proof -
  note C = cacheD [OF c]
  show ?thesis
  proof (cases "\<exists>i<NBUF. is_cached s c i")
    case True
    then obtain i where i: "i < NBUF" "is_cached s c i"
      by blast
    have "i \<notin> dom Q"
      using assms(3) C(2) i(2) is_cached_block by (metis domD ranI)
    moreover have "i \<notin> dom H"
      using assms(2) C(3) i(2) is_cached_block by (metis domD ranI holds_buf_def)
    then have "\<not> sl_locked (b_lock (bufs s ! i))"
      using C(4) i(1) by (auto simp: locked_bufs_def)
    ultimately show ?thesis
      using bcache_invD(4) [OF C(1) i(1)] bview_cached [OF C(1) i] i(2)
      by (auto simp: buf_ok_def Let_def is_cached_def)
  qed (use bview_not_cached in auto)
qed

interpretation bc: block_cache cache bview disk dwrites io_frame buf_data "bread ROOTDEV" set_data
  bwrite bpin bunpin brelse
proof unfold_locales
  fix Q H :: "nat \<rightharpoonup> u32" and s :: "'a bstate_scheme" and b c
  assume c: "cache Q H s" and b: "H b = Some c"
  show "buf_data b s = bview s c"
    using holds_bufD(7) [OF cacheD(1) [OF c] cacheD(3) [OF c b]] by (simp add: buf_data_def)
next
  fix Q H :: "nat \<rightharpoonup> u32" and s :: "'a bstate_scheme" and i j c
  assume c: "cache Q H s" and i: "Q i = Some c" "Q j = Some c"
  then show "i = j"
    using is_cached_unique [OF cacheD(1) [OF c]] cacheD(2,5) [OF c] by blast
qed (rule io_frame_refl | erule (1) io_frame_trans | erule length_bview [OF cacheD(1)] |
    erule (2) cache_bread cache_put cache_pin cache_unpin cache_rel | erule (1) cache_wr | erule (2) cache_clean)+

lemma cache_boot:
  assumes "bufs s = replicate (Suc NBUF) bss_buf" and "cur s < length (procs s)"
    and "\<And>bno. length (disk s bno) = BSIZE"
  shows "cache Map.empty Map.empty (binit s)" "bview (binit s) = disk s" "disk (binit s) = disk s"
    "dwrites (binit s) = dwrites s" "io_frame s (binit s)"
  using binit_inv [OF assms] only_bufs_sel(1,2) [OF only_bufs_binit [of s]]
    only_bufs_io_frame [OF only_bufs_binit [of s]] by (simp_all add: cache_def)

end
