(* ===== verification/Log.thy ===== *)
theory Log
  imports Bcache
begin

text \<open>
  The write-ahead log of \<open>kernel/log.c\<close>, and its crash safety: whenever the machine stops
  during a commit or a recovery, the next recovery leaves the disk with either all of the
  transaction or nothing of it.

  The header block is kept in the buffer as bytes, in the layout of \<open>struct logheader\<close>.
  Block numbers are the 32-bit patterns that the code stores in \<open>int block[]\<close>.
\<close>

section \<open>Structures\<close>

definition MAXOPBLOCKS :: nat where
  "MAXOPBLOCKS = 10"

definition LOGSIZE :: nat where
  "LOGSIZE = MAXOPBLOCKS * 3"

record superblock =
  sb_magic :: u32
  sb_size :: u32
  sb_nblocks :: u32
  sb_ninodes :: u32
  sb_nlog :: u32
  sb_logstart :: u32
  sb_inodestart :: u32
  sb_bmapstart :: u32

record logheader =
  lh_n :: u32
  lh_block :: "u32 list"

record log =
  log_start :: u32
  log_size :: u32
  log_outstanding :: int
  log_committing :: bool
  log_dev :: u32
  log_lh :: logheader

record lstate = bstate +
  thelog :: log

definition upd_log :: "(log \<Rightarrow> log) \<Rightarrow> 'a lstate_scheme \<Rightarrow> 'a lstate_scheme" where
  "upd_log f s = s\<lparr>thelog := f (thelog s)\<rparr>"

definition upd_lh :: "(logheader \<Rightarrow> logheader) \<Rightarrow> 'a lstate_scheme \<Rightarrow> 'a lstate_scheme" where
  "upd_lh f s = upd_log (\<lambda>l. l\<lparr>log_lh := f (log_lh l)\<rparr>) s"

text \<open>The rounds of a loop \<open>for (i = 0; i < log.lh.n; i++)\<close>: \<open>n\<close> is a signed integer.\<close>

definition lh_count :: "'a lstate_scheme \<Rightarrow> nat" where
  "lh_count s = nat (sint (lh_n (log_lh (thelog s))))"

section \<open>Operations\<close>

text \<open>
  \<open>install_trans\<close>: one round of its loop, and the loop. The array \<open>block\<close> has
  \<open>LOGSIZE\<close> entries; going beyond it is \<^term>\<open>Fault\<close>.
\<close>

definition install_block :: "bool \<Rightarrow> nat \<Rightarrow> 'a lstate_scheme \<Rightarrow> 'a lstate_scheme res" where
  "install_block recovering tail s =
     (let l = thelog s in
      bindE (bread (log_dev l) (log_start l + of_nat tail + 1) s) (\<lambda>(lbuf, s).
      if LOGSIZE \<le> tail then Inl Fault else
      bindE (bread (log_dev l) (lh_block (log_lh l) ! tail) s) (\<lambda>(dbuf, s).
      bindE (bwrite dbuf (set_data dbuf (buf_data lbuf s) s)) (\<lambda>s.
      let s = (if \<not> recovering then bunpin dbuf s else s) in
      bindE (brelse lbuf s) (brelse dbuf)))))"

definition install_trans :: "bool \<Rightarrow> 'a lstate_scheme \<Rightarrow> 'a lstate_scheme res" where
  "install_trans recovering s = foreach (install_block recovering) [0..<lh_count s] s"

definition read_head :: "'a lstate_scheme \<Rightarrow> 'a lstate_scheme res" where
  "read_head s =
     bindE (bread (log_dev (thelog s)) (log_start (thelog s)) s) (\<lambda>(b, s).
     let d = buf_data b s;
         s = upd_lh (\<lambda>h. h\<lparr>lh_n := get32 0 d\<rparr>) s in
     if LOGSIZE < lh_count s then Inl Fault
     else
       (let s = upd_lh (\<lambda>h. h\<lparr>lh_block := fold (\<lambda>i bl. bl[i := get32 (4 + 4 * i) d])
                 [0..<lh_count s] (lh_block h)\<rparr>) s
        in brelse b s))"

definition put_head :: "logheader \<Rightarrow> u8 list \<Rightarrow> u8 list" where
  "put_head h d = fold (\<lambda>i. put32 (4 + 4 * i) (lh_block h ! i)) [0..<nat (sint (lh_n h))]
     (put32 0 (lh_n h) d)"

definition write_head :: "'a lstate_scheme \<Rightarrow> 'a lstate_scheme res" where
  "write_head s =
     bindE (bread (log_dev (thelog s)) (log_start (thelog s)) s) (\<lambda>(b, s).
     if LOGSIZE < lh_count s then Inl Fault
     else bindE (bwrite b (set_data b (put_head (log_lh (thelog s)) (buf_data b s)) s)) (brelse b))"

definition recover_from_log :: "'a lstate_scheme \<Rightarrow> 'a lstate_scheme res" where
  "recover_from_log s =
     bindE (read_head s) (\<lambda>s.
     bindE (install_trans True s) (\<lambda>s.
     write_head (upd_lh (\<lambda>h. h\<lparr>lh_n := 0\<rparr>) s)))"

text \<open>The size check of \<open>initlog\<close> compares constants: a header takes \<open>4 + 4 * LOGSIZE\<close> bytes.\<close>

definition initlog :: "u32 \<Rightarrow> superblock \<Rightarrow> 'a lstate_scheme \<Rightarrow> 'a lstate_scheme res" where
  "initlog dev sb s =
     (if BSIZE \<le> 4 + 4 * LOGSIZE then Inl (Panic ''initlog: too big logheader'')
      else recover_from_log (upd_log (\<lambda>l. l\<lparr>log_start := sb_logstart sb, log_size := sb_nlog sb,
             log_dev := dev\<rparr>) s))"

text \<open>\<open>write_log\<close>: one round of its loop, and the loop.\<close>

definition log_block :: "nat \<Rightarrow> 'a lstate_scheme \<Rightarrow> 'a lstate_scheme res" where
  "log_block tail s =
     (let l = thelog s in
      bindE (bread (log_dev l) (log_start l + of_nat tail + 1) s) (\<lambda>(to, s).
      if LOGSIZE \<le> tail then Inl Fault else
      bindE (bread (log_dev l) (lh_block (log_lh l) ! tail) s) (\<lambda>(from, s).
      bindE (bwrite to (set_data to (buf_data from s) s)) (\<lambda>s.
      bindE (brelse from s) (brelse to)))))"

definition write_log :: "'a lstate_scheme \<Rightarrow> 'a lstate_scheme res" where
  "write_log s = foreach log_block [0..<lh_count s] s"

definition commit :: "'a lstate_scheme \<Rightarrow> 'a lstate_scheme res" where
  "commit s =
     (if 0 < sint (lh_n (log_lh (thelog s))) then
        bindE (write_log s) (\<lambda>s.
        bindE (write_head s) (\<lambda>s.
        bindE (install_trans False s) (\<lambda>s.
        write_head (upd_lh (\<lambda>h. h\<lparr>lh_n := 0\<rparr>) s))))
      else Inr s)"

text \<open>
  \<open>log_write\<close>. The loop stops at the first entry with the block number of the buffer, or
  at \<open>n\<close>; the panic before it leaves \<open>n < LOGSIZE\<close>.
\<close>

definition log_write :: "nat \<Rightarrow> 'a lstate_scheme \<Rightarrow> 'a lstate_scheme res" where
  "log_write b s =
     (let l = thelog s; n = sint (lh_n (log_lh l)) in
      if int LOGSIZE \<le> n \<or> sint (log_size l) - 1 \<le> n then Inl (Panic ''too big a transaction'')
      else if log_outstanding l < 1 then Inl (Panic ''log_write outside of trans'')
      else
        (let i = (case List.find (\<lambda>i. lh_block (log_lh l) ! i = b_blockno (bufs s ! b)) [0..<nat n] of
                    Some i \<Rightarrow> i | None \<Rightarrow> nat n);
             s = upd_lh (\<lambda>h. h\<lparr>lh_block := (lh_block h)[i := b_blockno (bufs s ! b)]\<rparr>) s
         in if int i = n then Inr (upd_lh (\<lambda>h. h\<lparr>lh_n := lh_n h + 1\<rparr>) (bpin b s))
            else Inr s))"

text \<open>\<open>begin_op\<close>: the thread sleeps on the log and tries again, or goes on.\<close>

definition begin_op :: "'a lstate_scheme \<Rightarrow> 'a lstate_scheme res" where
  "begin_op s =
     (let l = thelog s in
      if log_committing l then Inl (Sleep Chan_log)
      else if sint (lh_n (log_lh l)) + (log_outstanding l + 1) * int MAXOPBLOCKS > int LOGSIZE
      then Inl (Sleep Chan_log)
      else Inr (upd_log (\<lambda>l. l\<lparr>log_outstanding := log_outstanding l + 1\<rparr>) s))"

definition end_op :: "'a lstate_scheme \<Rightarrow> 'a lstate_scheme res" where
  "end_op s =
     (let s = upd_log (\<lambda>l. l\<lparr>log_outstanding := log_outstanding l - 1\<rparr>) s in
      if log_committing (thelog s) then Inl (Panic ''log.committing'')
      else if log_outstanding (thelog s) = 0 then
        bindE (commit (upd_log (\<lambda>l. l\<lparr>log_committing := True\<rparr>) s)) (\<lambda>s.
        Inr (wakeup Chan_log (upd_log (\<lambda>l. l\<lparr>log_committing := False\<rparr>) s)))
      else Inr (wakeup Chan_log s))"

section \<open>Sequences of disk writes\<close>

definition apply_writes :: "(u32 \<times> u8 list) list \<Rightarrow> (u32 \<Rightarrow> u8 list) \<Rightarrow> u32 \<Rightarrow> u8 list" where
  "apply_writes ws D = fold (\<lambda>(c, d) D. D(c := d)) ws D"

lemma apply_writes_simps [simp]:
  "apply_writes [] D = D" "apply_writes ((c, d) # ws) D = apply_writes ws (D(c := d))"
  "apply_writes (vs @ ws) D = apply_writes ws (apply_writes vs D)"
  by (simp_all add: apply_writes_def)

lemma apply_writes_other: "c \<notin> fst ` set ws \<Longrightarrow> apply_writes ws D c = D c"
  by (induction ws arbitrary: D) auto

lemma apply_writes_nth:
  assumes "distinct (map fst ws)" and "i < length ws"
  shows "apply_writes ws D (fst (ws ! i)) = snd (ws ! i)"
  using assms
proof (induction ws arbitrary: D i)
  case (Cons w ws)
  obtain c d where w: "w = (c, d)"
    by fastforce
  show ?case
  proof (cases i)
    case 0
    then show ?thesis
      using Cons.prems w by (simp add: apply_writes_other)
  next
    case (Suc j)
    then show ?thesis
      using Cons w by simp
  qed
qed simp

text \<open>
  A run that did the writes \<open>ws\<close>: each of them went to the cached block and to the disk.
\<close>

definition io_run :: "(u32 \<times> u8 list) list \<Rightarrow> 'a bstate_scheme \<Rightarrow> 'a bstate_scheme \<Rightarrow> bool" where
  "io_run ws s s' \<longleftrightarrow> bview s' = apply_writes ws (bview s) \<and> disk s' = apply_writes ws (disk s) \<and>
     dwrites s' = dwrites s @ ws \<and> io_frame s s'"

lemma io_run_refl [simp]: "io_run [] s s"
  by (simp add: io_run_def)

lemma io_run_trans: "io_run vs s t \<Longrightarrow> io_run ws t u \<Longrightarrow> io_run (vs @ ws) s u"
  by (auto simp: io_run_def intro: io_frame_trans)

lemma thelog_more:
  fixes s s' :: "'a lstate_scheme"
  assumes "bstate.more s' = bstate.more s"
  shows "thelog s' = thelog s" "lstate.more s' = lstate.more s"
  using assms by (cases s; cases s'; simp)+

lemma thelog_io_run: "io_run ws s s' \<Longrightarrow> thelog s' = thelog s"
  unfolding io_run_def io_frame_def by (blast intro: thelog_more(1))

section \<open>The log region and the header\<close>

text \<open>The header is block \<open>st\<close>, the log blocks follow it.\<close>

definition in_log :: "u32 \<Rightarrow> u32 \<Rightarrow> bool" where
  "in_log st c \<longleftrightarrow> unat (c - st) < LOGSIZE"

lemma LOGSIZE_pos [simp]: "0 < LOGSIZE"
  by (simp add: LOGSIZE_def MAXOPBLOCKS_def)

lemma in_log_start [simp]: "in_log st st"
  by (simp add: in_log_def LOGSIZE_def MAXOPBLOCKS_def)

lemma in_log_block: "Suc i < LOGSIZE \<Longrightarrow> in_log st (st + of_nat i + 1)"
proof -
  assume i: "Suc i < LOGSIZE"
  have "st + of_nat i + 1 - st = (of_nat (Suc i) :: u32)"
    by simp
  moreover have "unat (of_nat (Suc i) :: u32) = Suc i"
    using i by (intro unat_of_nat_lt) (simp add: LOGSIZE_def MAXOPBLOCKS_def)
  ultimately show ?thesis
    unfolding in_log_def using i by (metis Suc_leI)
qed

lemma log_block_inj:
  assumes "i < LOGSIZE" and "j < LOGSIZE" and "st + of_nat i + 1 = st + of_nat j + (1 :: u32)"
  shows "i = j"
proof -
  have "(of_nat i :: u32) = of_nat j"
    using assms(3) by simp
  moreover have "i < 2 ^ LENGTH(32)" "j < 2 ^ LENGTH(32)"
    using assms by (simp_all add: LOGSIZE_def MAXOPBLOCKS_def)
  ultimately show ?thesis
    by (metis unat_of_nat_lt)
qed

lemma log_block_not_start: "i < LOGSIZE \<Longrightarrow> st + of_nat i + 1 \<noteq> (st :: u32)"
proof
  assume i: "i < LOGSIZE" and e: "st + of_nat i + 1 = st"
  have "(of_nat (Suc i) :: u32) = st + of_nat i + 1 - st"
    by simp
  then have "(of_nat (Suc i) :: u32) = 0"
    unfolding e by simp
  moreover have "unat (of_nat (Suc i) :: u32) = Suc i"
    using i by (intro unat_of_nat_lt) (simp add: LOGSIZE_def MAXOPBLOCKS_def)
  ultimately show False
    by simp
qed

definition hdr_n :: "u8 list \<Rightarrow> nat" where
  "hdr_n d = nat (sint (get32 0 d))"

definition hdr_blocks :: "u8 list \<Rightarrow> u32 list" where
  "hdr_blocks d = map (\<lambda>i. get32 (4 + 4 * i) d) [0..<hdr_n d]"

lemma length_hdr_blocks [simp]: "length (hdr_blocks d) = hdr_n d"
  by (simp add: hdr_blocks_def)

lemma LOGSIZE_BSIZE: "4 + 4 * LOGSIZE \<le> BSIZE"
  by (simp add: LOGSIZE_def MAXOPBLOCKS_def BSIZE_def)

lemma fold_list_update:
  "n \<le> length xs \<Longrightarrow> fold (\<lambda>i ys. ys[i := f i]) [0..<n] xs = map f [0..<n] @ drop n xs"
  by (induction n) (simp_all add: list_update_append upd_conv_take_nth_drop Cons_nth_drop_Suc [symmetric])

lemma fold_put32:
  fixes f :: "nat \<Rightarrow> u32"
  assumes "length d = BSIZE" and "k \<le> LOGSIZE"
  defines "e \<equiv> fold (\<lambda>i. put32 (4 + 4 * i) (f i)) [0..<k] d"
  shows "length e = BSIZE \<and> get32 0 e = get32 0 d \<and> (\<forall>i<k. get32 (4 + 4 * i) e = f i)"
  using assms(2) unfolding e_def
proof (induction k)
  case (Suc k)
  have "4 + 4 * k + 4 \<le> BSIZE"
    using Suc.prems LOGSIZE_BSIZE by simp
  then show ?case
    using Suc by (auto simp: get_put_disjoint less_Suc_eq)
qed (use assms(1) in simp)

lemma put_head_spec:
  assumes "length d = BSIZE" and "nat (sint (lh_n h)) \<le> LOGSIZE" and "length (lh_block h) = LOGSIZE"
  shows "length (put_head h d) = BSIZE" and "hdr_n (put_head h d) = nat (sint (lh_n h))"
    and "hdr_blocks (put_head h d) = take (nat (sint (lh_n h))) (lh_block h)"
proof -
  have d: "length (put32 0 (lh_n h) d) = BSIZE"
    using assms(1) by (simp add: BSIZE_def)
  have F: "length (put_head h d) = BSIZE" "get32 0 (put_head h d) = get32 0 (put32 0 (lh_n h) d)"
    "\<forall>i<nat (sint (lh_n h)). get32 (4 + 4 * i) (put_head h d) = lh_block h ! i"
    using fold_put32 [OF d assms(2), where f = "(!) (lh_block h)"] by (simp_all add: put_head_def)
  show "length (put_head h d) = BSIZE"
    by (rule F(1))
  show n: "hdr_n (put_head h d) = nat (sint (lh_n h))"
    using F(2) assms(1) by (simp add: hdr_n_def BSIZE_def)
  show "hdr_blocks (put_head h d) = take (nat (sint (lh_n h))) (lh_block h)"
    using F(3) assms(2,3) by (intro nth_equalityI) (simp_all add: n hdr_blocks_def)
qed

lemma hdr_n_zero: "length d = BSIZE \<Longrightarrow> lh_n h = 0 \<Longrightarrow> hdr_n (put_head h d) = 0"
  by (simp add: put_head_def hdr_n_def BSIZE_def)

section \<open>Steps of the log\<close>

lemma upd_log_bstate [simp]:
  "bufs (upd_log f s) = bufs s" "disk (upd_log f s) = disk s" "dwrites (upd_log f s) = dwrites s"
  "procs (upd_log f s) = procs s" "cur (upd_log f s) = cur s" "thelog (upd_log f s) = f (thelog s)"
  "mypid (upd_log f s) = mypid s"
  by (simp_all add: upd_log_def mypid_def myproc_def)

lemma bview_cong:
  fixes s :: "'a bstate_scheme" and s' :: "'b bstate_scheme"
  assumes "bufs s' = bufs s" and "disk s' = disk s"
  shows "bview s' = bview s"
  by (rule ext) (simp add: bview_def is_cached_def [abs_def] assms cong: option.case_cong)

lemma cache_cong:
  fixes s :: "'a bstate_scheme" and s' :: "'b bstate_scheme"
  assumes "bufs s' = bufs s" and "disk s' = disk s" and "procs s' = procs s" and "cur s' = cur s"
  shows "cache Q H s' = cache Q H s"
  using assms by (simp add: cache_def bcache_inv_def buf_ok_def holds_buf_def is_cached_def
      holdingsleep_def mypid_def myproc_def locked_bufs_def)

lemma cache_upd_log [simp]: "cache Q H (upd_log f s) = cache Q H s" "bview (upd_log f s) = bview s"
  by (rule cache_cong bview_cong; simp)+

lemma cache_upd_lh [simp]: "cache Q H (upd_lh f s) = cache Q H s" "bview (upd_lh f s) = bview s"
  by (simp_all add: upd_lh_def)

lemma upd_lh_sel [simp]:
  "bufs (upd_lh f s) = bufs s" "disk (upd_lh f s) = disk s" "dwrites (upd_lh f s) = dwrites s"
  "procs (upd_lh f s) = procs s" "cur (upd_lh f s) = cur s"
  "thelog (upd_lh f s) = (thelog s)\<lparr>log_lh := f (log_lh (thelog s))\<rparr>"
  by (simp_all add: upd_lh_def)

text \<open>What the code needs of the in-memory log for its loops to stay in bounds.\<close>

definition log_wf :: "log \<Rightarrow> bool" where
  "log_wf l \<longleftrightarrow> log_dev l = ROOTDEV \<and> length (lh_block (log_lh l)) = LOGSIZE \<and>
     sint (lh_n (log_lh l)) \<le> int LOGSIZE"

lemma log_wf_count: "log_wf (thelog s) \<Longrightarrow> lh_count s \<le> LOGSIZE"
  by (simp add: log_wf_def lh_count_def nat_le_iff)

lemma room_free: "\<not> {..<NBUF} \<subseteq> dom Q \<Longrightarrow> room Q Map.empty c"
  by (simp add: room_def)

lemma room_empty: "room Map.empty [b \<mapsto> a] c"
proof -
  have "\<not> {..<NBUF} \<subseteq> {b}"
  proof
    assume "{..<NBUF} \<subseteq> {b}"
    then have "card {..<NBUF} \<le> card {b}"
      by (intro card_mono) auto
    then show False
      by (simp add: NBUF_def)
  qed
  then show ?thesis
    by (simp add: room_def)
qed

lemma read_thelog:
  assumes "cache Q Map.empty s" and "room Q Map.empty c" and "bread ROOTDEV c s = Inr (b, t)"
  shows "thelog t = thelog s"
  using bc.rd_ok [OF assms(1) _ assms(2)] assms(3) thelog_more(1)
  by (auto simp: io_frame_def)

lemma write_head_ok:
  assumes "cache Q Map.empty s" and "log_wf (thelog s)" and "\<not> {..<NBUF} \<subseteq> dom Q"
    and "log_start (thelog s) \<notin> ran Q"
  obtains s' where "write_head s = Inr s'" "cache Q Map.empty s'"
    "io_run [(log_start (thelog s), put_head (log_lh (thelog s)) (bview s (log_start (thelog s))))] s s'"
proof -
  let ?c = "log_start (thelog s)" and ?f = "put_head (log_lh (thelog s))"
  have r: "room Q Map.empty ?c"
    using assms(3) by (rule room_free)
  have l: "length (?f (bview s ?c)) = BSIZE"
    using bc.view_length [OF assms(1)] assms(2)
    by (intro put_head_spec) (auto simp: log_wf_def nat_le_iff)
  have "write_head s = bindE (bread ROOTDEV ?c s) (\<lambda>(b, s).
      bindE (bwrite b (set_data b (?f (buf_data b s)) s)) (brelse b))"
  proof -
    obtain b t where t: "bread ROOTDEV ?c s = Inr (b, t)"
      using bc.rd_ok [OF assms(1) _ r] by auto
    then have "thelog t = thelog s"
      by (rule read_thelog [OF assms(1) r])
    then show ?thesis
      using t assms(2) log_wf_count [OF assms(2)] by (simp add: write_head_def log_wf_def lh_count_def)
  qed
  then show thesis
    using bc.rewrite_block [where f = ?f, OF assms(1) r assms(4) l] that by (auto simp: io_run_def)
qed

text \<open>What log operations leave alone.\<close>

definition log_frame :: "'a lstate_scheme \<Rightarrow> 'a lstate_scheme \<Rightarrow> bool" where
  "log_frame s s' \<longleftrightarrow> woken s s' \<and> mem s' = mem s \<and> freelist s' = freelist s \<and> kend s' = kend s \<and>
     initproc s' = initproc s \<and> nextpid s' = nextpid s \<and> lstate.more s' = lstate.more s"

lemma log_frame_refl [simp]: "log_frame s s"
  by (simp add: log_frame_def)

lemma log_frame_trans: "log_frame s t \<Longrightarrow> log_frame t u \<Longrightarrow> log_frame s u"
  by (auto simp: log_frame_def intro: woken_trans)

lemma log_frame_io: "io_frame s s' \<Longrightarrow> log_frame s s'"
  unfolding io_frame_def log_frame_def by (blast intro: thelog_more(2))

lemma log_frame_run: "io_run ws s s' \<Longrightarrow> log_frame s s'"
  by (rule log_frame_io) (simp add: io_run_def)

lemma log_frame_upd_log [simp]: "log_frame s (upd_log f s)" "log_frame s (upd_lh g s)"
  by (simp_all add: log_frame_def woken_def upd_lh_def) (simp_all add: upd_log_def)

lemma read_head_ok:
  assumes c: "cache Map.empty Map.empty s" and l: "log_dev (thelog s) = ROOTDEV"
    "length (lh_block (log_lh (thelog s))) = LOGSIZE"
  defines "d \<equiv> bview s (log_start (thelog s))"
  assumes n: "hdr_n d \<le> LOGSIZE"
  obtains s' where "read_head s = Inr s'" "cache Map.empty Map.empty s'" "bview s' = bview s"
    "disk s' = disk s" "dwrites s' = dwrites s" "log_frame s s'"
    "thelog s' = (thelog s)\<lparr>log_lh := \<lparr>lh_n = get32 0 d,
       lh_block = hdr_blocks d @ drop (hdr_n d) (lh_block (log_lh (thelog s)))\<rparr>\<rparr>"
proof -
  let ?st = "log_start (thelog s)"
  have r: "room Map.empty Map.empty ?st"
    using free_buf by (simp add: room_def)
  obtain b t where t: "bread ROOTDEV ?st s = Inr (b, t)" "cache Map.empty [b \<mapsto> ?st] t"
    "bview t = bview s" "disk t = disk s" "dwrites t = dwrites s" "io_frame s t"
    using bc.rd_ok [OF c _ r] by auto
  have d: "buf_data b t = d"
    using bc.dat_held [OF t(2), of b ?st] t(3) by (simp add: d_def)
  have lt: "thelog t = thelog s"
    by (rule read_thelog [OF c r t(1)])
  define u where "u = upd_lh (\<lambda>h. \<lparr>lh_n = get32 0 d,
       lh_block = hdr_blocks d @ drop (hdr_n d) (lh_block (log_lh (thelog s)))\<rparr>) t"
  have "cache Map.empty [b \<mapsto> ?st] u" "bview u ?st = disk u ?st"
    using t bc.unheld_clean [OF c, of ?st] by (simp_all add: u_def)
  then obtain s' where s': "brelse b u = Inr s'" "cache Map.empty Map.empty s'" "bview s' = bview u"
    "disk s' = disk u" "dwrites s' = dwrites u" "io_frame u s'"
    using bc.rel_ok [of Map.empty "[b \<mapsto> ?st]" u b ?st] by (auto simp: fun_upd_idem)
  have e: "(log_lh (thelog s))\<lparr>lh_n := get32 0 d, lh_block := fold (\<lambda>i bl. bl[i := get32 (4 + 4 * i) d])
      [0..<nat (sint (get32 0 d))] (lh_block (log_lh (thelog s)))\<rparr> = \<lparr>lh_n = get32 0 d,
      lh_block = hdr_blocks d @ drop (nat (sint (get32 0 d))) (lh_block (log_lh (thelog s)))\<rparr>"
    using l n by (intro logheader.equality) (simp_all add: fold_list_update hdr_blocks_def hdr_n_def)
  have "read_head s = brelse b u"
    using t(1) l n lt d e
    by (simp add: read_head_def lh_count_def hdr_n_def u_def) (simp add: upd_lh_def upd_log_def lt)
  moreover have "log_frame t u"
    by (simp add: u_def)
  then have "log_frame s s'"
    by (rule log_frame_trans [OF log_frame_io [OF t(6)] log_frame_trans [OF _ log_frame_io [OF s'(6)]]])
  moreover have "thelog s' = thelog u"
    using s'(6) by (intro thelog_more(1)) (simp add: io_frame_def)
  ultimately show thesis
    using s' t(3-5) by (intro that [of s']) (auto simp: u_def lt)
qed

lemma install_block_recover:
  assumes "cache Map.empty Map.empty s" and "log_dev (thelog s) = ROOTDEV" and "Suc tail < LOGSIZE"
    and "\<not> in_log (log_start (thelog s)) (lh_block (log_lh (thelog s)) ! tail)"
  obtains s' where "install_block True tail s = Inr s'" "cache Map.empty Map.empty s'"
    "io_run [(lh_block (log_lh (thelog s)) ! tail, bview s (log_start (thelog s) + of_nat tail + 1))] s s'"
proof -
  let ?a = "log_start (thelog s) + of_nat tail + 1" and ?c = "lh_block (log_lh (thelog s)) ! tail"
  have ne: "?a \<noteq> ?c"
    using in_log_block [OF assms(3)] assms(4) by metis
  have r: "room Map.empty Map.empty ?a"
    using free_buf by (simp add: room_def)
  obtain s' where s': "bindE (bread ROOTDEV ?a s) (\<lambda>(x, s). bindE (bread ROOTDEV ?c s) (\<lambda>(y, s).
      bindE (bwrite y (set_data y (buf_data x s) s)) (\<lambda>s. bindE (brelse x s) (brelse y)))) = Inr s'"
    "cache Map.empty Map.empty s'" "bview s' = (bview s)(?c := bview s ?a)"
    "disk s' = (disk s)(?c := bview s ?a)" "dwrites s' = dwrites s @ [(?c, bview s ?a)]" "io_frame s s'"
    by (rule bc.copy_src_first [OF assms(1) ne r room_empty])
  have "install_block True tail s = Inr s'"
    using s'(1) assms(2,3) by (simp add: install_block_def)
  then show thesis
    using s' by (intro that) (simp_all add: io_run_def)
qed

section \<open>Recovery\<close>

definition install_writes :: "u32 \<Rightarrow> u32 list \<Rightarrow> (u32 \<Rightarrow> u8 list) \<Rightarrow> (u32 \<times> u8 list) list" where
  "install_writes st L D = map (\<lambda>i. (L ! i, D (st + of_nat i + 1))) [0..<length L]"

definition recovery_writes :: "u32 \<Rightarrow> (u32 \<Rightarrow> u8 list) \<Rightarrow> (u32 \<times> u8 list) list" where
  "recovery_writes st D = install_writes st (hdr_blocks (D st)) D @ [(st, put32 0 0 (D st))]"

text \<open>A disk from which recovery works: a sane header, and every block whole.\<close>

definition log_disk_ok :: "u32 \<Rightarrow> (u32 \<Rightarrow> u8 list) \<Rightarrow> bool" where
  "log_disk_ok st D \<longleftrightarrow> hdr_n (D st) < LOGSIZE \<and> distinct (hdr_blocks (D st)) \<and>
     (\<forall>c\<in>set (hdr_blocks (D st)). \<not> in_log st c) \<and> (\<forall>c. length (D c) = BSIZE)"

text \<open>What the file system's blocks hold once the log is installed.\<close>

definition recovered :: "u32 \<Rightarrow> (u32 \<Rightarrow> u8 list) \<Rightarrow> u32 \<Rightarrow> u8 list" where
  "recovered st D c = (case List.find (\<lambda>i. hdr_blocks (D st) ! i = c) [0..<hdr_n (D st)] of
     Some i \<Rightarrow> D (st + of_nat i + 1) | None \<Rightarrow> D c)"

lemma map_fst_install_writes: "map fst (install_writes st L D) = L"
  by (simp add: install_writes_def comp_def map_nth)

lemma fst_install_writes: "fst ` set (install_writes st L D) = set L"
  by (metis map_fst_install_writes set_map)

lemma set_take_install: "fst ` set (take k (install_writes st L D)) \<subseteq> set L"
  using fst_install_writes [of st L D] set_take_subset [of k "install_writes st L D"] by blast

lemma apply_take_install_log:
  assumes "\<forall>c\<in>set L. \<not> in_log st c" and "in_log st c"
  shows "apply_writes (take k (install_writes st L D)) E c = E c"
  using assms set_take_install [of k st L D] by (intro apply_writes_other) auto

lemma apply_install_log:
  assumes "\<forall>c\<in>set L. \<not> in_log st c" and "in_log st c"
  shows "apply_writes (install_writes st L D) E c = E c"
  using apply_take_install_log [OF assms, of "length (install_writes st L D)" D] by simp

lemma install_trans_recover:
  assumes c: "cache Map.empty Map.empty s" and l: "log_dev (thelog s) = ROOTDEV"
    and n: "lh_count s < LOGSIZE" "lh_count s \<le> length (lh_block (log_lh (thelog s)))"
    and L: "L = take (lh_count s) (lh_block (log_lh (thelog s)))"
      "\<forall>c\<in>set L. \<not> in_log (log_start (thelog s)) c"
  obtains s' where "install_trans True s = Inr s'" "cache Map.empty Map.empty s'"
    "io_run (install_writes (log_start (thelog s)) L (bview s)) s s'"
proof -
  let ?st = "log_start (thelog s)"
  let ?ws = "install_writes ?st L (bview s)"
  have len: "length L = lh_count s" "length ?ws = lh_count s"
    using L n by (simp_all add: install_writes_def)
  have "\<exists>s'. foreach (install_block True) [0..<lh_count s] s = Inr s' \<and>
      (cache Map.empty Map.empty s' \<and> io_run (take (lh_count s) ?ws) s s')"
  proof (rule foreach_upt)
    show "cache Map.empty Map.empty s \<and> io_run (take 0 ?ws) s s"
      using c by simp
  next
    fix i t
    assume i: "i < lh_count s" and t: "cache Map.empty Map.empty t \<and> io_run (take i ?ws) s t"
    then have e: "thelog t = thelog s" "bview t (?st + of_nat i + 1) = bview s (?st + of_nat i + 1)"
      using thelog_io_run apply_take_install_log [OF L(2) in_log_block] n
      by (auto simp: io_run_def)
    have "L ! i \<in> set L"
      using i len(1) by simp
    then have Li: "lh_block (log_lh (thelog s)) ! i = L ! i" "\<not> in_log ?st (L ! i)"
      using i L by auto
    obtain u where u: "install_block True i t = Inr u" "cache Map.empty Map.empty u"
      "io_run [(L ! i, bview s (?st + of_nat i + 1))] t u"
      by (rule install_block_recover [of t i]) (use t l e Li i n in simp_all)
    have "take (Suc i) ?ws = take i ?ws @ [(L ! i, bview s (?st + of_nat i + 1))]"
      using i len by (simp add: take_Suc_conv_app_nth install_writes_def)
    then have "io_run (take (Suc i) ?ws) s u"
      using io_run_trans [OF conjunct2 [OF t] u(3)] by simp
    then show "\<exists>u. install_block True i t = Inr u \<and>
        (cache Map.empty Map.empty u \<and> io_run (take (Suc i) ?ws) s u)"
      using u(1,2) by blast
  qed
  then show thesis
    using that len by (auto simp: install_trans_def)
qed

lemma put_head_empty: "lh_n h = 0 \<Longrightarrow> put_head h d = put32 0 0 d"
  by (simp add: put_head_def)

lemma recover_from_log_ok:
  assumes c: "cache Map.empty Map.empty s" and l: "log_dev (thelog s) = ROOTDEV"
    "length (lh_block (log_lh (thelog s))) = LOGSIZE"
  defines "st \<equiv> log_start (thelog s)"
  assumes D: "log_disk_ok st (disk s)"
  obtains s' where "recover_from_log s = Inr s'" "cache Map.empty Map.empty s'"
    "disk s' = apply_writes (recovery_writes st (disk s)) (disk s)"
    "dwrites s' = dwrites s @ recovery_writes st (disk s)" "log_frame s s'"
    "thelog s' = (thelog s)\<lparr>log_lh := log_lh (thelog s')\<rparr>" "lh_n (log_lh (thelog s')) = 0"
    "length (lh_block (log_lh (thelog s'))) = LOGSIZE"
proof -
  let ?d = "disk s st"
  have v: "bview s = disk s"
    using bc.unheld_clean [OF c] by auto
  have n: "hdr_n ?d < LOGSIZE" "\<forall>c\<in>set (hdr_blocks ?d). \<not> in_log st c"
    using D by (auto simp: log_disk_ok_def)
  obtain t where t: "read_head s = Inr t" "cache Map.empty Map.empty t" "bview t = disk s"
    "disk t = disk s" "dwrites t = dwrites s" "log_frame s t"
    and tl: "thelog t = (thelog s)\<lparr>log_lh := \<lparr>lh_n = get32 0 ?d,
       lh_block = hdr_blocks ?d @ drop (hdr_n ?d) (lh_block (log_lh (thelog s)))\<rparr>\<rparr>"
    using read_head_ok [OF c l] n v by (auto simp: st_def)
  let ?ws = "install_writes st (hdr_blocks ?d) (disk s)"
  have cnt: "lh_count t = hdr_n ?d"
    by (simp add: lh_count_def tl hdr_n_def)
  obtain u where u: "install_trans True t = Inr u" "cache Map.empty Map.empty u" "io_run ?ws t u"
    using install_trans_recover [OF t(2), of "hdr_blocks ?d"] l n t(3) cnt
    by (auto simp: tl st_def)
  have ul: "thelog u = thelog t"
    using u(3) by (rule thelog_io_run)
  let ?u = "upd_lh (\<lambda>h. h\<lparr>lh_n := 0\<rparr>) u"
  have us: "bview u st = ?d" "disk u st = ?d"
    using u(3) apply_install_log [OF n(2), of st] t(3,4) by (auto simp: io_run_def)
  have "log_wf (thelog ?u)" "log_start (thelog ?u) = st"
    using l n(1) by (simp_all add: log_wf_def ul tl st_def)
  then obtain w where w: "write_head ?u = Inr w" "cache Map.empty Map.empty w"
    "io_run [(st, put32 0 0 ?d)] ?u w"
    using write_head_ok [of Map.empty ?u] u(2) free_buf us by (auto simp: put_head_empty)
  have "recover_from_log s = Inr w"
    using t(1) u(1) w(1) by (simp add: recover_from_log_def)
  moreover have "log_frame s w"
    by (rule log_frame_trans [OF t(6) log_frame_trans [OF log_frame_run [OF u(3)]
          log_frame_trans [OF log_frame_upd_log(2) log_frame_run [OF w(3)]]]])
  moreover have "thelog w = thelog ?u"
    using w(3) by (rule thelog_io_run)
  ultimately show thesis
    using w u(3) t l n(1) by (intro that [of w]) (auto simp: io_run_def recovery_writes_def ul tl)
qed

section \<open>Crashes during recovery\<close>

lemma recovered_nth:
  assumes "distinct (hdr_blocks (D st))" and "i < hdr_n (D st)"
  shows "recovered st D (hdr_blocks (D st) ! i) = D (st + of_nat i + 1)"
proof -
  have "List.find (\<lambda>j. hdr_blocks (D st) ! j = hdr_blocks (D st) ! i) [0..<hdr_n (D st)] = Some i"
    using assms by (auto simp: find_Some_iff nth_eq_iff_index_eq intro!: exI [of _ i])
  then show ?thesis
    by (simp add: recovered_def)
qed

lemma recovered_other: "c \<notin> set (hdr_blocks (D st)) \<Longrightarrow> recovered st D c = D c"
  by (auto simp: recovered_def find_Some_iff split: option.split)

lemma recovered_no_log: "hdr_n (D st) = 0 \<Longrightarrow> recovered st D c = D c"
  by (simp add: recovered_def)

text \<open>Two disks with the same log and otherwise the same blocks recover to the same blocks.\<close>

lemma recovered_cong:
  assumes "D' st = D st" and "\<And>i. i < hdr_n (D st) \<Longrightarrow> D' (st + of_nat i + 1) = D (st + of_nat i + 1)"
    and "distinct (hdr_blocks (D st))" and "c \<notin> set (hdr_blocks (D st)) \<Longrightarrow> D' c = D c"
  shows "recovered st D' c = recovered st D c"
proof (cases "c \<in> set (hdr_blocks (D st))")
  case True
  then obtain i where "i < hdr_n (D st)" "c = hdr_blocks (D st) ! i"
    by (auto simp: in_set_conv_nth)
  then show ?thesis
    using assms recovered_nth [of D st i] recovered_nth [of D' st i] by simp
next
  case False
  then show ?thesis
    using assms recovered_other [of c D st] recovered_other [of c D' st] by simp
qed

lemma apply_install_recovered:
  assumes D: "log_disk_ok st D"
  shows "apply_writes (install_writes st (hdr_blocks (D st)) D) D c = recovered st D c"
proof (cases "c \<in> set (hdr_blocks (D st))")
  case True
  then obtain i where i: "i < hdr_n (D st)" "c = hdr_blocks (D st) ! i"
    by (auto simp: in_set_conv_nth)
  let ?ws = "install_writes st (hdr_blocks (D st)) D"
  have "?ws ! i = (c, D (st + of_nat i + 1))" "i < length ?ws"
    using i by (simp_all add: install_writes_def)
  moreover have "distinct (map fst ?ws)"
    using D by (simp add: map_fst_install_writes log_disk_ok_def)
  ultimately have "apply_writes ?ws D c = D (st + of_nat i + 1)"
    using apply_writes_nth [of ?ws i D] by simp
  then show ?thesis
    using recovered_nth D i by (simp add: log_disk_ok_def)
next
  case False
  then show ?thesis
    using apply_writes_other recovered_other fst_install_writes by metis
qed

lemma recovery_result:
  assumes "log_disk_ok st D" and "\<not> in_log st c"
  shows "apply_writes (recovery_writes st D) D c = recovered st D c"
  using apply_install_recovered [OF assms(1)] assms(2) in_log_start [of st]
  by (auto simp: recovery_writes_def)

lemma recovery_header:
  assumes "log_disk_ok st D"
  shows "hdr_n (apply_writes (recovery_writes st D) D st) = 0"
  using assms by (simp add: recovery_writes_def log_disk_ok_def hdr_n_def BSIZE_def)

lemma length_apply_writes:
  assumes "\<forall>c. length (D c) = BSIZE" and "\<forall>w\<in>set ws. length (snd w) = BSIZE"
  shows "length (apply_writes ws D c) = BSIZE"
  using assms by (induction ws arbitrary: D) auto

lemma length_recovery_writes:
  assumes "log_disk_ok st D"
  shows "\<forall>w\<in>set (recovery_writes st D). length (snd w) = BSIZE"
  using assms by (auto simp: recovery_writes_def install_writes_def log_disk_ok_def BSIZE_def)

text \<open>
  Stopping recovery after any number of its writes leaves a disk that recovers to the same
  blocks.
\<close>

lemma recovery_crash:
  fixes k :: nat
  assumes D: "log_disk_ok st D"
  defines "D' \<equiv> apply_writes (take k (recovery_writes st D)) D"
  shows "log_disk_ok st D'" and "\<not> in_log st c \<Longrightarrow> recovered st D' c = recovered st D c"
proof -
  let ?L = "hdr_blocks (D st)"
  let ?ws = "install_writes st ?L D"
  have L: "\<forall>c\<in>set ?L. \<not> in_log st c" "distinct ?L" "hdr_n (D st) < LOGSIZE" "length (D st) = BSIZE"
    using D by (auto simp: log_disk_ok_def)
  have len: "\<forall>c. length (D' c) = BSIZE"
    using D length_recovery_writes [OF D] unfolding D'_def log_disk_ok_def
    by (auto intro!: length_apply_writes dest: in_set_takeD)
  have "log_disk_ok st D' \<and> (\<not> in_log st c \<longrightarrow> recovered st D' c = recovered st D c)"
  proof (cases "k \<le> length ?ws")
    case True
    then have D': "D' = apply_writes (take k ?ws) D"
      by (simp add: D'_def recovery_writes_def)
    have st: "D' st = D st"
      unfolding D' by (rule apply_take_install_log [OF L(1)]) simp
    have "recovered st D' c = recovered st D c"
    proof (rule recovered_cong)
      show "D' st = D st" "distinct ?L"
        by (rule st, rule L(2))
      show "D' (st + of_nat i + 1) = D (st + of_nat i + 1)" if "i < hdr_n (D st)" for i
        unfolding D' by (rule apply_take_install_log [OF L(1) in_log_block]) (use that L(3) in simp)
      show "D' c = D c" if "c \<notin> set ?L"
        unfolding D' using that set_take_install [of k st ?L D] by (intro apply_writes_other) auto
    qed
    then show ?thesis
      using st D len by (simp add: log_disk_ok_def)
  next
    case False
    then have D': "D' = (apply_writes ?ws D)(st := put32 0 0 (D st))"
      by (simp add: D'_def recovery_writes_def)
    have n: "hdr_n (D' st) = 0"
      using L(4) by (simp add: D' hdr_n_def BSIZE_def)
    then have "recovered st D' c = recovered st D c" if "\<not> in_log st c"
      using that apply_install_recovered [OF D] in_log_start [of st] by (auto simp: recovered_no_log D')
    moreover have "hdr_blocks (D' st) = []"
      using n by (simp add: hdr_blocks_def)
    ultimately show ?thesis
      using n len by (simp add: log_disk_ok_def)
  qed
  then show "log_disk_ok st D'" "\<not> in_log st c \<Longrightarrow> recovered st D' c = recovered st D c"
    by auto
qed

section \<open>The log invariant\<close>

text \<open>The blocks of the current transaction, in the order of their first \<open>log_write\<close>.\<close>

definition logged :: "'a lstate_scheme \<Rightarrow> u32 list" where
  "logged s = take (lh_count s) (lh_block (log_lh (thelog s)))"

text \<open>
  \<open>log_inv H s\<close> for a thread that holds the buffers \<open>H\<close>: the pinned buffers are those of
  the logged blocks, each logged once and none of them a block of the log; there is room in
  the log area for them, and nothing is committed on the disk.
\<close>

definition log_ok :: "log \<Rightarrow> bool" where
  "log_ok l \<longleftrightarrow> log_wf l \<and> 0 \<le> sint (lh_n (log_lh l)) \<and> sint (lh_n (log_lh l)) < sint (log_size l) \<and>
     sint (log_size l) \<le> int LOGSIZE \<and>
     (let L = take (nat (sint (lh_n (log_lh l)))) (lh_block (log_lh l)) in
      distinct L \<and> (\<forall>c\<in>set L. \<not> in_log (log_start l) c))"

definition log_inv :: "(nat \<rightharpoonup> u32) \<Rightarrow> 'a lstate_scheme \<Rightarrow> bool" where
  "log_inv H s \<longleftrightarrow> log_ok (thelog s) \<and> hdr_n (disk s (log_start (thelog s))) = 0 \<and>
     (\<exists>Q. cache Q H s \<and> ran Q = set (logged s))"

lemma log_okD:
  assumes "log_ok (thelog s)"
  shows "log_wf (thelog s)" "distinct (logged s)" "\<forall>c\<in>set (logged s). \<not> in_log (log_start (thelog s)) c"
    "length (logged s) = lh_count s" "lh_count s < LOGSIZE" "log_dev (thelog s) = ROOTDEV"
    "int (lh_count s) = sint (lh_n (log_lh (thelog s)))" "length (lh_block (log_lh (thelog s))) = LOGSIZE"
    "\<And>i. i < lh_count s \<Longrightarrow> lh_block (log_lh (thelog s)) ! i = logged s ! i"
  using assms by (auto simp: log_ok_def log_wf_def logged_def lh_count_def Let_def)

lemma finite_dom_held: "cache Q H s \<Longrightarrow> finite (dom H)"
  using cacheD(6) [of Q H s] by (intro finite_subset [of "dom H" "{..<NBUF}"]) auto

lemma card_dom_pinned:
  assumes c: "cache Q H s"
  shows "finite (dom Q)" and "card (dom Q) = card (ran Q)"
proof -
  show "finite (dom Q)"
    using cacheD(5) [OF c] by (intro finite_subset [of "dom Q" "{..<NBUF}"]) auto
  have "inj_on Q (dom Q)"
    using bc.pinned_once [OF c] by (auto simp: inj_on_def)
  then have "card (dom Q) = card (Q ` dom Q)"
    by (simp add: card_image)
  also have "Q ` dom Q = Some ` ran Q"
    by (force simp: ran_def image_iff)
  finally show "card (dom Q) = card (ran Q)"
    by (simp add: card_image)
qed

lemma pinned_room:
  assumes c: "cache Q H s" and "ran Q = set L" and "length L < NBUF"
  shows "\<not> {..<NBUF} \<subseteq> dom Q"
proof
  assume "{..<NBUF} \<subseteq> dom Q"
  then have "card {..<NBUF} \<le> card (dom Q)"
    using card_dom_pinned(1) [OF c] by (intro card_mono)
  then show False
    using card_dom_pinned(2) [OF c] assms(2,3) card_length [of L] by simp
qed

lemma LOGSIZE_NBUF: "LOGSIZE = NBUF"
  by (simp add: LOGSIZE_def MAXOPBLOCKS_def NBUF_def)

text \<open>One round of \<open>write_log\<close>.\<close>

lemma log_block_ok:
  assumes c: "cache Q Map.empty s" and l: "log_dev (thelog s) = ROOTDEV" and i: "Suc i < LOGSIZE"
    and q: "lh_block (log_lh (thelog s)) ! i \<in> ran Q" and r: "\<not> {..<NBUF} \<subseteq> dom Q"
    and n: "\<not> in_log (log_start (thelog s)) (lh_block (log_lh (thelog s)) ! i)"
  obtains s' where "log_block i s = Inr s'" "cache Q Map.empty s'"
    "io_run [(log_start (thelog s) + of_nat i + 1, bview s (lh_block (log_lh (thelog s)) ! i))] s s'"
proof -
  let ?c = "log_start (thelog s) + of_nat i + 1" and ?a = "lh_block (log_lh (thelog s)) ! i"
  have ne: "?a \<noteq> ?c"
    using in_log_block [OF i] n by metis
  have r2: "room Q [b \<mapsto> ?c] ?a" for b
    using q by (simp add: room_def)
  obtain s' where s': "bindE (bread ROOTDEV ?c s) (\<lambda>(y, s). bindE (bread ROOTDEV ?a s) (\<lambda>(x, s).
      bindE (bwrite y (set_data y (buf_data x s) s)) (\<lambda>s. bindE (brelse x s) (brelse y)))) = Inr s'"
    "cache Q Map.empty s'" "bview s' = (bview s)(?c := bview s ?a)"
    "disk s' = (disk s)(?c := bview s ?a)" "dwrites s' = dwrites s @ [(?c, bview s ?a)]" "io_frame s s'"
    by (rule bc.copy_dst_first [OF c ne room_free [OF r] r2])
  have "log_block i s = Inr s'"
    using s'(1) l i by (simp add: log_block_def)
  then show thesis
    using s' by (intro that) (simp_all add: io_run_def)
qed

text \<open>One round of \<open>install_trans\<close> in a commit: the block is unpinned.\<close>

lemma install_block_commit:
  assumes c: "cache Q Map.empty s" and l: "log_dev (thelog s) = ROOTDEV" and i: "Suc i < LOGSIZE"
    and q: "Q j = Some (lh_block (log_lh (thelog s)) ! i)" and r: "\<not> {..<NBUF} \<subseteq> dom Q"
    and n: "\<forall>c\<in>ran Q. \<not> in_log (log_start (thelog s)) c"
  obtains s' where "install_block False i s = Inr s'" "cache (Q(j := None)) Map.empty s'"
    "io_run [(lh_block (log_lh (thelog s)) ! i, bview s (log_start (thelog s) + of_nat i + 1))] s s'"
proof -
  let ?a = "log_start (thelog s) + of_nat i + 1" and ?c = "lh_block (log_lh (thelog s)) ! i"
  have a: "?a \<notin> ran Q"
    using in_log_block [OF i] n by blast
  then have ne: "?a \<noteq> ?c"
    using q by (metis ranI)
  obtain s' where s': "bindE (bread ROOTDEV ?a s) (\<lambda>(x, s). bindE (bread ROOTDEV ?c s) (\<lambda>(y, s).
      bindE (bwrite y (set_data y (buf_data x s) s)) (\<lambda>s. bindE (brelse x (bunpin y s)) (brelse y)))) = Inr s'"
    "cache (Q(j := None)) Map.empty s'" "bview s' = (bview s)(?c := bview s ?a)"
    "disk s' = (disk s)(?c := bview s ?a)" "dwrites s' = dwrites s @ [(?c, bview s ?a)]" "io_frame s s'"
    by (rule bc.copy_unpin [OF c ne room_free [OF r] q a])
  have "install_block False i s = Inr s'"
    using s'(1) l i by (simp add: install_block_def)
  then show thesis
    using s' by (intro that) (simp_all add: io_run_def)
qed

section \<open>Commit\<close>

definition log_writes :: "u32 \<Rightarrow> u32 list \<Rightarrow> (u32 \<Rightarrow> u8 list) \<Rightarrow> (u32 \<times> u8 list) list" where
  "log_writes st L V = map (\<lambda>i. (st + of_nat i + 1, V (L ! i))) [0..<length L]"

lemma length_log_writes [simp]: "length (log_writes st L V) = length L"
  by (simp add: log_writes_def)

lemma take_log_writes:
  "i < length L \<Longrightarrow> take (Suc i) (log_writes st L V) =
     take i (log_writes st L V) @ [(st + of_nat i + 1, V (L ! i))]"
  by (simp add: take_Suc_conv_app_nth log_writes_def)

lemma take_install_writes:
  "i < length L \<Longrightarrow> take (Suc i) (install_writes st L V) =
     take i (install_writes st L V) @ [(L ! i, V (st + of_nat i + 1))]"
  by (simp add: take_Suc_conv_app_nth install_writes_def)

lemma take_log_writes_in_log:
  assumes "length L < LOGSIZE" and "c \<in> fst ` set (take k (log_writes st L V))"
  shows "in_log st c"
  using assms in_log_block by (auto simp: log_writes_def dest!: in_set_takeD)

lemma apply_log_writes_other:
  assumes "length L < LOGSIZE" and "\<not> in_log st c"
  shows "apply_writes (take k (log_writes st L V)) D c = D c"
  using assms take_log_writes_in_log by (blast intro: apply_writes_other)

lemma apply_log_writes_start:
  assumes "length L < LOGSIZE"
  shows "apply_writes (take k (log_writes st L V)) D st = D st"
proof (rule apply_writes_other)
  show "st \<notin> fst ` set (take k (log_writes st L V))"
    using assms log_block_not_start [of _ st] by (auto simp: log_writes_def dest!: in_set_takeD)
qed

lemma apply_log_writes_nth:
  assumes "length L < LOGSIZE" and "i < length L"
  shows "apply_writes (log_writes st L V) D (st + of_nat i + 1) = V (L ! i)"
proof -
  have "distinct (map fst (log_writes st L V))"
    using log_block_inj assms(1) by (auto simp: log_writes_def comp_def distinct_map inj_on_def)
  then show ?thesis
    using apply_writes_nth [of "log_writes st L V" i D] assms(2) by (simp add: log_writes_def)
qed

lemma write_log_ok:
  assumes c: "cache Q Map.empty s" and l: "log_ok (thelog s)" and q: "ran Q = set (logged s)"
  obtains s' where "write_log s = Inr s'" "cache Q Map.empty s'"
    "io_run (log_writes (log_start (thelog s)) (logged s) (bview s)) s s'"
proof -
  let ?st = "log_start (thelog s)" and ?L = "logged s"
  let ?ws = "log_writes ?st ?L (bview s)"
  note L = log_okD [OF l]
  have r: "\<not> {..<NBUF} \<subseteq> dom Q"
    by (rule pinned_room [OF c q]) (use L LOGSIZE_NBUF in simp)
  have "\<exists>s'. foreach log_block [0..<lh_count s] s = Inr s' \<and>
      (cache Q Map.empty s' \<and> io_run (take (lh_count s) ?ws) s s')"
  proof (rule foreach_upt)
    show "cache Q Map.empty s \<and> io_run (take 0 ?ws) s s"
      using c by simp
  next
    fix i t
    assume i: "i < lh_count s" and t: "cache Q Map.empty t \<and> io_run (take i ?ws) s t"
    have Li: "?L ! i \<in> set ?L" "Suc i < LOGSIZE"
      using i L(4,5) by simp_all
    then have nl: "\<not> in_log ?st (?L ! i)"
      using L(3) by blast
    have e: "thelog t = thelog s" "bview t (?L ! i) = bview s (?L ! i)"
      using t thelog_io_run apply_log_writes_other [OF _ nl] L(4,5) by (auto simp: io_run_def)
    obtain u where u: "log_block i t = Inr u" "cache Q Map.empty u"
      "io_run [(?st + of_nat i + 1, bview s (?L ! i))] t u"
      by (rule log_block_ok [of Q t i]) (use t e L(6,9) i Li nl r q in simp_all)
    have "io_run (take (Suc i) ?ws) s u"
      using io_run_trans [OF conjunct2 [OF t] u(3)] i L(4) by (simp add: take_log_writes)
    then show "\<exists>u. log_block i t = Inr u \<and> (cache Q Map.empty u \<and> io_run (take (Suc i) ?ws) s u)"
      using u(1,2) by blast
  qed
  then show thesis
    using that L(4) by (auto simp: write_log_def)
qed

lemma ran_unpin:
  assumes "cache Q H s" and "Q j = Some c" and "ran Q = set (c # cs)" and "distinct (c # cs)"
  shows "ran (Q(j := None)) = set cs"
proof -
  have u: "i = j" if "Q i = Some c" for i
    using bc.pinned_once [OF assms(1) that assms(2)] .
  have "ran (Q(j := None)) = ran Q - {c}"
  proof (intro set_eqI iffI)
    fix d
    assume "d \<in> ran (Q(j := None))"
    then obtain i where "i \<noteq> j" "Q i = Some d"
      by (auto simp: ran_def split: if_splits)
    then show "d \<in> ran Q - {c}"
      using u by (auto simp: ran_def)
  next
    fix d
    assume "d \<in> ran Q - {c}"
    then obtain i where "Q i = Some d" "d \<noteq> c"
      by (auto simp: ran_def)
    moreover from this have "i \<noteq> j"
      using assms(2) by auto
    ultimately show "d \<in> ran (Q(j := None))"
      by (auto simp: ran_def)
  qed
  then show ?thesis
    using assms(3,4) by auto
qed

lemma install_trans_commit:
  assumes c: "cache Q Map.empty s" and l: "log_ok (thelog s)" and q: "ran Q = set (logged s)"
  obtains s' where "install_trans False s = Inr s'" "cache Map.empty Map.empty s'"
    "io_run (install_writes (log_start (thelog s)) (logged s) (bview s)) s s'"
proof -
  let ?st = "log_start (thelog s)" and ?L = "logged s"
  let ?ws = "install_writes ?st ?L (bview s)"
  note L = log_okD [OF l]
  let ?I = "\<lambda>k t. (\<exists>Q. cache Q Map.empty t \<and> ran Q = set (drop k ?L)) \<and> io_run (take k ?ws) s t"
  have "\<exists>s'. foreach (install_block False) [0..<lh_count s] s = Inr s' \<and> ?I (lh_count s) s'"
  proof (rule foreach_upt)
    show "?I 0 s"
      using c q by auto
  next
    fix i t
    assume i: "i < lh_count s" and "?I i t"
    then obtain R where t: "cache R Map.empty t" "ran R = set (drop i ?L)" "io_run (take i ?ws) s t"
      by blast
    have d: "drop i ?L = ?L ! i # drop (Suc i) ?L"
      using i L(4) by (simp add: Cons_nth_drop_Suc)
    have e: "thelog t = thelog s" "bview t (?st + of_nat i + 1) = bview s (?st + of_nat i + 1)"
      using t(3) thelog_io_run apply_take_install_log [OF L(3) in_log_block] i L(5)
      by (auto simp: io_run_def)
    obtain j where j: "R j = Some (?L ! i)"
      using t(2) d by (auto simp: ran_def set_eq_iff)
    have r: "\<not> {..<NBUF} \<subseteq> dom R" "\<forall>c\<in>ran R. \<not> in_log ?st c"
      using pinned_room [OF t(1,2)] L(3,4,5) t(2) LOGSIZE_NBUF by (auto dest: in_set_dropD)
    obtain u where u: "install_block False i t = Inr u" "cache (R(j := None)) Map.empty u"
      "io_run [(?L ! i, bview s (?st + of_nat i + 1))] t u"
      by (rule install_block_commit [of R t i j]) (use t e L(5,6,9) i j r in simp_all)
    have "ran (R(j := None)) = set (drop (Suc i) ?L)"
      using ran_unpin [OF t(1) j] t(2) d L(2) distinct_drop [of ?L i] by simp
    moreover have "io_run (take (Suc i) ?ws) s u"
      using io_run_trans [OF t(3) u(3)] i L(4) by (simp add: take_install_writes)
    ultimately show "\<exists>u. install_block False i t = Inr u \<and> ?I (Suc i) u"
      using u(1,2) by blast
  qed
  then obtain s' R where "foreach (install_block False) [0..<lh_count s] s = Inr s'"
    "cache R Map.empty s'" "ran R = {}" "io_run ?ws s s'"
    using L(4) by (auto simp: install_writes_def)
  moreover from this(3) have "R = Map.empty"
    by (intro ext) (metis empty_iff option.exhaust ranI)
  ultimately show thesis
    using that by (simp add: install_trans_def)
qed

text \<open>
  The writes of a commit: the log blocks and the header, and then what a recovery from that
  disk would write.
\<close>

definition commit_writes :: "log \<Rightarrow> (u32 \<Rightarrow> u8 list) \<Rightarrow> (u32 \<Rightarrow> u8 list) \<Rightarrow> (u32 \<times> u8 list) list" where
  "commit_writes l V D =
     (let st = log_start l; L = take (nat (sint (lh_n (log_lh l)))) (lh_block (log_lh l));
          ws = log_writes st L V @ [(st, put_head (log_lh l) (D st))]
      in ws @ recovery_writes st (apply_writes ws D))"

lemma commit_disk:
  assumes l: "log_ok l" and len: "\<And>c. length (D c) = BSIZE" "\<And>c. length (V c) = BSIZE"
  defines "st \<equiv> log_start l" and "L \<equiv> take (nat (sint (lh_n (log_lh l)))) (lh_block (log_lh l))"
  defines "D1 \<equiv> apply_writes (log_writes st L V @ [(st, put_head (log_lh l) (D st))]) D"
  shows "log_disk_ok st D1" and "hdr_blocks (D1 st) = L"
    and "\<And>i. i < length L \<Longrightarrow> D1 (st + of_nat i + 1) = V (L ! i)"
    and "\<And>c. \<not> in_log st c \<Longrightarrow> D1 c = D c"
proof -
  have L: "distinct L" "\<forall>c\<in>set L. \<not> in_log st c" "length L < LOGSIZE"
    "length L = nat (sint (lh_n (log_lh l)))"
    using l by (auto simp: log_ok_def log_wf_def L_def st_def Let_def)
  have P: "length (put_head (log_lh l) (D st)) = BSIZE" "hdr_n (put_head (log_lh l) (D st)) = length L"
    "hdr_blocks (put_head (log_lh l) (D st)) = L"
    using put_head_spec [OF len(1), of "log_lh l" st] l L(3,4) by (auto simp: log_ok_def log_wf_def L_def)
  have D1: "D1 = (apply_writes (log_writes st L V) D)(st := put_head (log_lh l) (D st))"
    by (simp add: D1_def)
  show h: "hdr_blocks (D1 st) = L"
    by (simp add: D1 P)
  show n: "D1 (st + of_nat i + 1) = V (L ! i)" if "i < length L" for i
    using that L(3) apply_log_writes_nth [of L i] log_block_not_start [of i st] by (simp add: D1)
  show o: "D1 c = D c" if "\<not> in_log st c" for c
    using that L(3) apply_log_writes_other [of L st c "length L" V D] in_log_start [of st]
    by (auto simp: D1)
  have "length (D1 c) = BSIZE" for c
    using len length_apply_writes [of D "log_writes st L V"] P(1) by (auto simp: D1 log_writes_def)
  then show "log_disk_ok st D1"
    using h P L by (simp add: log_disk_ok_def D1)
qed

lemma commit_ok:
  assumes I: "log_inv Map.empty s" and pos: "0 < sint (lh_n (log_lh (thelog s)))"
  defines "ws \<equiv> commit_writes (thelog s) (bview s) (disk s)"
  obtains s' where "commit s = Inr s'" "cache Map.empty Map.empty s'"
    "disk s' = apply_writes ws (disk s)" "bview s' = apply_writes ws (bview s)"
    "dwrites s' = dwrites s @ ws" "log_frame s s'"
    "thelog s' = (thelog s)\<lparr>log_lh := (log_lh (thelog s))\<lparr>lh_n := 0\<rparr>\<rparr>"
proof -
  let ?st = "log_start (thelog s)" and ?L = "logged s" and ?D = "disk s" and ?V = "bview s"
  obtain Q where Q: "cache Q Map.empty s" "ran Q = set ?L" and l: "log_ok (thelog s)"
    using I by (auto simp: log_inv_def)
  note L = log_okD [OF l]
  have r: "\<not> {..<NBUF} \<subseteq> dom Q" "?st \<notin> ran Q"
    using pinned_room [OF Q] L(3,4,5) Q(2) LOGSIZE_NBUF in_log_start [of ?st] by auto
  have v: "?V ?st = ?D ?st"
    using r(2) by (intro bc.unheld_clean [OF Q(1)]) simp_all
  let ?hd = "put_head (log_lh (thelog s)) (?D ?st)"
  let ?w1 = "log_writes ?st ?L ?V"
  let ?w2 = "?w1 @ [(?st, ?hd)]"
  let ?D1 = "apply_writes ?w2 ?D" and ?V1 = "apply_writes ?w2 ?V"
  have len: "length (?D c) = BSIZE" "length (?V c) = BSIZE" for c
    using bcache_invD(3) [OF cacheD(1) [OF Q(1)]] bc.view_length [OF Q(1)] by auto
  have C: "hdr_blocks (?D1 ?st) = ?L" "\<And>i. i < length ?L \<Longrightarrow> ?D1 (?st + of_nat i + 1) = ?V (?L ! i)"
    using commit_disk(2,3) [where D = ?D and V = ?V, OF l len] by (auto simp: logged_def lh_count_def)
  have C': "?V1 (?st + of_nat i + 1) = ?V (?L ! i)" if "i < length ?L" for i
    using commit_disk(3) [where D = ?V and V = ?V, OF l len(2,2), of i] that v
    by (auto simp: logged_def lh_count_def)
  obtain t where t: "write_log s = Inr t" "cache Q Map.empty t" "io_run ?w1 s t"
    by (rule write_log_ok [OF Q(1) l Q(2)])
  have tl: "thelog t = thelog s"
    by (rule thelog_io_run [OF t(3)])
  have "bview t ?st = ?D ?st"
    using t(3) v apply_log_writes_start [of ?L "length ?L" ?st ?V ?V] L(4,5) by (simp add: io_run_def)
  then obtain u where u: "write_head t = Inr u" "cache Q Map.empty u" "io_run [(?st, ?hd)] t u"
    using write_head_ok [OF t(2)] L(1) r tl by auto
  have ul: "thelog u = thelog s"
    using thelog_io_run [OF u(3)] tl by simp
  have su: "io_run ?w2 s u"
    by (rule io_run_trans [OF t(3) u(3)])
  have w3: "install_writes ?st ?L ?V1 = install_writes ?st (hdr_blocks (?D1 ?st)) ?D1"
    unfolding install_writes_def C(1)
    by (rule map_cong) (use C(2) C' in \<open>simp_all del: apply_writes_simps\<close>)
  obtain x where x: "install_trans False u = Inr x" "cache Map.empty Map.empty x"
    "io_run (install_writes ?st ?L ?V1) u x"
    using install_trans_commit [OF u(2)] l Q(2) ul su
    by (auto simp: logged_def lh_count_def io_run_def)
  let ?x = "upd_lh (\<lambda>h. h\<lparr>lh_n := 0\<rparr>) x"
  have xl: "thelog x = thelog s"
    using thelog_io_run [OF x(3)] ul by simp
  have "bview x ?st = ?D1 ?st"
    using x(3) su apply_install_log [OF L(3) in_log_start] v by (simp add: io_run_def)
  then obtain y where y: "write_head ?x = Inr y" "cache Map.empty Map.empty y"
    "io_run [(?st, put32 0 0 (?D1 ?st))] ?x y"
    using write_head_ok [of Map.empty ?x] x(2) L(1) free_buf xl by (auto simp: log_wf_def put_head_empty)
  have "commit s = Inr y"
    using pos t(1) u(1) x(1) y(1) by (simp add: commit_def)
  moreover have "thelog y = thelog ?x"
    by (rule thelog_io_run [OF y(3)])
  moreover have "log_frame s y"
    by (rule log_frame_trans [OF log_frame_run [OF su] log_frame_trans [OF log_frame_run [OF x(3)]
          log_frame_trans [OF log_frame_upd_log(2) log_frame_run [OF y(3)]]]])
  moreover have "ws = ?w2 @ install_writes ?st ?L ?V1 @ [(?st, put32 0 0 (?D1 ?st))]"
    unfolding w3 by (simp add: ws_def commit_writes_def Let_def recovery_writes_def logged_def
        lh_count_def del: apply_writes_simps)
  ultimately show thesis
    using y su x(3) xl by (intro that [of y]) (simp_all add: io_run_def)
qed

lemma commit_recovered:
  assumes l: "log_ok l" and len: "\<And>c. length (D c) = BSIZE" "\<And>c. length (V c) = BSIZE"
  defines "st \<equiv> log_start l" and "L \<equiv> take (nat (sint (lh_n (log_lh l)))) (lh_block (log_lh l))"
  defines "D1 \<equiv> apply_writes (log_writes st L V @ [(st, put_head (log_lh l) (D st))]) D"
  assumes V: "c \<notin> set L \<Longrightarrow> V c = D c" and c: "\<not> in_log st c"
  shows "recovered st D1 c = V c"
proof -
  note C = commit_disk [where D = D and V = V, OF l len, folded st_def L_def, folded D1_def]
  show ?thesis
  proof (cases "c \<in> set L")
    case True
    then obtain i where i: "i < length L" "c = L ! i"
      by (auto simp: in_set_conv_nth)
    then have "recovered st D1 c = D1 (st + of_nat i + 1)"
      using recovered_nth [of D1 st i] C(1,2) length_hdr_blocks [of "D1 st"]
      by (simp add: log_disk_ok_def del: length_hdr_blocks)
    then show ?thesis
      using C(3) [OF i(1)] i(2) by simp
  next
    case False
    then show ?thesis
      using C(2,4) V c recovered_other [of c D1 st] by simp
  qed
qed

text \<open>
  A commit cut off before its header write leaves a disk that recovers to the old blocks, and
  one cut off later a disk that recovers to the new ones.
\<close>

lemma commit_cut_early:
  assumes l: "log_ok l" and len: "\<And>c. length (D c) = BSIZE" "\<And>c. length (V c) = BSIZE"
  defines "st \<equiv> log_start l" and "L \<equiv> take (nat (sint (lh_n (log_lh l)))) (lh_block (log_lh l))"
  assumes z: "hdr_n (D st) = 0" and k: "k \<le> length L"
    and D': "D' = apply_writes (take k (commit_writes l V D)) D"
  shows "log_disk_ok st D'" and "\<And>c. \<not> in_log st c \<Longrightarrow> recovered st D' c = D c"
proof -
  have L: "length L < LOGSIZE"
    using l by (auto simp: log_ok_def log_wf_def L_def)
  have D'': "D' = apply_writes (take k (log_writes st L V)) D"
    using k by (simp add: D' commit_writes_def Let_def st_def L_def)
  have st: "D' st = D st"
    unfolding D'' by (rule apply_log_writes_start [OF L])
  moreover have "length (D' c) = BSIZE" for c
    unfolding D'' using len by (intro length_apply_writes) (auto simp: log_writes_def dest!: in_set_takeD)
  ultimately show "log_disk_ok st D'"
    using z by (simp add: log_disk_ok_def hdr_blocks_def)
  show "recovered st D' c = D c" if "\<not> in_log st c" for c
    using st z apply_log_writes_other [OF L that] by (simp add: recovered_no_log) (simp add: D'')
qed

lemma commit_cut_late:
  assumes l: "log_ok l" and len: "\<And>c. length (D c) = BSIZE" "\<And>c. length (V c) = BSIZE"
  defines "st \<equiv> log_start l" and "L \<equiv> take (nat (sint (lh_n (log_lh l)))) (lh_block (log_lh l))"
  assumes V: "\<And>c. c \<notin> set L \<Longrightarrow> V c = D c" and k: "length L < k"
    and D': "D' = apply_writes (take k (commit_writes l V D)) D"
  shows "log_disk_ok st D'" and "\<And>c. \<not> in_log st c \<Longrightarrow> recovered st D' c = V c"
proof -
  let ?w1 = "log_writes st L V @ [(st, put_head (log_lh l) (D st))]"
  let ?D1 = "apply_writes ?w1 D"
  have W: "commit_writes l V D = ?w1 @ recovery_writes st ?D1"
    by (simp add: commit_writes_def Let_def st_def L_def del: apply_writes_simps)
  have D'': "D' = apply_writes (take (k - Suc (length L)) (recovery_writes st ?D1)) ?D1"
    using k unfolding D' W take_append apply_writes_simps(3) by (simp del: apply_writes_simps)
  have ok: "log_disk_ok st ?D1"
    unfolding st_def L_def by (rule commit_disk(1) [OF l len])
  note R = recovery_crash [where k = "k - Suc (length L)", OF ok, folded D'']
  show "log_disk_ok st D'"
    by (rule R(1))
  show "recovered st D' c = V c" if c: "\<not> in_log st c" for c
    using R(2) [OF c] commit_recovered [where D = D and V = V and c = c, OF l len] c V [of c]
    by (simp add: st_def L_def del: apply_writes_simps)
qed

section \<open>Power failures\<close>

text \<open>
  \<open>boots D t\<close>: the kernel has just been loaded on a machine with disk \<open>D\<close>. It runs
  \<open>binit\<close> and, on the first file system call, \<open>initlog\<close>.
\<close>

definition boots :: "(u32 \<Rightarrow> u8 list) \<Rightarrow> 'a lstate_scheme \<Rightarrow> bool" where
  "boots D t \<longleftrightarrow> bufs t = replicate (Suc NBUF) bss_buf \<and> cur t < length (procs t) \<and> disk t = D \<and>
     length (lh_block (log_lh (thelog t))) = LOGSIZE"

lemma initlog_cached:
  assumes c: "cache Map.empty Map.empty u" and l: "length (lh_block (log_lh (thelog u))) = LOGSIZE"
    and D: "log_disk_ok (sb_logstart sb) (disk u)"
  obtains t' where "initlog ROOTDEV sb u = Inr t'" "cache Map.empty Map.empty t'"
    "disk t' = apply_writes (recovery_writes (sb_logstart sb) (disk u)) (disk u)"
    "dwrites t' = dwrites u @ recovery_writes (sb_logstart sb) (disk u)" "log_frame u t'"
    "thelog t' = (thelog u)\<lparr>log_start := sb_logstart sb, log_size := sb_nlog sb, log_dev := ROOTDEV,
       log_lh := log_lh (thelog t')\<rparr>"
    "lh_n (log_lh (thelog t')) = 0" "length (lh_block (log_lh (thelog t'))) = LOGSIZE"
proof -
  let ?f = "\<lambda>l. l\<lparr>log_start := sb_logstart sb, log_size := sb_nlog sb, log_dev := ROOTDEV\<rparr>"
  let ?s = "upd_log ?f u"
  have "cache Map.empty Map.empty ?s" "log_dev (thelog ?s) = ROOTDEV"
    "length (lh_block (log_lh (thelog ?s))) = LOGSIZE" "log_disk_ok (log_start (thelog ?s)) (disk ?s)"
    using assms by simp_all
  from recover_from_log_ok [OF this]
  obtain t' where t': "recover_from_log ?s = Inr t'" "cache Map.empty Map.empty t'"
    "disk t' = apply_writes (recovery_writes (sb_logstart sb) (disk u)) (disk u)"
    "dwrites t' = dwrites u @ recovery_writes (sb_logstart sb) (disk u)" "log_frame ?s t'"
    "thelog t' = (thelog ?s)\<lparr>log_lh := log_lh (thelog t')\<rparr>" "lh_n (log_lh (thelog t')) = 0"
    "length (lh_block (log_lh (thelog t'))) = LOGSIZE"
    by auto
  have "initlog ROOTDEV sb u = Inr t'"
    using t'(1) LOGSIZE_BSIZE by (simp add: initlog_def BSIZE_def LOGSIZE_def MAXOPBLOCKS_def)
  moreover have "log_frame u t'"
    by (rule log_frame_trans [OF log_frame_upd_log(1) t'(5)])
  ultimately show thesis
    by (rule that [OF _ t'(2,3,4) _ _ t'(7,8)]) (use t'(6) in simp)
qed

lemma initlog_boots:
  assumes "boots D t" and D: "log_disk_ok (sb_logstart sb) D"
  obtains t' where "initlog ROOTDEV sb (binit t) = Inr t'" "cache Map.empty Map.empty t'"
    "disk t' = apply_writes (recovery_writes (sb_logstart sb) D) D"
    "dwrites t' = dwrites t @ recovery_writes (sb_logstart sb) D" "log_frame t t'"
    "thelog t' = (thelog t)\<lparr>log_start := sb_logstart sb, log_size := sb_nlog sb, log_dev := ROOTDEV,
       log_lh := log_lh (thelog t')\<rparr>"
    "lh_n (log_lh (thelog t')) = 0" "length (lh_block (log_lh (thelog t'))) = LOGSIZE"
proof -
  have B: "cache Map.empty Map.empty (binit t)" "disk (binit t) = D"
    "dwrites (binit t) = dwrites t" "io_frame t (binit t)"
    using cache_boot [of t] assms by (auto simp: boots_def log_disk_ok_def)
  have tl: "thelog (binit t) = thelog t"
    using B(4) by (intro thelog_more(1)) (simp add: io_frame_def)
  show thesis
    by (rule initlog_cached [OF B(1), of sb])
      (use assms B tl log_frame_trans [OF log_frame_io [OF B(4)]] that in \<open>auto simp: boots_def\<close>)
qed

text \<open>
  The disks that can be found at power-up when recovery from \<open>D\<close> has been tried any number
  of times and cut off each time after some of its writes.
\<close>

inductive crash_reach :: "superblock \<Rightarrow> (u32 \<Rightarrow> u8 list) \<Rightarrow> (u32 \<Rightarrow> u8 list) \<Rightarrow> bool"
  for sb :: superblock and D0 :: "u32 \<Rightarrow> u8 list" where
  start: "crash_reach sb D0 D0"
| cut: "crash_reach sb D0 D \<Longrightarrow> boots D (t :: lstate) \<Longrightarrow> initlog ROOTDEV sb (binit t) = Inr t' \<Longrightarrow>
    dwrites t' = dwrites t @ ws \<Longrightarrow> crash_reach sb D0 (apply_writes (take k ws) D)"

lemma crash_reach_recovered:
  assumes "crash_reach sb D0 D" and "log_disk_ok (sb_logstart sb) D0"
  shows "log_disk_ok (sb_logstart sb) D \<and>
    (\<forall>c. \<not> in_log (sb_logstart sb) c \<longrightarrow> recovered (sb_logstart sb) D c = recovered (sb_logstart sb) D0 c)"
  using assms
proof (induction rule: crash_reach.induct)
  case (cut D t t' ws k)
  then have "log_disk_ok (sb_logstart sb) D"
    by blast
  moreover from this have "ws = recovery_writes (sb_logstart sb) D"
    using initlog_boots [OF cut.hyps(2), of sb] cut.hyps(3,4) by auto
  ultimately show ?case
    using recovery_crash [where st = "sb_logstart sb" and D = D and k = k] cut.IH cut.prems by auto
qed simp

lemma initlog_after_crashes:
  assumes "crash_reach sb D0 D" and "log_disk_ok (sb_logstart sb) D0" and "boots D t"
  obtains t' where "initlog ROOTDEV sb (binit t) = Inr t'" "cache Map.empty Map.empty t'"
    "\<And>c. \<not> in_log (sb_logstart sb) c \<Longrightarrow> disk t' c = recovered (sb_logstart sb) D0 c"
    "lh_n (log_lh (thelog t')) = 0" "hdr_n (disk t' (sb_logstart sb)) = 0"
proof -
  let ?st = "sb_logstart sb"
  have D: "log_disk_ok ?st D" "\<And>c. \<not> in_log ?st c \<Longrightarrow> recovered ?st D c = recovered ?st D0 c"
    using crash_reach_recovered [OF assms(1,2)] by auto
  obtain t' where t': "initlog ROOTDEV sb (binit t) = Inr t'" "cache Map.empty Map.empty t'"
    "disk t' = apply_writes (recovery_writes ?st D) D" "lh_n (log_lh (thelog t')) = 0"
    using initlog_boots [OF assms(3) D(1)] by metis
  have "hdr_n (disk t' ?st) = 0"
    unfolding t'(3) by (rule recovery_header [OF D(1)])
  then show thesis
    using that t' recovery_result [OF D(1)] D(2) by metis
qed

section \<open>Writing into a transaction\<close>

lemma sint_of_nat_32: "k < 2 ^ 31 \<Longrightarrow> sint (of_nat k :: u32) = int k"
proof -
  assume "k < 2 ^ 31"
  then have "signed_take_bit 31 (int k) = int k"
    by (intro signed_take_bit_int_eq_self) auto
  then show ?thesis
    by (simp add: signed_of_nat)
qed

lemma lh_n_count:
  assumes "log_ok (thelog s)"
  shows "lh_n (log_lh (thelog s)) = of_nat (lh_count s)"
proof -
  have "sint (of_nat (lh_count s) :: u32) = int (lh_count s)"
    using log_okD(5) [OF assms] by (intro sint_of_nat_32) (simp add: LOGSIZE_def MAXOPBLOCKS_def)
  also have "\<dots> = sint (lh_n (log_lh (thelog s)))"
    by (rule log_okD(7) [OF assms])
  finally show ?thesis
    by (metis signed_word_eqI)
qed

text \<open>The two ways through \<open>log_write\<close>: the block is in the transaction already, or joins it.\<close>

lemma log_write_eq:
  assumes l: "log_ok (thelog s)" and o: "1 \<le> log_outstanding (thelog s)"
    and room: "int (lh_count s) < sint (log_size (thelog s)) - 1"
    and c: "b_blockno (bufs s ! b) = c"
  shows "log_write b s = Inr (if c \<in> set (logged s) then s
    else bpin b (upd_lh (\<lambda>h. \<lparr>lh_n = of_nat (Suc (lh_count s)), lh_block = (lh_block h)[lh_count s := c]\<rparr>) s))"
proof -
  note L = log_okD [OF l]
  let ?find = "List.find (\<lambda>i. lh_block (log_lh (thelog s)) ! i = c) [0..<lh_count s]"
  have n: "sint (lh_n (log_lh (thelog s))) = int (lh_count s)"
    using L(7) by simp
  have g: "\<not> (int LOGSIZE \<le> int (lh_count s) \<or> sint (log_size (thelog s)) - 1 \<le> int (lh_count s))"
    using L(5) room by simp
  show ?thesis
  proof (cases "c \<in> set (logged s)")
    case True
    then have "?find \<noteq> None"
      using L(4,9) by (auto simp: find_None_iff in_set_conv_nth)
    then obtain i where f: "?find = Some i"
      by auto
    then have i: "i < lh_count s" "lh_block (log_lh (thelog s)) ! i = c"
      by (auto simp: find_Some_iff)
    have "upd_lh (\<lambda>h. h\<lparr>lh_block := (lh_block h)[i := c]\<rparr>) s = s"
      using i(2) by (auto simp: upd_lh_def upd_log_def)
    then show ?thesis
      using True f i(1) g o by (simp add: log_write_def Let_def n c)
  next
    case False
    then have f: "?find = None"
      using L(4,9) by (auto simp: find_None_iff in_set_conv_nth)
    have "upd_lh (\<lambda>h. h\<lparr>lh_n := lh_n h + 1\<rparr>) (bpin b (upd_lh (\<lambda>h. h\<lparr>lh_block := (lh_block h)[lh_count s := c]\<rparr>) s)) =
        bpin b (upd_lh (\<lambda>h. \<lparr>lh_n = of_nat (Suc (lh_count s)), lh_block = (lh_block h)[lh_count s := c]\<rparr>) s)"
      using lh_n_count [OF l]
      by (cases "log_lh (thelog s)") (simp add: upd_lh_def upd_log_def bpin_def upd_buf_def add.commute)
    then show ?thesis
      using False f g o by (simp add: log_write_def Let_def n c)
  qed
qed

lemma thelog_bpin [simp]: "thelog (bpin b s) = thelog s"
  by (simp add: bpin_def upd_buf_def)

lemma log_inv_pinned:
  assumes "cache Q H s" and "ran Q = set (logged s)" and "H b = Some c" and "c \<in> set (logged s)"
  shows "Q b = Some c"
proof -
  obtain i where i: "Q i = Some c"
    using assms(2,4) by (auto simp: ran_def)
  have "is_cached s c b" "b < NBUF"
    using cacheD(3) [OF assms(1,3)] by (auto simp: holds_buf_def)
  then have "i = b"
    using is_cached_unique [OF cacheD(1) [OF assms(1)]] cacheD(2,5) [OF assms(1) i] by blast
  then show ?thesis
    using i by simp
qed

lemma log_write_ok:
  assumes I: "log_inv H s" and h: "H b = Some c" and c: "\<not> in_log (log_start (thelog s)) c"
    and o: "1 \<le> log_outstanding (thelog s)" and r: "int (lh_count s) < sint (log_size (thelog s)) - 1"
  obtains s' where "log_write b s = Inr s'" "log_inv H s'" "bview s' = bview s" "disk s' = disk s"
    "dwrites s' = dwrites s" "log_frame s s'"
    "logged s' = (if c \<in> set (logged s) then logged s else logged s @ [c])"
    "thelog s' = (thelog s)\<lparr>log_lh := log_lh (thelog s')\<rparr>"
proof -
  obtain Q where Q: "cache Q H s" "ran Q = set (logged s)"
    and l: "log_ok (thelog s)" and z: "hdr_n (disk s (log_start (thelog s))) = 0"
    using I by (auto simp: log_inv_def)
  note L = log_okD [OF l]
  have cb: "b_blockno (bufs s ! b) = c" "is_cached s c b"
    using cacheD(3) [OF Q(1) h] by (auto simp: holds_buf_def is_cached_def)
  note E = log_write_eq [OF l o r cb(1)]
  show thesis
  proof (cases "c \<in> set (logged s)")
    case True
    then show thesis
      using E I by (intro that [of s]) simp_all
  next
    case False
    let ?f = "\<lambda>h. \<lparr>lh_n = of_nat (Suc (lh_count s)), lh_block = (lh_block h)[lh_count s := c]\<rparr>"
    let ?t = "upd_lh ?f s"
    let ?s = "bpin b ?t"
    have "b \<notin> dom Q"
      using False Q(2) cacheD(2) [OF Q(1)] is_cached_block [OF cb(2)] by (metis domD ranI)
    then have P: "cache (Q(b \<mapsto> c)) H ?s" "bview ?s = bview s" "disk ?s = disk s" "dwrites ?s = dwrites s"
      "io_frame ?t ?s"
      using bc.pin_ok [of Q H ?t b c] Q(1) h by simp_all
    have n: "sint (of_nat (Suc (lh_count s)) :: u32) = int (Suc (lh_count s))"
      using L(5) by (intro sint_of_nat_32) (simp add: LOGSIZE_def MAXOPBLOCKS_def)
    have n': "sint (lh_n (log_lh (thelog ?s))) = int (Suc (lh_count s))"
      using n by simp
    have cnt: "lh_count ?s = Suc (lh_count s)"
      unfolding lh_count_def [of ?s] n' by simp
    have lg: "logged ?s = logged s @ [c]"
      unfolding logged_def cnt using L(5,8) by (simp add: take_Suc_conv_app_nth)
    have "log_ok (thelog ?s)"
      using l r L(2,3,5,8) c False lg unfolding log_ok_def [of "thelog ?s"] log_wf_def [of "thelog ?s"] n'
      unfolding logged_def [of ?s] cnt
      by (simp add: Let_def log_ok_def log_wf_def nat_add_distrib)
    moreover have "ran (Q(b \<mapsto> c)) = set (logged ?s)"
      using \<open>b \<notin> dom Q\<close> Q(2) lg by auto
    ultimately have "log_inv H ?s"
      using P z by (auto simp: log_inv_def)
    moreover have "log_frame s ?s"
      by (rule log_frame_trans [OF log_frame_upd_log(2) log_frame_io [OF P(5)]])
    ultimately show thesis
      using E False P lg by (intro that [of ?s]) simp_all
  qed
qed

text \<open>After a commit the transaction is empty and every block of the file system is on the disk.\<close>

lemma commit_inv:
  assumes I: "log_inv Map.empty s" and pos: "0 < sint (lh_n (log_lh (thelog s)))"
  obtains s' ws where "commit s = Inr s'" "log_inv Map.empty s'" "logged s' = []"
    "ws = commit_writes (thelog s) (bview s) (disk s)" "dwrites s' = dwrites s @ ws"
    "disk s' = apply_writes ws (disk s)" "log_frame s s'"
    "thelog s' = (thelog s)\<lparr>log_lh := (log_lh (thelog s))\<lparr>lh_n := 0\<rparr>\<rparr>"
    "\<And>c. \<not> in_log (log_start (thelog s)) c \<Longrightarrow> disk s' c = bview s c \<and> bview s' c = bview s c"
proof -
  let ?st = "log_start (thelog s)"
  let ?ws = "commit_writes (thelog s) (bview s) (disk s)"
  obtain s' where s': "commit s = Inr s'" "cache Map.empty Map.empty s'"
    "disk s' = apply_writes ?ws (disk s)" "dwrites s' = dwrites s @ ?ws" "log_frame s s'"
    "thelog s' = (thelog s)\<lparr>log_lh := (log_lh (thelog s))\<lparr>lh_n := 0\<rparr>\<rparr>"
    by (rule commit_ok [OF assms])
  obtain Q where Q: "cache Q Map.empty s" "ran Q = set (logged s)" and l: "log_ok (thelog s)"
    and z: "hdr_n (disk s ?st) = 0"
    using I by (auto simp: log_inv_def)
  have len: "length (disk s c) = BSIZE" "length (bview s c) = BSIZE" for c
    using bcache_invD(3) [OF cacheD(1) [OF Q(1)]] bc.view_length [OF Q(1)] by auto
  have clean: "bview s c = disk s c" if "c \<notin> set (logged s)" for c
    using bc.unheld_clean [OF Q(1)] Q(2) that by simp
  let ?w1 = "log_writes ?st (logged s) (bview s) @ [(?st, put_head (log_lh (thelog s)) (disk s ?st))]"
  let ?D1 = "apply_writes ?w1 (disk s)"
  have "?ws = ?w1 @ recovery_writes ?st ?D1"
    by (simp add: commit_writes_def Let_def logged_def lh_count_def del: apply_writes_simps)
  then have D': "disk s' = apply_writes (recovery_writes ?st ?D1) ?D1"
    unfolding s'(3) by simp
  have ok: "log_disk_ok ?st ?D1"
    unfolding logged_def lh_count_def by (rule commit_disk(1) [OF l len])
  have "recovered ?st ?D1 c = bview s c" if "\<not> in_log ?st c" for c
    using commit_recovered [where D = "disk s" and V = "bview s" and c = c, OF l len _ that] clean
    by (simp add: logged_def lh_count_def del: apply_writes_simps)
  then have new: "disk s' c = bview s c" if "\<not> in_log ?st c" for c
    using recovery_result [OF ok that] that unfolding D' by simp
  have "log_ok (thelog s')" "logged s' = []"
    using l by (simp_all add: s'(6) log_ok_def log_wf_def Let_def logged_def lh_count_def)
  moreover have "hdr_n (disk s' ?st) = 0"
    unfolding D' by (rule recovery_header [OF ok])
  ultimately have "log_inv Map.empty s'"
    using s'(2,6) by (auto simp: log_inv_def)
  moreover have "bview s' = disk s'"
    using bc.unheld_clean [OF s'(2)] by auto
  ultimately show thesis
    using s' new \<open>logged s' = []\<close> by (intro that [OF s'(1) _ _ refl]) auto
qed

section \<open>Transactions from the callers' side\<close>

text \<open>
  The steps of a file system operation, on a state in which \<open>H\<close> is held. The cache has a
  buffer left for one more block while \<open>H\<close> and the transaction do not fill it.
\<close>

definition log_room :: "(nat \<rightharpoonup> u32) \<Rightarrow> 'a lstate_scheme \<Rightarrow> bool" where
  "log_room H s \<longleftrightarrow> card (dom H) + lh_count s < NBUF"

lemma log_room_room:
  assumes c: "cache Q H s" and q: "ran Q = set (logged s)" and l: "log_ok (thelog s)" and r: "log_room H s"
  shows "room Q H a"
proof -
  have "\<not> {..<NBUF} \<subseteq> dom H \<union> dom Q"
  proof
    assume "{..<NBUF} \<subseteq> dom H \<union> dom Q"
    then have "card {..<NBUF} \<le> card (dom H \<union> dom Q)"
      using finite_dom_held [OF c] card_dom_pinned(1) [OF c] by (intro card_mono) auto
    also have "\<dots> \<le> card (dom H) + card (dom Q)"
      by (rule card_Un_le)
    also have "card (dom Q) \<le> lh_count s"
      using card_dom_pinned(2) [OF c] q card_length [of "logged s"] log_okD(4) [OF l] by simp
    finally show False
      using r by (simp add: log_room_def)
  qed
  then show ?thesis
    by (simp add: room_def)
qed

text \<open>What such a step keeps: the disk and the bookkeeping of the log other than its header.\<close>

definition txn_step :: "'a lstate_scheme \<Rightarrow> 'a lstate_scheme \<Rightarrow> bool" where
  "txn_step s s' \<longleftrightarrow> disk s' = disk s \<and> dwrites s' = dwrites s \<and> log_frame s s' \<and>
     thelog s' = (thelog s)\<lparr>log_lh := log_lh (thelog s')\<rparr> \<and> set (logged s) \<subseteq> set (logged s')"

lemma txn_step_refl [simp]: "txn_step s s"
  by (simp add: txn_step_def)

lemma txn_step_trans: "txn_step s t \<Longrightarrow> txn_step t u \<Longrightarrow> txn_step s u"
  unfolding txn_step_def by (auto intro: log_frame_trans) (metis log.update_convs(6) log.surjective)

lemma txn_step_sel:
  assumes "txn_step s s'"
  shows "disk s' = disk s" "dwrites s' = dwrites s" "log_frame s s'"
    "log_start (thelog s') = log_start (thelog s)" "log_size (thelog s') = log_size (thelog s)"
    "log_outstanding (thelog s') = log_outstanding (thelog s)"
    "log_committing (thelog s') = log_committing (thelog s)" "log_dev (thelog s') = log_dev (thelog s)"
    "set (logged s) \<subseteq> set (logged s')"
proof -
  have l: "thelog s' = (thelog s)\<lparr>log_lh := log_lh (thelog s')\<rparr>"
    and "disk s' = disk s" "dwrites s' = dwrites s" "log_frame s s'" "set (logged s) \<subseteq> set (logged s')"
    using assms unfolding txn_step_def by blast+
  then show "disk s' = disk s" "dwrites s' = dwrites s" "log_frame s s'" "set (logged s) \<subseteq> set (logged s')"
    by blast+
  show "log_start (thelog s') = log_start (thelog s)" "log_size (thelog s') = log_size (thelog s)"
    "log_outstanding (thelog s') = log_outstanding (thelog s)"
    "log_committing (thelog s') = log_committing (thelog s)" "log_dev (thelog s') = log_dev (thelog s)"
    by (subst l, simp)+
qed

lemma io_frame_txn_step:
  "io_frame s s' \<Longrightarrow> disk s' = disk s \<Longrightarrow> dwrites s' = dwrites s \<Longrightarrow> txn_step s s' \<and> thelog s' = thelog s"
  using thelog_more(1) [of s' s] by (simp add: txn_step_def log_frame_io logged_def lh_count_def) (simp add: io_frame_def)

lemma log_inv_thelog:
  "log_inv H s \<Longrightarrow> thelog s' = thelog s \<Longrightarrow> disk s' = disk s \<Longrightarrow> cache Q H' s' \<Longrightarrow> ran Q = set (logged s) \<Longrightarrow>
   log_inv H' s' \<and> logged s' = logged s \<and> lh_count s' = lh_count s"
  by (auto simp: log_inv_def logged_def lh_count_def)

lemma log_bread:
  assumes I: "log_inv H s" and c: "c \<notin> ran H" and r: "log_room H s"
  obtains b s' where "bread ROOTDEV c s = Inr (b, s')" "log_inv (H(b \<mapsto> c)) s'" "b \<notin> dom H"
    "buf_data b s' = bview s c" "bview s' = bview s" "txn_step s s'" "thelog s' = thelog s"
    "logged s' = logged s"
proof -
  obtain Q where Q: "cache Q H s" "ran Q = set (logged s)" and l: "log_ok (thelog s)"
    using I by (auto simp: log_inv_def)
  obtain b s' where b: "bread ROOTDEV c s = Inr (b, s')" "cache Q (H(b \<mapsto> c)) s'" "b \<notin> dom H"
    "bview s' = bview s" "disk s' = disk s" "dwrites s' = dwrites s" "io_frame s s'"
    using bc.rd_ok [OF Q(1) c log_room_room [OF Q l r]] by blast
  have "buf_data b s' = bview s c"
    using bc.dat_held [OF b(2), of b c] b(4) by simp
  moreover have t: "txn_step s s'" "thelog s' = thelog s"
    using io_frame_txn_step [OF b(7,5,6)] by auto
  moreover have "log_inv (H(b \<mapsto> c)) s'" "logged s' = logged s"
    using log_inv_thelog [OF I t(2) b(5,2) Q(2)] by auto
  ultimately show thesis
    using that b by simp
qed

lemma log_put:
  assumes I: "log_inv H s" and b: "H b = Some c" and d: "length d = BSIZE"
  shows "log_inv H (set_data b d s)" "bview (set_data b d s) = (bview s)(c := d)"
    "txn_step s (set_data b d s)" "thelog (set_data b d s) = thelog s" "logged (set_data b d s) = logged s"
proof -
  obtain Q where Q: "cache Q H s" "ran Q = set (logged s)"
    using I by (auto simp: log_inv_def)
  have P: "cache Q H (set_data b d s)" "bview (set_data b d s) = (bview s)(c := d)"
    "disk (set_data b d s) = disk s" "dwrites (set_data b d s) = dwrites s" "io_frame s (set_data b d s)"
    using bc.put_ok [OF Q(1) b d] by auto
  show "bview (set_data b d s) = (bview s)(c := d)"
    by (rule P(2))
  show t: "txn_step s (set_data b d s)" "thelog (set_data b d s) = thelog s"
    using io_frame_txn_step [OF P(5,3,4)] by auto
  show "log_inv H (set_data b d s)" "logged (set_data b d s) = logged s"
    using log_inv_thelog [OF I t(2) P(3,1) Q(2)] by auto
qed

text \<open>A buffer is released when it is unchanged or its block is in the transaction.\<close>

lemma log_brelse:
  assumes I: "log_inv H s" and b: "H b = Some c" and d: "c \<in> set (logged s) \<or> bview s c = disk s c"
  obtains s' where "brelse b s = Inr s'" "log_inv (H(b := None)) s'" "bview s' = bview s" "txn_step s s'"
    "thelog s' = thelog s" "logged s' = logged s"
proof -
  obtain Q where Q: "cache Q H s" "ran Q = set (logged s)"
    using I by (auto simp: log_inv_def)
  have "b \<in> dom Q \<or> bview s c = disk s c"
    using d log_inv_pinned [OF Q b] by auto
  then obtain s' where s': "brelse b s = Inr s'" "cache Q (H(b := None)) s'" "bview s' = bview s"
    "disk s' = disk s" "dwrites s' = dwrites s" "io_frame s s'"
    using bc.rel_ok [OF Q(1) b] by blast
  have t: "txn_step s s'" "thelog s' = thelog s"
    using io_frame_txn_step [OF s'(6,4,5)] by auto
  then show thesis
    using that s' log_inv_thelog [OF I t(2) s'(4,2) Q(2)] by simp
qed

lemma log_inv_clean:
  assumes "log_inv H s" and "c \<notin> ran H"
  shows "c \<in> set (logged s) \<or> bview s c = disk s c"
  using assms bc.unheld_clean [of _ H s c] unfolding log_inv_def by metis

text \<open>Looking at a block, with the buffer held in between.\<close>

lemma log_read_block:
  assumes I: "log_inv H s" and c: "c \<notin> ran H" and r: "log_room H s"
  obtains b s1 s2 where "bread ROOTDEV c s = Inr (b, s1)" "buf_data b s1 = bview s c" "brelse b s1 = Inr s2"
    "log_inv H s2" "bview s2 = bview s" "txn_step s s2" "thelog s2 = thelog s" "logged s2 = logged s"
    "thelog s1 = thelog s" "txn_step s s1"
proof -
  obtain b s1 where 1: "bread ROOTDEV c s = Inr (b, s1)" "log_inv (H(b \<mapsto> c)) s1" "b \<notin> dom H"
    "buf_data b s1 = bview s c" "bview s1 = bview s" "txn_step s s1" "thelog s1 = thelog s" "logged s1 = logged s"
    by (rule log_bread [OF I c r])
  have "c \<in> set (logged s1) \<or> bview s1 c = disk s1 c"
    using log_inv_clean [OF I c] 1(5,6,8) by (simp add: txn_step_def)
  then obtain s2 where 2: "brelse b s1 = Inr s2" "log_inv H s2" "bview s2 = bview s1" "txn_step s1 s2"
    "thelog s2 = thelog s1" "logged s2 = logged s1"
    using log_brelse [OF 1(2), of b c] 1(3) by (auto simp: fun_upd_idem domIff)
  show thesis
    by (rule that [OF 1(1,4) 2(1,2) _ txn_step_trans [OF 1(6) 2(4)]]) (use 1 2 in simp_all)
qed

text \<open>
  The idiom of the file system, \<open>bread\<close>, change the data, \<open>log_write\<close>, \<open>brelse\<close>:
  the block gets its new content in the transaction, and the disk stays as it is.
\<close>

definition log_space :: "'a lstate_scheme \<Rightarrow> bool" where
  "log_space s \<longleftrightarrow> 1 \<le> log_outstanding (thelog s) \<and> int (lh_count s) < sint (log_size (thelog s)) - 1"

lemma log_update_held:
  assumes I: "log_inv H s" and b: "H b = Some c" and d: "length d = BSIZE"
    and c: "\<not> in_log (log_start (thelog s)) c" and sp: "log_space s"
  obtains s1 s2 where "log_write b (set_data b d s) = Inr s1" "brelse b s1 = Inr s2"
    "log_inv (H(b := None)) s2" "bview s2 = (bview s)(c := d)" "txn_step s s2"
    "logged s2 = (if c \<in> set (logged s) then logged s else logged s @ [c])"
proof -
  let ?t = "set_data b d s"
  note P = log_put [OF I b d]
  have "lh_count ?t = lh_count s"
    using P(4) by (simp add: lh_count_def)
  then have "1 \<le> log_outstanding (thelog ?t)" "int (lh_count ?t) < sint (log_size (thelog ?t)) - 1"
    "\<not> in_log (log_start (thelog ?t)) c"
    using sp c P(4) by (auto simp: log_space_def)
  then obtain s1 where 1: "log_write b ?t = Inr s1" "log_inv H s1" "bview s1 = bview ?t" "disk s1 = disk ?t"
    "dwrites s1 = dwrites ?t" "log_frame ?t s1"
    "logged s1 = (if c \<in> set (logged ?t) then logged ?t else logged ?t @ [c])"
    "thelog s1 = (thelog ?t)\<lparr>log_lh := log_lh (thelog s1)\<rparr>"
    using log_write_ok [OF P(1) b] by metis
  have t1: "txn_step ?t s1"
    using 1 by (auto simp: txn_step_def)
  have "c \<in> set (logged s1)"
    using 1(7) by auto
  then obtain s2 where 2: "brelse b s1 = Inr s2" "log_inv (H(b := None)) s2" "bview s2 = bview s1"
    "txn_step s1 s2" "logged s2 = logged s1"
    using log_brelse [OF 1(2) b] by metis
  show thesis
    by (rule that [OF 1(1) 2(1,2) _ txn_step_trans [OF P(3) txn_step_trans [OF t1 2(4)]]])
      (use 1(3,7) 2(3,5) P(2,5) in simp_all)
qed

lemma log_update_block:
  assumes I: "log_inv H s" and h: "c \<notin> ran H" and r: "log_room H s" and d: "length (f (bview s c)) = BSIZE"
    and c: "\<not> in_log (log_start (thelog s)) c" and sp: "log_space s"
  obtains b s1 s2 s3 where "bread ROOTDEV c s = Inr (b, s1)" "buf_data b s1 = bview s c"
    "log_write b (set_data b (f (bview s c)) s1) = Inr s2" "brelse b s2 = Inr s3" "log_inv H s3"
    "bview s3 = (bview s)(c := f (bview s c))" "txn_step s s3"
    "logged s3 = (if c \<in> set (logged s) then logged s else logged s @ [c])" "thelog s1 = thelog s"
proof -
  obtain b s1 where 1: "bread ROOTDEV c s = Inr (b, s1)" "log_inv (H(b \<mapsto> c)) s1" "b \<notin> dom H"
    "buf_data b s1 = bview s c" "bview s1 = bview s" "txn_step s s1" "thelog s1 = thelog s" "logged s1 = logged s"
    by (rule log_bread [OF I h r])
  have "lh_count s1 = lh_count s"
    using 1(7) by (simp add: lh_count_def)
  then have "log_space s1" "\<not> in_log (log_start (thelog s1)) c"
    using sp c 1(7) by (auto simp: log_space_def)
  then obtain s2 s3 where 2: "log_write b (set_data b (f (bview s c)) s1) = Inr s2" "brelse b s2 = Inr s3"
    "log_inv ((H(b \<mapsto> c))(b := None)) s3" "bview s3 = (bview s1)(c := f (bview s c))" "txn_step s1 s3"
    "logged s3 = (if c \<in> set (logged s1) then logged s1 else logged s1 @ [c])"
    using log_update_held [OF 1(2) _ d, of b c] by auto
  have "(H(b \<mapsto> c))(b := None) = H"
    using 1(3) by (auto simp: fun_upd_idem domIff)
  then show thesis
    using 2 1 txn_step_trans [OF 1(6) 2(5)] by (intro that [OF 1(1,4) 2(1,2)]) simp_all
qed

section \<open>Operations\<close>

text \<open>Entering and leaving an operation.\<close>

lemma log_inv_outstanding:
  "log_inv H (upd_log (\<lambda>l. l\<lparr>log_outstanding := f l\<rparr>) s) = log_inv H s"
  "log_inv H (upd_log (\<lambda>l. l\<lparr>log_committing := g l\<rparr>) s) = log_inv H s"
  by (simp_all add: log_inv_def log_ok_def log_wf_def logged_def lh_count_def)

lemma thelog_wakeup [simp]: "thelog (wakeup ch s) = thelog s"
  by (simp add: wakeup_def)

lemma cache_wakeup: "cache Q Map.empty s \<Longrightarrow> cache Q Map.empty (wakeup ch s)"
  by (auto simp: cache_def bcache_inv_def buf_ok_def is_cached_def locked_bufs_def)

lemma log_inv_wakeup: "log_inv Map.empty s \<Longrightarrow> log_inv Map.empty (wakeup ch s)"
  by (auto simp: log_inv_def logged_def lh_count_def intro: cache_wakeup)

lemma bview_wakeup [simp]: "bview (wakeup ch s) = bview s"
  by (rule bview_cong) simp_all

lemma end_op_not_last:
  assumes "log_outstanding (thelog s) \<noteq> 1" and "\<not> log_committing (thelog s)"
  shows "end_op s = Inr (wakeup Chan_log (upd_log (\<lambda>l. l\<lparr>log_outstanding := log_outstanding l - 1\<rparr>) s))"
  using assms by (simp add: end_op_def)

text \<open>The last operation commits, whether or not it wrote anything.\<close>

lemma end_op_last:
  assumes I: "log_inv Map.empty s" and o: "log_outstanding (thelog s) = 1" "\<not> log_committing (thelog s)"
  obtains s' where "end_op s = Inr s'" "log_inv Map.empty s'" "logged s' = []"
    "log_outstanding (thelog s') = 0" "\<not> log_committing (thelog s')"
    "\<And>c. \<not> in_log (log_start (thelog s)) c \<Longrightarrow> disk s' c = bview s c \<and> bview s' c = bview s c"
proof -
  let ?t = "upd_log (\<lambda>l. l\<lparr>log_committing := True\<rparr>) (upd_log (\<lambda>l. l\<lparr>log_outstanding := log_outstanding l - 1\<rparr>) s)"
  let ?f = "upd_log (\<lambda>l. l\<lparr>log_committing := False\<rparr>) :: 'a lstate_scheme \<Rightarrow> 'a lstate_scheme"
  have It: "log_inv Map.empty ?t"
    using I by (simp add: log_inv_outstanding)
  have "\<exists>u. commit ?t = Inr u \<and> log_inv Map.empty u \<and> logged u = [] \<and> log_outstanding (thelog u) = 0 \<and>
      (\<forall>c. \<not> in_log (log_start (thelog s)) c \<longrightarrow> disk u c = bview s c \<and> bview u c = bview s c)"
  proof (cases "0 < sint (lh_n (log_lh (thelog ?t)))")
    case True
    obtain u where u: "commit ?t = Inr u" "log_inv Map.empty u" "logged u = []"
      "thelog u = (thelog ?t)\<lparr>log_lh := (log_lh (thelog ?t))\<lparr>lh_n := 0\<rparr>\<rparr>"
      "\<And>c. \<not> in_log (log_start (thelog ?t)) c \<Longrightarrow> disk u c = bview ?t c \<and> bview u c = bview ?t c"
      using commit_inv [OF It True] by blast
    then show ?thesis
      using o by (intro exI [of _ u]) simp
  next
    case False
    then have "lh_count ?t = 0"
      by (simp add: lh_count_def)
    then have "logged ?t = []"
      by (simp add: logged_def)
    then have "bview ?t c = disk ?t c" for c
      using log_inv_clean [OF It, of c] by simp
    then show ?thesis
      using False It o \<open>logged ?t = []\<close> by (intro exI [of _ ?t]) (simp add: commit_def)
  qed
  then obtain u where u: "commit ?t = Inr u" "log_inv Map.empty u" "logged u = []"
    "log_outstanding (thelog u) = 0"
    "\<And>c. \<not> in_log (log_start (thelog s)) c \<Longrightarrow> disk u c = bview s c \<and> bview u c = bview s c"
    by blast
  show thesis
  proof (rule that)
    show "end_op s = Inr (wakeup Chan_log (?f u))"
      using o u(1) by (simp add: end_op_def)
    show "log_inv Map.empty (wakeup Chan_log (?f u))"
      using u(2) by (intro log_inv_wakeup) (simp add: log_inv_outstanding)
  qed (use u(3-5) in \<open>simp_all add: logged_def lh_count_def\<close>)
qed

text \<open>Start-up leaves an empty transaction.\<close>

lemma initlog_cached_inv:
  assumes "cache Map.empty Map.empty u" and "length (lh_block (log_lh (thelog u))) = LOGSIZE" and D: "log_disk_ok (sb_logstart sb) (disk u)"
    and n: "0 < sint (sb_nlog sb)" "sint (sb_nlog sb) \<le> int LOGSIZE"
  obtains t' where "initlog ROOTDEV sb u = Inr t'" "log_inv Map.empty t'" "logged t' = []"
    "log_start (thelog t') = sb_logstart sb" "log_size (thelog t') = sb_nlog sb"
    "log_outstanding (thelog t') = log_outstanding (thelog u)" "log_committing (thelog t') = log_committing (thelog u)"
    "disk t' = apply_writes (recovery_writes (sb_logstart sb) (disk u)) (disk u)" "bview t' = disk t'" "log_frame u t'"
proof -
  obtain t' where t': "initlog ROOTDEV sb u = Inr t'" "cache Map.empty Map.empty t'"
    "disk t' = apply_writes (recovery_writes (sb_logstart sb) (disk u)) (disk u)"
    "thelog t' = (thelog u)\<lparr>log_start := sb_logstart sb, log_size := sb_nlog sb, log_dev := ROOTDEV,
       log_lh := log_lh (thelog t')\<rparr>"
    "lh_n (log_lh (thelog t')) = 0" "length (lh_block (log_lh (thelog t'))) = LOGSIZE" "log_frame u t'"
    using initlog_cached [OF assms(1,2) D] by blast
  have l: "log_start (thelog t') = sb_logstart sb" "log_size (thelog t') = sb_nlog sb"
    "log_dev (thelog t') = ROOTDEV" "log_outstanding (thelog t') = log_outstanding (thelog u)"
    "log_committing (thelog t') = log_committing (thelog u)"
    by (subst t'(4), simp)+
  have "logged t' = []"
    using t'(5) by (simp add: logged_def lh_count_def)
  moreover have "hdr_n (disk t' (sb_logstart sb)) = 0"
    unfolding t'(3) by (rule recovery_header [OF D])
  ultimately have "log_inv Map.empty t'"
    using t'(2,5,6) l n by (auto simp: log_inv_def log_ok_def log_wf_def)
  moreover have "bview t' = disk t'"
    using bc.unheld_clean [OF t'(2)] by auto
  ultimately show thesis
    using that [OF t'(1)] t'(3,7) l \<open>logged t' = []\<close> by blast
qed

lemma initlog_inv:
  assumes "boots D t" and D: "log_disk_ok (sb_logstart sb) D"
    and n: "0 < sint (sb_nlog sb)" "sint (sb_nlog sb) \<le> int LOGSIZE"
  obtains t' where "initlog ROOTDEV sb (binit t) = Inr t'" "log_inv Map.empty t'" "logged t' = []"
    "log_start (thelog t') = sb_logstart sb" "log_size (thelog t') = sb_nlog sb"
    "log_outstanding (thelog t') = log_outstanding (thelog t)" "log_committing (thelog t') = log_committing (thelog t)"
    "disk t' = apply_writes (recovery_writes (sb_logstart sb) D) D" "bview t' = disk t'"
proof -
  have B: "cache Map.empty Map.empty (binit t)" "disk (binit t) = D" "io_frame t (binit t)"
    using cache_boot [of t] assms by (auto simp: boots_def log_disk_ok_def)
  have tl: "thelog (binit t) = thelog t"
    using B(3) by (intro thelog_more(1)) (simp add: io_frame_def)
  show thesis
    by (rule initlog_cached_inv [OF B(1), of sb]) (use assms B tl that in \<open>auto simp: boots_def\<close>)
qed

text \<open>A machine with an empty file system image, for concrete runs.\<close>

definition zero_disk :: "u32 \<Rightarrow> u8 list" where
  "zero_disk = (\<lambda>_. replicate BSIZE 0)"

definition boot_lstate :: lstate where
  "boot_lstate = \<lparr>mem = (\<lambda>_. 0), freelist = 0, kend = 0, procs = replicate NPROC bss_proc, cur = 0,
     initproc = 0, nextpid = 1, bufs = replicate (Suc NBUF) bss_buf,
     disk = zero_disk, dwrites = [],
     thelog = \<lparr>log_start = 0, log_size = 0, log_outstanding = 0, log_committing = False, log_dev = 0,
       log_lh = \<lparr>lh_n = 0, lh_block = replicate LOGSIZE 0\<rparr>\<rparr>\<rparr>"

definition mkfs_sb :: superblock where
  "mkfs_sb = \<lparr>sb_magic = 0x10203040, sb_size = 2000, sb_nblocks = 1954, sb_ninodes = 200, sb_nlog = 30,
     sb_logstart = 2, sb_inodestart = 32, sb_bmapstart = 45\<rparr>"

lemma hdr_n_zeros: "hdr_n (replicate BSIZE 0) = 0"
  by (simp add: hdr_n_def get32_def seg_def BSIZE_def numeral_eq_Suc)

lemma boots_zero: "boots zero_disk boot_lstate"
  by (simp add: boots_def boot_lstate_def NPROC_def)

lemma log_disk_ok_zero: "log_disk_ok st zero_disk"
  by (simp add: log_disk_ok_def zero_disk_def hdr_n_zeros hdr_blocks_def)

lemma boot_example:
  obtains t where "initlog ROOTDEV mkfs_sb (binit boot_lstate) = Inr t" "log_inv Map.empty t" "logged t = []"
    "log_start (thelog t) = 2" "log_size (thelog t) = 30" "log_outstanding (thelog t) = 0"
    "\<not> log_committing (thelog t)" "disk t 100 = replicate BSIZE 0" "bview t = disk t"
proof -
  have "0 < sint (sb_nlog mkfs_sb)" "sint (sb_nlog mkfs_sb) \<le> int LOGSIZE"
    by (simp_all add: mkfs_sb_def LOGSIZE_def MAXOPBLOCKS_def)
  then obtain t where t: "initlog ROOTDEV mkfs_sb (binit boot_lstate) = Inr t" "log_inv Map.empty t" "logged t = []"
    "log_start (thelog t) = sb_logstart mkfs_sb" "log_size (thelog t) = sb_nlog mkfs_sb"
    "log_outstanding (thelog t) = log_outstanding (thelog boot_lstate)"
    "log_committing (thelog t) = log_committing (thelog boot_lstate)"
    "disk t = apply_writes (recovery_writes (sb_logstart mkfs_sb) zero_disk) zero_disk" "bview t = disk t"
    by (rule initlog_inv [OF boots_zero log_disk_ok_zero])
  have "disk t 100 = replicate BSIZE 0"
    unfolding t(8) recovery_writes_def mkfs_sb_def
    by (simp add: zero_disk_def install_writes_def hdr_blocks_def hdr_n_zeros)
  then show thesis
    using t by (intro that [of t]) (simp_all add: mkfs_sb_def boot_lstate_def)
qed

text \<open>One operation that writes one block, up to its end.\<close>

lemma txn_example:
  obtains s :: lstate where "log_inv Map.empty s" "logged s = [100]" "bview s 100 = replicate BSIZE 1"
    "disk s 100 = replicate BSIZE 0" "log_start (thelog s) = 2" "log_outstanding (thelog s) = 1"
    "log_size (thelog s) = 30" "\<not> log_committing (thelog s)" "0 < sint (lh_n (log_lh (thelog s)))"
proof -
  obtain t where "initlog ROOTDEV mkfs_sb (binit boot_lstate) = Inr t"
    and t: "log_inv Map.empty t" "logged t = []" "log_start (thelog t) = 2" "log_size (thelog t) = 30"
      "log_outstanding (thelog t) = 0" "\<not> log_committing (thelog t)" "disk t 100 = replicate BSIZE 0" "bview t = disk t"
    by (rule boot_example)
  let ?s = "upd_log (\<lambda>l. l\<lparr>log_outstanding := 1\<rparr>) t"
  have s: "log_inv Map.empty ?s" "logged ?s = []"
    using t(1,2) by (simp_all add: log_inv_outstanding logged_def lh_count_def)
  have n: "lh_count ?s = 0"
    using s(2) log_okD(4) [of ?s] s(1) by (simp add: log_inv_def)
  have r: "log_room Map.empty ?s" "log_space ?s"
    using n t by (simp_all add: log_room_def NBUF_def log_space_def)
  have nl: "\<not> in_log (log_start (thelog ?s)) 100"
    using t(3) by (simp add: in_log_def LOGSIZE_def MAXOPBLOCKS_def)
  have h: "100 \<notin> ran (Map.empty :: nat \<rightharpoonup> u32)" "length (replicate BSIZE (1 :: u8)) = BSIZE"
    by simp_all
  obtain b s1 s2 u where "bread ROOTDEV 100 ?s = Inr (b, s1)" "buf_data b s1 = bview ?s 100"
    "log_write b (set_data b (replicate BSIZE 1) s1) = Inr s2" "brelse b s2 = Inr u"
    and u: "log_inv Map.empty u" "bview u = (bview ?s)(100 := replicate BSIZE 1)" "txn_step ?s u"
      "logged u = (if 100 \<in> set (logged ?s) then logged ?s else logged ?s @ [100])"
    and "thelog s1 = thelog ?s"
    by (rule log_update_block [where f = "\<lambda>_. replicate BSIZE 1", OF s(1) h(1) r(1) h(2) nl r(2)])
  have l: "log_start (thelog u) = 2" "log_outstanding (thelog u) = 1" "log_size (thelog u) = 30" "\<not> log_committing (thelog u)"
    using txn_step_sel [OF u(3)] t by auto
  have u4: "logged u = [100]"
    using u(4) s(2) by simp
  then have "int (lh_count u) = sint (lh_n (log_lh (thelog u)))" "lh_count u = 1"
    using log_okD(4,7) [of u] u(1) by (simp_all add: log_inv_def)
  then show thesis
    using that [OF u(1) u4] u(2) txn_step_sel(1) [OF u(3)] l t(7) by simp
qed

section \<open>Properties\<close>

text \<open>
  Property C1. Crash safety of commit. \<open>commit\<close> returns. If the machine stops after any
  number of its disk writes, and recovery is then itself cut off any number of times, the
  first start-up that gets through \<open>initlog\<close> leaves the blocks of the file system either
  all as they were on the disk before the commit or all as the transaction wrote them.
\<close>

theorem commit_crash_safe:
  assumes "log_inv Map.empty s" and "0 < sint (lh_n (log_lh (thelog s)))"
    and "sb_logstart sb = log_start (thelog s)"
  shows "\<exists>s' ws. commit s = Inr s' \<and> dwrites s' = dwrites s @ ws \<and>
    (\<forall>k D t. crash_reach sb (apply_writes (take k ws) (disk s)) D \<and> boots D (t :: lstate) \<longrightarrow>
      (\<exists>t'. initlog ROOTDEV sb (binit t) = Inr t' \<and>
        ((\<forall>c. \<not> in_log (log_start (thelog s)) c \<longrightarrow> disk t' c = disk s c) \<or>
         (\<forall>c. \<not> in_log (log_start (thelog s)) c \<longrightarrow> disk t' c = bview s c))))"
proof -
  let ?st = "log_start (thelog s)" and ?ws = "commit_writes (thelog s) (bview s) (disk s)"
  obtain s' where s': "commit s = Inr s'" "dwrites s' = dwrites s @ ?ws"
    using commit_ok [OF assms(1,2)] by blast
  obtain Q where Q: "cache Q Map.empty s" "ran Q = set (logged s)" and l: "log_ok (thelog s)"
    and z: "hdr_n (disk s ?st) = 0"
    using assms(1) by (auto simp: log_inv_def)
  have len: "length (disk s c) = BSIZE" "length (bview s c) = BSIZE" for c
    using bcache_invD(3) [OF cacheD(1) [OF Q(1)]] bc.view_length [OF Q(1)] by auto
  have clean: "bview s c = disk s c" if "c \<notin> set (logged s)" for c
    using log_inv_clean [OF assms(1), of c] that by simp
  have "\<exists>t'. initlog ROOTDEV sb (binit t) = Inr t' \<and>
      ((\<forall>c. \<not> in_log ?st c \<longrightarrow> disk t' c = disk s c) \<or> (\<forall>c. \<not> in_log ?st c \<longrightarrow> disk t' c = bview s c))"
    if r: "crash_reach sb (apply_writes (take k ?ws) (disk s)) D" and b: "boots D t" for k D and t :: lstate
  proof -
    let ?D = "apply_writes (take k ?ws) (disk s)"
    have ok: "log_disk_ok ?st ?D \<and> ((\<forall>c. \<not> in_log ?st c \<longrightarrow> recovered ?st ?D c = disk s c) \<or>
        (\<forall>c. \<not> in_log ?st c \<longrightarrow> recovered ?st ?D c = bview s c))"
    proof (cases "k \<le> length (logged s)")
      case True
      then show ?thesis
        using commit_cut_early [where D = "disk s" and V = "bview s", OF l len z _ refl, folded lh_count_def, folded logged_def]
        by blast
    next
      case False
      then have "length (logged s) < k"
        by simp
      then show ?thesis
        using commit_cut_late [where D = "disk s" and V = "bview s", OF l len _ _ refl, folded lh_count_def, folded logged_def] clean
        by blast
    qed
    then have "log_disk_ok (sb_logstart sb) ?D"
      unfolding assms(3) by blast
    from initlog_after_crashes [OF r this b]
    obtain t' where t': "initlog ROOTDEV sb (binit t) = Inr t'"
      "\<And>c. \<not> in_log ?st c \<Longrightarrow> disk t' c = recovered ?st ?D c"
      unfolding assms(3) by blast
    show ?thesis
    proof (intro exI [of _ t'] conjI t'(1))
      show "(\<forall>c. \<not> in_log ?st c \<longrightarrow> disk t' c = disk s c) \<or> (\<forall>c. \<not> in_log ?st c \<longrightarrow> disk t' c = bview s c)"
        using conjunct2 [OF ok] t'(2) by (elim disjE) (simp_all del: apply_writes_simps)
    qed
  qed
  then show ?thesis
    using s' by blast
qed

theorem commit_crash_safe_witness:
  "\<exists>s s' ws :: (u32 \<times> u8 list) list. commit (s :: lstate) = Inr s' \<and> disk s 100 = replicate BSIZE 0 \<and>
     bview s 100 = replicate BSIZE 1 \<and> dwrites s' = dwrites s @ ws"
proof -
  obtain s :: lstate where s: "log_inv Map.empty s" "bview s 100 = replicate BSIZE 1"
    "disk s 100 = replicate BSIZE 0" "log_start (thelog s) = 2" "0 < sint (lh_n (log_lh (thelog s)))"
    using txn_example by blast
  have "sb_logstart mkfs_sb = log_start (thelog s)"
    using s(4) by (simp add: mkfs_sb_def)
  then show ?thesis
    using commit_crash_safe [OF s(1,5)] s(2,3) by blast
qed

text \<open>
  Property C2. Recovery is total and can be repeated. From a disk with a sane header, however
  often recovery was cut off before, \<open>initlog\<close> returns; afterwards every block of the file
  system holds the logged copy if the header lists it and its old content otherwise, the
  header says that nothing is logged, and the transaction in memory is empty.
\<close>

theorem initlog_recovers:
  assumes "log_disk_ok (sb_logstart sb) D0" and "crash_reach sb D0 D" and "boots D t"
  shows "\<exists>t'. initlog ROOTDEV sb (binit t) = Inr t' \<and> lh_n (log_lh (thelog t')) = 0 \<and>
    hdr_n (disk t' (sb_logstart sb)) = 0 \<and>
    (\<forall>c. \<not> in_log (sb_logstart sb) c \<longrightarrow> disk t' c = recovered (sb_logstart sb) D0 c)"
  using initlog_after_crashes [OF assms(2,1,3)] by metis

definition committed_disk :: "u32 \<Rightarrow> u8 list" where
  "committed_disk = zero_disk(2 := put_head \<lparr>lh_n = 1, lh_block = 100 # replicate (LOGSIZE - 1) 0\<rparr> (replicate BSIZE 0),
     3 := replicate BSIZE 7)"

lemma committed_disk_hdr:
  "hdr_n (committed_disk 2) = 1" "hdr_blocks (committed_disk 2) = [100]" "length (committed_disk c) = BSIZE"
proof -
  let ?h = "\<lparr>lh_n = 1 :: u32, lh_block = 100 # replicate (LOGSIZE - 1) (0 :: u32)\<rparr>"
  have "nat (sint (lh_n ?h)) \<le> LOGSIZE" "length (lh_block ?h) = LOGSIZE"
    by (simp_all add: LOGSIZE_def MAXOPBLOCKS_def)
  then have "length (put_head ?h (replicate BSIZE 0)) = BSIZE" "hdr_n (put_head ?h (replicate BSIZE 0)) = 1"
    "hdr_blocks (put_head ?h (replicate BSIZE 0)) = [100]"
    using put_head_spec [of "replicate BSIZE 0" ?h] by simp_all
  then show "hdr_n (committed_disk 2) = 1" "hdr_blocks (committed_disk 2) = [100]"
    "length (committed_disk c) = BSIZE"
    by (simp_all add: committed_disk_def zero_disk_def)
qed

theorem initlog_recovers_witness:
  "\<exists>t'. initlog ROOTDEV mkfs_sb (binit (boot_lstate\<lparr>disk := committed_disk\<rparr>)) = Inr t' \<and>
     disk t' 100 = replicate BSIZE 7"
proof -
  have ok: "log_disk_ok (sb_logstart mkfs_sb) committed_disk"
    using committed_disk_hdr
    by (simp add: log_disk_ok_def mkfs_sb_def in_log_def LOGSIZE_def MAXOPBLOCKS_def)
  have b: "boots committed_disk (boot_lstate\<lparr>disk := committed_disk\<rparr>)"
    using boots_zero by (simp add: boots_def)
  have "recovered 2 committed_disk (hdr_blocks (committed_disk 2) ! 0) = committed_disk (2 + of_nat 0 + 1)"
    using committed_disk_hdr by (intro recovered_nth) simp_all
  then have "recovered 2 committed_disk 100 = replicate BSIZE 7"
    using committed_disk_hdr(2) by (simp add: committed_disk_def)
  moreover have "\<not> in_log 2 100"
    by (simp add: in_log_def LOGSIZE_def MAXOPBLOCKS_def)
  ultimately show ?thesis
    using initlog_recovers [OF ok crash_reach.start b] by (auto simp: mkfs_sb_def)
qed

text \<open>
  Property C3. The end of the last outstanding operation commits: it returns, the transaction
  is empty again with the log invariant intact, the log is no longer committing, and the disk holds
  for every block of the file system what the operations had written.
\<close>

theorem end_op_commits:
  assumes "log_inv Map.empty s" and "log_outstanding (thelog s) = 1" and "\<not> log_committing (thelog s)"
  shows "\<exists>s'. end_op s = Inr s' \<and> log_inv Map.empty s' \<and> logged s' = [] \<and> log_outstanding (thelog s') = 0 \<and>
    \<not> log_committing (thelog s') \<and> (\<forall>c. \<not> in_log (log_start (thelog s)) c \<longrightarrow> disk s' c = bview s c)"
  using end_op_last [OF assms] by metis

theorem end_op_commits_witness:
  "\<exists>s s'. disk (s :: lstate) 100 = replicate BSIZE 0 \<and> end_op s = Inr s' \<and> disk s' 100 = replicate BSIZE 1"
proof -
  obtain s :: lstate where s: "log_inv Map.empty s" "bview s 100 = replicate BSIZE 1"
    "disk s 100 = replicate BSIZE 0" "log_start (thelog s) = 2" "log_outstanding (thelog s) = 1"
    "\<not> log_committing (thelog s)"
    using txn_example by blast
  have "\<not> in_log (log_start (thelog s)) 100"
    by (simp add: s(4) in_log_def LOGSIZE_def MAXOPBLOCKS_def)
  then show ?thesis
    using end_op_commits [OF s(1,5,6)] s(2,3) by metis
qed

text \<open>
  Property C4. Log absorption. In an operation with log space left, \<open>log_write\<close> of a held
  buffer succeeds, adds its block to the transaction unless it is there already, keeps the log
  invariant (in particular one pinned buffer per logged block), and writes nothing to the disk.
\<close>

theorem log_write_absorbs:
  assumes "log_inv H s" and "H b = Some c" and "\<not> in_log (log_start (thelog s)) c" and "log_space s"
  shows "\<exists>s'. log_write b s = Inr s' \<and> log_inv H s' \<and>
    logged s' = (if c \<in> set (logged s) then logged s else logged s @ [c]) \<and>
    bview s' = bview s \<and> disk s' = disk s \<and> dwrites s' = dwrites s"
  using log_write_ok [OF assms(1-3)] assms(4) unfolding log_space_def by metis

lemma hold_example:
  obtains s b where "log_inv [b \<mapsto> 100] (s :: lstate)" "log_space s" "\<not> in_log (log_start (thelog s)) 100"
    "logged s = [100]"
proof -
  obtain s :: lstate where s: "log_inv Map.empty s" "logged s = [100]" "log_start (thelog s) = 2"
    "log_outstanding (thelog s) = 1" "log_size (thelog s) = 30"
    using txn_example by blast
  have n: "lh_count s = 1"
    using log_okD(4) [of s] s(1,2) by (simp add: log_inv_def)
  then have r: "log_room Map.empty s" "100 \<notin> ran (Map.empty :: nat \<rightharpoonup> u32)"
    by (simp_all add: log_room_def NBUF_def)
  obtain b t where "bread ROOTDEV 100 s = Inr (b, t)" "log_inv [b \<mapsto> 100] t" "b \<notin> dom (Map.empty :: nat \<rightharpoonup> u32)"
    "buf_data b t = bview s 100" "bview t = bview s" "txn_step s t" "thelog t = thelog s" "logged t = logged s"
    by (rule log_bread [OF s(1) r(2,1)])
  moreover from this(7) have "lh_count t = 1"
    using n by (simp add: lh_count_def)
  ultimately show thesis
    using that [of b t] s by (simp add: log_space_def in_log_def LOGSIZE_def MAXOPBLOCKS_def)
qed

theorem log_write_absorbs_witness:
  "\<exists>s b s'. log_write b (s :: lstate) = Inr s' \<and> logged s = [100] \<and> logged s' = [100]"
proof -
  obtain s :: lstate and b where s: "log_inv [b \<mapsto> 100] s" "log_space s"
    "\<not> in_log (log_start (thelog s)) 100" "logged s = [100]"
    using hold_example by blast
  show ?thesis
    using log_write_absorbs [OF s(1) _ s(3,2), of b] s(4) by auto
qed

text \<open>
  Property C13. The reservation of \<open>begin_op\<close> is one block too generous. With the log that
  \<open>mkfs\<close> makes (\<open>nlog = LOGSIZE\<close> blocks, header included), three operations are admitted
  at once and may write \<open>MAXOPBLOCKS\<close> blocks each, but \<open>log_write\<close> panics when
  one block less than that is in the log.
\<close>

theorem log_reservation_exceeds_log:
  assumes "log_size (thelog s) = of_nat LOGSIZE" and "lh_n (log_lh (thelog s)) = 0"
    and "log_outstanding (thelog s) = 0" and "\<not> log_committing (thelog s)"
  shows "\<exists>t. bindE (begin_op s) (\<lambda>s. bindE (begin_op s) begin_op) = Inr t \<and> log_outstanding (thelog t) = 3 \<and>
    (\<forall>u b. log_size (thelog (u :: lstate)) = log_size (thelog s) \<and>
       lh_n (log_lh (thelog u)) = of_nat (3 * MAXOPBLOCKS - 1) \<longrightarrow>
       log_write b u = Inl (Panic ''too big a transaction''))"
  using assms by (auto simp: begin_op_def log_write_def Let_def LOGSIZE_def MAXOPBLOCKS_def)

theorem log_reservation_exceeds_log_witness:
  "\<exists>s t. log_size (thelog (s :: lstate)) = 30 \<and> log_outstanding (thelog t) = 3 \<and>
     bindE (begin_op s) (\<lambda>s. bindE (begin_op s) begin_op) = Inr t"
proof -
  let ?s = "boot_lstate\<lparr>thelog := (thelog boot_lstate)\<lparr>log_size := 30\<rparr>\<rparr>"
  have "log_size (thelog ?s) = of_nat LOGSIZE" "lh_n (log_lh (thelog ?s)) = 0"
    "log_outstanding (thelog ?s) = 0" "\<not> log_committing (thelog ?s)"
    by (simp_all add: boot_lstate_def LOGSIZE_def MAXOPBLOCKS_def)
  from log_reservation_exceeds_log [OF this]
  obtain t where "bindE (begin_op ?s) (\<lambda>s. bindE (begin_op s) begin_op) = Inr t" "log_outstanding (thelog t) = 3"
    by blast
  moreover have "log_size (thelog ?s) = 30"
    by simp
  ultimately show ?thesis
    by blast
qed

end
