(* ===== verification/Vm.thy ===== *)
theory Vm
  imports Proctab
begin

text \<open>
  Virtual memory, \<open>kernel/vm.c\<close>: four-level page tables in kernel memory, the routines that
  build, copy, shrink and free user address spaces, and the copies between user and kernel
  memory. A page table is the address of its top-level page. NULL is address 0. A buffer of the
  kernel that user bytes are copied to or from is a list of bytes.
\<close>

unbundle bit_operations_syntax

section \<open>Page-table entries\<close>

definition PG_ADDR_MASK :: u64 where
  "PG_ADDR_MASK = 0xfffffffff000"

definition AP_USER :: u64 where
  "AP_USER = push_bit 6 1"

definition AP_RO :: u64 where
  "AP_RO = push_bit 7 1"

definition PXN :: u64 where
  "PXN = push_bit 53 1"

definition UXN :: u64 where
  "UXN = push_bit 54 1"

definition AF_USED :: u64 where
  "AF_USED = push_bit 10 1"

definition MT_NORMAL_NC :: u64 where
  "MT_NORMAL_NC = 1"

definition MM_TYPE_VALID :: u64 where
  "MM_TYPE_VALID = 1"

definition MM_TYPE_TABLE :: u64 where
  "MM_TYPE_TABLE = 3"

definition MM_TYPE_PAGE :: u64 where
  "MM_TYPE_PAGE = 3"

definition MM_TYPE_MASK :: u64 where
  "MM_TYPE_MASK = 3"

definition KERNEL_4K_PAGE :: u64 where
  "KERNEL_4K_PAGE = MM_TYPE_PAGE OR push_bit 2 MT_NORMAL_NC OR AF_USED OR UXN"

definition USER_4K_PAGE_RW :: u64 where
  "USER_4K_PAGE_RW = MM_TYPE_PAGE OR push_bit 2 MT_NORMAL_NC OR AP_USER OR AF_USED OR PXN"

definition USER_4K_PAGE_RO :: u64 where
  "USER_4K_PAGE_RO = MM_TYPE_PAGE OR push_bit 2 MT_NORMAL_NC OR AP_USER OR AP_RO OR AF_USED OR PXN"

definition USER_4K_PAGE_RW_XN :: u64 where
  "USER_4K_PAGE_RW_XN = MM_TYPE_PAGE OR push_bit 2 MT_NORMAL_NC OR AP_USER OR AF_USED OR PXN OR UXN"

definition USER_4K_PAGE_RO_XN :: u64 where
  "USER_4K_PAGE_RO_XN =
     MM_TYPE_PAGE OR push_bit 2 MT_NORMAL_NC OR AP_USER OR AP_RO OR AF_USED OR PXN OR UXN"

definition MASK_4K_PAGE :: u64 where
  "MASK_4K_PAGE = MM_TYPE_PAGE OR push_bit 2 MT_NORMAL_NC OR AP_USER OR AP_RO OR AF_USED OR PXN OR UXN"

definition PX_OFFSET :: "nat \<Rightarrow> nat" where
  "PX_OFFSET level = 12 + 9 * (3 - level)"

definition PX :: "nat \<Rightarrow> u64 \<Rightarrow> u64" where
  "PX level va = drop_bit (PX_OFFSET level) va AND 0x1ff"

definition PX_ENTRY_CNT :: nat where
  "PX_ENTRY_CNT = 512"

definition MAXVA :: u64 where
  "MAXVA = 0x0001000000000000"

text \<open>The address of entry \<open>i\<close> of the table at \<open>pde\<close>.\<close>

definition pte_addr :: "u64 \<Rightarrow> u64 \<Rightarrow> u64" where
  "pte_addr pde i = pde + 8 * i"

definition upd_mem :: "(bmem \<Rightarrow> bmem) \<Rightarrow> 'a kmem_scheme \<Rightarrow> 'a kmem_scheme" where
  "upd_mem f s = s\<lparr>mem := f (mem s)\<rparr>"

section \<open>Walking and mapping\<close>

text \<open>\<open>walk\<close>: the loop with \<open>n\<close> levels left. The result 0 is NULL.\<close>

primrec walk_loop :: "nat \<Rightarrow> u64 \<Rightarrow> u64 \<Rightarrow> bool \<Rightarrow> 'a kmem_scheme \<Rightarrow> u64 \<times> 'a kmem_scheme" where
  "walk_loop 0 pde va alloc s = (pte_addr pde (PX 3 va), s)"
| "walk_loop (Suc n) pde va alloc s =
     (let pte = pte_addr pde (PX (2 - n) va);
          v = ld64 (mem s) pte in
      if v AND MM_TYPE_MASK = MM_TYPE_TABLE
      then walk_loop n (P2V (v AND PG_ADDR_MASK)) va alloc s
      else if v AND MM_TYPE_VALID \<noteq> 0 then (0, s)
      else if \<not> alloc then (0, s)
      else
        (let (new, s) = kalloc s in
         if new = 0 then (0, s)
         else
           (let s = upd_mem (\<lambda>m. memset m new 0 PG_SIZE) s;
                s = upd_mem (\<lambda>m. st64 m pte (V2P new OR MM_TYPE_TABLE)) s
            in walk_loop n new va alloc s)))"

definition walk :: "u64 \<Rightarrow> u64 \<Rightarrow> bool \<Rightarrow> 'a kmem_scheme \<Rightarrow> u64 \<times> 'a kmem_scheme" where
  "walk pde va alloc s = walk_loop 3 pde va alloc s"

text \<open>
  \<open>mappages\<close>: \<open>a\<close> and \<open>last\<close> are page-aligned, so the loop meets \<open>last\<close> after
  \<open>(last - a) / PG_SIZE\<close> increments, modulo the size of the address space.
\<close>

primrec mappages_loop ::
  "nat \<Rightarrow> u64 \<Rightarrow> u64 \<Rightarrow> u64 \<Rightarrow> u64 \<Rightarrow> u64 \<Rightarrow> 'a kmem_scheme \<Rightarrow> (int \<times> 'a kmem_scheme) res" where
  "mappages_loop 0 pde a stop pa flags s = Inl Diverge"
| "mappages_loop (Suc n) pde a stop pa flags s =
     (let (pte, s) = walk pde a True s in
      if pte = 0 then Inr (- 1, s)
      else if ld64 (mem s) pte AND MM_TYPE_VALID \<noteq> 0 then Inl (Panic ''mappages: remap'')
      else
        (let s = upd_mem (\<lambda>m. st64 m pte ((pa AND PG_ADDR_MASK) OR flags)) s in
         if a = stop then Inr (0, s)
         else mappages_loop n pde (a + of_nat PG_SIZE) stop (pa + of_nat PG_SIZE) flags s))"

definition mappages ::
  "u64 \<Rightarrow> u64 \<Rightarrow> u64 \<Rightarrow> u64 \<Rightarrow> u64 \<Rightarrow> 'a kmem_scheme \<Rightarrow> (int \<times> 'a kmem_scheme) res" where
  "mappages pde va pa sz flags s =
     (if sz = 0 then Inl (Panic ''mappages: size'')
      else
        (let a = PG_ROUND_DOWN va; stop = PG_ROUND_DOWN (va + sz - 1)
         in mappages_loop (Suc (unat (stop - a) div PG_SIZE)) pde a stop pa flags s))"

text \<open>
  Loops \<open>for (a = start; a < end; a += PG_SIZE)\<close>. At the very top of the address space the
  increment would wrap and the loop start over; no process gets there, and the model stops.
\<close>

function page_loop ::
  "(u64 \<Rightarrow> 's \<Rightarrow> 's res) \<Rightarrow> u64 \<Rightarrow> u64 \<Rightarrow> 's \<Rightarrow> 's res" where
  "page_loop f a e s =
     (if a < e
      then bindE (f a s) (\<lambda>s. if a + 4096 \<le> a then Inl Diverge else page_loop f (a + 4096) e s)
      else Inr s)"
  by pat_completeness auto

lemma page_step_less: "\<not> (a :: u64) + 4096 \<le> a \<Longrightarrow> 2 ^ 64 - unat (a + 4096) < 2 ^ 64 - unat a"
proof -
  assume "\<not> a + 4096 \<le> a"
  then have "unat a < unat (a + 4096)"
    by (simp add: word_less_nat_alt [symmetric])
  moreover have "unat (a + 4096) < 2 ^ 64"
    using unsigned_less [of "a + 4096", where ?'a = nat] by simp
  ultimately show ?thesis
    by linarith
qed

termination page_loop
  by (relation "measure (\<lambda>(f, a, e, s). 2 ^ 64 - unat a)") (use page_step_less in auto)

declare page_loop.simps [simp del]

definition uvmunmap_page :: "u64 \<Rightarrow> bool \<Rightarrow> u64 \<Rightarrow> 'a kmem_scheme \<Rightarrow> 'a kmem_scheme res" where
  "uvmunmap_page pde do_free a s =
     (let (pte, s) = walk pde a False s;
          v = ld64 (mem s) pte in
      if pte = 0 then Inl (Panic ''uvmunmap: walk'')
      else if v AND MM_TYPE_VALID = 0 then Inl (Panic ''uvmunmap: not mapped'')
      else if v AND MM_TYPE_MASK \<noteq> MM_TYPE_PAGE then Inl (Panic ''uvmunmap: not a leaf'')
      else
        bindE (if do_free then kfree (P2V (v AND PG_ADDR_MASK)) s else Inr s)
          (\<lambda>s. Inr (upd_mem (\<lambda>m. st64 m pte 0) s)))"

definition uvmunmap :: "u64 \<Rightarrow> u64 \<Rightarrow> u64 \<Rightarrow> bool \<Rightarrow> 'a kmem_scheme \<Rightarrow> 'a kmem_scheme res" where
  "uvmunmap pde va npages do_free s =
     (if va mod of_nat PG_SIZE \<noteq> 0 then Inl (Panic ''uvmunmap: not aligned'')
      else page_loop (uvmunmap_page pde do_free) va (va + npages * of_nat PG_SIZE) s)"

section \<open>Address spaces\<close>

text \<open>
  \<open>freewalk\<close> recurses into every entry of type table. The page tables have four levels; below
  them the recursion goes through user data, without any bound, which is \<^term>\<open>Diverge\<close>.
\<close>

primrec freewalk :: "nat \<Rightarrow> u64 \<Rightarrow> 'a kmem_scheme \<Rightarrow> 'a kmem_scheme res" where
  "freewalk 0 pde s = Inl Diverge"
| "freewalk (Suc n) pde s =
     bindE (foreach (\<lambda>i s.
         let pte = ld64 (mem s) (pte_addr pde (of_nat i)) in
         if pte AND MM_TYPE_MASK = MM_TYPE_TABLE
         then bindE (freewalk n (P2V (pte AND PG_ADDR_MASK)) s) (\<lambda>s.
                Inr (upd_mem (\<lambda>m. st64 m (pte_addr pde (of_nat i)) 0) s))
         else if pte AND MM_TYPE_VALID \<noteq> 0 then Inl (Panic ''freewalk: leaf'')
         else Inr s) [0..<PX_ENTRY_CNT] s)
       (kfree pde)"

definition uvmfree :: "u64 \<Rightarrow> u64 \<Rightarrow> 'a kmem_scheme \<Rightarrow> 'a kmem_scheme res" where
  "uvmfree pde sz s =
     bindE (if sz > 0 then uvmunmap pde 0 (PG_ROUND_UP sz div of_nat PG_SIZE) True s else Inr s)
       (freewalk 4 pde)"

definition uvmcreate :: "'a kmem_scheme \<Rightarrow> u64 \<times> 'a kmem_scheme" where
  "uvmcreate s =
     (let (pde, s) = kalloc s in
      if pde = 0 then (0, s) else (pde, upd_mem (\<lambda>m. memset m pde 0 PG_SIZE) s))"

text \<open>Storing a list of bytes at an address: \<open>memmove\<close> from a buffer that is not in \<open>mem\<close>.\<close>

primrec put_bytes :: "bmem \<Rightarrow> u64 \<Rightarrow> u8 list \<Rightarrow> bmem" where
  "put_bytes m a [] = m"
| "put_bytes m a (x # xs) = put_bytes (m(a := x)) (a + 1) xs"

definition get_bytes :: "bmem \<Rightarrow> u64 \<Rightarrow> nat \<Rightarrow> u8 list" where
  "get_bytes m a n = map (\<lambda>i. m (a + of_nat i)) [0..<n]"

text \<open>
  \<open>uvmfirst\<close> does not check the result of \<open>kalloc\<close> or of \<open>mappages\<close>; without memory
  it stores to address 0.
\<close>

definition uvmfirst :: "u64 \<Rightarrow> u8 list \<Rightarrow> 'a kmem_scheme \<Rightarrow> 'a kmem_scheme res" where
  "uvmfirst pde src s =
     (if PG_SIZE < length src then Inl (Panic ''uvmfirst: more than a page'')
      else
        (let (p, s) = kalloc s in
         if p = 0 then Inl Fault
         else
           bindE (mappages pde 0 (V2P p) (of_nat PG_SIZE) USER_4K_PAGE_RO
                    (upd_mem (\<lambda>m. memset m p 0 PG_SIZE) s))
             (\<lambda>(r, s). Inr (upd_mem (\<lambda>m. put_bytes m p src) s))))"

definition walkaddr :: "u64 \<Rightarrow> u64 \<Rightarrow> 'a kmem_scheme \<Rightarrow> u64" where
  "walkaddr pde va s =
     (if MAXVA \<le> va then 0
      else
        (let pte = fst (walk pde va False s);
             v = ld64 (mem s) pte in
         if pte = 0 then 0
         else if v AND MM_TYPE_MASK \<noteq> MM_TYPE_PAGE then 0
         else if v AND AP_USER = 0 then 0
         else P2V (v AND PG_ADDR_MASK)))"

section \<open>Copies between user and kernel memory\<close>

text \<open>
  \<open>copyinstr\<close>: the bytes stored in \<open>dst\<close> so far, with whether the NUL was found. The
  inner loop copies within one page of the user's memory.
\<close>

primrec copyinstr_page :: "nat \<Rightarrow> bmem \<Rightarrow> u64 \<Rightarrow> u8 list \<Rightarrow> u8 list \<times> bool" where
  "copyinstr_page 0 m p acc = (acc, False)"
| "copyinstr_page (Suc n) m p acc =
     (if m p = 0 then (acc @ [0], True) else copyinstr_page n m (p + 1) (acc @ [m p]))"

lemma page_offset_less: "unat (va - PG_ROUND_DOWN va) < 4096"
  by (simp add: PG_ROUND_DOWN_eq unat_mod_distrib)

function copyinstr :: "u64 \<Rightarrow> u64 \<Rightarrow> nat \<Rightarrow> u8 list \<Rightarrow> 'a kmem_scheme \<Rightarrow> int \<times> u8 list" where
  "copyinstr pde va mx acc s =
     (if mx = 0 then (- 1, acc)
      else
        (let va0 = PG_ROUND_DOWN va; pa0 = walkaddr pde va0 s in
         if pa0 = 0 then (- 1, acc)
         else
           (let n = min (PG_SIZE - unat (va - va0)) mx;
                (acc', got_null) = copyinstr_page n (mem s) (pa0 + (va - va0)) acc in
            if got_null then (0, acc')
            else copyinstr pde (va0 + of_nat PG_SIZE) (mx - n) acc' s)))"
  by pat_completeness auto

termination copyinstr
proof (relation "measure (\<lambda>(pde, va, mx, acc, s). mx)")
qed (use page_offset_less in \<open>auto simp: PG_SIZE_def min_def\<close>)

declare copyinstr.simps [simp del]

text \<open>\<open>copyin\<close>: the bytes stored in \<open>dst\<close>, which are fewer than \<open>len\<close> on an error.\<close>

function copyin :: "u64 \<Rightarrow> u64 \<Rightarrow> nat \<Rightarrow> 'a kmem_scheme \<Rightarrow> int \<times> u8 list" where
  "copyin pde va len s =
     (if len = 0 then (0, [])
      else
        (let va0 = PG_ROUND_DOWN va; pa0 = walkaddr pde va0 s in
         if pa0 = 0 then (- 1, [])
         else
           (let n = min (PG_SIZE - unat (va - va0)) len;
                (r, bs) = copyin pde (va0 + of_nat PG_SIZE) (len - n) s
            in (r, get_bytes (mem s) (pa0 + (va - va0)) n @ bs))))"
  by pat_completeness auto

termination copyin
proof (relation "measure (\<lambda>(pde, va, len, s). len)")
qed (use page_offset_less in \<open>auto simp: PG_SIZE_def min_def\<close>)

declare copyin.simps [simp del]

function copyout :: "u64 \<Rightarrow> u64 \<Rightarrow> u8 list \<Rightarrow> 'a kmem_scheme \<Rightarrow> int \<times> 'a kmem_scheme" where
  "copyout pde va src s =
     (if src = [] then (0, s)
      else
        (let va0 = PG_ROUND_DOWN va; pa0 = walkaddr pde va0 s in
         if pa0 = 0 then (- 1, s)
         else
           (let n = min (PG_SIZE - unat (va - va0)) (length src)
            in copyout pde (va0 + of_nat PG_SIZE) (drop n src)
                 (upd_mem (\<lambda>m. put_bytes m (pa0 + (va - va0)) (take n src)) s))))"
  by pat_completeness auto

termination copyout
proof (relation "measure (\<lambda>(pde, va, src, s). length src)")
qed (use page_offset_less in \<open>auto simp: PG_SIZE_def min_def\<close>)

declare copyout.simps [simp del]

section \<open>Growing, shrinking and copying\<close>

text \<open>\<open>uvmdealloc\<close>: \<open>npages\<close> is an \<open>int\<close>, to which the page count is truncated.\<close>

definition uvmdealloc :: "u64 \<Rightarrow> u64 \<Rightarrow> u64 \<Rightarrow> 'a kmem_scheme \<Rightarrow> (u64 \<times> 'a kmem_scheme) res" where
  "uvmdealloc pde oldsz newsz s =
     (if oldsz \<le> newsz then Inr (oldsz, s)
      else
        bindE (if PG_ROUND_UP newsz < PG_ROUND_UP oldsz
               then
                 (let npages = (ucast ((PG_ROUND_UP oldsz - PG_ROUND_UP newsz) div of_nat PG_SIZE) :: u32)
                  in uvmunmap pde (PG_ROUND_UP newsz) (scast npages) True s)
               else Inr s)
          (\<lambda>s. Inr (newsz, s)))"

function uvmalloc_loop ::
  "u64 \<Rightarrow> u64 \<Rightarrow> u64 \<Rightarrow> u64 \<Rightarrow> u64 \<Rightarrow> 'a kmem_scheme \<Rightarrow> (u64 \<times> 'a kmem_scheme) res" where
  "uvmalloc_loop pde oldsz a newsz flags s =
     (if a < newsz then
        (let (p, s) = kalloc s in
         if p = 0 then bindE (uvmdealloc pde a oldsz s) (\<lambda>(_, s). Inr (0, s))
         else
           bindE (mappages pde a p (of_nat PG_SIZE) flags (upd_mem (\<lambda>m. memset m p 0 PG_SIZE) s)) (\<lambda>(r, s).
           if r \<noteq> 0
           then bindE (kfree p s) (\<lambda>s. bindE (uvmdealloc pde a oldsz s) (\<lambda>(_, s). Inr (0, s)))
           else if a + 4096 \<le> a then Inl Diverge
           else uvmalloc_loop pde oldsz (a + 4096) newsz flags s))
      else Inr (newsz, s))"
  by pat_completeness auto

termination uvmalloc_loop
  by (relation "measure (\<lambda>(pde, oldsz, a, newsz, flags, s). 2 ^ 64 - unat a)")
    (use page_step_less in auto)

declare uvmalloc_loop.simps [simp del]

definition uvmalloc :: "u64 \<Rightarrow> u64 \<Rightarrow> u64 \<Rightarrow> u64 \<Rightarrow> 'a kmem_scheme \<Rightarrow> (u64 \<times> 'a kmem_scheme) res" where
  "uvmalloc pde oldsz newsz flags s =
     (if newsz < oldsz then Inr (oldsz, s)
      else uvmalloc_loop pde (PG_ROUND_UP oldsz) (PG_ROUND_UP oldsz) newsz flags s)"

definition uvmclear :: "u64 \<Rightarrow> u64 \<Rightarrow> 'a kmem_scheme \<Rightarrow> 'a kmem_scheme res" where
  "uvmclear pde va s =
     (let (pte, s) = walk pde va False s in
      if pte = 0 then Inl (Panic ''uvmclear'')
      else Inr (upd_mem (\<lambda>m. st64 m pte ((ld64 m pte AND NOT MASK_4K_PAGE) OR KERNEL_4K_PAGE)) s))"

text \<open>\<open>uvmcopy\<close> with its error exit, which unmaps the pages copied so far.\<close>

function uvmcopy_loop ::
  "u64 \<Rightarrow> u64 \<Rightarrow> u64 \<Rightarrow> u64 \<Rightarrow> 'a kmem_scheme \<Rightarrow> (int \<times> 'a kmem_scheme) res" where
  "uvmcopy_loop old new i sz s =
     (if i < sz then
        (let (pte, s) = walk old i False s;
             v = ld64 (mem s) pte in
         if pte = 0 then Inl (Panic ''uvmcopy: pte should exist'')
         else if v AND MM_TYPE_VALID = 0 then Inl (Panic ''uvmcopy: page not present'')
         else
           (let pa = P2V (v AND PG_ADDR_MASK);
                (p, s) = kalloc s in
            if p = 0 then bindE (uvmunmap new 0 (i div of_nat PG_SIZE) True s) (\<lambda>s. Inr (- 1, s))
            else
              bindE (let s = upd_mem (\<lambda>m. memmove m p pa PG_SIZE) s
                     in mappages new i p (of_nat PG_SIZE) (ld64 (mem s) pte AND MASK_4K_PAGE) s) (\<lambda>(r, s).
              if r \<noteq> 0
              then bindE (kfree p s) (\<lambda>s.
                     bindE (uvmunmap new 0 (i div of_nat PG_SIZE) True s) (\<lambda>s. Inr (- 1, s)))
              else if i + 4096 \<le> i then Inl Diverge
              else uvmcopy_loop old new (i + 4096) sz s)))
      else Inr (0, s))"
  by pat_completeness auto

termination uvmcopy_loop
  by (relation "measure (\<lambda>(old, new, i, sz, s). 2 ^ 64 - unat i)") (use page_step_less in auto)

declare uvmcopy_loop.simps [simp del]

definition uvmcopy :: "u64 \<Rightarrow> u64 \<Rightarrow> u64 \<Rightarrow> 'a kmem_scheme \<Rightarrow> (int \<times> 'a kmem_scheme) res" where
  "uvmcopy old new sz s = uvmcopy_loop old new 0 sz s"

text \<open>
  Copies between the kernel and an address that is the user's or the kernel's, of
  \<open>kernel/proc.c\<close>. The other side is a user address, an address in kernel memory, or a
  variable of a caller in the kernel: \<open>Klocal off xs\<close> is the address of byte \<open>off\<close> of
  an object with bytes \<open>xs\<close>.
\<close>

datatype uptr = User u64 | Kern u64 | Klocal nat "u8 list"

fun uptr_add :: "uptr \<Rightarrow> nat \<Rightarrow> uptr" where
  "uptr_add (User a) n = User (a + of_nat n)"
| "uptr_add (Kern a) n = Kern (a + of_nat n)"
| "uptr_add (Klocal off xs) n = Klocal (off + n) xs"

fun either_copyout :: "uptr \<Rightarrow> u8 list \<Rightarrow> 'a proctab_scheme \<Rightarrow> (int \<times> uptr \<times> 'a proctab_scheme) res" where
  "either_copyout (User va) src s =
     (let (r, s) = copyout (p_pagetable (myproc s)) va src s in Inr (r, User va, s))"
| "either_copyout (Kern a) src s = Inr (0, Kern a, upd_mem (\<lambda>m. put_bytes m a src) s)"
| "either_copyout (Klocal off xs) src s =
     (if length xs < off + length src then Inl Fault else Inr (0, Klocal off (upd_seg off src xs), s))"

text \<open>The copy in the other direction: the bytes that arrive, in front of what was in \<open>dst\<close>.\<close>

fun either_copyin :: "uptr \<Rightarrow> nat \<Rightarrow> 'a proctab_scheme \<Rightarrow> (int \<times> u8 list) res" where
  "either_copyin (User va) len s = Inr (copyin (p_pagetable (myproc s)) va len s)"
| "either_copyin (Kern a) len s = Inr (0, get_bytes (mem s) a len)"
| "either_copyin (Klocal off xs) len s =
     (if length xs < off + len then Inl Fault else Inr (0, seg off len xs))"

section \<open>Reading page tables\<close>

text \<open>Walks that allocate nothing leave the state alone and depend on the memory only.\<close>

lemma snd_walk_False [simp]: "snd (walk pde va False s) = s"
proof -
  have "snd (walk_loop n pde va False s) = s" for n
    by (induction n arbitrary: pde) (simp_all add: Let_def)
  then show ?thesis
    by (simp add: walk_def)
qed

lemma walk_mem:
  assumes "mem s = mem t"
  shows "fst (walk pde va False s) = fst (walk pde va False t)"
proof -
  have "fst (walk_loop n pde va False s) = fst (walk_loop n pde va False t)" for n
    using assms by (induction n arbitrary: pde) (simp_all add: Let_def)
  then show ?thesis
    by (simp add: walk_def)
qed

lemma walkaddr_mem: "mem s = mem t \<Longrightarrow> walkaddr pde va s = walkaddr pde va t"
  using walk_mem [of s t] by (simp add: walkaddr_def)

lemma copyin_mem: "mem s = mem t \<Longrightarrow> copyin pde va n s = copyin pde va n t"
proof (induction pde va n s rule: copyin.induct)
  case (1 pde va len s)
  show ?case
    by (subst (1 2) copyin.simps) (use 1 walkaddr_mem [OF 1(2)] in \<open>auto simp: Let_def\<close>)
qed

lemma mem_upd_mem [simp]: "mem (upd_mem f s) = f (mem s)"
  by (simp add: upd_mem_def)

text \<open>A successful \<open>copyin\<close> delivers all the bytes that were asked for.\<close>

lemma length_get_bytes [simp]: "length (get_bytes m a n) = n"
  by (simp add: get_bytes_def)

lemma copyin_result: "copyin pde va n s = (r, bs) \<Longrightarrow> r = 0 \<and> length bs = n \<or> r = - 1 \<and> length bs \<le> n"
proof (induction pde va n s arbitrary: r bs rule: copyin.induct)
  case (1 pde va n s)
  show ?case
  proof (cases "n = 0 \<or> walkaddr pde (PG_ROUND_DOWN va) s = 0")
    case True
    then show ?thesis
      using 1(2) by (subst (asm) copyin.simps) (auto simp: Let_def split: if_splits)
  next
    case False
    define k where "k = min (PG_SIZE - unat (va - PG_ROUND_DOWN va)) n"
    obtain r' bs' where rec: "copyin pde (PG_ROUND_DOWN va + of_nat PG_SIZE) (n - k) s = (r', bs')"
      by fastforce
    then have "r = r'" "bs = get_bytes (mem s) (walkaddr pde (PG_ROUND_DOWN va) s + (va - PG_ROUND_DOWN va)) k @ bs'"
      using 1(2) False by (auto simp: Let_def k_def copyin.simps [of pde va n s])
    moreover have "r' = 0 \<and> length bs' = n - k \<or> r' = - 1 \<and> length bs' \<le> n - k"
      using 1(1) [OF _ refl refl _ refl, of r' bs'] False rec by (simp add: k_def)
    moreover have "k \<le> n"
      by (simp add: k_def)
    ultimately show ?thesis
      by auto
  qed
qed

text \<open>The rounds of \<open>copyout\<close>: the part of the source that goes to the first page.\<close>

definition chunk :: "u64 \<Rightarrow> nat \<Rightarrow> nat" where
  "chunk va n = min (PG_SIZE - unat (va - PG_ROUND_DOWN va)) n"

lemma chunk_pos: "0 < n \<Longrightarrow> 0 < chunk va n"
  using page_offset_less [of va] by (simp add: chunk_def PG_SIZE_def)

lemma chunk_le: "chunk va n \<le> n"
  by (simp add: chunk_def)

definition copyout_page :: "u64 \<Rightarrow> u64 \<Rightarrow> u8 list \<Rightarrow> 'a kmem_scheme \<Rightarrow> 'a kmem_scheme" where
  "copyout_page pde va src s = upd_mem (\<lambda>m. put_bytes m
     (walkaddr pde (PG_ROUND_DOWN va) s + (va - PG_ROUND_DOWN va)) (take (chunk va (length src)) src)) s"

lemma copyout_nil [simp]: "copyout pde va [] s = (0, s)"
  by (subst copyout.simps) simp

lemma copyout_unmapped: "src \<noteq> [] \<Longrightarrow> walkaddr pde (PG_ROUND_DOWN va) s = 0 \<Longrightarrow> copyout pde va src s = (- 1, s)"
  by (subst copyout.simps) (simp add: Let_def)

lemma copyout_mapped:
  "src \<noteq> [] \<Longrightarrow> walkaddr pde (PG_ROUND_DOWN va) s \<noteq> 0 \<Longrightarrow>
   copyout pde va src s = copyout pde (PG_ROUND_DOWN va + of_nat PG_SIZE)
     (drop (chunk va (length src)) src) (copyout_page pde va src s)"
  by (subst copyout.simps) (simp add: Let_def chunk_def copyout_page_def)

lemma copyout_induct [case_names nil unmapped mapped]:
  assumes "\<And>pde va s. P pde va [] s"
    and "\<And>pde va src s. src \<noteq> [] \<Longrightarrow> walkaddr pde (PG_ROUND_DOWN va) s = 0 \<Longrightarrow> P pde va src s"
    and "\<And>pde va src s. src \<noteq> [] \<Longrightarrow> walkaddr pde (PG_ROUND_DOWN va) s \<noteq> 0 \<Longrightarrow>
      P pde (PG_ROUND_DOWN va + of_nat PG_SIZE) (drop (chunk va (length src)) src) (copyout_page pde va src s) \<Longrightarrow>
      P pde va src s"
  shows "P pde va src s"
proof (induction "length src" arbitrary: va src s rule: less_induct)
  case (less src va s)
  show ?case
  proof (cases "src = [] \<or> walkaddr pde (PG_ROUND_DOWN va) s = 0")
    case True
    then show ?thesis
      using assms(1,2) by (cases "src = []") auto
  next
    case False
    then have "length (drop (chunk va (length src)) src) < length src"
      using chunk_pos [of "length src" va] by simp
    then show ?thesis
      using assms(3) False less by blast
  qed
qed

text \<open>\<open>copyout\<close> changes nothing but the memory, and what it does there depends on the memory only.\<close>

lemma copyout_page_mem: "mem s = mem t \<Longrightarrow> mem (copyout_page pde va src s) = mem (copyout_page pde va src t)"
  using walkaddr_mem [of s t] by (simp add: copyout_page_def)

lemma copyout_mem:
  "mem s = mem t \<Longrightarrow> fst (copyout pde va src s) = fst (copyout pde va src t) \<and>
     mem (snd (copyout pde va src s)) = mem (snd (copyout pde va src t))"
proof (induction pde va src s arbitrary: t rule: copyout_induct)
  case (unmapped pde va src s)
  then show ?case
    using walkaddr_mem [of s t] by (simp add: copyout_unmapped)
next
  case (mapped pde va src s)
  then show ?case
    using walkaddr_mem [of s t] copyout_page_mem [of s t] by (simp add: copyout_mapped)
qed simp

lemma copyout_only_mem: "snd (copyout pde va src s) = s\<lparr>mem := mem (snd (copyout pde va src s))\<rparr>"
proof (induction pde va src s rule: copyout_induct)
  case (mapped pde va src s)
  have "copyout_page pde va src s = s\<lparr>mem := mem (copyout_page pde va src s)\<rparr>"
    by (simp add: copyout_page_def upd_mem_def)
  then have *: "(copyout_page pde va src s)\<lparr>mem := m\<rparr> = s\<lparr>mem := m\<rparr>" for m
    by (metis kmem.update_convs(1) kmem.surjective kmem.select_convs)
  show ?case
    unfolding copyout_mapped [OF mapped(1,2)] by (subst mapped(3)) (simp add: *)
qed (simp_all add: copyout_unmapped)

text \<open>Copying bytes to the user one at a time.\<close>

primrec copy_bytes :: "u64 \<Rightarrow> u64 \<Rightarrow> nat \<Rightarrow> u8 list \<Rightarrow> 'a kmem_scheme \<Rightarrow> 'a kmem_scheme" where
  "copy_bytes pde addr i [] s = s"
| "copy_bytes pde addr i (x # xs) s = copy_bytes pde addr (Suc i) xs (snd (copyout pde (addr + of_nat i) [x] s))"

lemma copy_bytes_mem: "mem s = mem t \<Longrightarrow> mem (copy_bytes pde addr i xs s) = mem (copy_bytes pde addr i xs t)"
proof (induction xs arbitrary: i s t)
  case (Cons x xs)
  then show ?case
    using copyout_mem [OF Cons.prems, of pde "addr + of_nat i" "[x]"] by simp
qed simp

lemma copy_bytes_shift: "copy_bytes pde addr (Suc i) xs s = copy_bytes pde (addr + 1) i xs s"
  by (induction xs arbitrary: i s) (simp_all add: add.assoc)

text \<open>Whether every one of these copies succeeds, and what a copy of one byte does when it fails.\<close>

primrec copies_ok :: "u64 \<Rightarrow> u64 \<Rightarrow> nat \<Rightarrow> u8 list \<Rightarrow> 'a kmem_scheme \<Rightarrow> bool" where
  "copies_ok pde addr i [] s \<longleftrightarrow> True"
| "copies_ok pde addr i (x # xs) s \<longleftrightarrow> fst (copyout pde (addr + of_nat i) [x] s) \<noteq> - 1 \<and>
     copies_ok pde addr (Suc i) xs (snd (copyout pde (addr + of_nat i) [x] s))"

lemma copies_ok_mem: "mem s = mem t \<Longrightarrow> copies_ok pde addr i xs s = copies_ok pde addr i xs t"
proof (induction xs arbitrary: i s t)
  case (Cons x xs)
  have c: "fst (copyout pde (addr + of_nat i) [x] s) = fst (copyout pde (addr + of_nat i) [x] t)"
    "mem (snd (copyout pde (addr + of_nat i) [x] s)) = mem (snd (copyout pde (addr + of_nat i) [x] t))"
    using copyout_mem [OF Cons.prems, of pde "addr + of_nat i" "[x]"] by simp_all
  show ?case
    using Cons.IH [OF c(2)] c(1) by simp
qed simp

lemma copies_ok_shift: "copies_ok pde addr (Suc i) xs s = copies_ok pde (addr + 1) i xs s"
  by (induction xs arbitrary: i s) (simp_all add: add.assoc)

lemma copy_bytes_Cons:
  assumes "mem u = mem (snd (copyout pde va [x] s))"
  shows "mem (copy_bytes pde va 0 (x # xs) s) = mem (copy_bytes pde (va + 1) 0 xs u)"
    and "copies_ok pde va 0 (x # xs) s \<longleftrightarrow> fst (copyout pde va [x] s) \<noteq> - 1 \<and> copies_ok pde (va + 1) 0 xs u"
  using copy_bytes_mem [OF assms] copies_ok_mem [OF assms] by (simp_all add: copy_bytes_shift copies_ok_shift)

lemma copyout_byte_fails: "fst (copyout pde va [x] s) = - 1 \<Longrightarrow> snd (copyout pde va [x] s) = s"
  by (subst copyout.simps, subst (asm) copyout.simps)
    (use page_offset_less [of va] in \<open>auto simp: Let_def PG_SIZE_def min_def split: if_splits\<close>)

section \<open>An example\<close>

text \<open>
  A memory with a single page table, whose first entry maps the table itself at every level: the
  user's page 0 is the table.
\<close>

definition self_page :: u64 where
  "self_page = 0xffff000040001000"

definition self_mem :: bmem where
  "self_mem = st64 (\<lambda>_. 0) self_page (0x40001000 OR USER_4K_PAGE_RW)"

lemma ld64_self [simp]: "ld64 self_mem self_page = 0x40001000 OR USER_4K_PAGE_RW"
  by (simp add: self_mem_def)

lemma self_entry [simp]:
  "(0x40001000 OR USER_4K_PAGE_RW) AND MM_TYPE_MASK = MM_TYPE_TABLE"
  "(0x40001000 OR USER_4K_PAGE_RW) AND AP_USER \<noteq> 0"
  "P2V ((0x40001000 OR USER_4K_PAGE_RW) AND PG_ADDR_MASK) = self_page"
  by (simp_all add: USER_4K_PAGE_RW_def MM_TYPE_PAGE_def MM_TYPE_TABLE_def MM_TYPE_MASK_def
      MT_NORMAL_NC_def AP_USER_def AF_USED_def PXN_def PG_ADDR_MASK_def P2V_def KERN_BASE_def
      self_page_def)

lemma self_page_nz [simp]: "self_page \<noteq> 0"
  by (simp add: self_page_def)

lemma walkaddr_self:
  assumes "mem s = self_mem"
  shows "walkaddr self_page 0 s = self_page"
proof -
  have "pte_addr self_page (PX n 0) = self_page" for n
    by (simp add: pte_addr_def PX_def)
  moreover have "MM_TYPE_PAGE = MM_TYPE_TABLE" "\<not> MAXVA \<le> 0"
    by (simp_all add: MM_TYPE_PAGE_def MM_TYPE_TABLE_def MAXVA_def)
  ultimately show ?thesis
    using assms by (simp add: walkaddr_def walk_def numeral_3_eq_3 Let_def)
qed

lemma PG_ROUND_DOWN_0 [simp]: "PG_ROUND_DOWN 0 = 0"
  by (simp add: PG_ROUND_DOWN_eq)

lemma copyin_nil [simp]: "copyin pde va 0 s = (0, [])"
  by (subst copyin.simps) simp

lemma copyin_self: "mem s = self_mem \<Longrightarrow> copyin self_page 0 1 s = (0, [self_mem self_page])"
  by (subst copyin.simps) (simp add: walkaddr_self get_bytes_def PG_SIZE_def)

lemma copyout_self:
  "mem s = self_mem \<Longrightarrow> copyout self_page 0 [x] s = (0, s\<lparr>mem := self_mem(self_page := x)\<rparr>)"
  by (subst copyout_mapped) (simp_all add: walkaddr_self copyout_page_def chunk_def PG_SIZE_def upd_mem_def)

end
