(* ===== verification/Fs.thy ===== *)
theory Fs
  imports Log Vm
begin

text \<open>
  The file system, \<open>kernel/fs.c\<close>: the super block, the block bitmap, inodes on disk and in
  the table, the contents of inodes, directories and path names. An inode pointer is an index
  in \<open>itable.inode[]\<close>, and NULL is \<^term>\<open>None\<close>. Blocks keep the byte layout of
  \<open>kernel/fs.h\<close>: a \<open>struct dinode\<close> takes 64 bytes and a \<open>struct dirent\<close> 16.
\<close>

unbundle bit_operations_syntax

section \<open>Structures\<close>

definition FSMAGIC :: u32 where
  "FSMAGIC = 0x10203040"

definition ROOTINO :: u32 where
  "ROOTINO = 1"

definition NINODE :: nat where
  "NINODE = 50"

definition NDIRECT :: nat where
  "NDIRECT = 12"

definition NINDIRECT :: nat where
  "NINDIRECT = BSIZE div 4"

definition MAXFILE :: nat where
  "MAXFILE = NDIRECT + NINDIRECT"

definition IPB :: nat where
  "IPB = BSIZE div 64"

definition BPB :: nat where
  "BPB = BSIZE * 8"

definition DIRSIZ :: nat where
  "DIRSIZ = 14"

definition T_DIR :: u16 where
  "T_DIR = 1"

definition T_FILE :: u16 where
  "T_FILE = 2"

definition T_DEVICE :: u16 where
  "T_DEVICE = 3"

record dinode =
  di_type :: u16
  di_major :: u16
  di_minor :: u16
  di_nlink :: u16
  di_size :: u32
  di_addrs :: "u32 list"

definition get_dinode :: "nat \<Rightarrow> u8 list \<Rightarrow> dinode" where
  "get_dinode off d = \<lparr>di_type = get16 off d, di_major = get16 (off + 2) d, di_minor = get16 (off + 4) d,
     di_nlink = get16 (off + 6) d, di_size = get32 (off + 8) d,
     di_addrs = map (\<lambda>i. get32 (off + 12 + 4 * i) d) [0..<NDIRECT + 1]\<rparr>"

definition put_dinode :: "nat \<Rightarrow> dinode \<Rightarrow> u8 list \<Rightarrow> u8 list" where
  "put_dinode off x d =
     (let d = put16 off (di_type x) d;
          d = put16 (off + 2) (di_major x) d;
          d = put16 (off + 4) (di_minor x) d;
          d = put16 (off + 6) (di_nlink x) d;
          d = put32 (off + 8) (di_size x) d
      in fold (\<lambda>i. put32 (off + 12 + 4 * i) (di_addrs x ! i)) [0..<NDIRECT + 1] d)"

record inode =
  i_dev :: u32
  i_inum :: u32
  i_ref :: int
  i_lock :: sleeplock
  i_valid :: bool
  i_type :: u16
  i_major :: u16
  i_minor :: u16
  i_nlink :: u16
  i_size :: u32
  i_addrs :: "u32 list"

record fstate = lstate +
  sb :: superblock
  inodes :: "inode list"

definition upd_inode :: "nat \<Rightarrow> (inode \<Rightarrow> inode) \<Rightarrow> 'a fstate_scheme \<Rightarrow> 'a fstate_scheme" where
  "upd_inode i f s = s\<lparr>inodes := (inodes s)[i := f (inodes s ! i)]\<rparr>"

abbreviation inode_at :: "'a fstate_scheme \<Rightarrow> nat \<Rightarrow> inode" where
  "inode_at s i \<equiv> inodes s ! i"

definition IBLOCK :: "u32 \<Rightarrow> superblock \<Rightarrow> u32" where
  "IBLOCK i b = i div of_nat IPB + sb_inodestart b"

definition BBLOCK :: "u32 \<Rightarrow> superblock \<Rightarrow> u32" where
  "BBLOCK i b = i div of_nat BPB + sb_bmapstart b"

definition get_superblock :: "u8 list \<Rightarrow> superblock" where
  "get_superblock d = \<lparr>sb_magic = get32 0 d, sb_size = get32 4 d, sb_nblocks = get32 8 d,
     sb_ninodes = get32 12 d, sb_nlog = get32 16 d, sb_logstart = get32 20 d,
     sb_inodestart = get32 24 d, sb_bmapstart = get32 28 d\<rparr>"

section \<open>Super block\<close>

definition readsb :: "u32 \<Rightarrow> 'a fstate_scheme \<Rightarrow> (superblock \<times> 'a fstate_scheme) res" where
  "readsb dev s =
     bindE (bread dev 1 s) (\<lambda>(bp, s).
     let x = get_superblock (buf_data bp s) in
     bindE (brelse bp s) (\<lambda>s. Inr (x, s)))"

definition fsinit :: "u32 \<Rightarrow> 'a fstate_scheme \<Rightarrow> 'a fstate_scheme res" where
  "fsinit dev s =
     bindE (readsb dev s) (\<lambda>(x, s).
     let s = s\<lparr>sb := x\<rparr> in
     if sb_magic x \<noteq> FSMAGIC then Inl (Panic ''invalid file system'')
     else initlog dev x s)"

section \<open>Blocks\<close>

definition bzero :: "u32 \<Rightarrow> u32 \<Rightarrow> 'a fstate_scheme \<Rightarrow> 'a fstate_scheme res" where
  "bzero dev bno s =
     bindE (bread dev bno s) (\<lambda>(bp, s).
     bindE (log_write bp (set_data bp (replicate BSIZE 0) s)) (brelse bp))"

text \<open>Bit \<open>bi\<close> of a bitmap block.\<close>

definition bit_mask :: "nat \<Rightarrow> u8" where
  "bit_mask bi = push_bit (bi mod 8) 1"

definition block_free :: "u8 list \<Rightarrow> nat \<Rightarrow> bool" where
  "block_free d bi \<longleftrightarrow> d ! (bi div 8) AND bit_mask bi = 0"

definition set_bit_in :: "nat \<Rightarrow> u8 list \<Rightarrow> u8 list" where
  "set_bit_in bi d = d[bi div 8 := d ! (bi div 8) OR bit_mask bi]"

definition clear_bit_in :: "nat \<Rightarrow> u8 list \<Rightarrow> u8 list" where
  "clear_bit_in bi d = d[bi div 8 := d ! (bi div 8) AND NOT (bit_mask bi)]"

text \<open>\<open>balloc\<close>: the outer loop over the values of \<open>b\<close>, with the inner scan of one bitmap block.\<close>

primrec balloc_loop :: "u32 \<Rightarrow> nat list \<Rightarrow> 'a fstate_scheme \<Rightarrow> (u32 \<times> 'a fstate_scheme) res" where
  "balloc_loop dev [] s = Inr (0, s)"
| "balloc_loop dev (b # bs) s =
     bindE (bread dev (BBLOCK (of_nat b) (sb s)) s) (\<lambda>(bp, s).
     case List.find (\<lambda>bi. b + bi < unat (sb_size (sb s)) \<and> block_free (buf_data bp s) bi) [0..<BPB] of
       Some bi \<Rightarrow>
         bindE (log_write bp (set_data bp (set_bit_in bi (buf_data bp s)) s)) (\<lambda>s.
         bindE (brelse bp s) (\<lambda>s.
         bindE (bzero dev (of_nat (b + bi)) s) (\<lambda>s.
         Inr (of_nat (b + bi), s))))
     | None \<Rightarrow> bindE (brelse bp s) (balloc_loop dev bs))"

definition balloc :: "u32 \<Rightarrow> 'a fstate_scheme \<Rightarrow> (u32 \<times> 'a fstate_scheme) res" where
  "balloc dev s =
     balloc_loop dev (map (\<lambda>k. k * BPB) [0..<(unat (sb_size (sb s)) + BPB - 1) div BPB]) s"

definition bfree :: "u32 \<Rightarrow> u32 \<Rightarrow> 'a fstate_scheme \<Rightarrow> 'a fstate_scheme res" where
  "bfree dev b s =
     bindE (bread dev (BBLOCK b (sb s)) s) (\<lambda>(bp, s).
     let bi = unat b mod BPB in
     if block_free (buf_data bp s) bi then Inl (Panic ''freeing free block'')
     else bindE (log_write bp (set_data bp (clear_bit_in bi (buf_data bp s)) s)) (brelse bp))"

section \<open>Inodes\<close>

definition iinit :: "'a fstate_scheme \<Rightarrow> 'a fstate_scheme" where
  "iinit s = s\<lparr>inodes := map (\<lambda>x. x\<lparr>i_lock := initsleeplock\<rparr>) (inodes s)\<rparr>"

definition iget :: "u32 \<Rightarrow> u32 \<Rightarrow> 'a fstate_scheme \<Rightarrow> (nat \<times> 'a fstate_scheme) res" where
  "iget dev inum s =
     (case List.find (\<lambda>i. i_ref (inode_at s i) > 0 \<and> i_dev (inode_at s i) = dev \<and>
                          i_inum (inode_at s i) = inum) [0..<NINODE] of
        Some i \<Rightarrow> Inr (i, upd_inode i (\<lambda>x. x\<lparr>i_ref := i_ref x + 1\<rparr>) s)
      | None \<Rightarrow>
          (case List.find (\<lambda>i. i_ref (inode_at s i) = 0) [0..<NINODE] of
             None \<Rightarrow> Inl (Panic ''iget: no inodes'')
           | Some i \<Rightarrow> Inr (i, upd_inode i (\<lambda>x. x\<lparr>i_dev := dev, i_inum := inum, i_ref := 1,
                             i_valid := False\<rparr>) s)))"

definition inode_off :: "u32 \<Rightarrow> nat" where
  "inode_off inum = unat inum mod IPB * 64"

primrec ialloc_loop :: "u32 \<Rightarrow> u16 \<Rightarrow> nat list \<Rightarrow> 'a fstate_scheme \<Rightarrow> (nat option \<times> 'a fstate_scheme) res" where
  "ialloc_loop dev type [] s = Inr (None, s)"
| "ialloc_loop dev type (n # ns) s =
     (let inum = of_nat n in
      bindE (bread dev (IBLOCK inum (sb s)) s) (\<lambda>(bp, s).
      let d = buf_data bp s in
      if di_type (get_dinode (inode_off inum) d) = 0 then
        bindE (log_write bp (set_data bp (put16 (inode_off inum) type
                 (upd_seg (inode_off inum) (replicate 64 0) d)) s)) (\<lambda>s.
        bindE (brelse bp s) (\<lambda>s.
        bindE (iget dev inum s) (\<lambda>(ip, s). Inr (Some ip, s))))
      else bindE (brelse bp s) (ialloc_loop dev type ns)))"

definition ialloc :: "u32 \<Rightarrow> u16 \<Rightarrow> 'a fstate_scheme \<Rightarrow> (nat option \<times> 'a fstate_scheme) res" where
  "ialloc dev type s = ialloc_loop dev type [1..<unat (sb_ninodes (sb s))] s"

text \<open>The on-disk fields of an in-memory inode.\<close>

definition dinode_of :: "inode \<Rightarrow> dinode" where
  "dinode_of x = \<lparr>di_type = i_type x, di_major = i_major x, di_minor = i_minor x,
     di_nlink = i_nlink x, di_size = i_size x, di_addrs = i_addrs x\<rparr>"

definition load_dinode :: "dinode \<Rightarrow> inode \<Rightarrow> inode" where
  "load_dinode d x = x\<lparr>i_type := di_type d, i_major := di_major d, i_minor := di_minor d,
     i_nlink := di_nlink d, i_size := di_size d, i_addrs := di_addrs d\<rparr>"

definition iupdate :: "nat \<Rightarrow> 'a fstate_scheme \<Rightarrow> 'a fstate_scheme res" where
  "iupdate ip s =
     (let x = inode_at s ip in
      bindE (bread (i_dev x) (IBLOCK (i_inum x) (sb s)) s) (\<lambda>(bp, s).
      bindE (log_write bp (set_data bp (put_dinode (inode_off (i_inum x)) (dinode_of x) (buf_data bp s)) s))
        (brelse bp)))"

definition idup :: "nat \<Rightarrow> 'a fstate_scheme \<Rightarrow> 'a fstate_scheme" where
  "idup ip s = upd_inode ip (\<lambda>x. x\<lparr>i_ref := i_ref x + 1\<rparr>) s"

definition ilock :: "nat \<Rightarrow> 'a fstate_scheme \<Rightarrow> 'a fstate_scheme res" where
  "ilock ip s =
     (if i_ref (inode_at s ip) < 1 then Inl (Panic ''ilock'')
      else
        bindE (acquiresleep (Chan_inode_lock ip) (i_lock (inode_at s ip)) s) (\<lambda>lk.
        let s = upd_inode ip (\<lambda>x. x\<lparr>i_lock := lk\<rparr>) s; x = inode_at s ip in
        if \<not> i_valid x then
          bindE (bread (i_dev x) (IBLOCK (i_inum x) (sb s)) s) (\<lambda>(bp, s).
          let d = get_dinode (inode_off (i_inum x)) (buf_data bp s);
              s = upd_inode ip (load_dinode d) s in
          bindE (brelse bp s) (\<lambda>s.
          let s = upd_inode ip (\<lambda>x. x\<lparr>i_valid := True\<rparr>) s in
          if i_type (inode_at s ip) = 0 then Inl (Panic ''ilock: no type'') else Inr s))
        else Inr s))"

definition iunlock :: "nat \<Rightarrow> 'a fstate_scheme \<Rightarrow> 'a fstate_scheme res" where
  "iunlock ip s =
     (if \<not> holdingsleep (i_lock (inode_at s ip)) s \<or> i_ref (inode_at s ip) < 1
      then Inl (Panic ''iunlock'')
      else
        (let (lk, s) = releasesleep (Chan_inode_lock ip) (i_lock (inode_at s ip)) s
         in Inr (upd_inode ip (\<lambda>x. x\<lparr>i_lock := lk\<rparr>) s)))"

section \<open>Contents of inodes\<close>

definition set_addr :: "nat \<Rightarrow> nat \<Rightarrow> u32 \<Rightarrow> 'a fstate_scheme \<Rightarrow> 'a fstate_scheme" where
  "set_addr ip n a s = upd_inode ip (\<lambda>x. x\<lparr>i_addrs := (i_addrs x)[n := a]\<rparr>) s"

text \<open>
  The two places where \<open>bmap\<close> takes a slot of \<open>ip->addrs[]\<close>, allocating a block when the
  slot is empty. The result 0 is the failure of \<open>balloc\<close>.
\<close>

definition bmap_slot :: "nat \<Rightarrow> nat \<Rightarrow> 'a fstate_scheme \<Rightarrow> (u32 \<times> 'a fstate_scheme) res" where
  "bmap_slot ip n s =
     (let addr = i_addrs (inode_at s ip) ! n in
      if addr = 0 then
        bindE (balloc (i_dev (inode_at s ip)) s) (\<lambda>(addr, s).
        if addr = 0 then Inr (0, s) else Inr (addr, set_addr ip n addr s))
      else Inr (addr, s))"

definition bmap :: "nat \<Rightarrow> u32 \<Rightarrow> 'a fstate_scheme \<Rightarrow> (u32 \<times> 'a fstate_scheme) res" where
  "bmap ip bn s =
     (if unat bn < NDIRECT then bmap_slot ip (unat bn) s
      else
        (let bn = unat bn - NDIRECT in
         if bn < NINDIRECT then
           bindE (bmap_slot ip NDIRECT s) (\<lambda>(addr, s).
           if addr = 0 then Inr (0, s)
           else
             bindE (bread (i_dev (inode_at s ip)) addr s) (\<lambda>(bp, s).
             let addr = get32 (4 * bn) (buf_data bp s) in
             bindE
               (if addr = 0 then
                  bindE (balloc (i_dev (inode_at s ip)) s) (\<lambda>(addr, s).
                  if addr \<noteq> 0 then
                    bindE (log_write bp (set_data bp (put32 (4 * bn) addr (buf_data bp s)) s))
                      (\<lambda>s. Inr (addr, s))
                  else Inr (addr, s))
                else Inr (addr, s)) (\<lambda>(addr, s).
             bindE (brelse bp s) (\<lambda>s. Inr (addr, s)))))
         else Inl (Panic ''bmap: out of range'')))"

definition itrunc :: "nat \<Rightarrow> 'a fstate_scheme \<Rightarrow> 'a fstate_scheme res" where
  "itrunc ip s =
     bindE (foreach (\<lambda>i s.
         let x = inode_at s ip in
         if i_addrs x ! i \<noteq> 0
         then bindE (bfree (i_dev x) (i_addrs x ! i) s) (\<lambda>s. Inr (set_addr ip i 0 s))
         else Inr s) [0..<NDIRECT] s) (\<lambda>s.
     bindE
       (let x = inode_at s ip in
        if i_addrs x ! NDIRECT \<noteq> 0 then
          bindE (bread (i_dev x) (i_addrs x ! NDIRECT) s) (\<lambda>(bp, s).
          bindE (foreach (\<lambda>j s.
              let a = get32 (4 * j) (buf_data bp s) in
              if a \<noteq> 0 then bfree (i_dev x) a s else Inr s) [0..<NINDIRECT] s) (\<lambda>s.
          bindE (brelse bp s) (\<lambda>s.
          bindE (bfree (i_dev x) (i_addrs x ! NDIRECT) s) (\<lambda>s.
          Inr (set_addr ip NDIRECT 0 s)))))
        else Inr s) (\<lambda>s.
     iupdate ip (upd_inode ip (\<lambda>x. x\<lparr>i_size := 0\<rparr>) s)))"

definition iput :: "nat \<Rightarrow> 'a fstate_scheme \<Rightarrow> 'a fstate_scheme res" where
  "iput ip s =
     bindE
       (let x = inode_at s ip in
        if i_ref x = 1 \<and> i_valid x \<and> i_nlink x = 0 then
          bindE (acquiresleep (Chan_inode_lock ip) (i_lock x) s) (\<lambda>lk.
          bindE (itrunc ip (upd_inode ip (\<lambda>x. x\<lparr>i_lock := lk\<rparr>) s)) (\<lambda>s.
          bindE (iupdate ip (upd_inode ip (\<lambda>x. x\<lparr>i_type := 0\<rparr>) s)) (\<lambda>s.
          let s = upd_inode ip (\<lambda>x. x\<lparr>i_valid := False\<rparr>) s;
              (lk, s) = releasesleep (Chan_inode_lock ip) (i_lock (inode_at s ip)) s
          in Inr (upd_inode ip (\<lambda>x. x\<lparr>i_lock := lk\<rparr>) s))))
        else Inr s)
       (\<lambda>s. Inr (upd_inode ip (\<lambda>x. x\<lparr>i_ref := i_ref x - 1\<rparr>) s))"

definition iunlockput :: "nat \<Rightarrow> 'a fstate_scheme \<Rightarrow> 'a fstate_scheme res" where
  "iunlockput ip s = bindE (iunlock ip s) (iput ip)"

text \<open>\<open>struct stat\<close> of \<open>kernel/stat.h\<close>, and its 24 bytes as \<open>copyout\<close> sees them.\<close>

record stat =
  st_dev :: u32
  st_ino :: u32
  st_type :: u16
  st_nlink :: u16
  st_size :: u64

definition stati :: "nat \<Rightarrow> 'a fstate_scheme \<Rightarrow> stat" where
  "stati ip s =
     (let x = inode_at s ip
      in \<lparr>st_dev = i_dev x, st_ino = i_inum x, st_type = i_type x, st_nlink = i_nlink x,
          st_size = ucast (i_size x)\<rparr>)"

text \<open>
  \<open>readi\<close>: the loop with \<open>rem\<close> bytes left, having read \<open>tot\<close>. The second component of
  the result is the destination with what was stored there, when it is a variable of the kernel.
\<close>

function readi_loop ::
  "nat \<Rightarrow> uptr \<Rightarrow> nat \<Rightarrow> nat \<Rightarrow> nat \<Rightarrow> 'a fstate_scheme \<Rightarrow> (int \<times> uptr \<times> 'a fstate_scheme) res" where
  "readi_loop ip dst off rem tot s =
     (if rem = 0 then Inr (int tot, dst, s)
      else
        bindE (bmap ip (of_nat (off div BSIZE)) s) (\<lambda>(addr, s).
        if addr = 0 then Inr (int tot, dst, s)
        else
          bindE (bread (i_dev (inode_at s ip)) addr s) (\<lambda>(bp, s).
          let m = min rem (BSIZE - off mod BSIZE) in
          bindE (either_copyout dst (seg (off mod BSIZE) m (buf_data bp s)) s) (\<lambda>(r, dst, s).
          bindE (brelse bp s) (\<lambda>s.
          if r = - 1 then Inr (- 1, dst, s)
          else readi_loop ip (uptr_add dst m) (off + m) (rem - m) (tot + m) s)))))"
  by pat_completeness auto

lemma block_rest_pos: "0 < BSIZE - off mod BSIZE"
  by (simp add: BSIZE_def)

termination readi_loop
proof (relation "measure (\<lambda>(ip, dst, off, rem, tot, s). rem)")
qed (use block_rest_pos in auto)

declare readi_loop.simps [simp del]

definition readi ::
  "nat \<Rightarrow> uptr \<Rightarrow> u32 \<Rightarrow> u32 \<Rightarrow> 'a fstate_scheme \<Rightarrow> (int \<times> uptr \<times> 'a fstate_scheme) res" where
  "readi ip dst off n s =
     (let size = i_size (inode_at s ip) in
      if size < off \<or> off + n < off then Inr (0, dst, s)
      else
        (let n = (if size < off + n then size - off else n)
         in readi_loop ip dst (unat off) (unat n) 0 s))"

text \<open>
  \<open>writei\<close>: when the copy from the user fails, the bytes that arrived stay in the buffer
  although it is not written to the log.
\<close>

function writei_loop ::
  "nat \<Rightarrow> uptr \<Rightarrow> nat \<Rightarrow> nat \<Rightarrow> nat \<Rightarrow> 'a fstate_scheme \<Rightarrow> (nat \<times> nat \<times> 'a fstate_scheme) res" where
  "writei_loop ip src off rem tot s =
     (if rem = 0 then Inr (tot, off, s)
      else
        bindE (bmap ip (of_nat (off div BSIZE)) s) (\<lambda>(addr, s).
        if addr = 0 then Inr (tot, off, s)
        else
          bindE (bread (i_dev (inode_at s ip)) addr s) (\<lambda>(bp, s).
          let m = min rem (BSIZE - off mod BSIZE) in
          bindE (either_copyin src m s) (\<lambda>(r, bs).
          let s = set_data bp (upd_seg (off mod BSIZE) bs (buf_data bp s)) s in
          if r = - 1 then bindE (brelse bp s) (\<lambda>s. Inr (tot, off, s))
          else
            bindE (log_write bp s) (\<lambda>s.
            bindE (brelse bp s) (\<lambda>s.
            writei_loop ip (uptr_add src m) (off + m) (rem - m) (tot + m) s))))))"
  by pat_completeness auto

termination writei_loop
proof (relation "measure (\<lambda>(ip, src, off, rem, tot, s). rem)")
qed (use block_rest_pos in auto)

declare writei_loop.simps [simp del]

definition writei ::
  "nat \<Rightarrow> uptr \<Rightarrow> u32 \<Rightarrow> u32 \<Rightarrow> 'a fstate_scheme \<Rightarrow> (int \<times> 'a fstate_scheme) res" where
  "writei ip src off n s =
     (if i_size (inode_at s ip) < off \<or> off + n < off then Inr (- 1, s)
      else if of_nat (MAXFILE * BSIZE) < off + n then Inr (- 1, s)
      else
        bindE (writei_loop ip src (unat off) (unat n) 0 s) (\<lambda>(tot, off, s).
        let s = (if i_size (inode_at s ip) < of_nat off
                 then upd_inode ip (\<lambda>x. x\<lparr>i_size := of_nat off\<rparr>) s else s) in
        bindE (iupdate ip s) (\<lambda>s. Inr (int tot, s))))"

section \<open>Directories\<close>

text \<open>A directory entry is its 16 bytes: the inode number, then \<open>DIRSIZ\<close> bytes of name.\<close>

definition de_inum :: "u8 list \<Rightarrow> u16" where
  "de_inum de = get16 0 de"

definition de_name :: "u8 list \<Rightarrow> u8 list" where
  "de_name de = seg 2 DIRSIZ de"

definition DESIZE :: nat where
  "DESIZE = 16"

definition namecmp :: "u8 list \<Rightarrow> u8 list \<Rightarrow> int" where
  "namecmp s t = strncmp DIRSIZ (bptr s) (bptr t)"

text \<open>\<open>readi\<close> of one entry into a variable, with the caller's panic on a short read.\<close>

definition read_dirent :: "string \<Rightarrow> nat \<Rightarrow> u32 \<Rightarrow> 'a fstate_scheme \<Rightarrow> (u8 list \<times> 'a fstate_scheme) res" where
  "read_dirent msg dp off s =
     bindE (readi dp (Klocal 0 (replicate DESIZE 0)) off (of_nat DESIZE) s) (\<lambda>(r, dst, s).
     case dst of
       Klocal _ de \<Rightarrow> if r \<noteq> int DESIZE then Inl (Panic msg) else Inr (de, s)
     | _ \<Rightarrow> Inl Fault)"

text \<open>The values of \<open>off\<close> in the loops over the entries of a directory, from \<open>from\<close> on.\<close>

definition dir_offs :: "nat \<Rightarrow> u32 \<Rightarrow> nat list" where
  "dir_offs from sz = map (\<lambda>k. k * DESIZE) [from..<(unat sz + DESIZE - 1) div DESIZE]"

text \<open>\<open>dirlookup\<close>, with the value stored in \<open>*poff\<close>.\<close>

primrec dirlookup_loop ::
  "nat \<Rightarrow> u8 list \<Rightarrow> nat list \<Rightarrow> 'a fstate_scheme \<Rightarrow> ((nat \<times> nat) option \<times> 'a fstate_scheme) res" where
  "dirlookup_loop dp name [] s = Inr (None, s)"
| "dirlookup_loop dp name (off # offs) s =
     bindE (read_dirent ''dirlookup read'' dp (of_nat off) s) (\<lambda>(de, s).
     if de_inum de = 0 then dirlookup_loop dp name offs s
     else if namecmp name (de_name de) = 0 then
       bindE (iget (i_dev (inode_at s dp)) (ucast (de_inum de)) s) (\<lambda>(ip, s).
       Inr (Some (ip, off), s))
     else dirlookup_loop dp name offs s)"

definition dirlookup ::
  "nat \<Rightarrow> u8 list \<Rightarrow> 'a fstate_scheme \<Rightarrow> ((nat \<times> nat) option \<times> 'a fstate_scheme) res" where
  "dirlookup dp name s =
     (if i_type (inode_at s dp) \<noteq> T_DIR then Inl (Panic ''dirlookup not DIR'')
      else dirlookup_loop dp name (dir_offs 0 (i_size (inode_at s dp))) s)"

text \<open>The scan of \<open>dirlink\<close> for an empty entry; it ends at the size of the directory rounded up.\<close>

primrec dirlink_scan :: "nat \<Rightarrow> nat list \<Rightarrow> nat \<Rightarrow> 'a fstate_scheme \<Rightarrow> (nat \<times> 'a fstate_scheme) res" where
  "dirlink_scan dp [] stop s = Inr (stop, s)"
| "dirlink_scan dp (off # offs) stop s =
     bindE (read_dirent ''dirlink read'' dp (of_nat off) s) (\<lambda>(de, s).
     if de_inum de = 0 then Inr (off, s) else dirlink_scan dp offs stop s)"

definition mk_dirent :: "u8 list \<Rightarrow> u32 \<Rightarrow> u8 list" where
  "mk_dirent name inum = put16 0 (ucast inum) (replicate 2 0 @ strncpy DIRSIZ (bptr name))"

definition dirlink ::
  "nat \<Rightarrow> u8 list \<Rightarrow> u32 \<Rightarrow> 'a fstate_scheme \<Rightarrow> (int \<times> 'a fstate_scheme) res" where
  "dirlink dp name inum s =
     bindE (dirlookup dp name s) (\<lambda>(found, s).
     case found of
       Some (ip, off) \<Rightarrow> bindE (iput ip s) (\<lambda>s. Inr (- 1, s))
     | None \<Rightarrow>
         (let offs = dir_offs 0 (i_size (inode_at s dp)) in
          bindE (dirlink_scan dp offs (length offs * DESIZE) s) (\<lambda>(off, s).
          bindE (writei dp (Klocal 0 (mk_dirent name inum)) (of_nat off) (of_nat DESIZE) s) (\<lambda>(r, s).
          if r \<noteq> int DESIZE then Inr (- 1, s) else Inr (0, s)))))"

section \<open>Paths\<close>

text \<open>
  A path is the list of its bytes without the final NUL, and \<open>name\<close> the \<open>DIRSIZ\<close> bytes of
  the caller's buffer. The result \<^term>\<open>None\<close> is NULL.
\<close>

definition slash :: u8 where
  "slash = 47"

definition skipelem :: "u8 list \<Rightarrow> u8 list \<Rightarrow> (u8 list \<times> u8 list) option" where
  "skipelem path name =
     (let path = dropWhile (\<lambda>c. c = slash) path in
      if path = [] then None
      else
        (let s = takeWhile (\<lambda>c. c \<noteq> slash) path;
             path = dropWhile (\<lambda>c. c \<noteq> slash) path;
             name = (if DIRSIZ \<le> length s then upd_seg 0 (take DIRSIZ s) name
                     else upd_seg 0 (s @ [0]) name)
         in Some (dropWhile (\<lambda>c. c = slash) path, name)))"

lemma length_dropWhile_less: "P x \<Longrightarrow> length (dropWhile P (x # xs)) < length (x # xs)"
  by (simp add: length_dropWhile_le le_imp_less_Suc)

lemma skipelem_shorter:
  assumes "skipelem path name = Some (path', name')"
  shows "length path' < length path"
proof -
  define p where "p = dropWhile (\<lambda>c. c = slash) path"
  have ne: "p \<noteq> []" and path': "path' = dropWhile (\<lambda>c. c = slash) (dropWhile (\<lambda>c. c \<noteq> slash) p)"
    using assms by (auto simp: skipelem_def p_def Let_def split: if_splits)
  obtain c cs where p: "p = c # cs"
    using ne by (cases p) auto
  have "c \<noteq> slash"
    using hd_dropWhile [of "\<lambda>c. c = slash" path] ne by (simp add: p_def [symmetric] p)
  then have "length (dropWhile (\<lambda>c. c \<noteq> slash) p) < length p"
    unfolding p by (intro length_dropWhile_less)
  moreover have "length p \<le> length path"
    by (simp add: p_def length_dropWhile_le)
  moreover have "length path' \<le> length (dropWhile (\<lambda>c. c \<noteq> slash) p)"
    by (simp add: path' length_dropWhile_le)
  ultimately show ?thesis
    by linarith
qed

text \<open>\<open>namex\<close>: the loop over the elements, then the whole function.\<close>

function namex_loop ::
  "u8 list \<Rightarrow> bool \<Rightarrow> u8 list \<Rightarrow> nat \<Rightarrow> 'a fstate_scheme \<Rightarrow> (nat option \<times> u8 list \<times> 'a fstate_scheme) res" where
  "namex_loop path parent name ip s =
     (case skipelem path name of
        None \<Rightarrow>
          if parent then bindE (iput ip s) (\<lambda>s. Inr (None, name, s))
          else Inr (Some ip, name, s)
      | Some (path, name) \<Rightarrow>
          bindE (ilock ip s) (\<lambda>s.
          if i_type (inode_at s ip) \<noteq> T_DIR then
            bindE (iunlockput ip s) (\<lambda>s. Inr (None, name, s))
          else if parent \<and> path = [] then
            bindE (iunlock ip s) (\<lambda>s. Inr (Some ip, name, s))
          else
            bindE (dirlookup ip name s) (\<lambda>(found, s).
            bindE (iunlockput ip s) (\<lambda>s.
            case found of
              None \<Rightarrow> Inr (None, name, s)
            | Some (next, off) \<Rightarrow> namex_loop path parent name next s))))"
  by pat_completeness auto

termination namex_loop
proof (relation "measure (\<lambda>(path, parent, name, ip, s). length path)")
qed (use skipelem_shorter in auto)

declare namex_loop.simps [simp del]

definition namex ::
  "u8 list \<Rightarrow> bool \<Rightarrow> u8 list \<Rightarrow> 'a fstate_scheme \<Rightarrow> (nat option \<times> u8 list \<times> 'a fstate_scheme) res" where
  "namex path parent name s =
     bindE
       (case path of
          c # _ \<Rightarrow>
            if c = slash then iget ROOTDEV ROOTINO s
            else (case p_cwd (myproc s) of None \<Rightarrow> Inl Fault | Some ip \<Rightarrow> Inr (ip, idup ip s))
        | [] \<Rightarrow> (case p_cwd (myproc s) of None \<Rightarrow> Inl Fault | Some ip \<Rightarrow> Inr (ip, idup ip s)))
       (\<lambda>(ip, s). namex_loop path parent name ip s)"

text \<open>The name buffer of \<open>namei\<close> is an uninitialised variable; its contents are not used.\<close>

definition namei :: "u8 list \<Rightarrow> 'a fstate_scheme \<Rightarrow> (nat option \<times> 'a fstate_scheme) res" where
  "namei path s =
     bindE (namex path False (replicate DIRSIZ 0) s) (\<lambda>(ip, name, s). Inr (ip, s))"

definition nameiparent ::
  "u8 list \<Rightarrow> u8 list \<Rightarrow> 'a fstate_scheme \<Rightarrow> (nat option \<times> u8 list \<times> 'a fstate_scheme) res" where
  "nameiparent path name s = namex path True name s"

section \<open>An example\<close>

text \<open>An entry of the inode table in zeroed memory.\<close>

definition bss_inode :: inode where
  "bss_inode = \<lparr>i_dev = 0, i_inum = 0, i_ref = 0, i_lock = \<lparr>sl_locked = False, sl_pid = 0\<rparr>, i_valid = False,
     i_type = 0, i_major = 0, i_minor = 0, i_nlink = 0, i_size = 0, i_addrs = replicate (NDIRECT + 1) 0\<rparr>"

text \<open>The zeroed memory of the kernel; \<open>r\<close> is the part that later theories add.\<close>

definition bss_fstate :: "'a \<Rightarrow> 'a fstate_scheme" where
  "bss_fstate r = bss_state (lstate_ext
     \<lparr>log_start = 0, log_size = 0, log_outstanding = 0, log_committing = False, log_dev = 0,
      log_lh = \<lparr>lh_n = 0, lh_block = replicate LOGSIZE 0\<rparr>\<rparr>
     (fstate_ext \<lparr>sb_magic = 0, sb_size = 0, sb_nblocks = 0, sb_ninodes = 0, sb_nlog = 0, sb_logstart = 0,
        sb_inodestart = 0, sb_bmapstart = 0\<rparr> (replicate NINODE bss_inode) r))"

end
