(* ===== verification/Gic.thy ===== *)
theory Gic
  imports Fs
begin

text \<open>
  The driver of the interrupt controller, \<open>kernel/gic.c\<close>: the table of handlers and the
  set-up of the controller. The controller itself is hardware: its state is of an arbitrary
  type, with a function \<open>rd\<close> for a 64-bit load from one of its registers and a function
  \<open>wr\<close> for a 64-bit store.
\<close>

unbundle bit_operations_syntax

section \<open>Handlers\<close>

datatype intrhandler = Defintr | Uartintr | Timerintr | Virtio_disk_intr

record gstate = fstate +
  intrs :: "intrhandler list"

definition IRQ_MAX_COUNT :: nat where
  "IRQ_MAX_COUNT = 64"

definition IRQ_TIMER0 :: nat where
  "IRQ_TIMER0 = 14"

definition IRQ_UART :: nat where
  "IRQ_UART = 1"

definition IRQ_MMIO :: nat where
  "IRQ_MMIO = 16"

definition PPI2ID :: "nat \<Rightarrow> nat" where
  "PPI2ID x = x + 16"

definition SPI2ID :: "nat \<Rightarrow> nat" where
  "SPI2ID x = x + 32"

definition intrset :: "nat \<Rightarrow> intrhandler \<Rightarrow> 'a gstate_scheme \<Rightarrow> 'a gstate_scheme" where
  "intrset irq ih s = (if irq < IRQ_MAX_COUNT then s\<lparr>intrs := (intrs s)[irq := ih]\<rparr> else s)"

definition intrinit :: "'a gstate_scheme \<Rightarrow> 'a gstate_scheme" where
  "intrinit s = s\<lparr>intrs := replicate IRQ_MAX_COUNT Defintr\<rparr>"

definition gicinit :: "'a gstate_scheme \<Rightarrow> 'a gstate_scheme" where
  "gicinit s = intrinit s"

section \<open>Registers\<close>

definition GIC_BASE :: u64 where
  "GIC_BASE = 0x08000000"

definition gic_base :: u64 where
  "gic_base = P2V GIC_BASE"

definition GICC_REG :: "u64 \<Rightarrow> u64" where
  "GICC_REG x = gic_base + 0x10000 + x"

definition GICC_CTLR :: u64 where "GICC_CTLR = 0x000"
definition GICC_PMR :: u64 where "GICC_PMR = 0x004"
definition GICC_IAR :: u64 where "GICC_IAR = 0x00c"
definition GICC_EOIR :: u64 where "GICC_EOIR = 0x010"

definition GICD_REG :: "u64 \<Rightarrow> nat \<Rightarrow> u64" where
  "GICD_REG x off = gic_base + x + 4 * of_nat off"

definition GICD_CTLR :: u64 where "GICD_CTLR = 0x000"
definition GICD_ISENABLER :: u64 where "GICD_ISENABLER = 0x100"
definition GICD_ITARGETSR :: u64 where "GICD_ITARGETSR = 0x800"
definition GICD_ICFGR :: u64 where "GICD_ICFGR = 0xc00"

text \<open>
  \<open>uint val = REG; val = f(val); REG = val\<close>: the load and the store are 64 bits wide, and
  \<open>val\<close> is 32 bits.
\<close>

definition reg_update ::
  "('d \<Rightarrow> u64 \<Rightarrow> u64 \<times> 'd) \<Rightarrow> ('d \<Rightarrow> u64 \<Rightarrow> u64 \<Rightarrow> 'd) \<Rightarrow> u64 \<Rightarrow> (u32 \<Rightarrow> u32) \<Rightarrow> 'd \<Rightarrow> 'd" where
  "reg_update rd wr a f d = (let (v, d) = rd d a in wr d a (ucast (f (ucast v))))"

definition cfgset ::
  "('d \<Rightarrow> u64 \<Rightarrow> u64 \<times> 'd) \<Rightarrow> ('d \<Rightarrow> u64 \<Rightarrow> u64 \<Rightarrow> 'd) \<Rightarrow> nat \<Rightarrow> bool \<Rightarrow> 'd \<Rightarrow> 'd" where
  "cfgset rd wr irq isedge d =
     (let off = irq div 16; bitpos = (irq mod 16) * 2 in
      reg_update rd wr (GICD_REG GICD_ICFGR off)
        (\<lambda>v. let v = v AND NOT (push_bit bitpos 3)
             in if isedge then v OR push_bit bitpos 2 else v) d)"

definition enbset ::
  "('d \<Rightarrow> u64 \<Rightarrow> u64 \<times> 'd) \<Rightarrow> ('d \<Rightarrow> u64 \<Rightarrow> u64 \<Rightarrow> 'd) \<Rightarrow> nat \<Rightarrow> 'd \<Rightarrow> 'd" where
  "enbset rd wr irq d =
     reg_update rd wr (GICD_REG GICD_ISENABLER (irq div 32)) (\<lambda>v. v OR push_bit (irq mod 32) 1) d"

definition cpuset ::
  "('d \<Rightarrow> u64 \<Rightarrow> u64 \<times> 'd) \<Rightarrow> ('d \<Rightarrow> u64 \<Rightarrow> u64 \<Rightarrow> 'd) \<Rightarrow> nat \<Rightarrow> u32 \<Rightarrow> 'd \<Rightarrow> 'd" where
  "cpuset rd wr irq cpu d =
     reg_update rd wr (GICD_REG GICD_ITARGETSR (irq div 4)) (\<lambda>v. v OR push_bit ((irq mod 4) * 8) cpu) d"

definition spiset ::
  "('d \<Rightarrow> u64 \<Rightarrow> u64 \<times> 'd) \<Rightarrow> ('d \<Rightarrow> u64 \<Rightarrow> u64 \<Rightarrow> 'd) \<Rightarrow> nat \<Rightarrow> bool \<Rightarrow> u32 \<Rightarrow> 'd \<Rightarrow> 'd" where
  "spiset rd wr spi isedge cpu d =
     (let irq = SPI2ID spi in cpuset rd wr irq cpu (enbset rd wr irq (cfgset rd wr irq isedge d)))"

definition ppiset ::
  "('d \<Rightarrow> u64 \<Rightarrow> u64 \<times> 'd) \<Rightarrow> ('d \<Rightarrow> u64 \<Rightarrow> u64 \<Rightarrow> 'd) \<Rightarrow> nat \<Rightarrow> bool \<Rightarrow> u32 \<Rightarrow> 'd \<Rightarrow> 'd" where
  "ppiset rd wr ppi isedge cpu d =
     (let irq = PPI2ID ppi in cpuset rd wr irq cpu (enbset rd wr irq (cfgset rd wr irq isedge d)))"

definition group0enb ::
  "('d \<Rightarrow> u64 \<Rightarrow> u64 \<times> 'd) \<Rightarrow> ('d \<Rightarrow> u64 \<Rightarrow> u64 \<Rightarrow> 'd) \<Rightarrow> 'd \<Rightarrow> 'd" where
  "group0enb rd wr d =
     (let (v, d) = rd d (GICD_REG GICD_CTLR 0);
          d = wr d (GICD_REG GICD_CTLR 0) (v OR 1);
          (v, d) = rd d (GICC_REG GICC_CTLR)
      in wr d (GICC_REG GICC_CTLR) (v OR 1))"

definition cpuinit :: "('d \<Rightarrow> u64 \<Rightarrow> u64 \<Rightarrow> 'd) \<Rightarrow> 'd \<Rightarrow> 'd" where
  "cpuinit wr d = wr d (GICC_REG GICC_PMR) 0x0f"

definition gichartinit ::
  "('d \<Rightarrow> u64 \<Rightarrow> u64 \<times> 'd) \<Rightarrow> ('d \<Rightarrow> u64 \<Rightarrow> u64 \<Rightarrow> 'd) \<Rightarrow> nat \<Rightarrow> 'd \<Rightarrow> 'd" where
  "gichartinit rd wr cpuid d =
     (let d = cpuinit wr d;
          d = ppiset rd wr IRQ_TIMER0 False (push_bit cpuid 1) d;
          d = spiset rd wr IRQ_UART False (push_bit cpuid 1) d;
          d = spiset rd wr IRQ_MMIO True (push_bit cpuid 1) d
      in group0enb rd wr d)"

end
