(* ===== verification/Printf.thy ===== *)
theory Printf
  imports Cstring
begin

text \<open>
  The kernel's formatted output, \<open>kernel/printf.c\<close>. The functions return the characters
  that they pass to \<open>consputc\<close>, in order. An argument of the variadic call is a register
  (64 bits, of which \<open>va_arg(ap, int)\<close> takes the lower half) or a string; a missing argument
  is undefined behaviour in C, which is \<^term>\<open>Fault\<close>, and so is the negation of the
  smallest \<open>int64\<close> in \<open>printint\<close>: the kernel is not compiled with wrapping arithmetic.
\<close>

section \<open>Definitions\<close>

datatype vararg = Reg u64 | Str "u8 list option"

definition digit :: "nat \<Rightarrow> u8" where
  "digit d = (if d < 10 then of_nat (48 + d) else of_nat (87 + d))"

text \<open>The do-while loop of \<open>printint\<close>: the characters in \<open>buf\<close>, last digit first.\<close>

function printint_loop :: "nat \<Rightarrow> nat \<Rightarrow> u8 list" where
  "printint_loop base t =
     (if base < 2 \<or> t div base = 0 then [digit (t mod base)]
      else digit (t mod base) # printint_loop base (t div base))"
  by pat_completeness auto

termination printint_loop
proof (relation "measure snd")
  fix base t :: nat
  assume a: "\<not> (base < 2 \<or> t div base = 0)"
  then have "0 < t"
    by (cases t) auto
  then show "((base, t div base), base, t) \<in> measure snd"
    using a by (simp add: div_less_dividend)
qed simp

declare printint_loop.simps [simp del]

definition printint :: "u64 \<Rightarrow> nat \<Rightarrow> bool \<Rightarrow> u8 list res" where
  "printint x base sign =
     (if sign \<and> sint x < 0 then
        (if sint x = - (2 ^ 63) then Inl Fault else Inr (45 # rev (printint_loop base (unat (- x)))))
      else Inr (rev (printint_loop base (unat x))))"

text \<open>\<open>va_arg(ap, int)\<close> converted to \<open>int64\<close>, \<open>va_arg(ap, int64)\<close> and \<open>va_arg(ap, char*)\<close>.\<close>

fun va_int :: "vararg list \<Rightarrow> (u64 \<times> vararg list) res" where
  "va_int (Reg v # ap) = Inr (scast (ucast v :: u32), ap)"
| "va_int _ = Inl Fault"

fun va_int64 :: "vararg list \<Rightarrow> (u64 \<times> vararg list) res" where
  "va_int64 (Reg v # ap) = Inr (v, ap)"
| "va_int64 _ = Inl Fault"

fun va_str :: "vararg list \<Rightarrow> (u8 list option \<times> vararg list) res" where
  "va_str (Str x # ap) = Inr (x, ap)"
| "va_str _ = Inl Fault"

definition null_text :: "u8 list" where
  "null_text = [40, 110, 117, 108, 108, 41]"

text \<open>The switch on the conversion character \<open>c\<close>, after \<open>l\<close> letters l.\<close>

definition vprintf_conv :: "nat \<Rightarrow> u8 \<Rightarrow> vararg list \<Rightarrow> (u8 list \<times> vararg list) res" where
  "vprintf_conv l c ap =
     (if c = 117 then
        bindE (if l = 2 then va_int64 ap else va_int ap) (\<lambda>(x, ap).
        bindE (printint x 10 False) (\<lambda>out. Inr (out, ap)))
      else if c = 100 then
        bindE (if l = 2 then va_int64 ap else va_int ap) (\<lambda>(x, ap).
        bindE (printint x 10 True) (\<lambda>out. Inr (out, ap)))
      else if c = 120 then
        bindE (if l = 2 then va_int64 ap else va_int ap) (\<lambda>(x, ap).
        bindE (printint x 16 False) (\<lambda>out. Inr (out, ap)))
      else if c = 112 then
        bindE (va_int64 ap) (\<lambda>(x, ap).
        bindE (printint x 16 False) (\<lambda>out. Inr ([48, 120] @ out, ap)))
      else if c = 99 then
        bindE (va_int ap) (\<lambda>(x, ap). Inr ([ucast x], ap))
      else if c = 115 then
        bindE (va_str ap) (\<lambda>(x, ap).
          Inr (case x of None \<Rightarrow> null_text | Some s \<Rightarrow> takeWhile (\<lambda>c. c \<noteq> 0) s, ap))
      else if c = 37 then Inr ([37], ap)
      else Inr ([37, c], ap))"

text \<open>The format is the list of its bytes without the final NUL.\<close>

function vprintf :: "u8 list \<Rightarrow> vararg list \<Rightarrow> u8 list res" where
  "vprintf [] ap = Inr []"
| "vprintf (c # fmt) ap =
     (if c \<noteq> 37 then bindE (vprintf fmt ap) (\<lambda>out. Inr (c # out))
      else
        (let l = length (takeWhile (\<lambda>c. c = 108) fmt) in
         case dropWhile (\<lambda>c. c = 108) fmt of
           [] \<Rightarrow> Inr []
         | c # rest \<Rightarrow>
             bindE (vprintf_conv l c ap) (\<lambda>(out, ap).
             bindE (vprintf rest ap) (\<lambda>out'. Inr (out @ out')))))"
  by pat_completeness auto

lemma dropWhile_Cons_shorter: "dropWhile P xs = y # ys \<Longrightarrow> length ys < length xs"
  using length_dropWhile_le [of P xs] by simp

termination vprintf
proof (relation "measure (\<lambda>(fmt, ap). length fmt)")
qed (auto dest: dropWhile_Cons_shorter)

text \<open>The bytes of a string literal.\<close>

definition ascii :: "string \<Rightarrow> u8 list" where
  "ascii cs = map of_char cs"

section \<open>Numbers\<close>

text \<open>The value of a string of digits, most significant first.\<close>

definition digit_val :: "u8 \<Rightarrow> nat" where
  "digit_val c = (if unat c < 58 then unat c - 48 else unat c - 87)"

definition digits_val :: "nat \<Rightarrow> u8 list \<Rightarrow> nat" where
  "digits_val base cs = foldl (\<lambda>a c. a * base + digit_val c) 0 cs"

lemma unat_digit: "d < 16 \<Longrightarrow> unat (digit d) = (if d < 10 then 48 + d else 87 + d)"
  unfolding digit_def by (simp add: unat_of_nat del: of_nat_add)

lemma digit_val_digit [simp]: "d < 16 \<Longrightarrow> digit_val (digit d) = d"
  by (simp add: digit_val_def unat_digit)

lemma digits_val_snoc: "digits_val base (cs @ [c]) = digits_val base cs * base + digit_val c"
  by (simp add: digits_val_def)

lemma digits_val_printint_loop:
  "1 < base \<Longrightarrow> base \<le> 16 \<Longrightarrow> digits_val base (rev (printint_loop base t)) = t"
proof (induction base t rule: printint_loop.induct)
  case (1 base t)
  have d: "digit_val (digit (t mod base)) = t mod base"
    using 1 by (intro digit_val_digit) (simp add: less_le_trans [OF mod_less_divisor])
  show ?case
  proof (cases "t div base = 0")
    case True
    then show ?thesis
      using 1 d by (subst printint_loop.simps) (simp add: digits_val_def div_eq_0_iff)
  next
    case False
    then show ?thesis
      using 1 d by (subst printint_loop.simps) (simp add: digits_val_snoc)
  qed
qed

text \<open>The digits have no leading zero, except for zero itself.\<close>

lemma printint_loop_ne [simp]: "printint_loop base t \<noteq> []"
  by (subst printint_loop.simps) simp

lemma last_printint_loop:
  "1 < base \<Longrightarrow> base \<le> 16 \<Longrightarrow> 0 < t \<Longrightarrow> digit_val (last (printint_loop base t)) \<noteq> 0"
proof (induction base t rule: printint_loop.induct)
  case (1 base t)
  show ?case
  proof (cases "t div base = 0")
    case True
    then have "t mod base = t" "t < base"
      using 1 by (auto simp: div_eq_0_iff)
    then show ?thesis
      using True 1 by (subst printint_loop.simps) simp
  next
    case False
    then show ?thesis
      using 1 by (subst printint_loop.simps) simp
  qed
qed

text \<open>The magnitude that \<open>printint\<close> prints.\<close>

lemma sint_nonneg: "0 \<le> sint (x :: u64) \<Longrightarrow> sint x = uint x"
proof -
  assume a: "0 \<le> sint x"
  have "uint x = uint (word_of_int (sint x) :: u64)"
    by simp
  also have "\<dots> = sint x mod 2 ^ 64"
    by (simp only: unsigned_of_int take_bit_eq_mod) simp
  finally show ?thesis
    using a sint_lt [of x] by simp
qed

lemma unat_neg_sint: "sint (x :: u64) < 0 \<Longrightarrow> int (unat (- x)) = - sint x"
proof -
  assume a: "sint x < 0"
  have w: "- x = word_of_int (- sint x)"
    by simp
  have "uint (- x) = (- sint x) mod 2 ^ 64"
    by (subst w) (simp add: unsigned_of_int take_bit_eq_mod del: of_int_minus)
  moreover have "- (2 ^ 63) \<le> sint x"
    using sint_ge [of x] by simp
  ultimately show ?thesis
    using a by simp
qed

section \<open>Properties\<close>

lemma hd_rev_printint_loop:
  assumes "1 < base" "base \<le> 16" "0 < t"
  shows "hd (rev (printint_loop base t)) \<noteq> 48"
proof
  assume "hd (rev (printint_loop base t)) = 48"
  then have "digit_val (last (printint_loop base t)) = 0"
    by (simp add: hd_rev digit_val_def)
  then show False
    using last_printint_loop [OF assms] by simp
qed

lemma printint_loop_0: "1 < base \<Longrightarrow> printint_loop base 0 = [48]"
  by (subst printint_loop.simps) (simp add: digit_def)

text \<open>
  A string of digits of a base that denotes a number: there are only digits of that base in it, at least
  one, and no zero in front, unless it is zero itself.
\<close>

definition denotes :: "nat \<Rightarrow> u8 list \<Rightarrow> nat \<Rightarrow> bool" where
  "denotes base ds n \<longleftrightarrow> ds \<noteq> [] \<and> set ds \<subseteq> set (take base (ascii ''0123456789abcdef'')) \<and>
     digits_val base ds = n \<and> (ds = [48] \<or> hd ds \<noteq> 48)"

lemma digit_nth: "d < 16 \<Longrightarrow> digit d = ascii ''0123456789abcdef'' ! d"
  by (auto simp: digit_def ascii_def less_Suc_eq numeral_eq_Suc)

lemma digit_in_base: "d < base \<Longrightarrow> base \<le> 16 \<Longrightarrow> digit d \<in> set (take base (ascii ''0123456789abcdef''))"
  by (simp add: digit_nth in_set_conv_nth ascii_def) (metis nth_take)

lemma set_printint_loop:
  "1 < base \<Longrightarrow> base \<le> 16 \<Longrightarrow> set (printint_loop base t) \<subseteq> set (take base (ascii ''0123456789abcdef''))"
proof (induction base t rule: printint_loop.induct)
  case (1 base t)
  then show ?case
    using digit_in_base [of "t mod base" base] by (subst printint_loop.simps) auto
qed

lemma printint_loop_denotes: "1 < base \<Longrightarrow> base \<le> 16 \<Longrightarrow> denotes base (rev (printint_loop base t)) t"
  using hd_rev_printint_loop [of base t] printint_loop_0 [of base] set_printint_loop [of base t]
    digits_val_printint_loop [of base t]
  by (cases "t = 0") (simp_all add: denotes_def)

text \<open>What \<open>printint\<close> prints, signed and unsigned.\<close>

lemma printint_signed:
  assumes "sint x \<noteq> - (2 ^ 63)" and "1 < base" and "base \<le> 16"
  shows "\<exists>ds. printint x base True = Inr ((if sint x < 0 then [45] else []) @ ds) \<and> denotes base ds (nat \<bar>sint x\<bar>)"
proof (cases "sint x < 0")
  case True
  have "unat (- x) = nat \<bar>sint x\<bar>"
    using unat_neg_sint [OF True] True by linarith
  then show ?thesis
    using assms True printint_loop_denotes [OF assms(2,3), of "unat (- x)"] by (auto simp: printint_def)
next
  case False
  then have "unat x = nat \<bar>sint x\<bar>"
    using sint_nonneg [of x] by (simp flip: nat_uint_eq)
  then show ?thesis
    using False printint_loop_denotes [OF assms(2,3), of "unat x"] by (auto simp: printint_def)
qed

lemma printint_unsigned: "printint x base False = Inr (rev (printint_loop base (unat x)))"
  by (simp add: printint_def)

lemma sint_va_int: "sint (scast (w :: u32) :: u64) = sint w" "sint (w :: u32) \<noteq> - (2 ^ 63)"
proof -
  have "- (2 ^ 31) \<le> sint w" "sint w < 2 ^ 31"
    using sint_ge [of w] sint_lt [of w] by simp_all
  then show "sint (scast w :: u64) = sint w" "sint w \<noteq> - (2 ^ 63)"
    by (simp_all add: signed_scast_eq signed_take_bit_int_eq_self)
qed

text \<open>A conversion behind text without percent signs.\<close>

lemma vprintf_text: "37 \<notin> set pre \<Longrightarrow> vprintf (pre @ fmt) ap = bindE (vprintf fmt ap) (\<lambda>out. Inr (pre @ out))"
proof (induction pre)
  case Nil
  show ?case
    by (cases "vprintf fmt ap") simp_all
next
  case (Cons c pre)
  then show ?case
    by (cases "vprintf fmt ap") auto
qed

lemma vprintf_letters:
  assumes "c \<noteq> 108"
  shows "vprintf (37 # replicate l 108 @ c # post) ap =
    bindE (vprintf_conv l c ap) (\<lambda>(out, ap). bindE (vprintf post ap) (\<lambda>out'. Inr (out @ out')))"
proof -
  have "takeWhile (\<lambda>c. c = 108) (replicate l 108 @ c # post) = replicate l 108"
    "dropWhile (\<lambda>c. c = 108) (replicate l 108 @ c # post) = c # post"
    using assms by (induction l) simp_all
  then show ?thesis
    by simp
qed

text \<open>
  Property C18. \<open>%d\<close>, with any number of letters l, in any format: the text before it comes out
  unchanged, then a minus sign when the argument is negative and only then, then decimal digits that
  denote its absolute value, without leading zeros, then what the rest of the format prints. The
  argument is a 64-bit number with \<open>%lld\<close> and a 32-bit number otherwise. The smallest \<open>int64\<close>
  is undefined behaviour, because its negation overflows.
\<close>

theorem vprintf_decimal:
  assumes "37 \<notin> set pre" and "vprintf post ap = Inr out"
  shows "let x = (if l = 2 then sint v else sint (ucast v :: u32));
             r = vprintf (pre @ 37 # replicate l 108 @ 100 # post) (Reg v # ap)
    in if x = - (2 ^ 63) then r = Inl Fault
       else \<exists>ds. r = Inr (pre @ (if x < 0 then [45] else []) @ ds @ out) \<and> denotes 10 ds (nat \<bar>x\<bar>)"
proof -
  let ?x = "if l = 2 then v else scast (ucast v :: u32)"
  have x: "(if l = 2 then sint v else sint (ucast v :: u32)) = sint ?x"
    by (simp add: sint_va_int(1))
  have r: "vprintf (pre @ 37 # replicate l 108 @ 100 # post) (Reg v # ap) =
      bindE (printint ?x 10 True) (\<lambda>ds. Inr (pre @ ds @ out))"
    using assms by (cases "printint ?x 10 True")
      (auto simp: vprintf_text vprintf_letters vprintf_conv_def simp del: vprintf.simps(2) split: if_splits)
  show ?thesis
  proof (cases "sint ?x = - (2 ^ 63)")
    case True
    then show ?thesis
      unfolding x r Let_def by (simp add: printint_def)
  next
    case False
    then show ?thesis
      unfolding x r Let_def using printint_signed [OF False, of 10] by auto
  qed
qed

theorem vprintf_decimal_witness:
  "\<exists>ds. vprintf (ascii ''n=%d.'') [Reg (- 5)] = Inr (ascii ''n=-'' @ ds @ ascii ''.'') \<and> denotes 10 ds 5"
  using vprintf_decimal [of "ascii ''n=''" "ascii ''.''" "[]" "ascii ''.''" 0 "- 5"]
  by (simp add: ascii_def Let_def)

text \<open>
  Property C19. \<open>%x\<close>, with any number of letters l, in any format: the text before it comes out
  unchanged, then hexadecimal digits without leading zeros, then what the rest of the format prints.
  The digits denote the 64-bit argument with \<open>%llx\<close>; otherwise they denote the 32-bit argument
  sign-extended to 64 bits, since it is taken as an \<open>int\<close> and widened before it is printed as
  unsigned.
\<close>

theorem vprintf_hex:
  assumes "37 \<notin> set pre" and "vprintf post ap = Inr out"
  shows "\<exists>ds. vprintf (pre @ 37 # replicate l 108 @ 120 # post) (Reg v # ap) = Inr (pre @ ds @ out) \<and>
    denotes 16 ds (if l = 2 then unat v else unat (scast (ucast v :: u32) :: u64))"
  using assms printint_loop_denotes [of 16]
  by (simp add: vprintf_text vprintf_letters vprintf_conv_def printint_unsigned del: vprintf.simps(2))

theorem vprintf_hex_witness:
  "\<exists>ds. vprintf (ascii ''at %x!'') [Reg 0x80000000] = Inr (ascii ''at '' @ ds @ ascii ''!'') \<and>
    denotes 16 ds 0xffffffff80000000"
  using vprintf_hex [of "ascii ''at ''" "ascii ''!''" "[]" "ascii ''!''" 0 "0x80000000"]
  by (simp add: ascii_def)

end
