(* ===== verification/Ring.thy ===== *)
theory Ring
  imports Xv6_Prelude
begin

text \<open>
  First-in first-out queues. Pipes, the transmit buffer of the serial port and the input buffer of
  the console are arrays used as rings, with counters that only grow, modulo the size of their type.
  \<open>ring\<close> is the list of the elements in such an array; the locale \<open>fifo\<close> is what the three have
  in common, and what their users rely on.
\<close>

section \<open>Rings\<close>

definition ring :: "'b list \<Rightarrow> nat \<Rightarrow> nat \<Rightarrow> 'b list" where
  "ring d r n = map (\<lambda>i. d ! ((r + i) mod length d)) [0..<n]"

lemma length_ring [simp]: "length (ring d r n) = n"
  by (simp add: ring_def)

lemma ring_0 [simp]: "ring d r 0 = []"
  by (simp add: ring_def)

lemma ring_Nil [simp]: "ring d r n = [] \<longleftrightarrow> n = 0"
  by (simp add: ring_def)

lemma ring_put:
  assumes "n < length d"
  shows "ring (d[(r + n) mod length d := x]) r (Suc n) = ring d r n @ [x]"
proof (rule nth_equalityI)
  fix i assume i: "i < length (ring (d[(r + n) mod length d := x]) r (Suc n))"
  have "(r + i) mod length d \<noteq> (r + n) mod length d" if "i < n"
  proof
    assume "(r + i) mod length d = (r + n) mod length d"
    then have "length d dvd (r + n) - (r + i)"
      using mod_eq_dvd_iff_nat [of "r + i" "r + n" "length d"] that by simp
    then show False
      using assms that by (auto dest: dvd_imp_le)
  qed
  moreover have "(r + n) mod length d < length d"
    by (intro mod_less_divisor le_less_trans [OF _ assms]) simp
  ultimately show "ring (d[(r + n) mod length d := x]) r (Suc n) ! i = (ring d r n @ [x]) ! i"
    using i assms by (auto simp: ring_def nth_append less_Suc_eq simp del: upt_Suc)
qed simp

lemma ring_get: "ring d r (Suc n) = d ! (r mod length d) # ring d (Suc r) n"
  by (simp add: ring_def upt_conv_Cons map_Suc_upt [symmetric] del: upt_Suc)

lemma ring_butlast: "ring d r n = butlast (ring d r (Suc n))"
  by (simp add: ring_def)

lemma ring_mod:
  assumes "length d dvd m"
  shows "ring d (r mod m) n = ring d r n"
proof -
  have "(r mod m + i) mod length d = (r + i) mod length d" for i
  proof -
    have "(r mod m + i) mod length d = (r mod m mod length d + i) mod length d"
      by (rule mod_add_left_eq [symmetric])
    also have "\<dots> = (r mod length d + i) mod length d"
      by (simp only: mod_mod_cancel [OF assms])
    finally show ?thesis
      by (simp only: mod_add_left_eq)
  qed
  then show ?thesis
    by (simp only: ring_def)
qed

lemma ring_add: "ring d r (m + n) = ring d r m @ ring d (r + m) n"
  by (induction n arbitrary: m) (simp_all add: ring_def add.assoc)

text \<open>
  Counters of a machine word type, whose range is a multiple of the size of the array: \<open>r\<close> and \<open>w\<close>
  count the elements taken and put, and wrap around.
\<close>

lemma unat_add_of_nat_mod:
  fixes r :: "'a::len word"
  assumes "m dvd 2 ^ LENGTH('a)"
  shows "unat (r + of_nat n) mod m = (unat r + n) mod m"
proof -
  have "unat (r + of_nat n) = (unat r + n) mod 2 ^ LENGTH('a)"
    by (simp add: unat_word_ariths unat_of_nat mod_add_right_eq)
  then show ?thesis
    using assms by (simp add: mod_mod_cancel)
qed

lemma unat_Suc:
  fixes x :: "'a::len word"
  assumes "Suc (unat x) < 2 ^ LENGTH('a)"
  shows "unat (x + 1) = Suc (unat x)"
  using unat_add_of_nat_mod [of "2 ^ LENGTH('a)" x 1] assms by simp

lemma word_ring_put:
  fixes r w :: "'a::len word"
  assumes n: "length d = n" "n dvd 2 ^ LENGTH('a)" "n < 2 ^ LENGTH('a)" and full: "unat (w - r) < n"
  shows "unat (w + 1 - r) = Suc (unat (w - r))"
    and "ring (d[unat w mod n := x]) (unat r) (unat (w + 1 - r)) = ring d (unat r) (unat (w - r)) @ [x]"
proof -
  have 1: "w + 1 - r = (w - r) + 1"
    by simp
  show s: "unat (w + 1 - r) = Suc (unat (w - r))"
    unfolding 1 using n(3) full by (intro unat_Suc) linarith
  have "unat w mod n = (unat r + unat (w - r)) mod n"
    using unat_add_of_nat_mod [OF n(2), of r "unat (w - r)"] by simp
  then show "ring (d[unat w mod n := x]) (unat r) (unat (w + 1 - r)) = ring d (unat r) (unat (w - r)) @ [x]"
    unfolding s using ring_put [of "unat (w - r)" d "unat r" x] n(1) full by simp
qed

lemma word_ring_get:
  fixes r w :: "'a::len word"
  assumes n: "length d = n" "n dvd 2 ^ LENGTH('a)" and ne: "r \<noteq> w"
  shows "unat (w - r) = Suc (unat (w - (r + 1)))"
    and "ring d (unat r) (unat (w - r)) = d ! (unat r mod n) # ring d (unat (r + 1)) (unat (w - (r + 1)))"
proof -
  have "w - r \<noteq> 0"
    using ne by simp
  then have "unat (w - r) = Suc (unat (w - r - 1))"
    by (metis Suc_diff_1 unat_gt_0 unat_minus_one)
  moreover have "w - r - 1 = w - (r + 1)"
    by simp
  ultimately show s: "unat (w - r) = Suc (unat (w - (r + 1)))"
    by simp
  have "unat (r + 1) = Suc (unat r) mod 2 ^ LENGTH('a)"
    using unat_add_of_nat_mod [of "2 ^ LENGTH('a)" r 1] by simp
  then have "ring d (unat (r + 1)) k = ring d (Suc (unat r)) k" for k
    using ring_mod [of d "2 ^ LENGTH('a)"] n by simp
  then show "ring d (unat r) (unat (w - r)) = d ! (unat r mod n) # ring d (unat (r + 1)) (unat (w - (r + 1)))"
    unfolding s using n(1) by (simp add: ring_get)
qed

lemma word_ring_empty:
  fixes r w :: "'a::len word"
  shows "unat (w - r) = 0 \<longleftrightarrow> r = w"
  by (auto simp: unat_eq_zero)

lemma word_ring_full:
  fixes r w :: "'a::len word"
  assumes "n < 2 ^ LENGTH('a)"
  shows "unat (w - r) = n \<longleftrightarrow> w = r + of_nat n"
proof -
  have "unat (w - r) = n \<longleftrightarrow> w - r = of_nat n"
    using assms by (auto simp: word_unat_eq_iff unat_of_nat)
  then show ?thesis
    by (simp add: diff_eq_eq add.commute)
qed

lemma word_ring_split:
  fixes r w e :: "'a::len word"
  assumes "length d dvd 2 ^ LENGTH('a)" and "unat (w - r) + unat (e - w) < 2 ^ LENGTH('a)"
  shows "unat (e - r) = unat (w - r) + unat (e - w)"
    and "ring d (unat r) (unat (e - r)) = ring d (unat r) (unat (w - r)) @ ring d (unat w) (unat (e - w))"
proof -
  have "e - r = (w - r) + (e - w)"
    by simp
  then show s: "unat (e - r) = unat (w - r) + unat (e - w)"
    using assms(2) by (metis unat_add_lem)
  have "unat w = (unat r + unat (w - r)) mod 2 ^ LENGTH('a)"
    using unat_add_of_nat_mod [of "2 ^ LENGTH('a)" r "unat (w - r)"] by simp
  then have "ring d (unat w) k = ring d (unat r + unat (w - r)) k" for k
    using ring_mod [OF assms(1)] by simp
  then show "ring d (unat r) (unat (e - r)) = ring d (unat r) (unat (w - r)) @ ring d (unat w) (unat (e - w))"
    unfolding s ring_add by simp
qed

lemma word_ring_drop:
  fixes r e :: "'a::len word"
  assumes "e \<noteq> r"
  shows "unat (e - 1 - r) = unat (e - r) - 1" and "ring d r' (unat (e - 1 - r)) = butlast (ring d r' (unat (e - r)))"
proof -
  have "e - 1 - r = (e - r) - 1"
    by simp
  then show 1: "unat (e - 1 - r) = unat (e - r) - 1"
    using assms by (metis unat_minus_one right_minus_eq)
  have "unat (e - r) \<noteq> 0"
    using assms by (auto simp: word_ring_empty)
  then show "ring d r' (unat (e - 1 - r)) = butlast (ring d r' (unat (e - r)))"
    unfolding 1 ring_butlast [of d r' "unat (e - r) - 1"] by simp
qed

section \<open>Queues\<close>

text \<open>
  A queue with at most \<open>cap\<close> elements: \<open>items\<close> are its elements, oldest first. The laws are those
  of the two operations on a queue that is not full, or not empty.
\<close>

locale fifo =
  fixes ok :: "'s \<Rightarrow> bool" and items :: "'s \<Rightarrow> 'b list" and cap :: nat
    and enq :: "'b \<Rightarrow> 's \<Rightarrow> 's" and deq :: "'s \<Rightarrow> 'b \<times> 's"
  assumes enq_ok: "ok s \<Longrightarrow> length (items s) < cap \<Longrightarrow> ok (enq x s)"
    and enq_items: "ok s \<Longrightarrow> length (items s) < cap \<Longrightarrow> items (enq x s) = items s @ [x]"
    and deq_ok: "ok s \<Longrightarrow> items s \<noteq> [] \<Longrightarrow> ok (snd (deq s))"
    and deq_items: "ok s \<Longrightarrow> items s \<noteq> [] \<Longrightarrow> items s = fst (deq s) # items (snd (deq s))"
begin

text \<open>Any number of elements that fit, in order.\<close>

lemma enq_all:
  "ok s \<Longrightarrow> length (items s) + length xs \<le> cap \<Longrightarrow>
   ok (fold enq xs s) \<and> items (fold enq xs s) = items s @ xs"
  by (induction xs arbitrary: s) (simp_all add: enq_ok enq_items)

text \<open>
  A run of the queue, with the elements put in and the elements taken out: what was in the queue and
  came in is what went out and is in the queue still, in the same order.
\<close>

inductive run :: "'s \<Rightarrow> 'b list \<Rightarrow> 'b list \<Rightarrow> 's \<Rightarrow> bool" for s where
  run_start: "run s [] [] s"
| run_enq: "run s xs ys t \<Longrightarrow> length (items t) < cap \<Longrightarrow> run s (xs @ [x]) ys (enq x t)"
| run_deq: "run s xs ys t \<Longrightarrow> items t \<noteq> [] \<Longrightarrow> deq t = (y, u) \<Longrightarrow> run s xs (ys @ [y]) u"

lemma run_fifo: "run s xs ys t \<Longrightarrow> ok s \<Longrightarrow> ok t \<and> items s @ xs = ys @ items t"
proof (induction rule: run.induct)
  case (run_enq xs ys t x)
  then show ?case
    using enq_ok enq_items by (metis append_assoc)
next
  case (run_deq xs ys t y u)
  then have "items t = y # items u" "ok u"
    using deq_items [of t] deq_ok [of t] by simp_all
  then show ?case
    using run_deq by simp
qed simp

end

end
