(* ===== verification/Uart.thy ===== *)
theory Uart
  imports Gic Printf Ring
begin

text \<open>
  The driver of the serial port, \<open>kernel/uart.c\<close>: a ring of characters to send, filled by
  \<open>uartputc\<close> and drained by \<open>uartstart\<close>.

  Of the device, the state holds the control registers, the number of bytes that its transmit
  FIFO still takes (the flag TXFF is set when there are none, and a store to the data register
  takes one), the words that reading the data register will give (a received byte with the error
  flags of the device above it; the flag RXFE is set when there are none), and all bytes ever
  stored to the data register, in order. When the device asserts its receive interrupt is not
  part of the state: with its FIFO enabled that depends on a trigger level and on time.
\<close>

unbundle bit_operations_syntax

section \<open>State\<close>

definition UART_TX_BUF_SIZE :: nat where
  "UART_TX_BUF_SIZE = 32"

record ustate = gstate +
  panicked :: int
  cpuid :: int
  uart_tx_buf :: "u8 list"
  uart_tx_w :: u64
  uart_tx_r :: u64
  uart_regs :: "nat \<Rightarrow> u32"
  uart_space :: nat
  uart_out :: "u8 list"
  uart_rx :: "u32 list"

text \<open>
  A routine of the kernel that may sleep in the middle returns, or waits on a channel with
  an argument from which it goes on when it is woken up; it may also give up the CPU, to return 0
  when it is scheduled again, or end the process.
\<close>

datatype progress = Returned int | Waiting chan nat | Yielded | Exited

section \<open>Registers\<close>

definition UART_IBRD :: nat where "UART_IBRD = 9"
definition UART_FBRD :: nat where "UART_FBRD = 10"
definition UART_LCRH :: nat where "UART_LCRH = 11"
definition UART_LCRH_FEN :: u32 where "UART_LCRH_FEN = push_bit 4 1"
definition UART_CR :: nat where "UART_CR = 12"
definition UART_CR_RXE :: u32 where "UART_CR_RXE = push_bit 9 1"
definition UART_CR_TXE :: u32 where "UART_CR_TXE = push_bit 8 1"
definition UART_CR_EN :: u32 where "UART_CR_EN = push_bit 0 1"
definition UART_IMSC :: nat where "UART_IMSC = 14"
definition UART_RXI :: u32 where "UART_RXI = push_bit 4 1"
definition UART_TXI :: u32 where "UART_TXI = push_bit 5 1"
definition UART_ICR :: nat where "UART_ICR = 17"
definition UART_BITRATE :: u32 where "UART_BITRATE = 19200"
definition UART_CLK :: u32 where "UART_CLK = 24000000"

definition set_reg :: "nat \<Rightarrow> u32 \<Rightarrow> 'a ustate_scheme \<Rightarrow> 'a ustate_scheme" where
  "set_reg r v s = s\<lparr>uart_regs := (uart_regs s)(r := v)\<rparr>"

definition uartinit :: "'a ustate_scheme \<Rightarrow> 'a ustate_scheme" where
  "uartinit s =
     (let s = set_reg UART_IBRD (UART_CLK div (16 * UART_BITRATE)) s;
          left = UART_CLK mod (16 * UART_BITRATE);
          s = set_reg UART_FBRD ((left * 4 + UART_BITRATE div 2) div UART_BITRATE) s;
          s = set_reg UART_CR (uart_regs s UART_CR OR (UART_CR_EN OR UART_CR_RXE OR UART_CR_TXE)) s
      in set_reg UART_LCRH (uart_regs s UART_LCRH OR UART_LCRH_FEN) s)"

definition uartsti :: "'a ustate_scheme \<Rightarrow> 'a ustate_scheme" where
  "uartsti s = intrset (SPI2ID IRQ_UART) Uartintr (set_reg UART_IMSC UART_RXI s)"

section \<open>Sending and receiving\<close>

text \<open>A store to the data register.\<close>

definition uart_send :: "u8 \<Rightarrow> 'a ustate_scheme \<Rightarrow> 'a ustate_scheme" where
  "uart_send c s = s\<lparr>uart_out := uart_out s @ [c], uart_space := uart_space s - 1\<rparr>"

text \<open>The two accesses to the ring, in \<open>uartputc\<close> and in \<open>uartstart\<close>.\<close>

definition uart_put :: "u8 \<Rightarrow> 'a ustate_scheme \<Rightarrow> 'a ustate_scheme" where
  "uart_put c s = s\<lparr>uart_tx_buf := (uart_tx_buf s)[unat (uart_tx_w s) mod UART_TX_BUF_SIZE := c],
     uart_tx_w := uart_tx_w s + 1\<rparr>"

definition uart_get :: "'a ustate_scheme \<Rightarrow> u8 \<times> 'a ustate_scheme" where
  "uart_get s = (uart_tx_buf s ! (unat (uart_tx_r s) mod UART_TX_BUF_SIZE), s\<lparr>uart_tx_r := uart_tx_r s + 1\<rparr>)"

text \<open>The loop of \<open>uartstart\<close> ends because each round takes a place of the device's FIFO.\<close>

lemma uart_space_wakeup [simp]: "uart_space (wakeup ch s) = uart_space s"
  by (simp add: wakeup_def)

function uartstart :: "'a ustate_scheme \<Rightarrow> 'a ustate_scheme" where
  "uartstart s =
     (if uart_tx_w s = uart_tx_r s then s
      else if uart_space s = 0 then s
      else
        (let (c, s) = uart_get s;
             s = wakeup Chan_uart_tx_r s
         in uartstart (uart_send c s)))"
  by pat_completeness auto

termination uartstart
  by (relation "measure uart_space") (auto simp: uart_send_def uart_get_def)

declare uartstart.simps [simp del]

definition stopped :: "'a ustate_scheme \<Rightarrow> bool" where
  "stopped s \<longleftrightarrow> panicked s \<ge> 0 \<and> panicked s \<noteq> cpuid s"

definition uartputc :: "u8 \<Rightarrow> 'a ustate_scheme \<Rightarrow> 'a ustate_scheme res" where
  "uartputc c s =
     (if stopped s then Inl Diverge
      else if uart_tx_w s = uart_tx_r s + of_nat UART_TX_BUF_SIZE then Inl (Sleep Chan_uart_tx_r)
      else Inr (uartstart (uart_put c s)))"

text \<open>
  \<open>uartputc_sync\<close> spins while the device is full. The device goes on sending in the meantime, so
  that the loop is left with a place for the byte: from a full FIFO the wait and the store leave it
  full. A device that never sends again, on which the loop would not end, is not modelled.
\<close>

definition uartputc_sync :: "u8 \<Rightarrow> 'a ustate_scheme \<Rightarrow> 'a ustate_scheme res" where
  "uartputc_sync c s = (if stopped s then Inl Diverge else Inr (uart_send c s))"

text \<open>\<open>uartgetc\<close> returns the whole data register, or -1.\<close>

definition uartgetc :: "'a ustate_scheme \<Rightarrow> u32 \<times> 'a ustate_scheme" where
  "uartgetc s = (case uart_rx s of [] \<Rightarrow> (- 1, s) | c # cs \<Rightarrow> (c, s\<lparr>uart_rx := cs\<rparr>))"

text \<open>\<open>_uartputs\<close> stores every character of a string to the data register without looking at the flags.\<close>

primrec uartputs :: "u8 list \<Rightarrow> 'a ustate_scheme \<Rightarrow> 'a ustate_scheme" where
  "uartputs [] s = s"
| "uartputs (c # cs) s = (if c = 0 then s else uartputs cs (uart_send c s))"

section \<open>The transmit buffer is a queue\<close>

definition uart_ok :: "'a ustate_scheme \<Rightarrow> bool" where
  "uart_ok s \<longleftrightarrow> length (uart_tx_buf s) = UART_TX_BUF_SIZE \<and> unat (uart_tx_w s - uart_tx_r s) \<le> UART_TX_BUF_SIZE"

definition uart_pending :: "'a ustate_scheme \<Rightarrow> u8 list" where
  "uart_pending s = ring (uart_tx_buf s) (unat (uart_tx_r s)) (unat (uart_tx_w s - uart_tx_r s))"

lemma length_uart_pending: "length (uart_pending s) = unat (uart_tx_w s - uart_tx_r s)"
  by (simp add: uart_pending_def)

lemma uart_pending_empty: "uart_pending s = [] \<longleftrightarrow> uart_tx_r s = uart_tx_w s"
  by (simp add: uart_pending_def word_ring_empty)

lemma uart_pending_full:
  "length (uart_pending s) = UART_TX_BUF_SIZE \<longleftrightarrow> uart_tx_w s = uart_tx_r s + of_nat UART_TX_BUF_SIZE"
  by (simp add: length_uart_pending word_ring_full UART_TX_BUF_SIZE_def)

interpretation uq: fifo uart_ok uart_pending UART_TX_BUF_SIZE uart_put uart_get
proof
  fix s :: "'a ustate_scheme" and x :: u8
  assume ok: "uart_ok s"
  {
    assume "length (uart_pending s) < UART_TX_BUF_SIZE"
    then have f: "unat (uart_tx_w s - uart_tx_r s) < UART_TX_BUF_SIZE"
      by (simp add: length_uart_pending)
    note W = word_ring_put [OF _ _ _ f, of "uart_tx_buf s"]
    show "uart_ok (uart_put x s)" "uart_pending (uart_put x s) = uart_pending s @ [x]"
      using ok f W by (simp_all add: uart_ok_def uart_put_def uart_pending_def UART_TX_BUF_SIZE_def)
  }
  {
    assume "uart_pending s \<noteq> []"
    then have "uart_tx_r s \<noteq> uart_tx_w s"
      by (simp add: uart_pending_empty)
    note G = word_ring_get [OF _ _ this, of "uart_tx_buf s" UART_TX_BUF_SIZE]
    show "uart_ok (snd (uart_get s))" "uart_pending s = fst (uart_get s) # uart_pending (snd (uart_get s))"
      using ok G by (simp_all add: uart_ok_def uart_get_def uart_pending_def UART_TX_BUF_SIZE_def)
  }
qed

lemma uart_wakeup_send [simp]:
  "uart_ok (wakeup ch s) = uart_ok s" "uart_pending (wakeup ch s) = uart_pending s"
  "uart_out (wakeup ch s) = uart_out s" "uart_ok (uart_send c s) = uart_ok s"
  "uart_pending (uart_send c s) = uart_pending s" "uart_out (uart_send c s) = uart_out s @ [c]"
  by (simp_all add: wakeup_def uart_send_def uart_ok_def uart_pending_def)

lemma uart_out_put_get [simp]: "uart_out (uart_put c s) = uart_out s" "uart_out (snd (uart_get s)) = uart_out s"
  by (simp_all add: uart_put_def uart_get_def)

lemma uartstart_sends:
  "uart_ok s \<Longrightarrow> \<exists>sent. uart_ok (uartstart s) \<and> uart_pending s = sent @ uart_pending (uartstart s) \<and>
     uart_out (uartstart s) = uart_out s @ sent \<and> (uart_pending (uartstart s) = [] \<or> uart_space (uartstart s) = 0)"
proof (induction s rule: uartstart.induct)
  case (1 s)
  show ?case
  proof (cases "uart_tx_w s = uart_tx_r s \<or> uart_space s = 0")
    case True
    then have "uartstart s = s"
      by (subst uartstart.simps) auto
    then show ?thesis
      using True 1(2) by (auto simp: uart_pending_empty)
  next
    case False
    obtain c t where g: "uart_get s = (c, t)"
      by fastforce
    let ?u = "uart_send c (wakeup Chan_uart_tx_r t)"
    have s: "uartstart s = uartstart ?u"
      using False g by (subst uartstart.simps) simp
    have ne: "uart_pending s \<noteq> []"
      using False by (auto simp: uart_pending_empty)
    have t: "uart_ok t" "uart_pending s = c # uart_pending t" "uart_out t = uart_out s"
      using uq.deq_ok [OF 1(2) ne] uq.deq_items [OF 1(2) ne] uart_out_put_get(2) [of s] by (simp_all add: g)
    have "uart_ok ?u"
      using t by simp
    then show ?thesis
      unfolding s using 1(1) [of "(c, t)" c t] False g t by auto
  qed
qed

lemma uartstart_only:
  "\<exists>ps r n out. uartstart s = s\<lparr>procs := ps, uart_tx_r := r, uart_space := n, uart_out := out\<rparr>"
proof (induction s rule: uartstart.induct)
  case (1 s)
  show ?case
  proof (cases "uart_tx_w s = uart_tx_r s \<or> uart_space s = 0")
    case True
    then have "uartstart s = s"
      by (subst uartstart.simps) auto
    then show ?thesis
      by (intro exI [of _ "procs s"] exI [of _ "uart_tx_r s"] exI [of _ "uart_space s"] exI [of _ "uart_out s"]) simp
  next
    case False
    let ?t = "uart_send (fst (uart_get s)) (wakeup Chan_uart_tx_r (snd (uart_get s)))"
    have "uartstart s = uartstart ?t"
      using False by (subst uartstart.simps) (simp add: case_prod_beta)
    moreover obtain ps r n out where "uartstart ?t = ?t\<lparr>procs := ps, uart_tx_r := r, uart_space := n, uart_out := out\<rparr>"
      using 1 [OF _ _ refl, of "fst (uart_get s)" "snd (uart_get s)"] False by auto
    ultimately show ?thesis
      by (intro exI [of _ ps] exI [of _ r] exI [of _ n] exI [of _ out]) (simp add: uart_get_def uart_send_def wakeup_def)
  qed
qed

section \<open>An example\<close>

text \<open>The zeroed memory of the kernel; \<open>r\<close> is the part that later theories add.\<close>

definition bss_ustate :: "'a \<Rightarrow> 'a ustate_scheme" where
  "bss_ustate r = bss_fstate (gstate_ext (replicate IRQ_MAX_COUNT Defintr)
     (ustate_ext (- 1) 0 (replicate UART_TX_BUF_SIZE 0) 0 0 (\<lambda>_. 0) 1 [] [] r))"

lemmas bss_ustate_defs = bss_ustate_def bss_fstate_def bss_state_def

lemma bss_ustate: "uart_ok (bss_ustate r)" "\<not> stopped (bss_ustate r)" "uart_pending (bss_ustate r) = []"
    "uart_out (bss_ustate r) = []"
  by (simp_all add: uart_ok_def stopped_def uart_pending_def bss_ustate_defs)

section \<open>Properties\<close>

text \<open>
  Property C23. Output of \<open>write\<close>. \<open>uartputc\<close> on a CPU that goes on after a panic or without one
  sleeps exactly when the buffer is full. Otherwise the character joins the queue, and what the
  device has got followed by what is queued is as before with the character at the end: nothing
  is lost, doubled or reordered. When it returns, the queue is empty or the device is full.
\<close>

theorem uartputc_fifo:
  assumes "uart_ok s" and "\<not> stopped s"
  shows "if length (uart_pending s) = UART_TX_BUF_SIZE then uartputc c s = Inl (Sleep Chan_uart_tx_r)
    else \<exists>s'. uartputc c s = Inr s' \<and> uart_ok s' \<and>
      uart_out s' @ uart_pending s' = uart_out s @ uart_pending s @ [c] \<and> (uart_pending s' = [] \<or> uart_space s' = 0)"
proof (cases "length (uart_pending s) = UART_TX_BUF_SIZE")
  case True
  then show ?thesis
    using assms(2) by (simp add: uartputc_def uart_pending_full)
next
  case False
  then have l: "length (uart_pending s) < UART_TX_BUF_SIZE"
    using assms(1) by (simp add: uart_ok_def length_uart_pending)
  show ?thesis
    using uartstart_sends [OF uq.enq_ok [OF assms(1) l, of c]] uq.enq_items [OF assms(1) l, of c] assms(2) False
    by (auto simp: uartputc_def uart_pending_full)
qed

theorem uartputc_fifo_witness:
  "\<exists>s'. uartputc 65 (bss_ustate ()) = Inr s' \<and> uart_out s' @ uart_pending s' = [65]"
  using uartputc_fifo [OF bss_ustate(1,2), of "()" 65] by (auto simp: bss_ustate UART_TX_BUF_SIZE_def)

end
