(* ===== verification/Console.thy ===== *)
theory Console
  imports Uart
begin

text \<open>
  The console, \<open>kernel/console.c\<close>: line editing of the input in a ring of 128 characters,
  and the device functions behind \<open>read\<close> and \<open>write\<close>. The indices r, w and e grow
  without bound, modulo \<open>2^32\<close>: r to w is what \<open>consoleread\<close> may take, w to e the line
  that is being edited. With it comes \<open>uartintr\<close> of \<open>kernel/uart.c\<close>, which feeds the
  console, and \<open>procdump\<close> of \<open>kernel/proc.c\<close>.
\<close>

unbundle bit_operations_syntax

section \<open>State\<close>

definition INPUT_BUF_SIZE :: nat where
  "INPUT_BUF_SIZE = 128"

datatype devread = Consoleread

datatype devwrite = Consolewrite

record devsw =
  dev_read :: "devread option"
  dev_write :: "devwrite option"

definition NDEV :: nat where
  "NDEV = 10"

definition CONSOLE :: nat where
  "CONSOLE = 1"

record cstate = ustate +
  cons_buf :: "u8 list"
  cons_r :: u32
  cons_w :: u32
  cons_e :: u32
  devsws :: "devsw list"

definition consoleinit :: "'a cstate_scheme \<Rightarrow> 'a cstate_scheme" where
  "consoleinit s =
     (let s = uartinit s
      in s\<lparr>devsws := (devsws s)[CONSOLE := \<lparr>dev_read = Some Consoleread, dev_write = Some Consolewrite\<rparr>]\<rparr>)"

section \<open>Output\<close>

definition BACKSPACE :: nat where
  "BACKSPACE = 0x100"

definition consputc :: "nat \<Rightarrow> 'a ustate_scheme \<Rightarrow> 'a ustate_scheme res" where
  "consputc c s =
     (if c = BACKSPACE then
        bindE (uartputc_sync 8 s) (\<lambda>s. bindE (uartputc_sync 32 s) (uartputc_sync 8))
      else uartputc_sync (of_nat c) s)"

text \<open>\<open>printf\<close> with the output of \<open>vprintf\<close> sent through \<open>consputc\<close>.\<close>

definition printf :: "u8 list \<Rightarrow> vararg list \<Rightarrow> 'a ustate_scheme \<Rightarrow> 'a ustate_scheme res" where
  "printf fmt ap s = bindE (vprintf fmt ap) (\<lambda>out. foreach (\<lambda>c. consputc (unat c)) out s)"

definition check_panicked :: "'a ustate_scheme \<Rightarrow> 'a ustate_scheme res" where
  "check_panicked s = (if panicked s < 0 then Inr (s\<lparr>panicked := cpuid s\<rparr>) else Inl Diverge)"

fun state_name :: "procstate \<Rightarrow> string" where
  "state_name UNUSED = ''unused''"
| "state_name USED = ''used''"
| "state_name SLEEPING = ''sleep ''"
| "state_name RUNNABLE = ''runble''"
| "state_name RUNNING = ''run   ''"
| "state_name ZOMBIE = ''zombie''"

definition procdump :: "'a ustate_scheme \<Rightarrow> 'a ustate_scheme res" where
  "procdump s =
     foreach (\<lambda>i s.
       let p = procs s ! i in
       if p_state p = UNUSED then Inr s
       else
         bindE (printf (ascii ''%d %s %s'') [Reg (of_int (p_pid p)), Str (Some (ascii (state_name (p_state p)))),
                  Str (Some (p_name p))] s)
           (printf [10] [])) [0..<NPROC] s"

text \<open>\<open>consolewrite\<close> from character \<open>i\<close> on.\<close>

primrec consolewrite_loop ::
  "nat \<Rightarrow> uptr \<Rightarrow> nat \<Rightarrow> 'a ustate_scheme \<Rightarrow> (progress \<times> 'a ustate_scheme) res" where
  "consolewrite_loop 0 src i s = Inr (Returned (int i), s)"
| "consolewrite_loop (Suc n) src i s =
     bindE (either_copyin (uptr_add src i) 1 s) (\<lambda>(r, bs).
     if r = - 1 then Inr (Returned (int i), s)
     else
       (case uartputc (bs ! 0) s of
          Inl (Sleep ch) \<Rightarrow> Inr (Waiting ch i, s)
        | Inl h \<Rightarrow> Inl h
        | Inr s \<Rightarrow> consolewrite_loop n src (Suc i) s))"

definition consolewrite :: "uptr \<Rightarrow> int \<Rightarrow> 'a ustate_scheme \<Rightarrow> (progress \<times> 'a ustate_scheme) res" where
  "consolewrite src n s = consolewrite_loop (nat n) src 0 s"

section \<open>Input\<close>

text \<open>These constants are compared with characters of the ring and with words of the data register.\<close>

definition ctrl_D :: "'w::len word" where "ctrl_D = 4"
definition ctrl_H :: "'w::len word" where "ctrl_H = 8"
definition ctrl_P :: "'w::len word" where "ctrl_P = 16"
definition ctrl_U :: "'w::len word" where "ctrl_U = 21"
definition delete_key :: "'w::len word" where "delete_key = 0x7f"
definition newline :: "'w::len word" where "newline = 10"
definition carriage_return :: "'w::len word" where "carriage_return = 13"

lemmas key_defs = ctrl_D_def ctrl_H_def ctrl_P_def ctrl_U_def delete_key_def newline_def carriage_return_def

text \<open>
  \<open>consoleread\<close> with \<open>n\<close> characters to go out of \<open>target\<close>. When there is no input it waits,
  and goes on with the same \<open>n\<close>.
\<close>

primrec consoleread_loop ::
  "nat \<Rightarrow> nat \<Rightarrow> uptr \<Rightarrow> 'a cstate_scheme \<Rightarrow> (progress \<times> uptr \<times> 'a cstate_scheme) res" where
  "consoleread_loop target 0 dst s = Inr (Returned (int target), dst, s)"
| "consoleread_loop target (Suc n) dst s =
     (if cons_r s = cons_w s then
        Inr (if killed (cur s) s then Returned (- 1) else Waiting Chan_cons_r (Suc n), dst, s)
      else
        (let c = cons_buf s ! (unat (cons_r s) mod INPUT_BUF_SIZE);
             s = s\<lparr>cons_r := cons_r s + 1\<rparr> in
         if c = ctrl_D then
           (let s = (if Suc n < target then s\<lparr>cons_r := cons_r s - 1\<rparr> else s)
            in Inr (Returned (int target - int (Suc n)), dst, s))
         else
           bindE (either_copyout dst [c] s) (\<lambda>(r, dst, s).
           if r = - 1 then Inr (Returned (int target - int (Suc n)), dst, s)
           else if c = newline then Inr (Returned (int target - int n), uptr_add dst 1, s)
           else consoleread_loop target n (uptr_add dst 1) s)))"

definition consoleread ::
  "uptr \<Rightarrow> int \<Rightarrow> 'a cstate_scheme \<Rightarrow> (progress \<times> uptr \<times> 'a cstate_scheme) res" where
  "consoleread dst n s = (if n \<le> 0 then Inr (Returned 0, dst, s) else consoleread_loop (nat n) (nat n) dst s)"

text \<open>The loop of control-u, which ends at w at the latest.\<close>

primrec kill_line :: "nat \<Rightarrow> 'a cstate_scheme \<Rightarrow> 'a cstate_scheme res" where
  "kill_line 0 s = Inr s"
| "kill_line (Suc n) s =
     (if cons_e s \<noteq> cons_w s \<and> cons_buf s ! (unat (cons_e s - 1) mod INPUT_BUF_SIZE) \<noteq> newline
      then bindE (consputc BACKSPACE (s\<lparr>cons_e := cons_e s - 1\<rparr>)) (kill_line n)
      else Inr s)"

text \<open>
  \<open>consoleintr\<close> gets the word of the data register, with the error flags, if any, above the byte: it
  compares and echoes the word and stores the byte.
\<close>

definition consoleintr :: "u32 \<Rightarrow> 'a cstate_scheme \<Rightarrow> 'a cstate_scheme res" where
  "consoleintr c s =
     (if c = ctrl_P then bindE (printf [10] [] s) procdump
      else if c = ctrl_U then kill_line (unat (cons_e s - cons_w s)) s
      else if c = ctrl_H \<or> c = delete_key then
        (if cons_e s \<noteq> cons_w s then consputc BACKSPACE (s\<lparr>cons_e := cons_e s - 1\<rparr>) else Inr s)
      else if c \<noteq> 0 \<and> unat (cons_e s - cons_r s) < INPUT_BUF_SIZE then
        (let c = (if c = carriage_return then newline else c) in
         bindE (consputc (unat c) s) (\<lambda>s.
         let s = s\<lparr>cons_buf := (cons_buf s)[unat (cons_e s) mod INPUT_BUF_SIZE := ucast c],
                   cons_e := cons_e s + 1\<rparr>
         in Inr (if c = newline \<or> c = ctrl_D \<or> unat (cons_e s - cons_r s) = INPUT_BUF_SIZE
                 then wakeup Chan_cons_r (s\<lparr>cons_w := cons_e s\<rparr>) else s)))
      else Inr s)"

section \<open>The interrupt of the serial port\<close>

text \<open>
  \<open>mis i\<close> is what the device answers when the handler reads its masked interrupt status for the
  i-th time. Each round but the last takes a word of the receive FIFO, so that one round more than
  there are words is enough.
\<close>

primrec uartintr_loop :: "(nat \<Rightarrow> u32) \<Rightarrow> nat \<Rightarrow> nat \<Rightarrow> 'a cstate_scheme \<Rightarrow> 'a cstate_scheme res" where
  "uartintr_loop mis 0 i s = Inr s"
| "uartintr_loop mis (Suc n) i s =
     (if mis i AND UART_RXI = 0 then Inr s
      else
        (let (c, s) = uartgetc s in
         if c = - 1 then Inr s
         else bindE (consoleintr c s) (uartintr_loop mis n (Suc i))))"

definition uartintr :: "(nat \<Rightarrow> u32) \<Rightarrow> 'a cstate_scheme \<Rightarrow> 'a cstate_scheme res" where
  "uartintr mis s =
     bindE (uartintr_loop mis (Suc (length (uart_rx s))) 0 s) (\<lambda>s.
     Inr (set_reg UART_ICR (UART_RXI OR UART_TXI) (uartstart s)))"

section \<open>Output only appends\<close>

definition send_all :: "u8 list \<Rightarrow> 'a ustate_scheme \<Rightarrow> 'a ustate_scheme" where
  "send_all cs s = s\<lparr>uart_out := uart_out s @ cs, uart_space := uart_space s - length cs\<rparr>"

lemma send_all_sel [simp]:
  "stopped (send_all cs s) = stopped s" "procs (send_all cs s) = procs s" "uart_out (send_all cs s) = uart_out s @ cs"
  "uart_rx (send_all cs s) = uart_rx s" "uart_ok (send_all cs s) = uart_ok s" "cur (send_all cs s) = cur s"
  "uart_pending (send_all cs s) = uart_pending s"
  by (simp_all add: send_all_def stopped_def uart_ok_def uart_pending_def)

lemma send_all_cons [simp]:
  "cons_buf (send_all cs s) = cons_buf s" "cons_r (send_all cs s) = cons_r s" "cons_w (send_all cs s) = cons_w s"
  "cons_e (send_all cs s) = cons_e s"
  by (simp_all add: send_all_def)

lemma cons_e_sel [simp]:
  fixes s :: "'a cstate_scheme"
  shows "stopped (s\<lparr>cons_e := x\<rparr>) = stopped s" "uart_ok (s\<lparr>cons_e := x\<rparr>) = uart_ok s"
    "uart_pending (s\<lparr>cons_e := x\<rparr>) = uart_pending s"
  by (simp_all add: stopped_def uart_ok_def uart_pending_def)

lemma send_all_append: "send_all ds (send_all cs s) = send_all (cs @ ds) s"
  by (simp add: send_all_def)

lemma send_all_Nil [simp]: "send_all [] s = s"
  by (simp add: send_all_def)

text \<open>What \<open>consputc\<close> sends.\<close>

definition echoed :: "nat \<Rightarrow> u8 list" where
  "echoed c = (if c = BACKSPACE then [8, 32, 8] else [of_nat c])"

lemma consputc_sends: "\<not> stopped s \<Longrightarrow> consputc c s = Inr (send_all (echoed c) s)"
  by (simp add: consputc_def uartputc_sync_def uart_send_def send_all_def echoed_def)
    (auto simp: stopped_def)

lemma foreach_sends:
  assumes "\<And>x s. \<not> stopped s \<Longrightarrow> \<exists>cs. f x s = Inr (send_all cs s)" and "\<not> stopped s"
  shows "\<exists>cs. foreach f xs s = Inr (send_all cs s)"
  using assms(2)
proof (induction xs arbitrary: s)
  case Nil
  show ?case
    by (rule exI [of _ "[]"]) simp
next
  case (Cons x xs)
  then obtain cs where "f x s = Inr (send_all cs s)"
    using assms(1) by blast
  then show ?case
    using Cons.IH [of "send_all cs s"] Cons.prems by (auto simp: send_all_append)
qed

lemma printf_sends:
  assumes "vprintf fmt ap = Inr out" and "\<not> stopped s"
  shows "\<exists>cs. printf fmt ap s = Inr (send_all cs s)"
  using foreach_sends [OF _ assms(2), of "\<lambda>c. consputc (unat c)" out]
  by (auto simp: printf_def assms(1) consputc_sends)

lemma vprintf_procdump: "\<exists>out. vprintf (ascii ''%d %s %s'') [Reg x, Str y, Str z] = Inr out"
proof -
  obtain ds where "printint (scast (ucast x :: u32)) 10 True = Inr ds"
    using printint_signed [of "scast (ucast x :: u32)" 10] sint_va_int [of "ucast x"] by auto
  then show ?thesis
    by (simp add: ascii_def vprintf_conv_def)
qed

lemma procdump_sends: "\<not> stopped s \<Longrightarrow> \<exists>cs. procdump s = Inr (send_all cs s)"
  unfolding procdump_def
proof (rule foreach_sends)
  fix i and s :: "'a ustate_scheme"
  assume s: "\<not> stopped s"
  let ?p = "procs s ! i"
  obtain out where "vprintf (ascii ''%d %s %s'') [Reg (of_int (p_pid ?p)),
      Str (Some (ascii (state_name (p_state ?p)))), Str (Some (p_name ?p))] = Inr out"
    using vprintf_procdump by blast
  from printf_sends [OF this s] obtain cs where cs: "printf (ascii ''%d %s %s'') [Reg (of_int (p_pid ?p)),
      Str (Some (ascii (state_name (p_state ?p)))), Str (Some (p_name ?p))] s = Inr (send_all cs s)"
    by blast
  moreover obtain ds where "printf [10] [] (send_all cs s) = Inr (send_all ds (send_all cs s))"
    using printf_sends [of "[10]" "[]" "[10]" "send_all cs s"] s by auto
  ultimately show "\<exists>cs. (let p = ?p in if p_state p = UNUSED then Inr s
      else bindE (printf (ascii ''%d %s %s'') [Reg (of_int (p_pid p)),
        Str (Some (ascii (state_name (p_state p)))), Str (Some (p_name p))] s) (printf [10] [])) =
      Inr (send_all cs s)"
    using send_all_Nil [of s] by (auto simp: Let_def send_all_append intro: exI [of _ "[]"])
qed

section \<open>The line being edited\<close>

definition cons_committed :: "'a cstate_scheme \<Rightarrow> u8 list" where
  "cons_committed s = ring (cons_buf s) (unat (cons_r s)) (unat (cons_w s - cons_r s))"

definition cons_edit :: "'a cstate_scheme \<Rightarrow> u8 list" where
  "cons_edit s = ring (cons_buf s) (unat (cons_w s)) (unat (cons_e s - cons_w s))"

definition cons_ok :: "'a cstate_scheme \<Rightarrow> bool" where
  "cons_ok s \<longleftrightarrow> length (cons_buf s) = INPUT_BUF_SIZE \<and>
     unat (cons_w s - cons_r s) + unat (cons_e s - cons_w s) \<le> INPUT_BUF_SIZE"

lemma cons_lengths [simp]:
  "length (cons_committed s) = unat (cons_w s - cons_r s)" "length (cons_edit s) = unat (cons_e s - cons_w s)"
  by (simp_all add: cons_committed_def cons_edit_def)

lemma cons_items:
  assumes "cons_ok s"
  shows "unat (cons_e s - cons_r s) = length (cons_committed s) + length (cons_edit s)"
    and "ring (cons_buf s) (unat (cons_r s)) (unat (cons_e s - cons_r s)) = cons_committed s @ cons_edit s"
  using assms word_ring_split [of "cons_buf s" "cons_w s" "cons_r s" "cons_e s"]
  by (simp_all add: cons_ok_def INPUT_BUF_SIZE_def cons_committed_def cons_edit_def)

text \<open>Two states with the same number of committed characters and the same characters in all.\<close>

lemma cons_edit_cong:
  assumes "cons_ok s" and "cons_ok t" and "cons_r t = cons_r s" and "cons_w t = cons_w s"
    and "cons_committed t @ cons_edit t = cons_committed s @ xs"
  shows "cons_committed t = cons_committed s" and "cons_edit t = xs"
  using assms by (simp_all add: append_eq_append_conv)

definition cons_push :: "u8 \<Rightarrow> 'a cstate_scheme \<Rightarrow> 'a cstate_scheme" where
  "cons_push c s = s\<lparr>cons_buf := (cons_buf s)[unat (cons_e s) mod INPUT_BUF_SIZE := c], cons_e := cons_e s + 1\<rparr>"

lemma cons_push:
  assumes ok: "cons_ok s" and room: "unat (cons_e s - cons_r s) < INPUT_BUF_SIZE"
  shows "cons_ok (cons_push c s)" and "cons_committed (cons_push c s) = cons_committed s"
    and "cons_edit (cons_push c s) = cons_edit s @ [c]"
proof -
  note i = cons_items [OF ok]
  have l: "length (cons_buf s) = INPUT_BUF_SIZE"
    using ok by (simp add: cons_ok_def)
  have "unat (cons_e s - cons_w s) < INPUT_BUF_SIZE"
    using room i by simp
  note W = word_ring_put [OF l _ _ room] word_ring_put(1) [OF l _ _ this]
  show ok': "cons_ok (cons_push c s)"
    using ok W i(1) room by (simp add: cons_ok_def cons_push_def INPUT_BUF_SIZE_def)
  have "cons_committed (cons_push c s) @ cons_edit (cons_push c s) = cons_committed s @ (cons_edit s @ [c])"
    using cons_items(2) [OF ok'] W(2) i(2) by (simp add: cons_push_def INPUT_BUF_SIZE_def)
  from cons_edit_cong [OF ok ok' _ _ this]
  show "cons_committed (cons_push c s) = cons_committed s" "cons_edit (cons_push c s) = cons_edit s @ [c]"
    by (simp_all add: cons_push_def)
qed

lemma cons_pop:
  assumes ok: "cons_ok s" and ne: "cons_e s \<noteq> cons_w s"
  defines "t \<equiv> s\<lparr>cons_e := cons_e s - 1\<rparr>"
  shows "cons_ok t" and "cons_committed t = cons_committed s" and "cons_edit t = butlast (cons_edit s)"
  using ok word_ring_drop [OF ne] by (auto simp: t_def cons_ok_def cons_committed_def cons_edit_def)

lemma cons_commit:
  assumes ok: "cons_ok s"
  defines "t \<equiv> s\<lparr>cons_w := cons_e s\<rparr>"
  shows "cons_ok t" and "cons_committed t = cons_committed s @ cons_edit s" and "cons_edit t = []"
  using ok cons_items [OF ok] by (simp_all add: t_def cons_ok_def cons_committed_def cons_edit_def)

lemma cons_last:
  assumes ok: "cons_ok s" and ne: "cons_e s \<noteq> cons_w s"
  shows "cons_buf s ! (unat (cons_e s - 1) mod INPUT_BUF_SIZE) = last (cons_edit s)"
proof -
  let ?m = "unat (cons_e s - 1 - cons_w s)"
  have "cons_e s - 1 = cons_w s + of_nat ?m"
    by simp
  then have "unat (cons_e s - 1) mod INPUT_BUF_SIZE = (unat (cons_w s) + ?m) mod INPUT_BUF_SIZE"
    using unat_add_of_nat_mod [of INPUT_BUF_SIZE "cons_w s" ?m] by (simp add: INPUT_BUF_SIZE_def)
  moreover have "unat (cons_e s - cons_w s) = Suc ?m"
    using word_ring_drop(1) [OF ne] ne word_ring_empty [of "cons_e s" "cons_w s"] by simp
  ultimately show ?thesis
    using ok by (simp add: cons_edit_def ring_def cons_ok_def)
qed

section \<open>The line discipline\<close>

text \<open>
  What the console promises, without the ring: the input that can be read and the line that is being
  edited are lists. A newline that arrives with an error flag is stored but does not end the line;
  control-u stops at it.
\<close>

type_synonym line_state = "u8 list \<times> u8 list"

definition line_kept :: "u8 list \<Rightarrow> u8 list" where
  "line_kept edit = rev (dropWhile (\<lambda>b. b \<noteq> newline) (rev edit))"

fun line_input :: "u32 \<Rightarrow> line_state \<Rightarrow> line_state" where
  "line_input c (done, edit) =
     (if c = ctrl_P then (done, edit)
      else if c = ctrl_U then (done, line_kept edit)
      else if c = ctrl_H \<or> c = delete_key then (done, butlast edit)
      else if c \<noteq> 0 \<and> length done + length edit < INPUT_BUF_SIZE then
        (let c = (if c = carriage_return then newline else c) in
         if c = newline \<or> c = ctrl_D \<or> length done + length edit + 1 = INPUT_BUF_SIZE
         then (done @ edit @ [ucast c], []) else (done, edit @ [ucast c]))
      else (done, edit))"

text \<open>
  The echo: a rubbed out character is overwritten, and control characters other than those of editing are
  sent back. A zero byte with the flag of a framing error is the code of a rubbed out character.
\<close>

fun line_echo :: "u32 \<Rightarrow> line_state \<Rightarrow> u8 list" where
  "line_echo c (done, edit) =
     (if c = ctrl_U then concat (replicate (length edit - length (line_kept edit)) [8, 32, 8])
      else if c = ctrl_H \<or> c = delete_key then (if edit = [] then [] else [8, 32, 8])
      else if c \<noteq> 0 \<and> length done + length edit < INPUT_BUF_SIZE
      then echoed (unat (if c = carriage_return then newline else c))
      else [])"

definition cons_abs :: "'a cstate_scheme \<Rightarrow> line_state" where
  "cons_abs s = (cons_committed s, cons_edit s)"

text \<open>
  The invariant: the ring is well formed, and when it is full there is no line being edited, so that a
  reader can go on.
\<close>

definition cons_inv :: "'a cstate_scheme \<Rightarrow> bool" where
  "cons_inv s \<longleftrightarrow> cons_ok s \<and>
     (length (cons_committed s) + length (cons_edit s) = INPUT_BUF_SIZE \<longrightarrow> cons_edit s = [])"

lemma cons_inv_commit:
  assumes "cons_ok s"
  shows "cons_inv (s\<lparr>cons_w := cons_e s\<rparr>)" and "cons_abs (s\<lparr>cons_w := cons_e s\<rparr>) = (cons_committed s @ cons_edit s, [])"
  using cons_commit [OF assms] by (auto simp: cons_inv_def cons_abs_def)

lemma cons_cong:
  assumes "cons_buf t = cons_buf s" and "cons_r t = cons_r s" and "cons_w t = cons_w s" and "cons_e t = cons_e s"
  shows "cons_ok t = cons_ok s" and "cons_abs t = cons_abs s" and "cons_inv t = cons_inv s"
  using assms by (simp_all add: cons_ok_def cons_abs_def cons_inv_def cons_committed_def cons_edit_def)

lemma cons_send_all [simp]:
  "cons_ok (send_all cs s) = cons_ok s" "cons_abs (send_all cs s) = cons_abs s" "cons_inv (send_all cs s) = cons_inv s"
  by (rule cons_cong; simp)+

lemma cons_wakeup [simp]:
  "cons_abs (wakeup ch s) = cons_abs s" "cons_inv (wakeup ch s) = cons_inv s"
  by (rule cons_cong; simp add: wakeup_def)+

lemma line_kept_simps [simp]: "line_kept [] = []" "line_kept (xs @ [x]) = (if x = newline then xs @ [x] else line_kept xs)"
  by (simp_all add: line_kept_def)

lemma length_line_kept: "length (line_kept xs) \<le> length xs"
  using length_dropWhile_le [of "\<lambda>b. b \<noteq> newline" "rev xs"] by (simp add: line_kept_def)

lemma line_kept_none: "newline \<notin> set xs \<Longrightarrow> line_kept xs = []"
  by (simp add: line_kept_def dropWhile_eq_Nil_conv) metis

text \<open>A line of ordinary bytes has no newline in it.\<close>

lemma ucast_newline: "(c :: u32) < 256 \<Longrightarrow> (newline :: u8) = ucast c \<longleftrightarrow> c = newline"
  by (auto simp: newline_def word_unat_eq_iff unsigned_ucast_eq word_less_nat_alt take_bit_eq_mod)

lemma line_input_single:
  assumes "newline \<notin> set edit" and "c < 256"
  shows "newline \<notin> set (snd (line_input c (done, edit)))"
  using assms in_set_butlastD [of newline edit] by (auto simp: Let_def ucast_newline line_kept_none)

lemma kill_line_ok:
  assumes "cons_ok s" and "\<not> stopped s" and "n = length (cons_edit s)"
  shows "\<exists>e. let t = s\<lparr>cons_e := e\<rparr> in cons_ok t \<and> cons_abs t = (cons_committed s, line_kept (cons_edit s)) \<and>
    kill_line n s = Inr (send_all (concat (replicate (n - length (line_kept (cons_edit s))) [8, 32, 8])) t)"
  using assms
proof (induction n arbitrary: s)
  case 0
  then show ?case
    by (intro exI [of _ "cons_e s"]) (simp add: cons_abs_def line_kept_def del: cons_lengths)
next
  case (Suc n)
  then have ne: "cons_e s \<noteq> cons_w s"
    by auto
  define x xs where "x = last (cons_edit s)" and "xs = butlast (cons_edit s)"
  have edit: "cons_edit s = xs @ [x]" and len: "length xs = n"
    using Suc.prems(3) by (simp_all add: x_def xs_def append_butlast_last_id flip: length_greater_0_conv del: cons_lengths)
  note last = cons_last [OF Suc.prems(1) ne]
  show ?case
  proof (cases "x = newline")
    case True
    then have "kill_line (Suc n) s = Inr s"
      using last by (simp add: x_def)
    then show ?thesis
      using True Suc.prems(1) len by (intro exI [of _ "cons_e s"]) (simp add: cons_abs_def edit del: cons_lengths)
  next
    case False
    let ?t = "s\<lparr>cons_e := cons_e s - 1\<rparr>"
    let ?u = "send_all [8, 32, 8] ?t"
    note pop = cons_pop [OF Suc.prems(1) ne]
    have st: "\<not> stopped ?t"
      using Suc.prems(2) by (simp add: stopped_def)
    have u: "cons_ok ?u" "cons_committed ?u = cons_committed s" "cons_edit ?u = xs"
      using pop cons_send_all(1,2) [of "[8, 32, 8]" ?t] by (simp_all add: cons_abs_def xs_def)
    have run: "kill_line (Suc n) s = kill_line n ?u"
      using ne False last by (simp add: consputc_sends [OF st] echoed_def x_def)
    obtain e where e: "cons_ok (?u\<lparr>cons_e := e\<rparr>)" "cons_abs (?u\<lparr>cons_e := e\<rparr>) = (cons_committed s, line_kept xs)"
      "kill_line n ?u = Inr (send_all (concat (replicate (n - length (line_kept xs)) [8, 32, 8])) (?u\<lparr>cons_e := e\<rparr>))"
      using Suc.IH [OF u(1)] u(2,3) st len by (auto simp: Let_def)
    have c: "cons_ok (?u\<lparr>cons_e := e\<rparr>) = cons_ok (s\<lparr>cons_e := e\<rparr>)" "cons_abs (?u\<lparr>cons_e := e\<rparr>) = cons_abs (s\<lparr>cons_e := e\<rparr>)"
      by (rule cons_cong; simp add: send_all_def)+
    have "Suc n - length (line_kept xs) = Suc (n - length (line_kept xs))"
      using length_line_kept [of xs] len by simp
    then show ?thesis
      using e c False run unfolding edit by (intro exI [of _ e]) (simp add: Let_def send_all_def)
  qed
qed

lemma consoleintr_char:
  assumes inv: "cons_inv s" and st: "\<not> stopped s"
    and c: "c \<noteq> ctrl_P" "c \<noteq> ctrl_U" "c \<noteq> ctrl_H" "c \<noteq> delete_key" "c \<noteq> 0"
    and room: "length (cons_committed s) + length (cons_edit s) < INPUT_BUF_SIZE"
  shows "\<exists>s'. consoleintr c s = Inr s' \<and> cons_inv s' \<and> cons_abs s' = line_input c (cons_abs s) \<and>
    uart_out s' = uart_out s @ line_echo c (cons_abs s) \<and> stopped s' = stopped s \<and> uart_rx s' = uart_rx s \<and>
    uart_ok s' = uart_ok s \<and> uart_pending s' = uart_pending s"
proof -
  let ?c = "if c = carriage_return then newline else c"
  let ?s = "send_all (echoed (unat ?c)) s"
  let ?t = "cons_push (ucast ?c) ?s"
  have ok: "cons_ok s"
    using inv by (simp add: cons_inv_def)
  have r: "unat (cons_e s - cons_r s) < INPUT_BUF_SIZE"
    using cons_items(1) [OF ok] room by simp
  have p: "cons_ok ?t" "cons_committed ?t = cons_committed s" "cons_edit ?t = cons_edit s @ [ucast ?c]"
    using cons_push [of ?s "ucast ?c"] ok r cons_send_all(2) [of "echoed (unat ?c)" s] by (simp_all add: cons_abs_def)
  note co = cons_inv_commit [OF p(1)]
  let ?commit = "?c = newline \<or> ?c = ctrl_D \<or> unat (cons_e ?t - cons_r ?t) = INPUT_BUF_SIZE"
  let ?u = "if ?commit then wakeup Chan_cons_r (?t\<lparr>cons_w := cons_e ?t\<rparr>) else ?t"
  have run: "consoleintr c s = Inr ?u"
    using c r st by (simp add: consoleintr_def Let_def consputc_sends cons_push_def)
  have full: "unat (cons_e ?t - cons_r ?t) = length (cons_committed s) + length (cons_edit s) + 1"
    using cons_items(1) [OF p(1)] p(2,3) by simp
  have same: "uart_out ?u = uart_out s @ echoed (unat ?c)" "stopped ?u = stopped s" "uart_rx ?u = uart_rx s"
      "uart_ok ?u = uart_ok s" "uart_pending ?u = uart_pending s"
    by (simp_all add: wakeup_def cons_push_def stopped_def uart_ok_def uart_pending_def send_all_def)
  have "cons_abs ?u = line_input c (cons_abs s) \<and> cons_inv ?u"
  proof (cases ?commit)
    case True
    then have "line_input c (cons_abs s) = (cons_committed s @ cons_edit s @ [ucast ?c], [])"
      using c room full by (auto simp: cons_abs_def Let_def)
    then show ?thesis
      unfolding if_P [OF True] cons_wakeup co(2) p(2,3) using co(1) by simp
  next
    case False
    then have "line_input c (cons_abs s) = (cons_committed s, cons_edit s @ [ucast ?c])"
      using c room full by (auto simp: cons_abs_def Let_def)
    then show ?thesis
      unfolding if_not_P [OF False] cons_inv_def cons_abs_def p(2,3) using p(1) inv False full
      by (simp add: cons_inv_def split: if_split_asm)
  qed
  then show ?thesis
    using run same c room by (intro exI [of _ ?u]) (simp add: cons_abs_def)
qed

lemma consoleintr_ok:
  assumes inv: "cons_inv s" and st: "\<not> stopped s"
  shows "\<exists>s'. consoleintr c s = Inr s' \<and> cons_inv s' \<and> cons_abs s' = line_input c (cons_abs s) \<and>
    (\<exists>out. uart_out s' = uart_out s @ out \<and> (c = ctrl_P \<or> out = line_echo c (cons_abs s))) \<and>
    stopped s' = stopped s \<and> uart_rx s' = uart_rx s \<and> uart_ok s' = uart_ok s \<and> uart_pending s' = uart_pending s"
proof -
  have ok: "cons_ok s"
    using inv by (simp add: cons_inv_def)
  have le: "length (cons_committed s) + length (cons_edit s) \<le> INPUT_BUF_SIZE"
    using ok by (simp add: cons_ok_def)
  consider "c = ctrl_P" | "c = ctrl_U" | "c = ctrl_H \<or> c = delete_key"
    | "c \<noteq> ctrl_P" "c \<noteq> ctrl_U" "c \<noteq> ctrl_H" "c \<noteq> delete_key" "c \<noteq> 0"
      "length (cons_committed s) + length (cons_edit s) < INPUT_BUF_SIZE"
    | "c \<noteq> ctrl_P" "c \<noteq> ctrl_U" "c \<noteq> ctrl_H" "c \<noteq> delete_key"
      "c = 0 \<or> \<not> unat (cons_e s - cons_r s) < INPUT_BUF_SIZE"
    using cons_items(1) [OF ok] by metis
  then show ?thesis
  proof cases
    case 1
    obtain cs where cs: "printf [10] [] s = Inr (send_all cs s)"
      using printf_sends [of "[10]" "[]" "[10]" s] st by auto
    moreover obtain ds where "procdump (send_all cs s) = Inr (send_all ds (send_all cs s))"
      using procdump_sends [of "send_all cs s"] st by auto
    ultimately have "consoleintr c s = Inr (send_all (cs @ ds) s)"
      using 1 by (simp add: consoleintr_def send_all_append)
    then show ?thesis
      using 1 inv by (cases "cons_abs s") simp
  next
    case 2
    obtain e where e: "cons_ok (s\<lparr>cons_e := e\<rparr>)"
      "cons_abs (s\<lparr>cons_e := e\<rparr>) = (cons_committed s, line_kept (cons_edit s))"
      "kill_line (length (cons_edit s)) s = Inr (send_all (concat (replicate
         (length (cons_edit s) - length (line_kept (cons_edit s))) [8, 32, 8])) (s\<lparr>cons_e := e\<rparr>))"
      using kill_line_ok [OF ok st refl] by (auto simp: Let_def)
    let ?t = "s\<lparr>cons_e := e\<rparr>"
    have run: "consoleintr c s = kill_line (length (cons_edit s)) s"
      using 2 by (simp add: consoleintr_def ctrl_U_def ctrl_P_def)
    have "line_input c (cons_abs s) = (cons_committed s, line_kept (cons_edit s))"
      using 2 by (simp add: cons_abs_def ctrl_U_def ctrl_P_def)
    moreover have "cons_inv ?t"
      using e(1,2) inv le length_line_kept [of "cons_edit s"]
      by (auto simp: cons_inv_def cons_abs_def simp del: cons_lengths)
    moreover have "line_echo c (cons_abs s) =
        concat (replicate (length (cons_edit s) - length (line_kept (cons_edit s))) [8, 32, 8])"
      using 2 by (simp add: cons_abs_def del: cons_lengths)
    ultimately show ?thesis
      unfolding run e(3) using e(2) by (simp del: cons_lengths)
  next
    case 3
    then have c: "c \<noteq> ctrl_P" "c \<noteq> ctrl_U"
      by (auto simp: ctrl_H_def delete_key_def ctrl_U_def ctrl_P_def)
    show ?thesis
    proof (cases "cons_e s = cons_w s")
      case True
      then have "consoleintr c s = Inr s" "cons_edit s = []"
        using 3 c by (auto simp: consoleintr_def cons_edit_def)
      then show ?thesis
        using 3 c inv by (auto simp: cons_abs_def)
    next
      case False
      let ?t = "s\<lparr>cons_e := cons_e s - 1\<rparr>"
      note pop = cons_pop [OF ok False]
      have "cons_edit s \<noteq> []"
        using False by (simp add: cons_edit_def word_ring_empty)
      moreover have "cons_inv ?t" "cons_abs ?t = line_input c (cons_abs s)"
        using pop inv 3 c in_set_butlastD [of newline "cons_edit s"] \<open>cons_edit s \<noteq> []\<close>
          length_greater_0_conv [of "cons_edit s"] le
        by (auto simp: cons_abs_def cons_inv_def simp del: cons_lengths)
      moreover have "consoleintr c s = Inr (send_all [8, 32, 8] ?t)"
        using 3 c False st consputc_sends [of ?t BACKSPACE] by (auto simp: consoleintr_def echoed_def)
      ultimately show ?thesis
        using 3 c by simp (auto simp: cons_abs_def)
    qed
  next
    case 4
    then show ?thesis
      using consoleintr_char [OF inv st] by blast
  next
    case 5
    then have "consoleintr c s = Inr s"
      by (auto simp: consoleintr_def)
    then show ?thesis
      using 5 cons_items(1) [OF ok] inv by (auto simp: cons_abs_def)
  qed
qed

text \<open>How far the loop of the interrupt handler goes: as long as the status is set and there are words.\<close>

definition taken :: "(nat \<Rightarrow> u32) \<Rightarrow> nat \<Rightarrow> nat \<Rightarrow> nat \<Rightarrow> bool" where
  "taken mis i len k \<longleftrightarrow> k \<le> len \<and> (\<forall>j<k. mis (i + j) AND UART_RXI \<noteq> 0) \<and>
     (k = len \<or> mis (i + k) AND UART_RXI = 0)"

lemma taken_simps:
  "taken mis i 0 0" "mis i AND UART_RXI = 0 \<Longrightarrow> taken mis i len 0"
  "mis i AND UART_RXI \<noteq> 0 \<Longrightarrow> taken mis (Suc i) len k \<Longrightarrow> taken mis i (Suc len) (Suc k)"
  by (auto simp: taken_def less_Suc_eq_0_disj)

lemma uartintr_loop_ok:
  assumes "cons_inv s" and "\<not> stopped s" and "list_all (\<lambda>w. w \<noteq> - 1) (uart_rx s)" and "length (uart_rx s) < n"
  shows "\<exists>s' k. uartintr_loop mis n i s = Inr s' \<and> taken mis i (length (uart_rx s)) k \<and> cons_inv s' \<and>
    cons_abs s' = fold line_input (take k (uart_rx s)) (cons_abs s) \<and> uart_rx s' = drop k (uart_rx s) \<and>
    (\<exists>out. uart_out s' = uart_out s @ out) \<and> uart_ok s' = uart_ok s \<and> uart_pending s' = uart_pending s"
  using assms
proof (induction n arbitrary: i s)
  case (Suc n)
  show ?case
  proof (cases "mis i AND UART_RXI = 0 \<or> uart_rx s = []")
    case True
    then show ?thesis
      using Suc.prems taken_simps(1,2) [of mis i] by (intro exI [of _ s] exI [of _ 0]) (auto simp: uartgetc_def)
  next
    case False
    then obtain c cs where rx: "uart_rx s = c # cs" and m: "mis i AND UART_RXI \<noteq> 0"
      by (auto simp: neq_Nil_conv)
    let ?t = "s\<lparr>uart_rx := cs\<rparr>"
    have t: "cons_inv ?t = cons_inv s" "cons_abs ?t = cons_abs s" "stopped ?t = stopped s" "uart_ok ?t = uart_ok s"
      "uart_pending ?t = uart_pending s"
      by (simp_all add: cons_cong(2,3) [of ?t s] stopped_def uart_ok_def uart_pending_def)
    then obtain u where u: "consoleintr c ?t = Inr u" "cons_inv u" "cons_abs u = line_input c (cons_abs s)"
      "\<not> stopped u" "uart_rx u = cs" "uart_ok u = uart_ok s" "uart_pending u = uart_pending s"
      and o: "\<exists>out. uart_out u = uart_out s @ out"
      using consoleintr_ok [of ?t c] Suc.prems(1,2) by auto
    obtain s' k where "uartintr_loop mis n (Suc i) u = Inr s'" "taken mis (Suc i) (length cs) k" "cons_inv s'"
      "cons_abs s' = fold line_input (take k cs) (cons_abs u)" "uart_rx s' = drop k cs"
      "\<exists>out. uart_out s' = uart_out u @ out" "uart_ok s' = uart_ok u" "uart_pending s' = uart_pending u"
      using Suc.IH [of u "Suc i"] u Suc.prems(3,4) rx by auto
    then show ?thesis
      using m rx u o Suc.prems(3) taken_simps(3) [of mis i "length cs" k]
      by (intro exI [of _ s'] exI [of _ "Suc k"]) (auto simp: uartgetc_def)
  qed
qed simp

section \<open>Reading a line\<close>

text \<open>
  What a reader gets of the committed input: up to \<open>n\<close> characters, to the end of the first line or to
  control-d, which stays when the reader has got something already. The third component tells whether
  the reader has all it gets.
\<close>

fun line_read :: "bool \<Rightarrow> nat \<Rightarrow> u8 list \<Rightarrow> u8 list \<times> u8 list \<times> bool" where
  "line_read started 0 cs = ([], cs, True)"
| "line_read started (Suc n) [] = ([], [], False)"
| "line_read started (Suc n) (c # cs) =
     (if c = ctrl_D then ([], if started then c # cs else cs, True)
      else if c = newline then ([c], cs, True)
      else (case line_read True n cs of (xs, rest, fin) \<Rightarrow> (c # xs, rest, fin)))"

lemma cons_take:
  assumes "cons_inv s" and "cons_r s \<noteq> cons_w s"
  defines "t \<equiv> s\<lparr>cons_r := cons_r s + 1\<rparr>"
  shows "cons_inv t" and "cons_edit t = cons_edit s"
    and "cons_committed s = cons_buf s ! (unat (cons_r s) mod INPUT_BUF_SIZE) # cons_committed t"
proof -
  have "length (cons_buf s) = INPUT_BUF_SIZE"
    using assms(1) by (simp add: cons_inv_def cons_ok_def)
  note G = word_ring_get [OF this _ assms(2)]
  show e: "cons_edit t = cons_edit s"
    by (simp add: t_def cons_edit_def)
  show c: "cons_committed s = cons_buf s ! (unat (cons_r s) mod INPUT_BUF_SIZE) # cons_committed t"
    using G(2) by (simp add: t_def cons_committed_def INPUT_BUF_SIZE_def)
  show "cons_inv t"
    using assms(1) G(1) e by (simp add: cons_inv_def cons_ok_def t_def INPUT_BUF_SIZE_def)
qed

lemma copyout_cons [simp]:
  "cons_buf (snd (copyout pde va src s)) = cons_buf s" "cons_r (snd (copyout pde va src s)) = cons_r s"
  "cons_w (snd (copyout pde va src s)) = cons_w s" "cons_e (snd (copyout pde va src s)) = cons_e s"
  "cur (snd (copyout pde va src s)) = cur s" "procs (snd (copyout pde va src s)) = procs s"
  by (subst copyout_only_mem, simp)+

text \<open>
  The outcome of \<open>consoleread\<close>, when every copy to the user succeeds, and when the copy of character
  \<open>i\<close> is the first that fails.
\<close>

definition line_got ::
  "nat \<Rightarrow> nat \<Rightarrow> u64 \<Rightarrow> 'a cstate_scheme \<Rightarrow> u8 list \<times> u8 list \<times> bool \<Rightarrow> progress \<Rightarrow> 'a cstate_scheme \<Rightarrow> bool" where
  "line_got target n va s = (\<lambda>(xs, rest, fin) r s'.
     copies_ok (p_pagetable (myproc s)) va 0 xs s \<and>
     cons_committed s' = rest \<and> mem s' = mem (copy_bytes (p_pagetable (myproc s)) va 0 xs s) \<and>
     r = (if fin then Returned (int target - int n + int (length xs))
          else if killed (cur s) s then Returned (- 1) else Waiting Chan_cons_r (n - length xs)))"

definition line_failed ::
  "nat \<Rightarrow> nat \<Rightarrow> u64 \<Rightarrow> 'a cstate_scheme \<Rightarrow> u8 list \<Rightarrow> progress \<Rightarrow> 'a cstate_scheme \<Rightarrow> bool" where
  "line_failed target n va s xs r s' \<longleftrightarrow>
     (\<exists>i<length xs. copies_ok (p_pagetable (myproc s)) va 0 (take i xs) s \<and>
        mem s' = mem (copy_bytes (p_pagetable (myproc s)) va 0 (take i xs) s) \<and>
        fst (copyout (p_pagetable (myproc s)) (va + of_nat i) [xs ! i] s') = - 1 \<and>
        r = Returned (int target - int n + int i) \<and> cons_committed s' = drop (Suc i) (cons_committed s))"

lemma line_got_step:
  assumes u: "mem u = mem (snd (copyout (p_pagetable (myproc s)) va [c] s))"
    and ok: "fst (copyout (p_pagetable (myproc s)) va [c] s) \<noteq> - 1"
    and m: "myproc u = myproc s" "killed (cur u) u = killed (cur s) s"
    and got: "line_got target n (va + 1) u (ys, rest, fin) r s'"
  shows "line_got target (Suc n) va s (c # ys, rest, fin) r s'"
  using got ok unfolding line_got_def prod.case m copy_bytes_Cons [OF u] by auto

lemma line_failed_step:
  assumes u: "mem u = mem (snd (copyout (p_pagetable (myproc s)) va [c] s))"
    and ok: "fst (copyout (p_pagetable (myproc s)) va [c] s) \<noteq> - 1"
    and m: "myproc u = myproc s" and c: "cons_committed s = c # cons_committed u"
    and "line_failed target n (va + 1) u ys r s'"
  shows "line_failed target (Suc n) va s (c # ys) r s'"
proof -
  obtain i where i: "i < length ys" "copies_ok (p_pagetable (myproc s)) (va + 1) 0 (take i ys) u"
    "mem s' = mem (copy_bytes (p_pagetable (myproc s)) (va + 1) 0 (take i ys) u)"
    "fst (copyout (p_pagetable (myproc s)) (va + 1 + of_nat i) [ys ! i] s') = - 1"
    "r = Returned (int target - int n + int i)" "cons_committed s' = drop (Suc i) (cons_committed u)"
    using assms(5) unfolding line_failed_def m by blast
  show ?thesis
    unfolding line_failed_def
  proof (intro exI [of _ "Suc i"] conjI)
    show "copies_ok (p_pagetable (myproc s)) va 0 (take (Suc i) (c # ys)) s"
      "mem s' = mem (copy_bytes (p_pagetable (myproc s)) va 0 (take (Suc i) (c # ys)) s)"
      using i ok unfolding take_Suc_Cons copy_bytes_Cons [OF u] by simp_all
    show "fst (copyout (p_pagetable (myproc s)) (va + of_nat (Suc i)) [(c # ys) ! Suc i] s') = - 1"
      using i by (simp add: algebra_simps)
  qed (use i c in simp_all)
qed

lemma consoleread_loop_line:
  assumes "cons_inv s" and "n \<le> target" and "got = line_read (n < target) n (cons_committed s)"
  shows "\<exists>r dst s'. consoleread_loop target n (User va) s = Inr (r, dst, s') \<and> cons_inv s' \<and>
    cons_edit s' = cons_edit s \<and> (line_got target n va s got r s' \<or> line_failed target n va s (fst got) r s')"
  using assms
proof (induction n arbitrary: s va got)
  case 0
  then show ?case
    by (simp add: line_got_def)
next
  case (Suc n)
  show ?case
  proof (cases "cons_r s = cons_w s")
    case True
    then show ?thesis
      using Suc.prems by (simp add: line_got_def cons_committed_def)
  next
    case False
    let ?c = "cons_buf s ! (unat (cons_r s) mod INPUT_BUF_SIZE)"
    let ?t = "s\<lparr>cons_r := cons_r s + 1\<rparr>"
    note t = cons_take [OF Suc.prems(1) False]
    show ?thesis
    proof (cases "?c = ctrl_D")
      case True
      then show ?thesis
        using Suc.prems t False by (simp add: line_got_def Let_def)
    next
      case cD: False
      let ?cp = "copyout (p_pagetable (myproc s)) va [?c] ?t"
      let ?u = "snd ?cp"
      have m: "myproc ?t = myproc s" "myproc ?u = myproc s" "killed (cur ?u) ?u = killed (cur s) s"
        by (simp_all add: myproc_def killed_def)
      have u: "cons_inv ?u" "cons_edit ?u = cons_edit s" "cons_committed ?u = cons_committed ?t"
        using t cons_cong(2,3) [of ?u ?t] by (simp_all add: cons_abs_def)
      have mu: "mem ?u = mem (snd (copyout (p_pagetable (myproc s)) va [?c] s))"
        using copyout_mem [of ?t s] by simp
      have fu: "fst (copyout (p_pagetable (myproc s)) va [?c] s) = fst ?cp"
        using copyout_mem [of s ?t] by simp
      show ?thesis
      proof (cases "fst ?cp = - 1")
        case True
        have "mem ?u = mem s"
          using copyout_byte_fails [OF True] by simp
        moreover have "fst (copyout (p_pagetable (myproc s)) va [?c] ?u) = - 1"
          using copyout_byte_fails [OF True] True by simp
        ultimately have "line_failed target (Suc n) va s (fst got) (Returned (int target - int (Suc n))) ?u"
          using Suc.prems(3) t(3) u(3) cD by (auto simp: line_failed_def intro!: exI [of _ 0] split: prod.splits)
        then show ?thesis
          using True False cD u m by (simp add: Let_def case_prod_beta)
      next
        case ok: False
        show ?thesis
        proof (cases "?c = newline")
          case True
          then show ?thesis
            using Suc.prems u t False cD ok mu fu m by (simp add: line_got_def Let_def case_prod_beta)
        next
          case nl: False
          have ok': "fst (copyout (p_pagetable (myproc s)) va [?c] s) \<noteq> - 1"
            using ok fu by simp
          obtain ys rest fin where ys: "line_read True n (cons_committed ?u) = (ys, rest, fin)"
            by (metis prod_cases3)
          then have got: "got = (?c # ys, rest, fin)"
            using Suc.prems(3) t(3) u(3) cD nl by simp
          obtain r dst s' where r: "consoleread_loop target n (User (va + 1)) ?u = Inr (r, dst, s')" "cons_inv s'"
            "cons_edit s' = cons_edit s"
            "line_got target n (va + 1) ?u (ys, rest, fin) r s' \<or> line_failed target n (va + 1) ?u ys r s'"
            using Suc.IH [of ?u "(ys, rest, fin)" "va + 1"] u Suc.prems(2) ys by auto
          have "line_got target (Suc n) va s got r s' \<or> line_failed target (Suc n) va s (fst got) r s'"
            using line_got_step [OF mu ok' m(2,3)] line_failed_step [OF mu ok' m(2)] r(4) t(3) u(3)
            unfolding got by auto
          then show ?thesis
            using r False cD ok nl m by (simp add: Let_def case_prod_beta)
        qed
      qed
    qed
  qed
qed

section \<open>An example\<close>

text \<open>A zeroed console, with its indices about to wrap, and a process whose page 0 is mapped.\<close>

definition bss_cstate :: "'a \<Rightarrow> 'a cstate_scheme" where
  "bss_cstate r = bss_ustate (cstate_ext (replicate INPUT_BUF_SIZE 0) 0 0 0
     (replicate NDEV \<lparr>dev_read = None, dev_write = None\<rparr>) r)"

definition cons_example :: cstate where
  "cons_example = (bss_cstate ())\<lparr>cons_r := - 1, cons_w := - 1, cons_e := - 1\<rparr>"

lemma cons_example:
  "cons_inv cons_example" "\<not> stopped cons_example" "uart_ok cons_example" "cons_abs cons_example = ([], [])"
  by (simp_all add: cons_inv_def cons_ok_def cons_committed_def cons_edit_def cons_abs_def cons_example_def
      bss_cstate_def stopped_def uart_ok_def bss_ustate_defs)

lemma cons_example_rx:
  "cons_inv (cons_example\<lparr>uart_rx := cs\<rparr>)" "\<not> stopped (cons_example\<lparr>uart_rx := cs\<rparr>)"
  "uart_ok (cons_example\<lparr>uart_rx := cs\<rparr>)" "cons_abs (cons_example\<lparr>uart_rx := cs\<rparr>) = ([], [])"
  using cons_example cons_cong(2,3) [of "cons_example\<lparr>uart_rx := cs\<rparr>" cons_example]
  by (simp_all add: stopped_def uart_ok_def)

text \<open>A line of one character to be read, and a process whose page 0 is mapped.\<close>

definition cons_example_line :: cstate where
  "cons_example_line = cons_example\<lparr>mem := self_mem,
     procs := (replicate NPROC bss_proc)[0 := bss_proc\<lparr>p_pagetable := self_page\<rparr>],
     cons_buf := (replicate INPUT_BUF_SIZE 0)[127 := 10], cons_w := 0, cons_e := 0\<rparr>"

lemma cons_example_line:
  "cons_inv cons_example_line" "cons_committed cons_example_line = [10]" "mem cons_example_line = self_mem"
  "p_pagetable (myproc cons_example_line) = self_page"
  by (simp_all add: cons_example_line_def cons_example_def cons_inv_def cons_ok_def cons_committed_def cons_edit_def
      bss_cstate_def bss_ustate_defs myproc_def NPROC_def INPUT_BUF_SIZE_def ring_def
      unsigned_minus_1_eq_mask mask_eq_exp_minus_1)

section \<open>Properties\<close>

text \<open>
  Property C20. The interrupt of the serial port takes words of the receive FIFO as long as the device
  has its receive interrupt asserted and there are some, and no more; the others stay for the next
  interrupt. It feeds them, in order, to the line discipline: the ring with its three wrapping indices
  implements the specification on lists, in which characters join the line, control-u and control-h
  edit it, and newline or control-d makes it available to readers. The invariant of the ring is kept,
  and queued output is sent behind the echo, in order, and not lost. \<open>mis\<close> is any sequence of
  answers of the device to the reads of its masked interrupt status; the data register of the
  device never reads as all ones, since its upper bits are reserved.
\<close>

theorem uartintr_refines:
  assumes "cons_inv s" and "\<not> stopped s" and "uart_ok s" and "list_all (\<lambda>w. w \<noteq> - 1) (uart_rx s)"
  shows "\<exists>s' k. uartintr mis s = Inr s' \<and> k \<le> length (uart_rx s) \<and> (\<forall>i<k. mis i AND UART_RXI \<noteq> 0) \<and>
    (k = length (uart_rx s) \<or> mis k AND UART_RXI = 0) \<and> uart_rx s' = drop k (uart_rx s) \<and> cons_inv s' \<and>
    cons_abs s' = fold line_input (take k (uart_rx s)) (cons_abs s) \<and> uart_ok s' \<and>
    (\<exists>echo sent. uart_pending s = sent @ uart_pending s' \<and> uart_out s' = uart_out s @ echo @ sent)"
proof -
  obtain t k where t: "uartintr_loop mis (Suc (length (uart_rx s))) 0 s = Inr t" "cons_inv t"
    "taken mis 0 (length (uart_rx s)) k" "uart_rx t = drop k (uart_rx s)"
    "cons_abs t = fold line_input (take k (uart_rx s)) (cons_abs s)" "uart_ok t" "uart_pending t = uart_pending s"
    "\<exists>out. uart_out t = uart_out s @ out"
    using uartintr_loop_ok [OF assms(1,2,4) lessI, of mis 0] assms(3) by auto
  let ?u = "set_reg UART_ICR (UART_RXI OR UART_TXI) (uartstart t)"
  obtain ps r n out where "uartstart t = t\<lparr>procs := ps, uart_tx_r := r, uart_space := n, uart_out := out\<rparr>"
    using uartstart_only by blast
  then have c: "cons_inv ?u = cons_inv t" "cons_abs ?u = cons_abs t" "uart_rx ?u = uart_rx t"
    using cons_cong(2,3) [of ?u t] by (simp_all add: set_reg_def)
  have o: "uart_ok ?u = uart_ok (uartstart t)" "uart_pending ?u = uart_pending (uartstart t)"
    "uart_out ?u = uart_out (uartstart t)"
    by (simp_all add: set_reg_def uart_ok_def uart_pending_def)
  have "uartintr mis s = Inr ?u"
    using t(1) by (simp add: uartintr_def del: uartintr_loop.simps)
  then show ?thesis
    using t c o uartstart_sends [OF t(6)] by (intro exI [of _ ?u] exI [of _ k]) (auto simp: taken_def)
qed

text \<open>
  Typing \<open>a\<close>, \<open>b\<close>, control-h, \<open>c\<close>, return and \<open>d\<close>, on a device that stops asserting its receive
  interrupt when a single word is left.
\<close>

theorem uartintr_refines_witness:
  "\<exists>s'. uartintr (\<lambda>i. if i < 5 then UART_RXI else 0) (cons_example\<lparr>uart_rx := [97, 98, 8, 99, 13, 100]\<rparr>) = Inr s' \<and>
    cons_committed s' = [97, 99, 10] \<and> cons_edit s' = [] \<and> uart_rx s' = [100]"
proof -
  let ?rx = "[97, 98, 8, 99, 13, 100] :: u32 list" and ?mis = "\<lambda>i. if i < 5 then UART_RXI else 0"
  let ?s = "cons_example\<lparr>uart_rx := ?rx\<rparr>"
  have rx: "list_all (\<lambda>w. w \<noteq> - 1) (uart_rx ?s)"
    by simp
  obtain s' k where s': "uartintr ?mis ?s = Inr s'" "k \<le> length (uart_rx ?s)" "\<forall>i<k. ?mis i AND UART_RXI \<noteq> 0"
    "k = length (uart_rx ?s) \<or> ?mis k AND UART_RXI = 0" "uart_rx s' = drop k (uart_rx ?s)"
    "cons_abs s' = fold line_input (take k (uart_rx ?s)) (cons_abs ?s)"
    using uartintr_refines [OF cons_example_rx(1-3) rx, of ?mis] by blast
  have "UART_RXI AND UART_RXI \<noteq> 0"
    by (simp add: UART_RXI_def)
  then have k: "k = 5"
    using s'(2-4) by (cases "k < 5"; cases "k = 5") (auto dest: spec [of _ 5])
  have "cons_abs s' = ([97, 99, 10], [])"
    unfolding s'(6) cons_example_rx(4) by (simp add: k key_defs INPUT_BUF_SIZE_def)
  then show ?thesis
    using s'(1,5) by (auto simp: cons_abs_def k)
qed

text \<open>
  Property C22. One word of the data register at the console: its effect on the line, what is echoed, and
  that the line being edited has no newline in it as long as no byte comes with an error flag.
\<close>

theorem consoleintr_refines:
  assumes "cons_inv s" and "\<not> stopped s" and "c \<noteq> ctrl_P"
  shows "\<exists>s'. consoleintr c s = Inr s' \<and> cons_inv s' \<and> cons_abs s' = line_input c (cons_abs s) \<and>
    uart_out s' = uart_out s @ line_echo c (cons_abs s) \<and>
    (c < 256 \<and> newline \<notin> set (cons_edit s) \<longrightarrow> newline \<notin> set (cons_edit s'))"
proof -
  obtain s' where s': "consoleintr c s = Inr s'" "cons_inv s'" "cons_abs s' = line_input c (cons_abs s)"
    "uart_out s' = uart_out s @ line_echo c (cons_abs s)"
    using consoleintr_ok [OF assms(1,2), of c] assms(3) by auto
  moreover have "c < 256 \<and> newline \<notin> set (cons_edit s) \<longrightarrow> newline \<notin> set (cons_edit s')"
    using line_input_single [of "cons_edit s" c "cons_committed s"] arg_cong [OF s'(3), of snd]
    unfolding cons_abs_def by simp
  ultimately show ?thesis
    by blast
qed

theorem consoleintr_refines_witness:
  "\<exists>s'. consoleintr 13 cons_example = Inr s' \<and> cons_abs s' = ([10], []) \<and> uart_out s' = uart_out cons_example @ [10]"
  using consoleintr_refines [OF cons_example(1,2), of 13]
  by (auto simp: cons_example(4) key_defs INPUT_BUF_SIZE_def echoed_def BACKSPACE_def)

text \<open>
  Property C21. \<open>consoleread\<close> gives a user process at most a line: the characters up to the first
  newline, or up to control-d, or as many as it asked for; control-d is kept for the next read unless
  nothing was read before it. It sleeps only when it has not got all that. All this when every copy
  to the user succeeds; otherwise, at the first character whose copy fails, it returns the number of
  the characters copied before, which are in the user's memory, and that character is lost.
\<close>

theorem consoleread_line:
  assumes "cons_inv s" and "0 < n"
  shows "\<exists>r dst s'. consoleread (User va) n s = Inr (r, dst, s') \<and> cons_inv s' \<and> cons_edit s' = cons_edit s \<and>
    (line_got (nat n) (nat n) va s (line_read False (nat n) (cons_committed s)) r s' \<or>
     line_failed (nat n) (nat n) va s (fst (line_read False (nat n) (cons_committed s))) r s')"
  using consoleread_loop_line [OF assms(1), of "nat n" "nat n" "line_read False (nat n) (cons_committed s)" va] assms(2)
  by (simp add: consoleread_def)

text \<open>A line of one character, a newline, for a process that asks for five.\<close>

theorem consoleread_line_witness:
  "\<exists>dst s'. consoleread (User 0) 5 cons_example_line = Inr (Returned 1, dst, s') \<and> cons_committed s' = [] \<and>
    mem s' self_page = 10"
proof -
  let ?s = cons_example_line
  have read: "line_read False (nat 5) (cons_committed ?s) = ([10], [], True)"
    using line_read.simps(3) [of False 4 10 "[]"] by (simp add: cons_example_line(2) key_defs)
  have copy: "copyout self_page 0 [10] ?s = (0, ?s\<lparr>mem := self_mem(self_page := 10)\<rparr>)"
    by (rule copyout_self [OF cons_example_line(3)])
  obtain r dst s' where r: "consoleread (User 0) 5 ?s = Inr (r, dst, s')"
    "line_got (nat 5) (nat 5) 0 ?s ([10], [], True) r s' \<or> line_failed (nat 5) (nat 5) 0 ?s [10] r s'"
    using consoleread_line [OF cons_example_line(1), of 5 0] unfolding read by auto
  have "\<not> line_failed (nat 5) (nat 5) 0 ?s [10] r s'"
  proof
    assume "line_failed (nat 5) (nat 5) 0 ?s [10] r s'"
    then have "mem s' = mem ?s" "fst (copyout self_page 0 [10] s') = - 1"
      by (auto simp: line_failed_def cons_example_line(4))
    then show False
      using copyout_self [of s' 10] by (simp add: cons_example_line(3))
  qed
  then show ?thesis
    using r copy by (simp add: line_got_def cons_example_line(4))
qed

end
