(* ===== verification/Pipe.thy ===== *)
theory Pipe
  imports Console
begin

text \<open>
  Pipes, \<open>kernel/pipe.c\<close>, and the state that they share with \<open>kernel/file.c\<close>: the file
  table, and the pipes by the address of the page that holds each of them. The indices nread
  and nwrite count bytes modulo \<open>2^32\<close>; the ring holds 512 of them.
\<close>

section \<open>State\<close>

datatype fdtype = FD_NONE | FD_PIPE | FD_INODE | FD_DEVICE

record kfile =
  f_type :: fdtype
  f_ref :: int
  f_readable :: bool
  f_writable :: bool
  f_pipe :: u64
  f_ip :: "nat option"
  f_off :: u32
  f_major :: u16

definition NFILE :: nat where
  "NFILE = 100"

definition PIPESIZE :: nat where
  "PIPESIZE = 512"

record pipe =
  pi_data :: "u8 list"
  pi_nread :: u32
  pi_nwrite :: u32
  pi_readopen :: bool
  pi_writeopen :: bool

record filestate = cstate +
  files :: "kfile list"
  pipes :: "u64 \<rightharpoonup> pipe"

definition upd_pipe :: "u64 \<Rightarrow> (pipe \<Rightarrow> pipe) \<Rightarrow> 'a filestate_scheme \<Rightarrow> 'a filestate_scheme" where
  "upd_pipe pi f s = s\<lparr>pipes := (pipes s)(pi := map_option f (pipes s pi))\<rparr>"

section \<open>Operations\<close>

definition pipeclose :: "u64 \<Rightarrow> bool \<Rightarrow> 'a filestate_scheme \<Rightarrow> 'a filestate_scheme res" where
  "pipeclose pi writable s =
     (case pipes s pi of
        None \<Rightarrow> Inl Fault
      | Some _ \<Rightarrow>
          (let s = (if writable
                    then wakeup (Chan_pipe_nread pi) (upd_pipe pi (\<lambda>p. p\<lparr>pi_writeopen := False\<rparr>) s)
                    else wakeup (Chan_pipe_nwrite pi) (upd_pipe pi (\<lambda>p. p\<lparr>pi_readopen := False\<rparr>) s))
           in case pipes s pi of
                None \<Rightarrow> Inl Fault
              | Some p \<Rightarrow>
                  if \<not> pi_readopen p \<and> \<not> pi_writeopen p
                  then kfree pi (s\<lparr>pipes := (pipes s)(pi := None)\<rparr>)
                  else Inr s))"

text \<open>
  The effect of the two copies of one byte on the ring: \<open>pi->data[pi->nwrite++ % PIPESIZE] = ch\<close>
  and \<open>ch = pi->data[pi->nread++ % PIPESIZE]\<close>.
\<close>

definition pipe_put :: "u8 \<Rightarrow> pipe \<Rightarrow> pipe" where
  "pipe_put ch p = p\<lparr>pi_data := (pi_data p)[unat (pi_nwrite p) mod PIPESIZE := ch],
     pi_nwrite := pi_nwrite p + 1\<rparr>"

definition pipe_get :: "pipe \<Rightarrow> u8 \<times> pipe" where
  "pipe_get p = (pi_data p ! (unat (pi_nread p) mod PIPESIZE), p\<lparr>pi_nread := pi_nread p + 1\<rparr>)"

text \<open>\<open>pipewrite\<close> with \<open>k\<close> bytes left, having written \<open>i\<close>, until it returns or sleeps.\<close>

primrec pipewrite_loop ::
  "u64 \<Rightarrow> u64 \<Rightarrow> nat \<Rightarrow> nat \<Rightarrow> 'a filestate_scheme \<Rightarrow> (progress \<times> 'a filestate_scheme) res" where
  "pipewrite_loop pi addr 0 i s = Inr (Returned (int i), wakeup (Chan_pipe_nread pi) s)"
| "pipewrite_loop pi addr (Suc k) i s =
     (case pipes s pi of
        None \<Rightarrow> Inl Fault
      | Some p \<Rightarrow>
          if \<not> pi_readopen p \<or> killed (cur s) s then Inr (Returned (- 1), s)
          else if pi_nwrite p = pi_nread p + of_nat PIPESIZE
          then Inr (Waiting (Chan_pipe_nwrite pi) i, wakeup (Chan_pipe_nread pi) s)
          else
            (case copyin (p_pagetable (myproc s)) (addr + of_nat i) 1 s of
               (r, bs) \<Rightarrow>
                 if r = - 1 then Inr (Returned (int i), wakeup (Chan_pipe_nread pi) s)
                 else pipewrite_loop pi addr k (Suc i) (upd_pipe pi (pipe_put (bs ! 0)) s)))"

definition pipewrite ::
  "u64 \<Rightarrow> u64 \<Rightarrow> int \<Rightarrow> 'a filestate_scheme \<Rightarrow> (progress \<times> 'a filestate_scheme) res" where
  "pipewrite pi addr n s = pipewrite_loop pi addr (nat n) 0 s"

text \<open>\<open>piperead\<close>: the copying loop, and the whole with the wait for data in front.\<close>

primrec piperead_loop ::
  "u64 \<Rightarrow> u64 \<Rightarrow> nat \<Rightarrow> nat \<Rightarrow> 'a filestate_scheme \<Rightarrow> (nat \<times> 'a filestate_scheme) res" where
  "piperead_loop pi addr 0 i s = Inr (i, s)"
| "piperead_loop pi addr (Suc k) i s =
     (case pipes s pi of
        None \<Rightarrow> Inl Fault
      | Some p \<Rightarrow>
          if pi_nread p = pi_nwrite p then Inr (i, s)
          else
            (let (ch, p) = pipe_get p;
                 s = upd_pipe pi (\<lambda>_. p) s;
                 (r, s) = copyout (p_pagetable (myproc s)) (addr + of_nat i) [ch] s
             in if r = - 1 then Inr (i, s) else piperead_loop pi addr k (Suc i) s))"

definition piperead ::
  "u64 \<Rightarrow> u64 \<Rightarrow> int \<Rightarrow> 'a filestate_scheme \<Rightarrow> (progress \<times> 'a filestate_scheme) res" where
  "piperead pi addr n s =
     (case pipes s pi of
        None \<Rightarrow> Inl Fault
      | Some p \<Rightarrow>
          if pi_nread p = pi_nwrite p \<and> pi_writeopen p
          then Inr (if killed (cur s) s then Returned (- 1) else Waiting (Chan_pipe_nread pi) 0, s)
          else
            bindE (piperead_loop pi addr (nat n) 0 s) (\<lambda>(i, s).
            Inr (Returned (int i), wakeup (Chan_pipe_nwrite pi) s)))"

section \<open>A pipe is a queue\<close>

definition pipe_ok :: "pipe \<Rightarrow> bool" where
  "pipe_ok p \<longleftrightarrow> length (pi_data p) = PIPESIZE \<and> unat (pi_nwrite p - pi_nread p) \<le> PIPESIZE"

definition pipe_items :: "pipe \<Rightarrow> u8 list" where
  "pipe_items p = ring (pi_data p) (unat (pi_nread p)) (unat (pi_nwrite p - pi_nread p))"

lemma length_pipe_items: "length (pipe_items p) = unat (pi_nwrite p - pi_nread p)"
  by (simp add: pipe_items_def)

lemma pipe_items_empty: "pipe_items p = [] \<longleftrightarrow> pi_nread p = pi_nwrite p"
  by (simp add: pipe_items_def word_ring_empty)

lemma pipe_items_full: "length (pipe_items p) = PIPESIZE \<longleftrightarrow> pi_nwrite p = pi_nread p + of_nat PIPESIZE"
  by (simp add: length_pipe_items word_ring_full PIPESIZE_def)

interpretation pq: fifo pipe_ok pipe_items PIPESIZE pipe_put pipe_get
proof
  fix p :: pipe and x :: u8
  assume ok: "pipe_ok p"
  {
    assume "length (pipe_items p) < PIPESIZE"
    then have f: "unat (pi_nwrite p - pi_nread p) < PIPESIZE"
      by (simp add: length_pipe_items)
    note W = word_ring_put [OF _ _ _ f, of "pi_data p"]
    show "pipe_ok (pipe_put x p)" "pipe_items (pipe_put x p) = pipe_items p @ [x]"
      using ok f W by (simp_all add: pipe_ok_def pipe_put_def pipe_items_def PIPESIZE_def)
  }
  {
    assume "pipe_items p \<noteq> []"
    then have "pi_nread p \<noteq> pi_nwrite p"
      by (simp add: pipe_items_empty)
    note G = word_ring_get [OF _ _ this, of "pi_data p" PIPESIZE]
    show "pipe_ok (snd (pipe_get p))" "pipe_items p = fst (pipe_get p) # pipe_items (snd (pipe_get p))"
      using ok G by (simp_all add: pipe_ok_def pipe_get_def pipe_items_def PIPESIZE_def)
  }
qed

section \<open>The writer and the reader\<close>

lemma upd_pipe_sel [simp]:
  "mem (upd_pipe pi f s) = mem s" "cur (upd_pipe pi f s) = cur s" "procs (upd_pipe pi f s) = procs s"
  "pipes (upd_pipe pi f s) = (pipes s)(pi := map_option f (pipes s pi))"
  by (simp_all add: upd_pipe_def)

lemma killed_upd_pipe [simp]: "killed i (upd_pipe pi f s) = killed i s"
  by (simp add: killed_def)

lemma pipes_wakeup [simp]: "pipes (wakeup ch s) = pipes s"
  by (simp add: wakeup_def)

text \<open>The byte at an address of the current process, and whether it can be read.\<close>

definition user_byte :: "'a proctab_scheme \<Rightarrow> u64 \<Rightarrow> u8" where
  "user_byte s a = snd (copyin (p_pagetable (myproc s)) a 1 s) ! 0"

definition user_mapped :: "'a proctab_scheme \<Rightarrow> u64 \<Rightarrow> bool" where
  "user_mapped s a \<longleftrightarrow> fst (copyin (p_pagetable (myproc s)) a 1 s) \<noteq> - 1"

lemma user_byte_cong:
  assumes "mem s = mem t" and "procs s = procs t" and "cur s = cur t"
  shows "user_byte s = user_byte t" and "user_mapped s = user_mapped t"
  using copyin_mem [OF assms(1)] assms(2,3) by (simp_all add: user_byte_def user_mapped_def myproc_def fun_eq_iff)

lemma pipewrite_loop_total: "pipes s pi \<noteq> None \<Longrightarrow> \<exists>x. pipewrite_loop pi addr k i s = Inr x"
  by (induction k arbitrary: i s) (auto split: prod.splits)

text \<open>
  What \<open>pipewrite\<close> does until it returns or sleeps: it appends \<open>m\<close> bytes of the user's buffer to
  the queue, in order.
\<close>

lemma pipewrite_loop_appends:
  assumes "pipewrite_loop pi addr k i s = Inr (r, s')" and "pipes s pi = Some p" and "pipe_ok p"
  obtains m p' where "m \<le> k" and "pipes s' = (pipes s)(pi \<mapsto> p')" and "pipe_ok p'"
    and "pipe_items p' = pipe_items p @ map (\<lambda>j. user_byte s (addr + of_nat j)) [i..<i + m]"
    and "r = Returned (int (i + m)) \<and> (m = k \<or> \<not> user_mapped s (addr + of_nat (i + m))) \<or>
         r = Returned (- 1) \<and> (\<not> pi_readopen p \<or> killed (cur s) s) \<or>
         r = Waiting (Chan_pipe_nwrite pi) (i + m) \<and> length (pipe_items p') = PIPESIZE"
  using assms
proof (induction k arbitrary: i s p thesis)
  case 0
  show ?case
    by (rule 0(1) [of 0 p]) (use 0 in auto)
next
  case (Suc k)
  show ?case
  proof (cases "(\<not> pi_readopen p \<or> killed (cur s) s) \<or> pi_nwrite p = pi_nread p + of_nat PIPESIZE \<or>
      \<not> user_mapped s (addr + of_nat i)")
    case True
    show ?thesis
      by (rule Suc(2) [of 0 p]) (use Suc(3-5) True pipe_items_full [of p] in \<open>auto simp: user_mapped_def split: if_splits prod.splits\<close>)
  next
    case False
    let ?x = "user_byte s (addr + of_nat i)"
    let ?t = "upd_pipe pi (pipe_put ?x) s"
    have rec: "pipewrite_loop pi addr k (Suc i) ?t = Inr (r, s')"
      using Suc(3,4) False by (auto simp: user_byte_def user_mapped_def split: prod.splits)
    have "length (pipe_items p) < PIPESIZE"
      using False Suc(5) pipe_items_full [of p] length_pipe_items [of p] by (simp add: pipe_ok_def)
    then have put: "pipe_ok (pipe_put ?x p)" "pipe_items (pipe_put ?x p) = pipe_items p @ [?x]"
      using pq.enq_ok pq.enq_items Suc(5) by blast+
    have t: "pipes ?t pi = Some (pipe_put ?x p)" "user_byte ?t = user_byte s" "user_mapped ?t = user_mapped s"
      "pi_readopen (pipe_put ?x p) = pi_readopen p"
      using Suc(4) user_byte_cong [of ?t s] by (simp_all add: pipe_put_def)
    obtain m p' where "m \<le> k" "pipes s' = (pipes ?t)(pi \<mapsto> p')" "pipe_ok p'"
      "pipe_items p' = pipe_items (pipe_put ?x p) @ map (\<lambda>j. user_byte ?t (addr + of_nat j)) [Suc i..<Suc i + m]"
      "r = Returned (int (Suc i + m)) \<and> (m = k \<or> \<not> user_mapped ?t (addr + of_nat (Suc i + m))) \<or>
       r = Returned (- 1) \<and> (\<not> pi_readopen (pipe_put ?x p) \<or> killed (cur ?t) ?t) \<or>
       r = Waiting (Chan_pipe_nwrite pi) (Suc i + m) \<and> length (pipe_items p') = PIPESIZE"
      by (rule Suc(1) [OF _ rec t(1) put(1)])
    then show ?thesis
      by (intro Suc(2) [of "Suc m" p']) (simp_all add: put t upt_conv_Cons del: upt_Suc)
  qed
qed

lemma copyout_sel [simp]:
  "pipes (snd (copyout pde va src s)) = pipes s" "cur (snd (copyout pde va src s)) = cur s"
  "procs (snd (copyout pde va src s)) = procs s"
  by (subst copyout_only_mem, simp)+

lemma piperead_loop_total: "pipes s pi \<noteq> None \<Longrightarrow> \<exists>x. piperead_loop pi addr k i s = Inr x"
proof (induction k arbitrary: i s)
  case (Suc k)
  then obtain p x q where p: "pipes s pi = Some p" "pipe_get p = (x, q)"
    by fastforce
  let ?c = "copyout (p_pagetable (myproc (upd_pipe pi (\<lambda>_. q) s))) (addr + of_nat i) [x] (upd_pipe pi (\<lambda>_. q) s)"
  have "pipes (snd ?c) pi \<noteq> None"
    using p by simp
  then have "\<exists>y. piperead_loop pi addr k (Suc i) (snd ?c) = Inr y"
    by (rule Suc.IH)
  then show ?case
    using p by (auto simp: Let_def split: prod.splits)
qed simp

text \<open>
  What the loop of \<open>piperead\<close> does: it takes bytes from the front of the queue and stores them in the
  user's buffer, until the buffer is full or the queue is empty; when a store fails it stops, and
  the byte it had taken is gone. \<open>piperead_end\<close> tells the two ends apart, for \<open>xs\<close> taken and \<open>m\<close>
  of them stored, with room for \<open>k\<close>.
\<close>

definition piperead_end :: "u64 \<Rightarrow> u64 \<Rightarrow> nat \<Rightarrow> nat \<Rightarrow> u8 list \<Rightarrow> bool \<Rightarrow> 'a kmem_scheme \<Rightarrow> bool" where
  "piperead_end pde addr k m xs e s' \<longleftrightarrow>
     length xs = m \<and> (m = k \<or> m < k \<and> e) \<or>
     length xs = Suc m \<and> m < k \<and> fst (copyout pde (addr + of_nat m) [xs ! m] s') = - 1"

lemma piperead_end_Suc:
  assumes "piperead_end pde (addr + 1) k m xs e s'"
  shows "piperead_end pde addr (Suc k) (Suc m) (x # xs) e s'"
  using assms by (auto simp: piperead_end_def add.assoc)

lemma piperead_loop_shift: "piperead_loop pi addr k (Suc i) s =
    bindE (piperead_loop pi (addr + 1) k i s) (\<lambda>(j, s). Inr (Suc j, s))"
proof (induction k arbitrary: i s)
  case (Suc k)
  show ?case
    using Suc by (auto simp: Let_def add.assoc split: option.splits prod.splits)
qed simp

lemma piperead_loop_takes:
  assumes "piperead_loop pi addr k 0 s = Inr (m, s')" and "pipes s pi = Some p" and "pipe_ok p"
  obtains xs p' where "pipes s' = (pipes s)(pi \<mapsto> p')" and "pipe_ok p'" and "pipe_items p = xs @ pipe_items p'"
    and "piperead_end (p_pagetable (myproc s)) addr k m xs (pipe_items p' = []) s'"
    and "copies_ok (p_pagetable (myproc s)) addr 0 (take m xs) s"
    and "mem s' = mem (copy_bytes (p_pagetable (myproc s)) addr 0 (take m xs) s)"
  using assms
proof (induction k arbitrary: addr s p m thesis)
  case 0
  show ?case
    by (rule 0(1) [of p "[]"]) (use 0 in \<open>auto simp: piperead_end_def\<close>)
next
  case (Suc k)
  show ?case
  proof (cases "pi_nread p = pi_nwrite p")
    case True
    show ?thesis
      by (rule Suc(2) [of p "[]"]) (use Suc(3-5) True pipe_items_empty [of p] in \<open>auto simp: piperead_end_def\<close>)
  next
    case ne: False
    obtain x q where g: "pipe_get p = (x, q)"
      by fastforce
    have q: "pipe_ok q" "pipe_items p = x # pipe_items q"
      using pq.deq_ok [OF Suc(5)] pq.deq_items [OF Suc(5)] ne by (simp_all add: pipe_items_empty g)
    let ?pde = "p_pagetable (myproc s)" and ?t = "upd_pipe pi (\<lambda>_. q) s"
    let ?c = "copyout ?pde addr [x] ?t"
    have p: "myproc ?t = myproc s" "mem (snd ?c) = mem (snd (copyout ?pde addr [x] s))"
      "fst ?c = fst (copyout ?pde addr [x] s)"
      using copyout_mem [of ?t s] by (simp_all add: myproc_def)
    have m: "myproc (snd ?c) = myproc s"
      by (simp add: myproc_def)
    have pc: "pipes (snd ?c) = (pipes s)(pi \<mapsto> q)" and pc': "pipes (snd ?c) pi = Some q"
      using Suc(4) by simp_all
    show ?thesis
    proof (cases "fst ?c = - 1")
      case True
      have "m = 0" "s' = ?t"
        using Suc(3,4) ne g True p(1) copyout_byte_fails [OF True] by (auto simp: Let_def split: prod.splits)
      then show ?thesis
        using q Suc(4) True by (intro Suc(2) [of q "[x]"]) (simp_all add: piperead_end_def)
    next
      case False
      obtain m' where rec: "piperead_loop pi (addr + 1) k 0 (snd ?c) = Inr (m', s')" and m': "m = Suc m'"
        using Suc(3,4) ne False g p(1) piperead_loop_total [of "snd ?c" pi "addr + 1" k 0] pc'
        by (auto simp: Let_def piperead_loop_shift split: prod.splits)
      obtain xs p' where r: "pipes s' = (pipes (snd ?c))(pi \<mapsto> p')" "pipe_ok p'" "pipe_items q = xs @ pipe_items p'"
        "piperead_end ?pde (addr + 1) k m' xs (pipe_items p' = []) s'" "copies_ok ?pde (addr + 1) 0 (take m' xs) (snd ?c)"
        "mem s' = mem (copy_bytes ?pde (addr + 1) 0 (take m' xs) (snd ?c))"
        by (rule Suc(1) [OF _ rec pc' q(1), unfolded m])
      have "copies_ok ?pde addr 0 (x # take m' xs) s" "mem s' = mem (copy_bytes ?pde addr 0 (x # take m' xs) s)"
        using r(5,6) False p(3) unfolding copy_bytes_Cons [OF p(2)] by simp_all
      then show ?thesis
        using q pc r piperead_end_Suc [OF r(4)] m' by (intro Suc(2) [of p' "x # xs"]) auto
    qed
  qed
qed

section \<open>An example\<close>

definition bss_file :: kfile where
  "bss_file = \<lparr>f_type = FD_NONE, f_ref = 0, f_readable = False, f_writable = False, f_pipe = 0,
     f_ip = None, f_off = 0, f_major = 0\<rparr>"

definition bss_filestate :: "'a \<Rightarrow> 'a filestate_scheme" where
  "bss_filestate r = bss_cstate (filestate_ext (replicate NFILE bss_file) Map.empty r)"

lemmas bss_filestate = bss_filestate_def bss_cstate_def bss_ustate_defs

text \<open>A process whose page 0 is mapped, and an empty pipe at address 1, with the indices about to wrap.\<close>

definition pipe_example_pipe :: pipe where
  "pipe_example_pipe = \<lparr>pi_data = replicate PIPESIZE 0, pi_nread = - 1, pi_nwrite = - 1, pi_readopen = True,
     pi_writeopen = True\<rparr>"

definition pipe_example :: filestate where
  "pipe_example = (bss_filestate ())\<lparr>mem := self_mem,
     procs := (replicate NPROC bss_proc)[0 := bss_proc\<lparr>p_pagetable := self_page\<rparr>],
     pipes := [1 \<mapsto> pipe_example_pipe]\<rparr>"

lemma pipe_example_sel [simp]:
  "mem pipe_example = self_mem" "cur pipe_example = 0" "p_pagetable (myproc pipe_example) = self_page"
  by (simp_all add: pipe_example_def bss_filestate myproc_def NPROC_def)

lemma pipe_example_pipe: "pipes pipe_example 1 = Some pipe_example_pipe" "pipe_ok pipe_example_pipe"
    "pipe_items pipe_example_pipe = []"
  by (simp_all add: pipe_example_def pipe_example_pipe_def pipe_ok_def pipe_items_def ring_def)

section \<open>Properties\<close>

text \<open>
  Property C24. \<open>pipewrite\<close>, until it returns or sleeps, appends bytes of the user's buffer to the
  queue, in order and without a gap. It returns the number of bytes when it wrote them all, or when
  the next one is not mapped; it returns -1 only when there is no reader or the process is killed;
  it sleeps only when the queue is full, to go on at the next byte. No other pipe changes.
\<close>

theorem pipewrite_fifo:
  assumes "pipes s pi = Some p" and "pipe_ok p"
  shows "\<exists>r s' m p'. pipewrite_loop pi addr k i s = Inr (r, s') \<and> m \<le> k \<and>
    pipes s' = (pipes s)(pi \<mapsto> p') \<and> pipe_ok p' \<and>
    pipe_items p' = pipe_items p @ map (\<lambda>j. user_byte s (addr + of_nat j)) [i..<i + m] \<and>
    (r = Returned (int (i + m)) \<and> (m = k \<or> \<not> user_mapped s (addr + of_nat (i + m))) \<or>
     r = Returned (- 1) \<and> (\<not> pi_readopen p \<or> killed (cur s) s) \<or>
     r = Waiting (Chan_pipe_nwrite pi) (i + m) \<and> length (pipe_items p') = PIPESIZE)"
proof -
  obtain r s' where w: "pipewrite_loop pi addr k i s = Inr (r, s')"
    using pipewrite_loop_total [of s pi addr k i] assms(1) by auto
  show ?thesis
    by (rule pipewrite_loop_appends [OF w assms]) (use w in blast)
qed

theorem pipewrite_fifo_witness:
  "\<exists>s' p'. pipewrite_loop 1 0 1 0 pipe_example = Inr (Returned 1, s') \<and> pipes s' 1 = Some p' \<and>
    pipe_items p' = [self_mem self_page]"
proof -
  have u: "user_mapped pipe_example 0" "user_byte pipe_example 0 = self_mem self_page"
    using copyin_self [of pipe_example] by (simp_all add: user_mapped_def user_byte_def)
  have k: "\<not> killed (cur pipe_example) pipe_example"
    by (simp add: killed_def pipe_example_def bss_filestate NPROC_def bss_proc_def)
  obtain r s' m p' where w: "pipewrite_loop 1 0 1 0 pipe_example = Inr (r, s')" "m \<le> 1"
    "pipes s' = (pipes pipe_example)(1 \<mapsto> p')"
    "pipe_items p' = pipe_items pipe_example_pipe @ map (\<lambda>j. user_byte pipe_example (0 + of_nat j)) [0..<0 + m]"
    "r = Returned (int (0 + m)) \<and> (m = 1 \<or> \<not> user_mapped pipe_example (0 + of_nat (0 + m))) \<or>
     r = Returned (- 1) \<and> (\<not> pi_readopen pipe_example_pipe \<or> killed (cur pipe_example) pipe_example) \<or>
     r = Waiting (Chan_pipe_nwrite 1) (0 + m) \<and> length (pipe_items p') = PIPESIZE"
    using pipewrite_fifo [OF pipe_example_pipe(1,2), of 0 1 0] by blast
  have "pi_readopen pipe_example_pipe"
    by (simp add: pipe_example_pipe_def)
  moreover have "length (pipe_items p') \<noteq> PIPESIZE"
    using w(2,4) by (simp add: PIPESIZE_def pipe_example_pipe(3))
  ultimately have "m = 1" "r = Returned 1"
    using w(2,5) u(1) k by (cases m; simp)+
  then show ?thesis
    using w(1,3,4) u(2) by (intro exI [of _ s'] exI [of _ p']) (simp add: pipe_example_pipe(3) del: pipewrite_loop.simps)
qed

text \<open>
  Property C25. \<open>piperead\<close> on a pipe that has data or no writer takes bytes from the front of the
  queue and stores them in the user's buffer, in order, and returns how many it stored. It stops
  when it has stored as many as asked for, when the queue is empty, or when the next byte cannot be
  stored in the user's memory; only then the byte taken last is lost.
\<close>

theorem piperead_fifo:
  assumes "pipes s pi = Some p" and "pipe_ok p" and "pipe_items p \<noteq> [] \<or> \<not> pi_writeopen p"
  shows "\<exists>m s' xs p'. piperead pi addr n s = Inr (Returned (int m), s') \<and>
    pipes s' = (pipes s)(pi \<mapsto> p') \<and> pipe_ok p' \<and> pipe_items p = xs @ pipe_items p' \<and>
    copies_ok (p_pagetable (myproc s)) addr 0 (take m xs) s \<and>
    mem s' = mem (copy_bytes (p_pagetable (myproc s)) addr 0 (take m xs) s) \<and>
    (length xs = m \<and> (m = nat n \<or> m < nat n \<and> pipe_items p' = []) \<or>
     length xs = Suc m \<and> m < nat n \<and> fst (copyout (p_pagetable (myproc s)) (addr + of_nat m) [xs ! m] s') = - 1)"
proof -
  obtain m t where l: "piperead_loop pi addr (nat n) 0 s = Inr (m, t)"
    using piperead_loop_total [of s pi addr "nat n" 0] assms(1) by auto
  then have r: "piperead pi addr n s = Inr (Returned (int m), wakeup (Chan_pipe_nwrite pi) t)"
    using assms(1,3) by (auto simp: piperead_def pipe_items_empty)
  let ?w = "wakeup (Chan_pipe_nwrite pi) t"
  have w: "mem ?w = mem t"
    by (simp add: wakeup_def)
  obtain xs p' where x: "pipes t = (pipes s)(pi \<mapsto> p')" "pipe_ok p'" "pipe_items p = xs @ pipe_items p'"
    "piperead_end (p_pagetable (myproc s)) addr (nat n) m xs (pipe_items p' = []) t"
    "copies_ok (p_pagetable (myproc s)) addr 0 (take m xs) s"
    "mem t = mem (copy_bytes (p_pagetable (myproc s)) addr 0 (take m xs) s)"
    by (rule piperead_loop_takes [OF l assms(1,2)])
  have "fst (copyout pde va ys ?w) = fst (copyout pde va ys t)" for pde va ys
    using copyout_mem [OF w] by blast
  then show ?thesis
    using r x w unfolding piperead_end_def
    by (intro exI [of _ m] exI [of _ ?w] exI [of _ xs] exI [of _ p']) simp
qed

theorem piperead_fifo_witness:
  "\<exists>s' p'. piperead 1 0 1 (upd_pipe 1 (pipe_put 7) pipe_example) = Inr (Returned 1, s') \<and>
    pipes s' 1 = Some p' \<and> pipe_items p' = [] \<and> mem s' self_page = 7"
proof -
  let ?p = "pipe_put 7 pipe_example_pipe" and ?s = "upd_pipe 1 (pipe_put 7) pipe_example"
  have p: "pipe_ok ?p" "pipe_items ?p = [7]"
    using pq.enq_ok pq.enq_items pipe_example_pipe(2,3) by (simp_all add: PIPESIZE_def)
  then have ne: "pipe_items ?p \<noteq> [] \<or> \<not> pi_writeopen ?p"
    by simp
  have s: "pipes ?s 1 = Some ?p" "mem ?s = self_mem" "p_pagetable (myproc ?s) = self_page"
    using pipe_example_pipe(1) pipe_example_sel(3) by (simp_all add: myproc_def)
  obtain m s' xs p' where w: "piperead 1 0 1 ?s = Inr (Returned (int m), s')" "pipes s' = (pipes ?s)(1 \<mapsto> p')"
    "pipe_items ?p = xs @ pipe_items p'" "mem s' = mem (copy_bytes self_page 0 0 (take m xs) ?s)"
    "length xs = m \<and> (m = nat 1 \<or> m < nat 1 \<and> pipe_items p' = []) \<or>
     length xs = Suc m \<and> m < nat 1 \<and> fst (copyout self_page (0 + of_nat m) [xs ! m] s') = - 1"
    using piperead_fifo [OF s(1) p(1) ne, of 0 1] unfolding s(3) by blast
  have "m = 1"
  proof (rule ccontr)
    assume "m \<noteq> 1"
    then have "m = 0" "length xs = 1" "fst (copyout self_page 0 [xs ! 0] s') = - 1"
      using w(3,5) p(2) by auto
    then show False
      using w(4) s(2) copyout_self [of s' "xs ! 0"] by simp
  qed
  then have "xs = [7] \<and> pipe_items p' = []"
    using w(3,5) p(2) by (cases xs) auto
  then show ?thesis
    using w(1,2,4) s copyout_self [OF s(2), of 7] \<open>m = 1\<close> by (intro exI [of _ s'] exI [of _ p']) simp
qed

end
