(* ===== verification/File.thy ===== *)
theory File
  imports Pipe
begin

text \<open>
  Open files, \<open>kernel/file.c\<close>, with \<open>pipealloc\<close> of \<open>kernel/pipe.c\<close>. A \<open>struct file\<close>
  pointer is an index in \<open>ftable.file[]\<close>, with \<^term>\<open>None\<close> for NULL.
\<close>

section \<open>The file table\<close>

definition upd_file :: "nat \<Rightarrow> (kfile \<Rightarrow> kfile) \<Rightarrow> 'a filestate_scheme \<Rightarrow> 'a filestate_scheme" where
  "upd_file f g s = s\<lparr>files := (files s)[f := g (files s ! f)]\<rparr>"

definition filealloc :: "'a filestate_scheme \<Rightarrow> nat option \<times> 'a filestate_scheme" where
  "filealloc s =
     (case List.find (\<lambda>f. f_ref (files s ! f) = 0) [0..<NFILE] of
        None \<Rightarrow> (None, s)
      | Some f \<Rightarrow> (Some f, upd_file f (\<lambda>x. x\<lparr>f_ref := 1\<rparr>) s))"

definition filedup :: "nat \<Rightarrow> 'a filestate_scheme \<Rightarrow> 'a filestate_scheme res" where
  "filedup f s =
     (if f_ref (files s ! f) < 1 then Inl (Panic ''filedup'')
      else Inr (upd_file f (\<lambda>x. x\<lparr>f_ref := f_ref x + 1\<rparr>) s))"

text \<open>A pointer that the code follows without a test for NULL.\<close>

definition deref :: "'a option \<Rightarrow> 'a res" where
  "deref p = (case p of None \<Rightarrow> Inl Fault | Some x \<Rightarrow> Inr x)"

definition fileclose :: "nat \<Rightarrow> 'a filestate_scheme \<Rightarrow> 'a filestate_scheme res" where
  "fileclose f s =
     (let ff = files s ! f in
      if f_ref ff < 1 then Inl (Panic ''fileclose'')
      else if f_ref ff - 1 > 0 then Inr (upd_file f (\<lambda>x. x\<lparr>f_ref := f_ref x - 1\<rparr>) s)
      else
        (let s = upd_file f (\<lambda>x. x\<lparr>f_ref := 0, f_type := FD_NONE\<rparr>) s in
         if f_type ff = FD_PIPE then pipeclose (f_pipe ff) (f_writable ff) s
         else if f_type ff = FD_INODE \<or> f_type ff = FD_DEVICE then
           bindE (begin_op s) (\<lambda>s.
           bindE (deref (f_ip ff)) (\<lambda>ip.
           bindE (iput ip s) end_op))
         else Inr s))"

section \<open>Allocating a pipe\<close>

text \<open>The pages behind \<open>kalloc\<close> hold arbitrary bytes; the data of the pipe starts after its lock.\<close>

definition PIPE_DATA_OFF :: u64 where
  "PIPE_DATA_OFF = 24"

text \<open>The exit \<open>bad\<close>, which \<open>pi\<close> reaches only as NULL.\<close>

definition close_opt :: "nat option \<Rightarrow> 'a filestate_scheme \<Rightarrow> 'a filestate_scheme res" where
  "close_opt f s = (case f of None \<Rightarrow> Inr s | Some f \<Rightarrow> fileclose f s)"

definition pipealloc_bad ::
  "nat option \<Rightarrow> nat option \<Rightarrow> 'a filestate_scheme \<Rightarrow> ((nat \<times> nat) option \<times> 'a filestate_scheme) res" where
  "pipealloc_bad f0 f1 s =
     bindE (close_opt f0 s) (\<lambda>s. bindE (close_opt f1 s) (\<lambda>s. Inr (None, s)))"

definition pipealloc :: "'a filestate_scheme \<Rightarrow> ((nat \<times> nat) option \<times> 'a filestate_scheme) res" where
  "pipealloc s =
     (case filealloc s of
        (None, s) \<Rightarrow> pipealloc_bad None None s
      | (Some f0, s) \<Rightarrow>
          (case filealloc s of
             (None, s) \<Rightarrow> pipealloc_bad (Some f0) None s
           | (Some f1, s) \<Rightarrow>
               (case kalloc s of
                  (pi, s) \<Rightarrow>
                    if pi = 0 then pipealloc_bad (Some f0) (Some f1) s
                    else
                      (let s = s\<lparr>pipes := (pipes s)(pi \<mapsto>
                             \<lparr>pi_data = get_bytes (mem s) (pi + PIPE_DATA_OFF) PIPESIZE,
                              pi_nread = 0, pi_nwrite = 0, pi_readopen = True, pi_writeopen = True\<rparr>)\<rparr>;
                           s = upd_file f0 (\<lambda>x. x\<lparr>f_type := FD_PIPE, f_readable := True,
                                 f_writable := False, f_pipe := pi\<rparr>) s;
                           s = upd_file f1 (\<lambda>x. x\<lparr>f_type := FD_PIPE, f_readable := False,
                                 f_writable := True, f_pipe := pi\<rparr>) s
                       in Inr (Some (f0, f1), s)))))"

section \<open>Metadata, reading and writing\<close>

text \<open>The bytes of a \<open>struct stat\<close>; the four bytes of padding, which C leaves open, are zero here.\<close>

definition stat_bytes :: "stat \<Rightarrow> u8 list" where
  "stat_bytes st = le_bytes 4 (st_dev st) @ le_bytes 4 (st_ino st) @ le_bytes 2 (st_type st) @
     le_bytes 2 (st_nlink st) @ replicate 4 0 @ le_bytes 8 (st_size st)"

definition filestat :: "nat \<Rightarrow> u64 \<Rightarrow> 'a filestate_scheme \<Rightarrow> (int \<times> 'a filestate_scheme) res" where
  "filestat f addr s =
     (let x = files s ! f in
      if f_type x = FD_INODE \<or> f_type x = FD_DEVICE then
        bindE (deref (f_ip x)) (\<lambda>ip.
        bindE (ilock ip s) (\<lambda>s.
        let st = stati ip s in
        bindE (iunlock ip s) (\<lambda>s.
        let (r, s) = copyout (p_pagetable (myproc s)) addr (stat_bytes st) s
        in if r < 0 then Inr (- 1, s) else Inr (0, s))))
      else Inr (- 1, s))"

text \<open>The device of a file, when it has the function wanted.\<close>

definition devsw_of :: "kfile \<Rightarrow> 'a cstate_scheme \<Rightarrow> devsw option" where
  "devsw_of x s =
     (if sint (f_major x) < 0 \<or> int NDEV \<le> sint (f_major x) then None
      else Some (devsws s ! nat (sint (f_major x))))"

definition fileread :: "nat \<Rightarrow> u64 \<Rightarrow> int \<Rightarrow> 'a filestate_scheme \<Rightarrow> (progress \<times> 'a filestate_scheme) res" where
  "fileread f addr n s =
     (let x = files s ! f in
      if \<not> f_readable x then Inr (Returned (- 1), s)
      else
        case f_type x of
          FD_PIPE \<Rightarrow> piperead (f_pipe x) addr n s
        | FD_DEVICE \<Rightarrow>
            (case Option.bind (devsw_of x s) dev_read of
               None \<Rightarrow> Inr (Returned (- 1), s)
             | Some Consoleread \<Rightarrow>
                 bindE (consoleread (User addr) n s) (\<lambda>(r, dst, s). Inr (r, s)))
        | FD_INODE \<Rightarrow>
            bindE (deref (f_ip x)) (\<lambda>ip.
            bindE (ilock ip s) (\<lambda>s.
            bindE (readi ip (User addr) (f_off x) (word_of_int n) s) (\<lambda>(r, dst, s).
            let s = (if r > 0 then upd_file f (\<lambda>x. x\<lparr>f_off := f_off x + word_of_int r\<rparr>) s else s) in
            bindE (iunlock ip s) (\<lambda>s. Inr (Returned r, s)))))
        | FD_NONE \<Rightarrow> Inl (Panic ''fileread''))"

text \<open>\<open>filewrite\<close> to an inode: one transaction for each \<open>FILE_MAX\<close> bytes.\<close>

definition FILE_MAX :: nat where
  "FILE_MAX = (MAXOPBLOCKS - 1 - 1 - 2) div 2 * BSIZE"

definition filewrite_chunk ::
  "nat \<Rightarrow> nat \<Rightarrow> u64 \<Rightarrow> nat \<Rightarrow> 'a filestate_scheme \<Rightarrow> (int \<times> 'a filestate_scheme) res" where
  "filewrite_chunk f ip addr n1 s =
     bindE (begin_op s) (\<lambda>s.
     bindE (ilock ip s) (\<lambda>s.
     bindE (writei ip (User addr) (f_off (files s ! f)) (of_nat n1) s) (\<lambda>(r, s).
     let s = (if r > 0 then upd_file f (\<lambda>x. x\<lparr>f_off := f_off x + word_of_int r\<rparr>) s else s) in
     bindE (iunlock ip s) (\<lambda>s.
     bindE (end_op s) (\<lambda>s. Inr (r, s))))))"

function filewrite_loop ::
  "nat \<Rightarrow> nat \<Rightarrow> u64 \<Rightarrow> nat \<Rightarrow> nat \<Rightarrow> 'a filestate_scheme \<Rightarrow> (nat \<times> 'a filestate_scheme) res" where
  "filewrite_loop f ip addr i n s =
     (if i < n then
        (let n1 = min (n - i) FILE_MAX in
         bindE (filewrite_chunk f ip (addr + of_nat i) n1 s) (\<lambda>(r, s).
         if r \<noteq> int n1 then Inr (i, s)
         else filewrite_loop f ip addr (i + n1) n s))
      else Inr (i, s))"
  by pat_completeness auto

lemma FILE_MAX_pos: "0 < FILE_MAX"
  by (simp add: FILE_MAX_def MAXOPBLOCKS_def BSIZE_def)

termination filewrite_loop
proof (relation "measure (\<lambda>(f, ip, addr, i, n, s). n - i)")
qed (use FILE_MAX_pos in auto)

declare filewrite_loop.simps [simp del]

definition filewrite :: "nat \<Rightarrow> u64 \<Rightarrow> int \<Rightarrow> 'a filestate_scheme \<Rightarrow> (progress \<times> 'a filestate_scheme) res" where
  "filewrite f addr n s =
     (let x = files s ! f in
      if \<not> f_writable x then Inr (Returned (- 1), s)
      else
        case f_type x of
          FD_PIPE \<Rightarrow> pipewrite (f_pipe x) addr n s
        | FD_DEVICE \<Rightarrow>
            (case Option.bind (devsw_of x s) dev_write of
               None \<Rightarrow> Inr (Returned (- 1), s)
             | Some Consolewrite \<Rightarrow> consolewrite (User addr) n s)
        | FD_INODE \<Rightarrow>
            bindE (deref (f_ip x)) (\<lambda>ip.
            bindE (filewrite_loop f ip addr 0 (nat n) s) (\<lambda>(i, s).
            Inr (Returned (if int i = n then n else - 1), s)))
        | FD_NONE \<Rightarrow> Inl (Panic ''filewrite''))"

end
