(* ===== verification/Virtio.thy ===== *)
theory Virtio
  imports Bcache
begin

text \<open>
  The driver of the disk, \<open>kernel/virtio_disk.c\<close>, on the structures of \<open>kernel/virtio.h\<close>. The
  rings and descriptors are shared with the device. A physical address in a descriptor is that
  of a request header \<open>disk.ops[i]\<close>, of the data of buffer \<open>i\<close>, or of the status byte
  \<open>disk.info[i].status\<close>. \<open>virtio_disk_rw\<close> is in two parts, around the sleep for the device.
\<close>

unbundle bit_operations_syntax

section \<open>Structures\<close>

definition NUM :: nat where
  "NUM = 8"

datatype dma = DNull | DOps nat | DData nat | DStatus nat

record virtq_desc =
  d_addr :: dma
  d_len :: u32
  d_flags :: u16
  d_next :: u16

definition VRING_DESC_F_NEXT :: u16 where
  "VRING_DESC_F_NEXT = 1"

definition VRING_DESC_F_WRITE :: u16 where
  "VRING_DESC_F_WRITE = 2"

definition VIRTIO_BLK_T_IN :: u32 where
  "VIRTIO_BLK_T_IN = 0"

definition VIRTIO_BLK_T_OUT :: u32 where
  "VIRTIO_BLK_T_OUT = 1"

record virtio_blk_req =
  rq_type :: u32
  rq_reserved :: u32
  rq_sector :: u64

text \<open>
  The static variable \<open>disk\<close>, with the rings it points to; \<open>v_seen\<close> is the device's own count
  of the entries of the avail ring that it has taken. The operations take and return it next to
  the state of the kernel.
\<close>

record vdisk =
  v_desc :: "virtq_desc list"
  v_avail :: "u16 list"
  v_avail_idx :: u16
  v_used :: "u32 list"
  v_used_dev :: u16
  v_free :: "bool list"
  v_used_idx :: u16
  v_info_b :: "nat option list"
  v_info_status :: "u8 list"
  v_ops :: "virtio_blk_req list"
  v_seen :: u16

section \<open>Descriptors\<close>

definition alloc_desc :: "vdisk \<Rightarrow> nat option \<times> vdisk" where
  "alloc_desc v =
     (case List.find (\<lambda>i. v_free v ! i) [0..<NUM] of
        None \<Rightarrow> (None, v)
      | Some i \<Rightarrow> (Some i, v\<lparr>v_free := (v_free v)[i := False]\<rparr>))"

definition zero_desc :: virtq_desc where
  "zero_desc = \<lparr>d_addr = DNull, d_len = 0, d_flags = 0, d_next = 0\<rparr>"

definition free_desc :: "nat \<Rightarrow> vdisk \<times> 'a bstate_scheme \<Rightarrow> (vdisk \<times> 'a bstate_scheme) res" where
  "free_desc i = (\<lambda>(v, s).
     if NUM \<le> i then Inl (Panic ''free_desc 1'')
     else if v_free v ! i then Inl (Panic ''free_desc 2'')
     else Inr (v\<lparr>v_desc := (v_desc v)[i := zero_desc], v_free := (v_free v)[i := True]\<rparr>,
               wakeup Chan_disk_free s))"

text \<open>
  \<open>free_chain\<close>: every round frees a descriptor that was not free, so more than \<open>NUM\<close> rounds
  are not possible.
\<close>

primrec free_chain_loop ::
  "nat \<Rightarrow> nat \<Rightarrow> vdisk \<times> 'a bstate_scheme \<Rightarrow> (vdisk \<times> 'a bstate_scheme) res" where
  "free_chain_loop 0 i vs = Inl Diverge"
| "free_chain_loop (Suc n) i vs =
     (if NUM \<le> i then Inl (Panic ''free_desc 1'')
      else
        (let flag = d_flags (v_desc (fst vs) ! i);
             nxt = unat (d_next (v_desc (fst vs) ! i)) in
         bindE (free_desc i vs) (\<lambda>vs.
         if flag AND VRING_DESC_F_NEXT \<noteq> 0 then free_chain_loop n nxt vs else Inr vs)))"

definition free_desc_chain :: "nat \<Rightarrow> vdisk \<times> 'a bstate_scheme \<Rightarrow> (vdisk \<times> 'a bstate_scheme) res" where
  "free_desc_chain i vs = free_chain_loop (Suc NUM) i vs"

text \<open>\<open>alloc3_desc\<close>: three descriptors, or none.\<close>

definition alloc3_desc ::
  "vdisk \<times> 'a bstate_scheme \<Rightarrow> ((nat \<times> nat \<times> nat) option \<times> vdisk \<times> 'a bstate_scheme) res" where
  "alloc3_desc = (\<lambda>(v, s).
     case alloc_desc v of
       (None, v) \<Rightarrow> Inr (None, v, s)
     | (Some i0, v) \<Rightarrow>
         (case alloc_desc v of
            (None, v) \<Rightarrow> bindE (free_desc i0 (v, s)) (\<lambda>vs. Inr (None, vs))
          | (Some i1, v) \<Rightarrow>
              (case alloc_desc v of
                 (None, v) \<Rightarrow>
                   bindE (free_desc i0 (v, s)) (\<lambda>vs. bindE (free_desc i1 vs) (\<lambda>vs. Inr (None, vs)))
               | (Some i2, v) \<Rightarrow> Inr (Some (i0, i1, i2), v, s))))"

section \<open>Requests\<close>

definition set_desc :: "nat \<Rightarrow> virtq_desc \<Rightarrow> vdisk \<Rightarrow> vdisk" where
  "set_desc i d v = v\<lparr>v_desc := (v_desc v)[i := d]\<rparr>"

text \<open>Formatting the three descriptors, up to the notification of the device.\<close>

definition virtio_disk_format :: "nat \<Rightarrow> u32 \<Rightarrow> bool \<Rightarrow> nat \<times> nat \<times> nat \<Rightarrow> vdisk \<Rightarrow> vdisk" where
  "virtio_disk_format b blockno write idx v =
     (let (i0, i1, i2) = idx;
          sector = ucast (blockno * of_nat (BSIZE div 512));
          v = v\<lparr>v_ops := (v_ops v)[i0 := \<lparr>rq_type = (if write then VIRTIO_BLK_T_OUT else VIRTIO_BLK_T_IN),
                rq_reserved = 0, rq_sector = sector\<rparr>]\<rparr>;
          v = set_desc i0 \<lparr>d_addr = DOps i0, d_len = 16, d_flags = VRING_DESC_F_NEXT, d_next = of_nat i1\<rparr> v;
          v = set_desc i1 \<lparr>d_addr = DData b, d_len = of_nat BSIZE,
                d_flags = (if write then 0 else VRING_DESC_F_WRITE) OR VRING_DESC_F_NEXT, d_next = of_nat i2\<rparr> v;
          v = v\<lparr>v_info_status := (v_info_status v)[i0 := 0xff]\<rparr>;
          v = set_desc i2 \<lparr>d_addr = DStatus i0, d_len = 1, d_flags = VRING_DESC_F_WRITE, d_next = 0\<rparr> v;
          v = v\<lparr>v_info_b := (v_info_b v)[i0 := Some b]\<rparr>;
          v = v\<lparr>v_avail := (v_avail v)[unat (v_avail_idx v) mod NUM := of_nat i0]\<rparr>
      in v\<lparr>v_avail_idx := v_avail_idx v + 1\<rparr>)"

text \<open>
  \<open>virtio_disk_rw\<close> up to the wait for the device. It starts over, after a sleep, as long as
  there are not three descriptors.
\<close>

definition virtio_disk_submit ::
  "nat \<Rightarrow> bool \<Rightarrow> vdisk \<times> 'a bstate_scheme \<Rightarrow> (nat \<times> vdisk \<times> 'a bstate_scheme) res" where
  "virtio_disk_submit b write vs =
     bindE (alloc3_desc vs) (\<lambda>(idx, v, s).
     case idx of
       None \<Rightarrow> Inl (Sleep Chan_disk_free)
     | Some idx \<Rightarrow>
         Inr (fst idx, virtio_disk_format b (b_blockno (bufs s ! b)) write idx v,
              upd_buf b (\<lambda>x. x\<lparr>b_disk := True\<rparr>) s))"

text \<open>After the wait: \<open>while (b->disk == 1) sleep(b, ...)\<close>, then the chain is freed.\<close>

definition virtio_disk_finish ::
  "nat \<Rightarrow> nat \<Rightarrow> vdisk \<times> 'a bstate_scheme \<Rightarrow> (vdisk \<times> 'a bstate_scheme) res" where
  "virtio_disk_finish b i0 = (\<lambda>(v, s).
     if b_disk (bufs s ! b) then Inl (Sleep (Chan_buf b))
     else free_desc_chain i0 (v\<lparr>v_info_b := (v_info_b v)[i0 := None]\<rparr>, s))"

section \<open>The interrupt\<close>

text \<open>
  The loop over the used ring, which ends after the \<open>disk.used->idx - disk.used_idx\<close> entries
  that the device has added. The device does not add entries during the loop here; an entry it
  adds later is found by the next interrupt.
\<close>

primrec virtio_intr_loop :: "nat \<Rightarrow> vdisk \<times> 'a bstate_scheme \<Rightarrow> (vdisk \<times> 'a bstate_scheme) res" where
  "virtio_intr_loop 0 vs = Inr vs"
| "virtio_intr_loop (Suc n) vs =
     (let (v, s) = vs in
      if v_used_idx v = v_used_dev v then Inr (v, s)
      else
        (let i = unat (v_used v ! (unat (v_used_idx v) mod NUM)) in
         if NUM \<le> i then Inl Fault
         else if v_info_status v ! i \<noteq> 0 then Inl (Panic ''virtio_disk_intr status'')
         else
           (case v_info_b v ! i of
              None \<Rightarrow> Inl Fault
            | Some b \<Rightarrow>
                virtio_intr_loop n (v\<lparr>v_used_idx := v_used_idx v + 1\<rparr>,
                  wakeup (Chan_buf b) (upd_buf b (\<lambda>x. x\<lparr>b_disk := False\<rparr>) s)))))"

definition virtio_disk_intr :: "vdisk \<times> 'a bstate_scheme \<Rightarrow> (vdisk \<times> 'a bstate_scheme) res" where
  "virtio_disk_intr vs = virtio_intr_loop (unat (v_used_dev (fst vs) - v_used_idx (fst vs))) vs"

section \<open>Initialisation\<close>

definition VIRTIO_MMIO_MAGIC_VALUE :: u64 where "VIRTIO_MMIO_MAGIC_VALUE = 0x000"
definition VIRTIO_MMIO_VERSION :: u64 where "VIRTIO_MMIO_VERSION = 0x004"
definition VIRTIO_MMIO_DEVICE_ID :: u64 where "VIRTIO_MMIO_DEVICE_ID = 0x008"
definition VIRTIO_MMIO_VENDOR_ID :: u64 where "VIRTIO_MMIO_VENDOR_ID = 0x00c"
definition VIRTIO_MMIO_DEVICE_FEATURES :: u64 where "VIRTIO_MMIO_DEVICE_FEATURES = 0x010"
definition VIRTIO_MMIO_DRIVER_FEATURES :: u64 where "VIRTIO_MMIO_DRIVER_FEATURES = 0x020"
definition VIRTIO_MMIO_QUEUE_SEL :: u64 where "VIRTIO_MMIO_QUEUE_SEL = 0x030"
definition VIRTIO_MMIO_QUEUE_NUM_MAX :: u64 where "VIRTIO_MMIO_QUEUE_NUM_MAX = 0x034"
definition VIRTIO_MMIO_QUEUE_NUM :: u64 where "VIRTIO_MMIO_QUEUE_NUM = 0x038"
definition VIRTIO_MMIO_QUEUE_READY :: u64 where "VIRTIO_MMIO_QUEUE_READY = 0x044"
definition VIRTIO_MMIO_STATUS :: u64 where "VIRTIO_MMIO_STATUS = 0x070"
definition VIRTIO_MMIO_QUEUE_DESC_LOW :: u64 where "VIRTIO_MMIO_QUEUE_DESC_LOW = 0x080"
definition VIRTIO_MMIO_QUEUE_DESC_HIGH :: u64 where "VIRTIO_MMIO_QUEUE_DESC_HIGH = 0x084"
definition VIRTIO_MMIO_DRIVER_DESC_LOW :: u64 where "VIRTIO_MMIO_DRIVER_DESC_LOW = 0x090"
definition VIRTIO_MMIO_DRIVER_DESC_HIGH :: u64 where "VIRTIO_MMIO_DRIVER_DESC_HIGH = 0x094"
definition VIRTIO_MMIO_DEVICE_DESC_LOW :: u64 where "VIRTIO_MMIO_DEVICE_DESC_LOW = 0x0a0"
definition VIRTIO_MMIO_DEVICE_DESC_HIGH :: u64 where "VIRTIO_MMIO_DEVICE_DESC_HIGH = 0x0a4"

definition VIRTIO_CONFIG_S_ACKNOWLEDGE :: u32 where "VIRTIO_CONFIG_S_ACKNOWLEDGE = 1"
definition VIRTIO_CONFIG_S_DRIVER :: u32 where "VIRTIO_CONFIG_S_DRIVER = 2"
definition VIRTIO_CONFIG_S_DRIVER_OK :: u32 where "VIRTIO_CONFIG_S_DRIVER_OK = 4"
definition VIRTIO_CONFIG_S_FEATURES_OK :: u32 where "VIRTIO_CONFIG_S_FEATURES_OK = 8"

text \<open>The features that the driver turns off, by their bit numbers.\<close>

definition refused_features :: "nat list" where
  "refused_features = [5, 7, 11, 12, 27, 29, 28]"

text \<open>
  The device is a parameter: \<open>rd d r\<close> is the value of its register \<open>r\<close> in state \<open>d\<close>, and
  \<open>wr d r v\<close> its state after a store.
\<close>

definition virtio_negotiate ::
  "('d \<Rightarrow> u64 \<Rightarrow> u32) \<Rightarrow> ('d \<Rightarrow> u64 \<Rightarrow> u32 \<Rightarrow> 'd) \<Rightarrow> 'd \<Rightarrow> (u32 \<times> 'd) res" where
  "virtio_negotiate rd wr d =
     (if rd d VIRTIO_MMIO_MAGIC_VALUE \<noteq> 0x74726976 \<or> rd d VIRTIO_MMIO_VERSION \<noteq> 2 \<or>
         rd d VIRTIO_MMIO_DEVICE_ID \<noteq> 2 \<or> rd d VIRTIO_MMIO_VENDOR_ID \<noteq> 0x554d4551
      then Inl (Panic ''could not find virtio disk'')
      else
        (let status = 0;
             d = wr d VIRTIO_MMIO_STATUS status;
             status = status OR VIRTIO_CONFIG_S_ACKNOWLEDGE;
             d = wr d VIRTIO_MMIO_STATUS status;
             status = status OR VIRTIO_CONFIG_S_DRIVER;
             d = wr d VIRTIO_MMIO_STATUS status;
             features = fold (\<lambda>k f. f AND NOT (push_bit k 1)) refused_features (rd d VIRTIO_MMIO_DEVICE_FEATURES);
             d = wr d VIRTIO_MMIO_DRIVER_FEATURES features;
             status = status OR VIRTIO_CONFIG_S_FEATURES_OK;
             d = wr d VIRTIO_MMIO_STATUS status;
             status = rd d VIRTIO_MMIO_STATUS in
         if status AND VIRTIO_CONFIG_S_FEATURES_OK = 0 then Inl (Panic ''virtio disk FEATURES_OK unset'')
         else
           (let d = wr d VIRTIO_MMIO_QUEUE_SEL 0 in
            if rd d VIRTIO_MMIO_QUEUE_READY \<noteq> 0 then Inl (Panic ''virtio disk should not be ready'')
            else
              (let mx = rd d VIRTIO_MMIO_QUEUE_NUM_MAX in
               if mx = 0 then Inl (Panic ''virtio disk has no queue 0'')
               else if mx < of_nat NUM then Inl (Panic ''virtio disk max queue too short'')
               else Inr (status, d)))))"

definition virtio_set_queue ::
  "('d \<Rightarrow> u64 \<Rightarrow> u32 \<Rightarrow> 'd) \<Rightarrow> u64 \<Rightarrow> u64 \<Rightarrow> u64 \<Rightarrow> 'd \<Rightarrow> 'd" where
  "virtio_set_queue wr desc avail used d =
     (let d = wr d VIRTIO_MMIO_QUEUE_NUM (of_nat NUM);
          d = wr d VIRTIO_MMIO_QUEUE_DESC_LOW (ucast (V2P desc));
          d = wr d VIRTIO_MMIO_QUEUE_DESC_HIGH (ucast (drop_bit 32 (V2P desc)));
          d = wr d VIRTIO_MMIO_DRIVER_DESC_LOW (ucast (V2P avail));
          d = wr d VIRTIO_MMIO_DRIVER_DESC_HIGH (ucast (drop_bit 32 (V2P avail)));
          d = wr d VIRTIO_MMIO_DEVICE_DESC_LOW (ucast (V2P used));
          d = wr d VIRTIO_MMIO_DEVICE_DESC_HIGH (ucast (drop_bit 32 (V2P used)))
      in wr d VIRTIO_MMIO_QUEUE_READY 1)"

text \<open>
  \<open>virtio_disk_init\<close>: the three pages come from \<open>kalloc\<close>, and their zeroed contents are the
  initial rings; \<open>disk.used_idx\<close> and \<open>disk.info\<close> are zero from the start.
\<close>

definition virtio_disk_init ::
  "('d \<Rightarrow> u64 \<Rightarrow> u32) \<Rightarrow> ('d \<Rightarrow> u64 \<Rightarrow> u32 \<Rightarrow> 'd) \<Rightarrow> 'd \<Rightarrow> vdisk \<times> 'a bstate_scheme \<Rightarrow>
   ('d \<times> vdisk \<times> 'a bstate_scheme) res" where
  "virtio_disk_init rd wr d vs =
     bindE (virtio_negotiate rd wr d) (\<lambda>(status, d).
     let (v, s) = vs; (desc, s) = kalloc s; (avail, s) = kalloc s; (used, s) = kalloc s in
     if desc = 0 \<or> avail = 0 \<or> used = 0 then Inl (Panic ''virtio disk kalloc'')
     else
       (let s = s\<lparr>mem := memset (memset (memset (mem s) desc 0 PG_SIZE) avail 0 PG_SIZE) used 0 PG_SIZE\<rparr>;
            v = v\<lparr>v_desc := replicate NUM zero_desc, v_avail := replicate NUM 0, v_avail_idx := 0,
                  v_used := replicate NUM 0, v_used_dev := 0, v_seen := 0\<rparr>;
            d = virtio_set_queue wr desc avail used d;
            v = v\<lparr>v_free := replicate NUM True\<rparr>
        in Inr (wr d VIRTIO_MMIO_STATUS (status OR VIRTIO_CONFIG_S_DRIVER_OK), v, s)))"

end
