(* ===== verification/Proc.thy ===== *)
theory Proc
  imports File Virtio
begin

text \<open>
  Processes, \<open>kernel/proc.c\<close>: creation, \<open>fork\<close>, \<open>exit\<close> and \<open>wait\<close>, sleeping, killing
  and scheduling. The trap frame of a process lies on its kernel stack, in kernel memory; its
  fields are 64-bit words in the order of \<open>kernel/proc.h\<close>. The addresses of \<open>trapret\<close> and
  \<open>forkret\<close>, which the linker chooses, are fields of the state.
\<close>

section \<open>State\<close>

record kstate = filestate +
  ticks :: u32
  forkret_first :: bool
  ttbr0 :: u64
  sym_trapret :: u64
  sym_forkret :: u64
  vdisk :: vdisk

definition PROC_KSTACK_SIZE :: u64 where
  "PROC_KSTACK_SIZE = 4096"

definition TF_SP :: nat where "TF_SP = 31"
definition TF_PC :: nat where "TF_PC = 32"
definition TF_SPSR :: nat where "TF_SPSR = 33"

text \<open>\<open>sizeof(struct trapframe)\<close>: 34 registers.\<close>

definition TF_SIZE :: nat where
  "TF_SIZE = 34 * 8"

definition tf_addr :: "u64 \<Rightarrow> nat \<Rightarrow> u64" where
  "tf_addr tf r = tf + 8 * of_nat r"

definition tf_get :: "u64 \<Rightarrow> nat \<Rightarrow> 'a kmem_scheme \<Rightarrow> u64" where
  "tf_get tf r s = ld64 (mem s) (tf_addr tf r)"

definition tf_set :: "u64 \<Rightarrow> nat \<Rightarrow> u64 \<Rightarrow> 'a kmem_scheme \<Rightarrow> 'a kmem_scheme" where
  "tf_set tf r v s = upd_mem (\<lambda>m. st64 m (tf_addr tf r) v) s"

definition uvmswitch :: "nat \<Rightarrow> 'a kstate_scheme \<Rightarrow> 'a kstate_scheme res" where
  "uvmswitch i s =
     (if p_pagetable (procs s ! i) = 0 then Inl (Panic ''uvmswitch'')
      else Inr (s\<lparr>ttbr0 := V2P (p_pagetable (procs s ! i))\<rparr>))"

section \<open>Allocation\<close>

definition procinit :: "'a proctab_scheme \<Rightarrow> 'a proctab_scheme" where
  "procinit s = s\<lparr>procs := map (\<lambda>p. p\<lparr>p_state := UNUSED\<rparr>) (procs s)\<rparr>"

definition allocpid :: "'a proctab_scheme \<Rightarrow> int \<times> 'a proctab_scheme" where
  "allocpid s = (nextpid s, s\<lparr>nextpid := nextpid s + 1\<rparr>)"

definition freeproc :: "nat \<Rightarrow> 'a proctab_scheme \<Rightarrow> 'a proctab_scheme res" where
  "freeproc i s =
     bindE (if p_kstack (procs s ! i) \<noteq> 0 then kfree (p_kstack (procs s ! i)) s else Inr s) (\<lambda>s.
     let s = upd_proc i (\<lambda>p. p\<lparr>p_kstack := 0\<rparr>) s in
     bindE (if p_pagetable (procs s ! i) \<noteq> 0
            then uvmfree (p_pagetable (procs s ! i)) (p_size (procs s ! i)) s else Inr s) (\<lambda>s.
     Inr (upd_proc i (\<lambda>p. p\<lparr>p_pagetable := 0, p_size := 0, p_pid := 0, p_parent := None,
            p_name := (p_name p)[0 := 0], p_chan := None, p_killed := False, p_xstate := 0,
            p_state := UNUSED, p_trapframe := 0\<rparr>) s)))"

definition zero_context :: regcontext where
  "zero_context = \<lparr>ctx_x16 = 0, ctx_x17 = 0, ctx_x18 = 0, ctx_x19 = 0, ctx_x20 = 0, ctx_x21 = 0,
     ctx_x22 = 0, ctx_x23 = 0, ctx_x24 = 0, ctx_x25 = 0, ctx_x26 = 0, ctx_x27 = 0, ctx_x28 = 0,
     ctx_x29 = 0, ctx_lr = 0, ctx_sp = 0\<rparr>"

definition allocproc :: "'a kstate_scheme \<Rightarrow> (nat option \<times> 'a kstate_scheme) res" where
  "allocproc s =
     (case List.find (\<lambda>i. p_state (procs s ! i) = UNUSED) [0..<NPROC] of
        None \<Rightarrow> Inr (None, s)
      | Some i \<Rightarrow>
          (let (pid, s) = allocpid s;
               s = upd_proc i (\<lambda>p. p\<lparr>p_pid := pid, p_state := USED\<rparr>) s;
               (kstack, s) = kalloc s;
               s = upd_proc i (\<lambda>p. p\<lparr>p_kstack := kstack\<rparr>) s in
           if kstack = 0 then bindE (freeproc i s) (\<lambda>s. Inr (None, s))
           else
             (let s = upd_mem (\<lambda>m. memset m kstack 0 PG_SIZE) s;
                  sp = kstack + PROC_KSTACK_SIZE;
                  (pde, s) = kalloc s;
                  s = upd_proc i (\<lambda>p. p\<lparr>p_pagetable := pde\<rparr>) s in
              if pde = 0 then bindE (freeproc i s) (\<lambda>s. Inr (None, s))
              else
                (let s = upd_mem (\<lambda>m. memset m pde 0 PG_SIZE) s;
                     sp = sp - of_nat TF_SIZE;
                     s = upd_proc i (\<lambda>p. p\<lparr>p_trapframe := sp\<rparr>) s;
                     sp = sp - 8;
                     s = upd_mem (\<lambda>m. st64 m sp (sym_trapret s)) s;
                     sp = sp - 8;
                     s = upd_mem (\<lambda>m. st64 m sp (kstack + PROC_KSTACK_SIZE)) s;
                     s = upd_proc i (\<lambda>p. p\<lparr>p_context := zero_context\<lparr>ctx_lr := sym_forkret s + 8,
                           ctx_sp := sp\<rparr>\<rparr>) s
                 in Inr (Some i, s)))))"

text \<open>\<open>userinit\<close>: \<open>initcode\<close> is the binary of the first program, which the linker includes.\<close>

definition userinit :: "u8 list \<Rightarrow> 'a kstate_scheme \<Rightarrow> 'a kstate_scheme res" where
  "userinit initcode s =
     bindE (allocproc s) (\<lambda>(p, s).
     case p of
       None \<Rightarrow> Inl Fault
     | Some p \<Rightarrow>
         bindE (uvmfirst (p_pagetable (procs s ! p)) initcode (s\<lparr>initproc := p\<rparr>)) (\<lambda>s.
         let s = upd_proc p (\<lambda>x. x\<lparr>p_size := PROC_KSTACK_SIZE\<rparr>) s;
             tf = p_trapframe (procs s ! p);
             s = upd_mem (\<lambda>m. memset m tf 0 TF_SIZE) s;
             s = tf_set tf TF_SPSR 0 s;
             s = tf_set tf TF_SP PROC_KSTACK_SIZE s;
             s = tf_set tf 30 0 s;
             s = tf_set tf TF_PC 0 s in
         bindE (safestrcpy (p_name (procs s ! p)) (bptr (ascii ''initcode'')) 16) (\<lambda>name.
         bindE (namei [slash] (upd_proc p (\<lambda>x. x\<lparr>p_name := name\<rparr>) s)) (\<lambda>(cwd, s).
         Inr (upd_proc p (\<lambda>x. x\<lparr>p_cwd := cwd, p_state := RUNNABLE\<rparr>) s)))))"

definition forkret :: "'a kstate_scheme \<Rightarrow> 'a kstate_scheme res" where
  "forkret s = (if forkret_first s then fsinit ROOTDEV (s\<lparr>forkret_first := False\<rparr>) else Inr s)"

section \<open>Scheduling\<close>

text \<open>
  The body of the scheduler's loop up to the switch to process \<open>i\<close>, and the search for the
  process it switches to next when it last looked at process \<open>i\<close>.
\<close>

definition scheduler_pick :: "nat \<Rightarrow> 'a kstate_scheme \<Rightarrow> (bool \<times> 'a kstate_scheme) res" where
  "scheduler_pick i s =
     (if p_state (procs s ! i) = RUNNABLE then
        bindE (uvmswitch i ((upd_proc i (\<lambda>p. p\<lparr>p_state := RUNNING\<rparr>) s)\<lparr>cur := i\<rparr>))
          (\<lambda>s. Inr (True, s))
      else Inr (False, s))"

primrec scheduler_scan :: "nat list \<Rightarrow> 'a kstate_scheme \<Rightarrow> (nat option \<times> 'a kstate_scheme) res" where
  "scheduler_scan [] s = Inr (None, s)"
| "scheduler_scan (i # is) s =
     bindE (scheduler_pick i s) (\<lambda>(picked, s). if picked then Inr (Some i, s) else scheduler_scan is s)"

definition scheduler_next :: "nat \<Rightarrow> 'a kstate_scheme \<Rightarrow> (nat option \<times> 'a kstate_scheme) res" where
  "scheduler_next i s = scheduler_scan ([Suc i..<NPROC] @ [0..<min (Suc i) NPROC]) s"

text \<open>
  \<open>sched\<close>: the switch to the scheduler, which panics when the process still counts as running.
  Its other checks concern the locks and interrupts of the CPU.
\<close>

definition sched :: "'a proctab_scheme \<Rightarrow> 'a proctab_scheme res" where
  "sched s = (if p_state (myproc s) = RUNNING then Inl (Panic ''sched running'') else Inr s)"

definition yield :: "'a proctab_scheme \<Rightarrow> (progress \<times> 'a proctab_scheme) res" where
  "yield s =
     (if p_state (myproc s) \<noteq> RUNNING then Inr (Returned 0, s)
      else bindE (sched (upd_proc (cur s) (\<lambda>p. p\<lparr>p_state := RUNNABLE\<rparr>) s)) (\<lambda>s. Inr (Yielded, s)))"

text \<open>\<open>sleep\<close> up to the switch to the scheduler, and what it does after it was woken up.\<close>

definition sleep :: "chan \<Rightarrow> 'a proctab_scheme \<Rightarrow> 'a proctab_scheme res" where
  "sleep ch s = sched (upd_proc (cur s) (\<lambda>p. p\<lparr>p_chan := Some ch, p_state := SLEEPING\<rparr>) s)"

definition sleep_return :: "'a proctab_scheme \<Rightarrow> 'a proctab_scheme" where
  "sleep_return s = upd_proc (cur s) (\<lambda>p. p\<lparr>p_chan := None\<rparr>) s"

section \<open>Exit, fork and wait\<close>

definition reparent :: "nat \<Rightarrow> 'a proctab_scheme \<Rightarrow> 'a proctab_scheme" where
  "reparent p s =
     fold (\<lambda>pp s. if p_parent (procs s ! pp) = Some p
                   then wakeup (Chan_proc (initproc s)) (upd_proc pp (\<lambda>x. x\<lparr>p_parent := Some (initproc s)\<rparr>) s)
                   else s) [0..<NPROC] s"

text \<open>\<open>wakeup(p->parent)\<close>, where a NULL parent wakes up nobody.\<close>

definition wakeup_parent :: "nat \<Rightarrow> 'a proctab_scheme \<Rightarrow> 'a proctab_scheme" where
  "wakeup_parent p s =
     (case p_parent (procs s ! p) of None \<Rightarrow> s | Some pp \<Rightarrow> wakeup (Chan_proc pp) s)"

definition exit :: "int \<Rightarrow> 'a filestate_scheme \<Rightarrow> (progress \<times> 'a filestate_scheme) res" where
  "exit status s =
     (let p = cur s in
      if p = initproc s then Inl (Panic ''init exiting'')
      else
        bindE (foreach (\<lambda>fd s.
            case p_ofile (procs s ! p) ! fd of
              None \<Rightarrow> Inr s
            | Some f \<Rightarrow> bindE (fileclose f s) (\<lambda>s.
                Inr (upd_proc p (\<lambda>x. x\<lparr>p_ofile := (p_ofile x)[fd := None]\<rparr>) s))) [0..<NOFILE] s) (\<lambda>s.
        bindE (begin_op s) (\<lambda>s.
        bindE (deref (p_cwd (procs s ! p))) (\<lambda>cwd.
        bindE (iput cwd s) (\<lambda>s.
        bindE (end_op s) (\<lambda>s.
        let s = upd_proc p (\<lambda>x. x\<lparr>p_cwd := None\<rparr>) s;
            s = reparent p s;
            s = wakeup_parent p s;
            s = upd_proc p (\<lambda>x. x\<lparr>p_xstate := status, p_state := ZOMBIE\<rparr>) s
        in bindE (sched s) (\<lambda>s. Inr (Exited, s))))))))"

definition fork :: "'a kstate_scheme \<Rightarrow> (int \<times> 'a kstate_scheme) res" where
  "fork s =
     bindE (allocproc s) (\<lambda>(np, s).
     case np of
       None \<Rightarrow> Inr (- 1, s)
     | Some np \<Rightarrow>
         (let p = cur s in
          bindE (uvmcopy (p_pagetable (procs s ! p)) (p_pagetable (procs s ! np)) (p_size (procs s ! p)) s) (\<lambda>(r, s).
          if r < 0 then bindE (freeproc np s) (\<lambda>s. Inr (- 1, s))
          else
            (let s = upd_proc np (\<lambda>x. x\<lparr>p_size := p_size (procs s ! p)\<rparr>) s;
                 tf = p_trapframe (procs s ! np);
                 s = upd_mem (\<lambda>m. memmove m tf (p_trapframe (procs s ! p)) TF_SIZE) s;
                 s = tf_set tf 0 0 s in
             bindE (foreach (\<lambda>i s.
                 case p_ofile (procs s ! p) ! i of
                   None \<Rightarrow> Inr s
                 | Some f \<Rightarrow> bindE (filedup f s) (\<lambda>s.
                     Inr (upd_proc np (\<lambda>x. x\<lparr>p_ofile := (p_ofile x)[i := Some f]\<rparr>) s))) [0..<NOFILE] s) (\<lambda>s.
             bindE (deref (p_cwd (procs s ! p))) (\<lambda>cwd.
             let s = upd_proc np (\<lambda>x. x\<lparr>p_cwd := Some cwd\<rparr>) (idup cwd s) in
             bindE (safestrcpy (p_name (procs s ! np)) (bptr (p_name (procs s ! p))) 16) (\<lambda>name.
             let s = upd_proc np (\<lambda>x. x\<lparr>p_name := name\<rparr>) s;
                 pid = p_pid (procs s ! np);
                 s = upd_proc np (\<lambda>x. x\<lparr>p_parent := Some p\<rparr>) s
             in Inr (pid, upd_proc np (\<lambda>x. x\<lparr>p_state := RUNNABLE\<rparr>) s))))))))"

text \<open>One pass of \<open>wait\<close> over the table; it sleeps on the caller's own channel.\<close>

definition children :: "nat \<Rightarrow> 'a proctab_scheme \<Rightarrow> nat list" where
  "children p s = filter (\<lambda>i. p_parent (procs s ! i) = Some p) [0..<NPROC]"

definition wait :: "u64 \<Rightarrow> 'a proctab_scheme \<Rightarrow> (progress \<times> 'a proctab_scheme) res" where
  "wait addr s =
     (let p = cur s in
      case List.find (\<lambda>pp. p_state (procs s ! pp) = ZOMBIE) (children p s) of
        Some pp \<Rightarrow>
          (let pid = p_pid (procs s ! pp);
               (r, s) = (if addr \<noteq> 0
                         then copyout (p_pagetable (procs s ! p)) addr
                                (le_bytes 4 (word_of_int (p_xstate (procs s ! pp)) :: u32)) s
                         else (0, s))
           in if r < 0 then Inr (Returned (- 1), s)
              else bindE (freeproc pp s) (\<lambda>s. Inr (Returned pid, s)))
      | None \<Rightarrow>
          if children p s = [] \<or> killed p s then Inr (Returned (- 1), s)
          else Inr (Waiting (Chan_proc p) 0, s))"

definition growproc :: "int \<Rightarrow> 'a proctab_scheme \<Rightarrow> (int \<times> 'a proctab_scheme) res" where
  "growproc n s =
     (let p = myproc s; sz = p_size p in
      if n > 0 then
        bindE (uvmalloc (p_pagetable p) sz (sz + word_of_int n) USER_4K_PAGE_RW_XN s) (\<lambda>(sz, s).
        if sz = 0 then Inr (- 1, s) else Inr (0, upd_proc (cur s) (\<lambda>p. p\<lparr>p_size := sz\<rparr>) s))
      else if n < 0 then
        bindE (uvmdealloc (p_pagetable p) sz (sz + word_of_int n) s) (\<lambda>(sz, s).
        Inr (0, upd_proc (cur s) (\<lambda>p. p\<lparr>p_size := sz\<rparr>) s))
      else Inr (0, s))"

definition kill :: "int \<Rightarrow> 'a proctab_scheme \<Rightarrow> int \<times> 'a proctab_scheme" where
  "kill pid s =
     (case List.find (\<lambda>i. p_pid (procs s ! i) = pid) [0..<NPROC] of
        None \<Rightarrow> (- 1, s)
      | Some i \<Rightarrow> (0, upd_proc i (\<lambda>p. p\<lparr>p_killed := True,
          p_state := (if p_state p = SLEEPING then RUNNABLE else p_state p)\<rparr>) s))"

end
