(* ===== verification/Exec.thy ===== *)
theory Exec
  imports Proc
begin

text \<open>
  Fetching the arguments of a system call, from \<open>kernel/syscall.c\<close>, and \<open>exec\<close>, from
  \<open>kernel/exec.c\<close>. The ELF headers are read as bytes and decoded at the offsets of
  \<open>kernel/elf.h\<close>.
\<close>

unbundle bit_operations_syntax

section \<open>Arguments\<close>

definition fetchaddr :: "u64 \<Rightarrow> 'a proctab_scheme \<Rightarrow> u64 option" where
  "fetchaddr addr s =
     (let p = myproc s in
      if p_size p \<le> addr \<or> p_size p < addr + 8 then None
      else (case copyin (p_pagetable p) addr 8 s of
              (r, bs) \<Rightarrow> if r \<noteq> 0 then None else Some (le_word bs)))"

text \<open>\<open>fetchstr\<close>: the returned length, and the bytes that were stored in \<open>buf\<close>.\<close>

definition fetchstr :: "u64 \<Rightarrow> nat \<Rightarrow> 'a proctab_scheme \<Rightarrow> int \<times> u8 list" where
  "fetchstr addr mx s =
     (case copyinstr (p_pagetable (myproc s)) addr mx [] s of
        (r, buf) \<Rightarrow>
          if r < 0 then (- 1, buf) else (int (length (takeWhile (\<lambda>c. c \<noteq> 0) buf)), buf))"

definition argraw :: "nat \<Rightarrow> 'a proctab_scheme \<Rightarrow> u64 res" where
  "argraw n s =
     (if n \<le> 5 then Inr (tf_get (p_trapframe (myproc s)) n s) else Inl (Panic ''argraw''))"

definition argint :: "nat \<Rightarrow> 'a proctab_scheme \<Rightarrow> int res" where
  "argint n s = bindE (argraw n s) (\<lambda>v. Inr (sint (ucast v :: u32)))"

definition argaddr :: "nat \<Rightarrow> 'a proctab_scheme \<Rightarrow> u64 res" where
  "argaddr n s = argraw n s"

text \<open>\<open>argstr\<close>: the string without its NUL, or \<^term>\<open>None\<close> for an error.\<close>

definition argstr :: "nat \<Rightarrow> nat \<Rightarrow> 'a proctab_scheme \<Rightarrow> u8 list option res" where
  "argstr n mx s =
     bindE (argaddr n s) (\<lambda>addr.
     case fetchstr addr mx s of
       (r, buf) \<Rightarrow> Inr (if r < 0 then None else Some (takeWhile (\<lambda>c. c \<noteq> 0) buf)))"

section \<open>ELF headers\<close>

definition get64 :: "nat \<Rightarrow> u8 list \<Rightarrow> u64" where
  "get64 off bs = le_word (seg off 8 bs)"

definition ELF_MAGIC :: u32 where
  "ELF_MAGIC = 0x464C457F"

definition ELF_PROG_LOAD :: u32 where
  "ELF_PROG_LOAD = 1"

definition ELFHDR_SIZE :: nat where
  "ELFHDR_SIZE = 64"

definition PROGHDR_SIZE :: nat where
  "PROGHDR_SIZE = 56"

definition elf_magic :: "u8 list \<Rightarrow> u32" where "elf_magic h = get32 0 h"
definition elf_entry :: "u8 list \<Rightarrow> u64" where "elf_entry h = get64 24 h"
definition elf_phoff :: "u8 list \<Rightarrow> u64" where "elf_phoff h = get64 32 h"
definition elf_phnum :: "u8 list \<Rightarrow> u16" where "elf_phnum h = get16 56 h"

definition ph_type :: "u8 list \<Rightarrow> u32" where "ph_type h = get32 0 h"
definition ph_flags :: "u8 list \<Rightarrow> u32" where "ph_flags h = get32 4 h"
definition ph_off :: "u8 list \<Rightarrow> u64" where "ph_off h = get64 8 h"
definition ph_vaddr :: "u8 list \<Rightarrow> u64" where "ph_vaddr h = get64 16 h"
definition ph_filesz :: "u8 list \<Rightarrow> u64" where "ph_filesz h = get64 32 h"
definition ph_memsz :: "u8 list \<Rightarrow> u64" where "ph_memsz h = get64 40 h"

definition MAXARG :: nat where
  "MAXARG = 32"

section \<open>Loading\<close>

text \<open>\<open>loadseg\<close>: \<open>i\<close> and \<open>size\<close> are 32-bit; at \<open>2^32\<close> the counter would start over.\<close>

function loadseg_loop ::
  "u64 \<Rightarrow> u64 \<Rightarrow> nat \<Rightarrow> u32 \<Rightarrow> nat \<Rightarrow> nat \<Rightarrow> 'a fstate_scheme \<Rightarrow> (int \<times> 'a fstate_scheme) res" where
  "loadseg_loop pde vaddr ip offset sz i s =
     (if i < sz then
        (let paddr = walkaddr pde (vaddr + of_nat i) s;
             n = min (sz - i) PG_SIZE in
         if paddr = 0 then Inl (Panic ''loadseg: address should exist'')
         else
           bindE (readi ip (Kern paddr) (offset + of_nat i) (of_nat n) s) (\<lambda>(r, dst, s).
           if r \<noteq> int n then Inr (- 1, s)
           else if 2 ^ 32 \<le> i + PG_SIZE then Inl Diverge
           else loadseg_loop pde vaddr ip offset sz (i + PG_SIZE) s))
      else Inr (0, s))"
  by pat_completeness auto

termination loadseg_loop
  by (relation "measure (\<lambda>(pde, vaddr, ip, offset, sz, i, s). sz - i)") (auto simp: PG_SIZE_def)

declare loadseg_loop.simps [simp del]

definition loadseg ::
  "u64 \<Rightarrow> u64 \<Rightarrow> nat \<Rightarrow> u32 \<Rightarrow> u32 \<Rightarrow> 'a fstate_scheme \<Rightarrow> (int \<times> 'a fstate_scheme) res" where
  "loadseg pde vaddr ip offset sz s = loadseg_loop pde vaddr ip offset (unat sz) 0 s"

definition getflags :: "u32 \<Rightarrow> u64" where
  "getflags flags =
     (if flags AND 1 \<noteq> 0 \<and> flags AND 2 \<noteq> 0 then USER_4K_PAGE_RW
      else if flags AND 1 \<noteq> 0 then USER_4K_PAGE_RO
      else if flags AND 2 \<noteq> 0 then USER_4K_PAGE_RW_XN
      else USER_4K_PAGE_RO_XN)"

text \<open>\<open>readi\<close> of \<open>n\<close> bytes into a variable; \<^term>\<open>None\<close> for a short read.\<close>

definition read_local ::
  "nat \<Rightarrow> u32 \<Rightarrow> nat \<Rightarrow> 'a fstate_scheme \<Rightarrow> (u8 list option \<times> 'a fstate_scheme) res" where
  "read_local ip off n s =
     bindE (readi ip (Klocal 0 (replicate n 0)) off (of_nat n) s) (\<lambda>(r, dst, s).
     case dst of
       Klocal _ bs \<Rightarrow> Inr (if r \<noteq> int n then None else Some bs, s)
     | _ \<Rightarrow> Inl Fault)"

text \<open>The loop over the program headers with \<open>n\<close> of them left: the size, and whether it succeeded.\<close>

primrec exec_load ::
  "nat \<Rightarrow> u64 \<Rightarrow> nat \<Rightarrow> u32 \<Rightarrow> u64 \<Rightarrow> 'a fstate_scheme \<Rightarrow> (bool \<times> u64 \<times> 'a fstate_scheme) res" where
  "exec_load 0 pde ip off sz s = Inr (True, sz, s)"
| "exec_load (Suc n) pde ip off sz s =
     bindE (read_local ip off PROGHDR_SIZE s) (\<lambda>(ph, s).
     case ph of
       None \<Rightarrow> Inr (False, sz, s)
     | Some ph \<Rightarrow>
         if ph_type ph \<noteq> ELF_PROG_LOAD then exec_load n pde ip (off + of_nat PROGHDR_SIZE) sz s
         else if ph_memsz ph < ph_filesz ph then Inr (False, sz, s)
         else if ph_vaddr ph mod of_nat PG_SIZE \<noteq> 0 then Inr (False, sz, s)
         else
           bindE (uvmalloc pde sz (ph_vaddr ph + ph_memsz ph) (getflags (ph_flags ph)) s) (\<lambda>(sz1, s).
           if sz1 = 0 then Inr (False, sz, s)
           else
             bindE (loadseg pde (ph_vaddr ph) ip (ucast (ph_off ph)) (ucast (ph_filesz ph)) s) (\<lambda>(r, s).
             if r < 0 then Inr (False, sz1, s)
             else exec_load n pde ip (off + of_nat PROGHDR_SIZE) sz1 s)))"

section \<open>The stack of the new image\<close>

text \<open>A NUL-terminated string in a page of the kernel.\<close>

definition str_at :: "bmem \<Rightarrow> u64 \<Rightarrow> u8 list" where
  "str_at m a = takeWhile (\<lambda>c. c \<noteq> 0) (get_bytes m a PG_SIZE)"

text \<open>
  Pushing the strings: \<open>argv\<close> is the rest of the array of addresses, \<open>ustack\<close> what was stored
  so far. The result is \<^term>\<open>None\<close> at \<open>goto bad\<close>.
\<close>

primrec push_args ::
  "u64 \<Rightarrow> u64 \<Rightarrow> u64 list \<Rightarrow> u64 \<Rightarrow> u64 list \<Rightarrow> 'a kmem_scheme \<Rightarrow> (u64 \<times> u64 list) option \<times> 'a kmem_scheme" where
  "push_args pde stackbase [] sp ustack s = (Some (sp, ustack), s)"
| "push_args pde stackbase (a # argv) sp ustack s =
     (if MAXARG \<le> length ustack then (None, s)
      else
        (let str = str_at (mem s) a;
             sp = sp - (of_nat (length str) + 1);
             sp = sp - sp mod 16 in
         if sp < stackbase then (None, s)
         else
           (case copyout pde sp (str @ [0]) s of
              (r, s) \<Rightarrow>
                if r < 0 then (None, s)
                else push_args pde stackbase argv sp (ustack @ [sp]) s)))"

definition push_ustack ::
  "u64 \<Rightarrow> u64 \<Rightarrow> u64 \<Rightarrow> u64 list \<Rightarrow> 'a kmem_scheme \<Rightarrow> u64 option \<times> 'a kmem_scheme" where
  "push_ustack pde stackbase sp ustack s =
     (let sp = sp - of_nat (length ustack + 1) * 8;
          sp = sp - sp mod 16 in
      if sp < stackbase then (None, s)
      else
        (case copyout pde sp (concat (map (le_bytes 8) (ustack @ [0]))) s of
           (r, s) \<Rightarrow> if r < 0 then (None, s) else (Some sp, s)))"

text \<open>The last component of the path, the name of the program.\<close>

definition last_elem :: "u8 list \<Rightarrow> u8 list" where
  "last_elem path = rev (takeWhile (\<lambda>c. c \<noteq> slash) (rev path))"

definition exec_commit ::
  "u64 \<Rightarrow> u64 \<Rightarrow> u64 \<Rightarrow> u64 \<Rightarrow> u8 list \<Rightarrow> nat \<Rightarrow> 'a kstate_scheme \<Rightarrow> (int \<times> 'a kstate_scheme) res" where
  "exec_commit pde sz sp entry path argc s =
     (let tf = p_trapframe (myproc s);
          s = tf_set tf 1 sp s in
      bindE (safestrcpy (p_name (myproc s)) (bptr (last_elem path)) 16) (\<lambda>name.
      let s = upd_proc (cur s) (\<lambda>p. p\<lparr>p_name := name\<rparr>) s;
          oldpde = p_pagetable (myproc s);
          oldsz = p_size (myproc s);
          s = upd_proc (cur s) (\<lambda>p. p\<lparr>p_pagetable := pde, p_size := sz\<rparr>) s;
          s = tf_set tf TF_PC entry s;
          s = tf_set tf TF_SP sp s in
      bindE (uvmswitch (cur s) s) (\<lambda>s.
      bindE (uvmfree oldpde oldsz s) (\<lambda>s. Inr (int argc, s)))))"

text \<open>The exits \<open>bad\<close>: before and after the inode was released.\<close>

definition exec_bad :: "u64 \<Rightarrow> u64 \<Rightarrow> nat option \<Rightarrow> 'a fstate_scheme \<Rightarrow> (int \<times> 'a fstate_scheme) res" where
  "exec_bad pde sz ip s =
     bindE (if pde \<noteq> 0 then uvmfree pde sz s else Inr s) (\<lambda>s.
     case ip of
       None \<Rightarrow> Inr (- 1, s)
     | Some ip \<Rightarrow> bindE (iunlockput ip s) (\<lambda>s. bindE (end_op s) (\<lambda>s. Inr (- 1, s))))"

text \<open>
  The new image. The array \<open>ustack\<close> has \<open>MAXARG\<close> entries: the terminating zero behind that many arguments would be
  stored out of bounds. \<open>sys_exec\<close> passes fewer.
\<close>

definition exec_image ::
  "u64 \<Rightarrow> u64 \<Rightarrow> u64 \<Rightarrow> u8 list \<Rightarrow> u64 list \<Rightarrow> 'a kstate_scheme \<Rightarrow> (int \<times> 'a kstate_scheme) res" where
  "exec_image pde sz entry path argv s =
     (let sz = PG_ROUND_UP sz in
      bindE (uvmalloc pde sz (sz + 2 * of_nat PG_SIZE) USER_4K_PAGE_RW_XN s) (\<lambda>(sz1, s).
      if sz1 = 0 then exec_bad pde sz None s
      else
        (let sz = sz1 in
         bindE (uvmclear pde (sz - 2 * of_nat PG_SIZE) s) (\<lambda>s.
         let stackbase = sz - of_nat PG_SIZE in
         case push_args pde stackbase argv sz [] s of
           (None, s) \<Rightarrow> exec_bad pde sz None s
         | (Some (sp, ustack), s) \<Rightarrow>
             if MAXARG \<le> length ustack then Inl Fault
             else
             (case push_ustack pde stackbase sp ustack s of
                (None, s) \<Rightarrow> exec_bad pde sz None s
              | (Some sp, s) \<Rightarrow> exec_commit pde sz sp entry path (length ustack) s)))))"

definition exec :: "u8 list \<Rightarrow> u64 list \<Rightarrow> 'a kstate_scheme \<Rightarrow> (int \<times> 'a kstate_scheme) res" where
  "exec path argv s =
     bindE (begin_op s) (\<lambda>s.
     bindE (namei path s) (\<lambda>(ip, s).
     case ip of
       None \<Rightarrow> bindE (end_op s) (\<lambda>s. Inr (- 1, s))
     | Some ip \<Rightarrow>
         bindE (ilock ip s) (\<lambda>s.
         bindE (read_local ip 0 ELFHDR_SIZE s) (\<lambda>(elf, s).
         case elf of
           None \<Rightarrow> exec_bad 0 0 (Some ip) s
         | Some elf \<Rightarrow>
             if elf_magic elf \<noteq> ELF_MAGIC then exec_bad 0 0 (Some ip) s
             else
               (case uvmcreate s of
                  (pde, s) \<Rightarrow>
                    if pde = 0 then exec_bad 0 0 (Some ip) s
                    else
                      bindE (exec_load (unat (elf_phnum elf)) pde ip (ucast (elf_phoff elf)) 0 s) (\<lambda>(ok, sz, s).
                      if \<not> ok then exec_bad pde sz (Some ip) s
                      else
                        bindE (iunlockput ip s) (\<lambda>s.
                        bindE (end_op s) (\<lambda>s.
                        exec_image pde sz (elf_entry elf) path argv s))))))))"

end
