(* ===== verification/Sysfile.thy ===== *)
theory Sysfile
  imports Exec
begin

text \<open>
  The system calls on files, \<open>kernel/sysfile.c\<close>. Each handler fetches its arguments from
  the trap frame of the current process, as the code does, and returns the value for register x0.
  Variables that the C code leaves uninitialised until they are written hold zeros.
\<close>

unbundle bit_operations_syntax

section \<open>File descriptors\<close>

definition MAXPATH :: nat where
  "MAXPATH = 128"

definition argfd :: "nat \<Rightarrow> 'a proctab_scheme \<Rightarrow> (nat \<times> nat) option res" where
  "argfd n s =
     bindE (argint n s) (\<lambda>fd.
     Inr (if fd < 0 \<or> int NOFILE \<le> fd then None
          else map_option (\<lambda>f. (nat fd, f)) (p_ofile (myproc s) ! nat fd)))"

definition set_ofile :: "nat \<Rightarrow> nat option \<Rightarrow> 'a proctab_scheme \<Rightarrow> 'a proctab_scheme" where
  "set_ofile fd f s = upd_proc (cur s) (\<lambda>p. p\<lparr>p_ofile := (p_ofile p)[fd := f]\<rparr>) s"

definition fdalloc :: "nat \<Rightarrow> 'a proctab_scheme \<Rightarrow> int \<times> 'a proctab_scheme" where
  "fdalloc f s =
     (case List.find (\<lambda>fd. p_ofile (myproc s) ! fd = None) [0..<NOFILE] of
        None \<Rightarrow> (- 1, s)
      | Some fd \<Rightarrow> (int fd, set_ofile fd (Some f) s))"

definition sys_write :: "'a filestate_scheme \<Rightarrow> (progress \<times> 'a filestate_scheme) res" where
  "sys_write s =
     bindE (argaddr 2 s) (\<lambda>p.
     bindE (argint 3 s) (\<lambda>n.
     bindE (argfd 1 s) (\<lambda>fd.
     case fd of None \<Rightarrow> Inr (Returned (- 1), s) | Some (_, f) \<Rightarrow> filewrite f p n s)))"

definition sys_read :: "'a filestate_scheme \<Rightarrow> (progress \<times> 'a filestate_scheme) res" where
  "sys_read s =
     bindE (argaddr 2 s) (\<lambda>p.
     bindE (argint 3 s) (\<lambda>n.
     bindE (argfd 1 s) (\<lambda>fd.
     case fd of None \<Rightarrow> Inr (Returned (- 1), s) | Some (_, f) \<Rightarrow> fileread f p n s)))"

definition sys_dup :: "'a filestate_scheme \<Rightarrow> (int \<times> 'a filestate_scheme) res" where
  "sys_dup s =
     bindE (argfd 1 s) (\<lambda>fd.
     case fd of
       None \<Rightarrow> Inr (- 1, s)
     | Some (_, f) \<Rightarrow>
         (case fdalloc f s of
            (fd, s) \<Rightarrow> if fd < 0 then Inr (- 1, s) else bindE (filedup f s) (\<lambda>s. Inr (fd, s))))"

definition sys_close :: "'a filestate_scheme \<Rightarrow> (int \<times> 'a filestate_scheme) res" where
  "sys_close s =
     bindE (argfd 1 s) (\<lambda>fd.
     case fd of
       None \<Rightarrow> Inr (- 1, s)
     | Some (fd, f) \<Rightarrow> bindE (fileclose f (set_ofile fd None s)) (\<lambda>s. Inr (0, s)))"

definition sys_fstat :: "'a filestate_scheme \<Rightarrow> (int \<times> 'a filestate_scheme) res" where
  "sys_fstat s =
     bindE (argaddr 2 s) (\<lambda>st.
     bindE (argfd 1 s) (\<lambda>fd.
     case fd of None \<Rightarrow> Inr (- 1, s) | Some (_, f) \<Rightarrow> filestat f st s))"

section \<open>exec\<close>

text \<open>
  The loop that collects the arguments: the addresses of the pages that hold them, and whether
  it succeeded. At most \<open>MAXARG\<close> rounds.
\<close>

primrec sys_exec_loop ::
  "nat \<Rightarrow> u64 \<Rightarrow> u64 list \<Rightarrow> 'a proctab_scheme \<Rightarrow> bool \<times> u64 list \<times> 'a proctab_scheme" where
  "sys_exec_loop 0 uargv argv s = (False, argv, s)"
| "sys_exec_loop (Suc k) uargv argv s =
     (case fetchaddr (uargv + 8 * of_nat (length argv)) s of
        None \<Rightarrow> (False, argv, s)
      | Some uarg \<Rightarrow>
          if uarg = 0 then (True, argv, s)
          else
            (case kalloc s of
               (a, s) \<Rightarrow>
                 if a = 0 then (False, argv, s)
                 else
                   (case fetchstr uarg PG_SIZE s of
                      (r, buf) \<Rightarrow>
                        (let s = upd_mem (\<lambda>m. put_bytes m a buf) s in
                         if r < 0 then (False, argv @ [a], s)
                         else sys_exec_loop k uargv (argv @ [a]) s))))"

definition sys_exec :: "'a kstate_scheme \<Rightarrow> (int \<times> 'a kstate_scheme) res" where
  "sys_exec s =
     bindE (argaddr 2 s) (\<lambda>uargv.
     bindE (argstr 1 MAXPATH s) (\<lambda>path.
     case path of
       None \<Rightarrow> Inr (- 1, s)
     | Some path \<Rightarrow>
         (case sys_exec_loop MAXARG uargv [] s of
            (ok, argv, s) \<Rightarrow>
              bindE (if ok then exec path argv s else Inr (- 1, s)) (\<lambda>(ret, s).
              bindE (foreach kfree argv s) (\<lambda>s. Inr (ret, s))))))"

section \<open>Creating and opening\<close>

definition dot :: "u8 list" where "dot = [46]"
definition dotdot :: "u8 list" where "dotdot = [46, 46]"

definition create_fail :: "nat \<Rightarrow> nat \<Rightarrow> 'a fstate_scheme \<Rightarrow> (nat option \<times> 'a fstate_scheme) res" where
  "create_fail ip dp s =
     bindE (iupdate ip (upd_inode ip (\<lambda>x. x\<lparr>i_nlink := 0\<rparr>) s)) (\<lambda>s.
     bindE (iunlockput ip s) (\<lambda>s.
     bindE (iunlockput dp s) (\<lambda>s. Inr (None, s))))"

text \<open>The part of \<open>create\<close> after the new inode was allocated and locked.\<close>

definition create_link ::
  "nat \<Rightarrow> nat \<Rightarrow> u8 list \<Rightarrow> u16 \<Rightarrow> 'a fstate_scheme \<Rightarrow> (nat option \<times> 'a fstate_scheme) res" where
  "create_link ip dp name type s =
     bindE
       (if type = T_DIR then
          bindE (dirlink ip dot (i_inum (inode_at s ip)) s) (\<lambda>(r, s).
          if r < 0 then Inr (r, s) else dirlink ip dotdot (i_inum (inode_at s dp)) s)
        else Inr (0, s)) (\<lambda>(r, s).
     if r < 0 then create_fail ip dp s
     else
       bindE (dirlink dp name (i_inum (inode_at s ip)) s) (\<lambda>(r, s).
       if r < 0 then create_fail ip dp s
       else
         bindE (if type = T_DIR
                then iupdate dp (upd_inode dp (\<lambda>x. x\<lparr>i_nlink := i_nlink x + 1\<rparr>) s)
                else Inr s) (\<lambda>s.
         bindE (iunlockput dp s) (\<lambda>s. Inr (Some ip, s)))))"

definition create ::
  "u8 list \<Rightarrow> u16 \<Rightarrow> u16 \<Rightarrow> u16 \<Rightarrow> 'a fstate_scheme \<Rightarrow> (nat option \<times> 'a fstate_scheme) res" where
  "create path type major minor s =
     bindE (nameiparent path (replicate DIRSIZ 0) s) (\<lambda>(dp, name, s).
     case dp of
       None \<Rightarrow> Inr (None, s)
     | Some dp \<Rightarrow>
         bindE (ilock dp s) (\<lambda>s.
         bindE (dirlookup dp name s) (\<lambda>(found, s).
         case found of
           Some (ip, _) \<Rightarrow>
             bindE (iunlockput dp s) (\<lambda>s.
             bindE (ilock ip s) (\<lambda>s.
             if type = T_FILE \<and> (i_type (inode_at s ip) = T_FILE \<or> i_type (inode_at s ip) = T_DEVICE)
             then Inr (Some ip, s)
             else bindE (iunlockput ip s) (\<lambda>s. Inr (None, s))))
         | None \<Rightarrow>
             bindE (ialloc (i_dev (inode_at s dp)) type s) (\<lambda>(ip, s).
             case ip of
               None \<Rightarrow> bindE (iunlockput dp s) (\<lambda>s. Inr (None, s))
             | Some ip \<Rightarrow>
                 bindE (ilock ip s) (\<lambda>s.
                 bindE (iupdate ip (upd_inode ip (\<lambda>x. x\<lparr>i_major := major, i_minor := minor, i_nlink := 1\<rparr>) s)) (\<lambda>s.
                 create_link ip dp name type s))))))"

text \<open>The end of a handler that gives up: unlock and put the inode, end the transaction, return -1.\<close>

definition fail_inode :: "nat \<Rightarrow> 'a fstate_scheme \<Rightarrow> (int \<times> 'a fstate_scheme) res" where
  "fail_inode ip s = bindE (iunlockput ip s) (\<lambda>s. bindE (end_op s) (\<lambda>s. Inr (- 1, s)))"

definition fail_op :: "'a fstate_scheme \<Rightarrow> (int \<times> 'a fstate_scheme) res" where
  "fail_op s = bindE (end_op s) (\<lambda>s. Inr (- 1, s))"

text \<open>The part of \<open>sys_open\<close> that opens the locked inode \<open>ip\<close>.\<close>

definition open_inode :: "nat \<Rightarrow> u32 \<Rightarrow> 'a filestate_scheme \<Rightarrow> (int \<times> 'a filestate_scheme) res" where
  "open_inode ip omode s =
     (let x = inode_at s ip in
      if i_type x = T_DEVICE \<and> (sint (i_major x) < 0 \<or> int NDEV \<le> sint (i_major x))
      then fail_inode ip s
      else
        (case filealloc s of
           (None, s) \<Rightarrow> fail_inode ip s
         | (Some f, s) \<Rightarrow>
             (case fdalloc f s of
                (fd, s) \<Rightarrow>
                  if fd < 0 then bindE (fileclose f s) (fail_inode ip)
                  else
                    (let s = upd_file f (\<lambda>y. if i_type x = T_DEVICE
                               then y\<lparr>f_type := FD_DEVICE, f_major := i_major x\<rparr>
                               else y\<lparr>f_type := FD_INODE, f_off := 0\<rparr>) s;
                         s = upd_file f (\<lambda>y. y\<lparr>f_ip := Some ip, f_readable := (omode AND O_WRONLY = 0),
                               f_writable := (omode AND O_WRONLY \<noteq> 0 \<or> omode AND O_RDWR \<noteq> 0)\<rparr>) s in
                     bindE (if omode AND O_TRUNC \<noteq> 0 \<and> i_type x = T_FILE then itrunc ip s else Inr s) (\<lambda>s.
                     bindE (iunlock ip s) (\<lambda>s.
                     bindE (end_op s) (\<lambda>s. Inr (fd, s))))))))"

definition sys_open :: "'a filestate_scheme \<Rightarrow> (int \<times> 'a filestate_scheme) res" where
  "sys_open s =
     bindE (argint 2 s) (\<lambda>omode.
     bindE (argstr 1 MAXPATH s) (\<lambda>path.
     case path of
       None \<Rightarrow> Inr (- 1, s)
     | Some path \<Rightarrow>
         bindE (begin_op s) (\<lambda>s.
         let omode = word_of_int omode in
         if omode AND O_CREATE \<noteq> 0 then
           bindE (create path T_FILE 0 0 s) (\<lambda>(ip, s).
           case ip of None \<Rightarrow> fail_op s | Some ip \<Rightarrow> open_inode ip omode s)
         else
           bindE (namei path s) (\<lambda>(ip, s).
           case ip of
             None \<Rightarrow> fail_op s
           | Some ip \<Rightarrow>
               bindE (ilock ip s) (\<lambda>s.
               if i_type (inode_at s ip) = T_DIR \<and> omode \<noteq> O_RDONLY then fail_inode ip s
               else open_inode ip omode s)))))"

definition sys_mknod :: "'a filestate_scheme \<Rightarrow> (int \<times> 'a filestate_scheme) res" where
  "sys_mknod s =
     bindE (begin_op s) (\<lambda>s.
     bindE (argint 2 s) (\<lambda>major.
     bindE (argint 3 s) (\<lambda>minor.
     bindE (argstr 1 MAXPATH s) (\<lambda>path.
     case path of
       None \<Rightarrow> fail_op s
     | Some path \<Rightarrow>
         bindE (create path T_DEVICE (word_of_int major) (word_of_int minor) s) (\<lambda>(ip, s).
         case ip of
           None \<Rightarrow> fail_op s
         | Some ip \<Rightarrow> bindE (iunlockput ip s) (\<lambda>s. bindE (end_op s) (\<lambda>s. Inr (0, s))))))))"

definition sys_mkdir :: "'a filestate_scheme \<Rightarrow> (int \<times> 'a filestate_scheme) res" where
  "sys_mkdir s =
     bindE (begin_op s) (\<lambda>s.
     bindE (argstr 1 MAXPATH s) (\<lambda>path.
     case path of
       None \<Rightarrow> fail_op s
     | Some path \<Rightarrow>
         bindE (create path T_DIR 0 0 s) (\<lambda>(ip, s).
         case ip of
           None \<Rightarrow> fail_op s
         | Some ip \<Rightarrow> bindE (iunlockput ip s) (\<lambda>s. bindE (end_op s) (\<lambda>s. Inr (0, s))))))"

definition sys_chdir :: "'a filestate_scheme \<Rightarrow> (int \<times> 'a filestate_scheme) res" where
  "sys_chdir s =
     bindE (begin_op s) (\<lambda>s.
     bindE (argstr 1 MAXPATH s) (\<lambda>path.
     case path of
       None \<Rightarrow> fail_op s
     | Some path \<Rightarrow>
         bindE (namei path s) (\<lambda>(ip, s).
         case ip of
           None \<Rightarrow> fail_op s
         | Some ip \<Rightarrow>
             bindE (ilock ip s) (\<lambda>s.
             if i_type (inode_at s ip) \<noteq> T_DIR then fail_inode ip s
             else
               bindE (iunlock ip s) (\<lambda>s.
               bindE (deref (p_cwd (myproc s))) (\<lambda>cwd.
               bindE (iput cwd s) (\<lambda>s.
               bindE (end_op s) (\<lambda>s.
               Inr (0, upd_proc (cur s) (\<lambda>p. p\<lparr>p_cwd := Some ip\<rparr>) s)))))))))"

section \<open>Removing and linking\<close>

primrec isdirempty_loop :: "nat \<Rightarrow> nat list \<Rightarrow> 'a fstate_scheme \<Rightarrow> (bool \<times> 'a fstate_scheme) res" where
  "isdirempty_loop dp [] s = Inr (True, s)"
| "isdirempty_loop dp (off # offs) s =
     bindE (read_dirent ''isdirempty: readi'' dp (of_nat off) s) (\<lambda>(de, s).
     if de_inum de \<noteq> 0 then Inr (False, s) else isdirempty_loop dp offs s)"

definition isdirempty :: "nat \<Rightarrow> 'a fstate_scheme \<Rightarrow> (bool \<times> 'a fstate_scheme) res" where
  "isdirempty dp s = isdirempty_loop dp (dir_offs 2 (i_size (inode_at s dp))) s"

text \<open>The part of \<open>sys_unlink\<close> that removes entry \<open>off\<close> of \<open>dp\<close>, which names the locked \<open>ip\<close>.\<close>

definition unlink_entry :: "nat \<Rightarrow> nat \<Rightarrow> nat \<Rightarrow> 'a fstate_scheme \<Rightarrow> (int \<times> 'a fstate_scheme) res" where
  "unlink_entry dp ip off s =
     bindE (writei dp (Klocal 0 (replicate DESIZE 0)) (of_nat off) (of_nat DESIZE) s) (\<lambda>(r, s).
     if r \<noteq> int DESIZE then Inl (Panic ''unlink: writei'')
     else
       bindE (if i_type (inode_at s ip) = T_DIR
              then iupdate dp (upd_inode dp (\<lambda>x. x\<lparr>i_nlink := i_nlink x - 1\<rparr>) s)
              else Inr s) (\<lambda>s.
       bindE (iunlockput dp s) (\<lambda>s.
       bindE (iupdate ip (upd_inode ip (\<lambda>x. x\<lparr>i_nlink := i_nlink x - 1\<rparr>) s)) (\<lambda>s.
       bindE (iunlockput ip s) (\<lambda>s.
       bindE (end_op s) (\<lambda>s. Inr (0, s)))))))"

definition sys_unlink :: "'a filestate_scheme \<Rightarrow> (int \<times> 'a filestate_scheme) res" where
  "sys_unlink s =
     bindE (argstr 1 MAXPATH s) (\<lambda>path.
     case path of
       None \<Rightarrow> Inr (- 1, s)
     | Some path \<Rightarrow>
         bindE (begin_op s) (\<lambda>s.
         bindE (nameiparent path (replicate DIRSIZ 0) s) (\<lambda>(dp, name, s).
         case dp of
           None \<Rightarrow> fail_op s
         | Some dp \<Rightarrow>
             bindE (ilock dp s) (\<lambda>s.
             if namecmp name dot = 0 \<or> namecmp name dotdot = 0 then fail_inode dp s
             else
               bindE (dirlookup dp name s) (\<lambda>(found, s).
               case found of
                 None \<Rightarrow> fail_inode dp s
               | Some (ip, off) \<Rightarrow>
                   bindE (ilock ip s) (\<lambda>s.
                   if sint (i_nlink (inode_at s ip)) < 1 then Inl (Panic ''unlink: nlink < 1'')
                   else
                     bindE (if i_type (inode_at s ip) = T_DIR then isdirempty ip s else Inr (True, s)) (\<lambda>(empty, s).
                     if \<not> empty then bindE (iunlockput ip s) (fail_inode dp)
                     else unlink_entry dp ip off s)))))))"

text \<open>The exit \<open>bad\<close> of \<open>sys_link\<close>, which takes back the increment of the link count.\<close>

definition link_bad :: "nat \<Rightarrow> 'a fstate_scheme \<Rightarrow> (int \<times> 'a fstate_scheme) res" where
  "link_bad ip s =
     bindE (ilock ip s) (\<lambda>s.
     bindE (iupdate ip (upd_inode ip (\<lambda>x. x\<lparr>i_nlink := i_nlink x - 1\<rparr>) s)) (\<lambda>s.
     fail_inode ip s))"

definition sys_link :: "'a filestate_scheme \<Rightarrow> (int \<times> 'a filestate_scheme) res" where
  "sys_link s =
     bindE (argstr 1 MAXPATH s) (\<lambda>old.
     case old of
       None \<Rightarrow> Inr (- 1, s)
     | Some old \<Rightarrow>
         bindE (argstr 2 MAXPATH s) (\<lambda>new.
         case new of
           None \<Rightarrow> Inr (- 1, s)
         | Some new \<Rightarrow>
             bindE (begin_op s) (\<lambda>s.
             bindE (namei old s) (\<lambda>(ip, s).
             case ip of
               None \<Rightarrow> fail_op s
             | Some ip \<Rightarrow>
                 bindE (ilock ip s) (\<lambda>s.
                 if i_type (inode_at s ip) = T_DIR then fail_inode ip s
                 else
                   bindE (iupdate ip (upd_inode ip (\<lambda>x. x\<lparr>i_nlink := i_nlink x + 1\<rparr>) s)) (\<lambda>s.
                   bindE (iunlock ip s) (\<lambda>s.
                   bindE (nameiparent new (replicate DIRSIZ 0) s) (\<lambda>(dp, name, s).
                   case dp of
                     None \<Rightarrow> link_bad ip s
                   | Some dp \<Rightarrow>
                       bindE (ilock dp s) (\<lambda>s.
                       bindE (if i_dev (inode_at s dp) \<noteq> i_dev (inode_at s ip) then Inr (- 1, s)
                              else dirlink dp name (i_inum (inode_at s ip)) s) (\<lambda>(r, s).
                       bindE (iunlockput dp s) (\<lambda>s.
                       if r < 0 then link_bad ip s
                       else bindE (iput ip s) (\<lambda>s. bindE (end_op s) (\<lambda>s. Inr (0, s))))))))))))))"

section \<open>Pipes\<close>

definition close_two :: "nat \<Rightarrow> nat \<Rightarrow> 'a filestate_scheme \<Rightarrow> (int \<times> 'a filestate_scheme) res" where
  "close_two rfile wfile s = bindE (fileclose rfile s) (\<lambda>s. bindE (fileclose wfile s) (\<lambda>s. Inr (- 1, s)))"

definition fd_bytes :: "int \<Rightarrow> u8 list" where
  "fd_bytes fd = le_bytes 4 (word_of_int fd :: u32)"

definition sys_pipe :: "'a filestate_scheme \<Rightarrow> (int \<times> 'a filestate_scheme) res" where
  "sys_pipe s =
     bindE (argaddr 1 s) (\<lambda>fdarray.
     bindE (pipealloc s) (\<lambda>(fs, s).
     case fs of
       None \<Rightarrow> Inr (- 1, s)
     | Some (rfile, wfile) \<Rightarrow>
         (case fdalloc rfile s of
            (fd0, s) \<Rightarrow>
              if fd0 < 0 then close_two rfile wfile s
              else
                (case fdalloc wfile s of
                   (fd1, s) \<Rightarrow>
                     if fd1 < 0 then close_two rfile wfile (set_ofile (nat fd0) None s)
                     else
                       (case copyout (p_pagetable (myproc s)) fdarray (fd_bytes fd0) s of
                          (r, s) \<Rightarrow>
                            (case (if r < 0 then (r, s)
                                   else copyout (p_pagetable (myproc s)) (fdarray + 4) (fd_bytes fd1) s) of
                               (r, s) \<Rightarrow>
                                 if r < 0
                                 then close_two rfile wfile (set_ofile (nat fd1) None (set_ofile (nat fd0) None s))
                                 else Inr (0, s)))))))"

end
