(* ===== verification/Syscall.thy ===== *)
theory Syscall
  imports Sysfile
begin

text \<open>
  The remaining system calls, \<open>kernel/sysproc.c\<close>, their dispatch, \<open>kernel/syscall.c\<close>, the
  clock, \<open>kernel/timer.c\<close>, and the handlers of exceptions and interrupts, \<open>kernel/trap.c\<close>
  and \<open>irqhandle\<close> of \<open>kernel/gic.c\<close>. They run on the whole state of the kernel.
\<close>

section \<open>System calls on processes\<close>

definition sys_exit :: "'a kstate_scheme \<Rightarrow> (progress \<times> 'a kstate_scheme) res" where
  "sys_exit s = bindE (argint 1 s) (\<lambda>n. exit n s)"

definition sys_fork :: "'a kstate_scheme \<Rightarrow> (int \<times> 'a kstate_scheme) res" where
  "sys_fork s = fork s"

definition sys_wait :: "'a kstate_scheme \<Rightarrow> (progress \<times> 'a kstate_scheme) res" where
  "sys_wait s = bindE (argaddr 1 s) (\<lambda>p. wait p s)"

definition sys_yield :: "'a kstate_scheme \<Rightarrow> (progress \<times> 'a kstate_scheme) res" where
  "sys_yield s = yield s"

definition sys_sbrk :: "'a kstate_scheme \<Rightarrow> (int \<times> 'a kstate_scheme) res" where
  "sys_sbrk s =
     bindE (argint 1 s) (\<lambda>n.
     let addr = p_size (myproc s) in
     bindE (growproc n s) (\<lambda>(r, s). if r < 0 then Inr (- 1, s) else Inr (uint addr, s)))"

text \<open>The loop of \<open>sys_sleep\<close> from the time \<open>ticks0\<close>; the comparison is one of unsigned numbers.\<close>

definition sys_sleep_from :: "u32 \<Rightarrow> 'a kstate_scheme \<Rightarrow> (progress \<times> 'a kstate_scheme) res" where
  "sys_sleep_from ticks0 s =
     bindE (argint 1 s) (\<lambda>n.
     Inr (if ticks s - ticks0 < word_of_int n then
            (if killed (cur s) s then Returned (- 1) else Waiting Chan_ticks (unat ticks0))
          else Returned 0, s))"

definition sys_sleep :: "'a kstate_scheme \<Rightarrow> (progress \<times> 'a kstate_scheme) res" where
  "sys_sleep s = sys_sleep_from (ticks s) s"

definition sys_getpid :: "'a kstate_scheme \<Rightarrow> (int \<times> 'a kstate_scheme) res" where
  "sys_getpid s = Inr (p_pid (myproc s), s)"

definition sys_procdump :: "'a kstate_scheme \<Rightarrow> (int \<times> 'a kstate_scheme) res" where
  "sys_procdump s = bindE (procdump s) (\<lambda>s. Inr (0, s))"

definition sys_kill :: "'a kstate_scheme \<Rightarrow> (int \<times> 'a kstate_scheme) res" where
  "sys_kill s = bindE (argint 1 s) (\<lambda>pid. Inr (kill pid s))"

definition sys_uptime :: "'a kstate_scheme \<Rightarrow> (int \<times> 'a kstate_scheme) res" where
  "sys_uptime s = Inr (uint (ticks s), s)"

section \<open>Dispatch\<close>

definition NSYSCALLS :: nat where
  "NSYSCALLS = 23"

text \<open>A handler that runs through, as one that reports its progress.\<close>

definition returns :: "(int \<times> 's) res \<Rightarrow> (progress \<times> 's) res" where
  "returns r = bindE r (\<lambda>(v, s). Inr (Returned v, s))"

text \<open>The table \<open>syscalls[]\<close>.\<close>

definition syscalls :: "nat \<Rightarrow> 'a kstate_scheme \<Rightarrow> (progress \<times> 'a kstate_scheme) res" where
  "syscalls num s =
     (if num = 0 then sys_exit s
      else if num = 1 then returns (sys_exec s)
      else if num = 2 then sys_write s
      else if num = 3 then returns (sys_open s)
      else if num = 4 then returns (sys_mknod s)
      else if num = 5 then returns (sys_dup s)
      else if num = 6 then returns (sys_fork s)
      else if num = 7 then sys_wait s
      else if num = 8 then sys_yield s
      else if num = 9 then sys_read s
      else if num = 10 then returns (sys_chdir s)
      else if num = 11 then returns (sys_close s)
      else if num = 12 then returns (sys_sbrk s)
      else if num = 13 then returns (sys_fstat s)
      else if num = 14 then returns (sys_mkdir s)
      else if num = 15 then returns (sys_unlink s)
      else if num = 16 then sys_sleep s
      else if num = 17 then returns (sys_pipe s)
      else if num = 18 then returns (sys_getpid s)
      else if num = 19 then returns (sys_procdump s)
      else if num = 20 then returns (sys_kill s)
      else if num = 21 then returns (sys_link s)
      else if num = 22 then returns (sys_uptime s)
      else Inl Fault)"

text \<open>
  \<open>syscall\<close>: the bound check admits \<open>NSYSCALLS\<close> itself, one past the end of the table, where
  the load is out of bounds (\<^term>\<open>Fault\<close>). A handler that waits has called \<open>sleep\<close>.
\<close>

definition set_x0 :: "u64 \<Rightarrow> 'a proctab_scheme \<Rightarrow> 'a proctab_scheme" where
  "set_x0 v s = tf_set (p_trapframe (myproc s)) 0 v s"

definition syscall :: "'a kstate_scheme \<Rightarrow> (progress \<times> 'a kstate_scheme) res" where
  "syscall s =
     (let num = tf_get (p_trapframe (myproc s)) 0 s in
      if num \<le> of_nat NSYSCALLS then
        bindE (syscalls (unat num) s) (\<lambda>(r, s).
        case r of
          Returned v \<Rightarrow> Inr (Returned v, set_x0 (word_of_int v) s)
        | Waiting ch k \<Rightarrow> bindE (sleep ch s) (\<lambda>s. Inr (Waiting ch k, s))
        | _ \<Rightarrow> Inr (r, s))
      else Inr (Returned (- 1), set_x0 (- 1) s))"

section \<open>The clock\<close>

definition TICK_PER_SEC :: u64 where
  "TICK_PER_SEC = 50"

text \<open>\<open>timerset\<close>: the compare value, from the counter and its frequency.\<close>

definition timerset :: "u64 \<Rightarrow> u64 \<Rightarrow> u64" where
  "timerset freq cnt = cnt + freq div 1000 * TICK_PER_SEC"

definition timerinit :: "'a kstate_scheme \<Rightarrow> 'a kstate_scheme" where
  "timerinit s = (intrset (PPI2ID IRQ_TIMER0) Timerintr s)\<lparr>ticks := 0\<rparr>"

definition timerintr :: "'a kstate_scheme \<Rightarrow> 'a kstate_scheme" where
  "timerintr s =
     (if cpuid s = 0 then wakeup Chan_ticks (s\<lparr>ticks := ticks s + 1\<rparr>) else s)"

section \<open>Exceptions and interrupts\<close>

text \<open>
  \<open>irqhandle\<close>: \<open>rd\<close> and \<open>wr\<close> are the accesses to the registers of the interrupt controller,
  whose state is \<open>d\<close>; \<open>mis\<close> is what the serial port answers about its interrupt status. A number beyond the table is a call through a pointer read out of bounds.
\<close>

definition disk_intr :: "'a kstate_scheme \<Rightarrow> 'a kstate_scheme res" where
  "disk_intr s = bindE (virtio_disk_intr (vdisk s, s)) (\<lambda>(v, s). Inr (s\<lparr>vdisk := v\<rparr>))"

definition irqhandle ::
  "(nat \<Rightarrow> u32) \<Rightarrow> ('d \<Rightarrow> u64 \<Rightarrow> u64 \<times> 'd) \<Rightarrow> ('d \<Rightarrow> u64 \<Rightarrow> u64 \<Rightarrow> 'd) \<Rightarrow>
   'd \<Rightarrow> 'a kstate_scheme \<Rightarrow> (bool \<times> 'd \<times> 'a kstate_scheme) res" where
  "irqhandle mis rd wr d s =
     (let (v, d) = rd d (GICC_REG GICC_IAR);
          irq = sint (ucast v :: u32) in
      if irq < 0 \<or> int IRQ_MAX_COUNT \<le> irq then Inl Fault
      else
        bindE (case intrs s ! nat irq of
                 Defintr \<Rightarrow> Inr s
               | Uartintr \<Rightarrow> uartintr mis s
               | Timerintr \<Rightarrow> Inr (timerintr s)
               | Virtio_disk_intr \<Rightarrow> disk_intr s) (\<lambda>s.
        Inr (nat irq = PPI2ID IRQ_TIMER0, wr d (GICC_REG GICC_EOIR) (word_of_int irq), s)))"

text \<open>The current process, if the CPU runs one.\<close>

definition running :: "'a proctab_scheme \<Rightarrow> bool" where
  "running s \<longleftrightarrow> cur s < NPROC"

definition set_trapframe :: "u64 \<Rightarrow> nat \<Rightarrow> 'a proctab_scheme \<Rightarrow> 'a proctab_scheme" where
  "set_trapframe f el s =
     (if running s \<and> el = 0 then upd_proc (cur s) (\<lambda>p. p\<lparr>p_trapframe := f\<rparr>) s else s)"

definition svcintr :: "u64 \<Rightarrow> nat \<Rightarrow> 'a kstate_scheme \<Rightarrow> (progress \<times> 'a kstate_scheme) res" where
  "svcintr f el s =
     bindE (syscall (set_trapframe f el s)) (\<lambda>(r, s).
     case r of
       Returned v \<Rightarrow>
         if running s \<and> el = 0 \<and> killed (cur s) s then exit (- 1) s else Inr (r, s)
     | _ \<Rightarrow> Inr (r, s))"

definition defintr :: "u64 \<Rightarrow> nat \<Rightarrow> 'a kstate_scheme \<Rightarrow> (progress \<times> 'a kstate_scheme) res" where
  "defintr f el s = (if running s \<and> el = 0 then exit (- 1) s else Inr (Returned 0, s))"

definition irqintr ::
  "(nat \<Rightarrow> u32) \<Rightarrow> ('d \<Rightarrow> u64 \<Rightarrow> u64 \<times> 'd) \<Rightarrow> ('d \<Rightarrow> u64 \<Rightarrow> u64 \<Rightarrow> 'd) \<Rightarrow>
   u64 \<Rightarrow> nat \<Rightarrow> 'd \<Rightarrow> 'a kstate_scheme \<Rightarrow> (progress \<times> 'd \<times> 'a kstate_scheme) res" where
  "irqintr mis rd wr f el d s =
     bindE (irqhandle mis rd wr d (set_trapframe f el s)) (\<lambda>(is_timer, d, s).
     if running s \<and> killed (cur s) s then bindE (exit (- 1) s) (\<lambda>(r, s). Inr (r, d, s))
     else if running s \<and> is_timer then bindE (yield s) (\<lambda>(r, s). Inr (r, d, s))
     else Inr (Returned 0, d, s))"

end
