(* ===== verification/Start.thy ===== *)
theory Start
  imports Syscall
begin

text \<open>
  Booting, \<open>kernel/start.c\<close>: the initialisation that CPU 0 runs, on the zeroed memory of a
  freshly loaded kernel. The interrupt controller and the disk are devices with states of
  arbitrary types; \<open>initcode\<close> is the binary of the first program.
\<close>

text \<open>\<open>printfinit\<close> and \<open>fileinit\<close> only set up locks.\<close>

definition start ::
  "('g \<Rightarrow> u64 \<Rightarrow> u64 \<times> 'g) \<Rightarrow> ('g \<Rightarrow> u64 \<Rightarrow> u64 \<Rightarrow> 'g) \<Rightarrow> ('d \<Rightarrow> u64 \<Rightarrow> u32) \<Rightarrow> ('d \<Rightarrow> u64 \<Rightarrow> u32 \<Rightarrow> 'd) \<Rightarrow>
   u8 list \<Rightarrow> 'g \<Rightarrow> 'd \<Rightarrow> 'a kstate_scheme \<Rightarrow> ('g \<times> 'd \<times> 'a kstate_scheme) res" where
  "start grd gwr vrd vwr initcode g d s =
     bindE (printf (ascii [CHR 0x0A] @ ascii ''xv6 kernel is booting'' @ ascii [CHR 0x0A, CHR 0x0A]) [] (consoleinit s)) (\<lambda>s.
     case kinit s of
       None \<Rightarrow> Inl Diverge
     | Some r \<Rightarrow>
         bindE r (\<lambda>s.
         let s = gicinit s;
             g = gichartinit grd gwr (nat (cpuid s)) g;
             s = timerinit (uartsti s);
             s = iinit (binit s) in
         bindE (virtio_disk_init vrd vwr d (vdisk s, s)) (\<lambda>(d, v, s).
         let s = intrset (SPI2ID IRQ_MMIO) Virtio_disk_intr (s\<lparr>vdisk := v\<rparr>) in
         bindE (userinit initcode (procinit s)) (\<lambda>s. Inr (g, d, s)))))"

end
