(* ===== verification/Spinlock.thy ===== *)
theory Spinlock
  imports Proctab
begin

text \<open>
  Spin locks, \<open>kernel/spinlock.c\<close>: the operations of one CPU on its own bookkeeping, and a
  step relation for any number of CPUs that compete for one lock, with a step for each access to
  shared memory. The loop of load-exclusive and store-exclusive instructions in \<open>acquire\<close> is
  there with the exclusive monitor of each CPU: a store-exclusive may succeed only while the
  monitor set by the load is still set, and any store to the lock word clears the monitors of all
  CPUs. The other theories of the development treat the critical sections as atomic; mutual
  exclusion, proved here, is what justifies it.
\<close>

section \<open>One CPU\<close>

text \<open>\<open>c_intr\<close> is the hardware's interrupt enable, read by \<open>intr_get\<close>.\<close>

record cpu =
  c_noff :: int
  c_intena :: bool
  c_intr :: bool

record spinlock =
  lk_locked :: bool
  lk_cpu :: "nat option"

definition initlock :: spinlock where
  "initlock = \<lparr>lk_locked = False, lk_cpu = None\<rparr>"

definition push_off :: "cpu \<Rightarrow> cpu" where
  "push_off c =
     (let old = c_intr c;
          c = c\<lparr>c_intr := False\<rparr>;
          c = (if c_noff c = 0 then c\<lparr>c_intena := old\<rparr> else c)
      in c\<lparr>c_noff := c_noff c + 1\<rparr>)"

definition pop_off :: "cpu \<Rightarrow> cpu res" where
  "pop_off c =
     (if c_intr c then Inl (Panic ''pop_off - interruptible'')
      else if c_noff c < 1 then Inl (Panic ''pop_off'')
      else
        (let c = c\<lparr>c_noff := c_noff c - 1\<rparr>
         in Inr (if c_noff c = 0 \<and> c_intena c then c\<lparr>c_intr := True\<rparr> else c)))"

definition holding :: "nat \<Rightarrow> spinlock \<Rightarrow> bool" where
  "holding i lk \<longleftrightarrow> lk_locked lk \<and> lk_cpu lk = Some i"

section \<open>All CPUs\<close>

text \<open>
  Where a CPU is: outside, after \<open>push_off\<close>, before the load, before the store, with the lock
  but not yet recorded in \<open>lk->cpu\<close>, in the critical section, after \<open>lk->cpu = 0\<close>, or stopped
  in a panic.
\<close>

datatype pc = Outside | Check | Load | Store | Own | Inside | Unlock | Dead

record lkstate =
  lk :: spinlock
  cpus :: "nat \<Rightarrow> cpu"
  pcs :: "nat \<Rightarrow> pc"
  mon :: "nat \<Rightarrow> bool"

text \<open>
  Two steps make more than one access. \<open>check\<close> reads \<open>lk->locked\<close> and \<open>lk->cpu\<close> for \<open>holding\<close>: no other
  CPU ever writes the number of this CPU, so that it makes no difference when between the two reads
  others act. \<open>unlock\<close> clears the lock word and runs \<open>pop_off\<close>, which touches the bookkeeping of
  this CPU only.
\<close>

inductive lock_step :: "nat \<Rightarrow> lkstate \<Rightarrow> lkstate \<Rightarrow> bool" for i where
  enter: "pcs s i = Outside \<Longrightarrow>
    lock_step i s (s\<lparr>cpus := (cpus s)(i := push_off (cpus s i)), pcs := (pcs s)(i := Check)\<rparr>)"
| check: "pcs s i = Check \<Longrightarrow>
    lock_step i s (s\<lparr>pcs := (pcs s)(i := if holding i (lk s) then Dead else Load)\<rparr>)"
| load: "pcs s i = Load \<Longrightarrow>
    lock_step i s (s\<lparr>mon := (mon s)(i := True), pcs := (pcs s)(i := if lk_locked (lk s) then Load else Store)\<rparr>)"
| store_fail: "pcs s i = Store \<Longrightarrow>
    lock_step i s (s\<lparr>mon := (mon s)(i := False), pcs := (pcs s)(i := Load)\<rparr>)"
| store_ok: "pcs s i = Store \<Longrightarrow> mon s i \<Longrightarrow>
    lock_step i s (s\<lparr>lk := (lk s)\<lparr>lk_locked := True\<rparr>, mon := \<lambda>_. False, pcs := (pcs s)(i := Own)\<rparr>)"
| own: "pcs s i = Own \<Longrightarrow>
    lock_step i s (s\<lparr>lk := (lk s)\<lparr>lk_cpu := Some i\<rparr>, pcs := (pcs s)(i := Inside)\<rparr>)"
| release: "pcs s i = Inside \<Longrightarrow>
    lock_step i s (if holding i (lk s)
      then s\<lparr>lk := (lk s)\<lparr>lk_cpu := None\<rparr>, pcs := (pcs s)(i := Unlock)\<rparr>
      else s\<lparr>pcs := (pcs s)(i := Dead)\<rparr>)"
| unlock: "pcs s i = Unlock \<Longrightarrow>
    lock_step i s (case pop_off (cpus s i) of
      Inl _ \<Rightarrow> s\<lparr>lk := (lk s)\<lparr>lk_locked := False\<rparr>, mon := \<lambda>_. False, pcs := (pcs s)(i := Dead)\<rparr>
    | Inr c \<Rightarrow> s\<lparr>lk := (lk s)\<lparr>lk_locked := False\<rparr>, mon := \<lambda>_. False, cpus := (cpus s)(i := c),
                  pcs := (pcs s)(i := Outside)\<rparr>)"

inductive_cases lock_step_elim: "lock_step i s s'"

inductive lock_reach :: "lkstate \<Rightarrow> lkstate \<Rightarrow> bool" for s where
  init: "lock_reach s s"
| step: "lock_reach s t \<Longrightarrow> lock_step i t u \<Longrightarrow> lock_reach s u"

text \<open>The steps of one CPU only, while the others do nothing.\<close>

inductive lock_alone :: "nat \<Rightarrow> lkstate \<Rightarrow> lkstate \<Rightarrow> bool" for i s where
  start: "lock_alone i s s"
| step: "lock_alone i s t \<Longrightarrow> lock_step i t u \<Longrightarrow> lock_alone i s u"

definition lock_start :: "lkstate \<Rightarrow> bool" where
  "lock_start s \<longleftrightarrow> lk s = initlock \<and> (\<forall>i. pcs s i = Outside) \<and> (\<forall>i. c_noff (cpus s i) \<ge> 0)"

section \<open>Disabling interrupts\<close>

text \<open>The bookkeeping of a CPU that nests calls of \<open>push_off\<close>: interrupts are off inside.\<close>

definition cpu_ok :: "cpu \<Rightarrow> bool" where
  "cpu_ok c \<longleftrightarrow> c_noff c \<ge> 0 \<and> (c_noff c > 0 \<longrightarrow> \<not> c_intr c)"

lemma push_off_sel [simp]:
  "c_noff (push_off c) = c_noff c + 1" "c_intr (push_off c) = False"
  by (simp_all add: push_off_def Let_def)

lemma cpu_ok_push_off: "c_noff c \<ge> 0 \<Longrightarrow> cpu_ok (push_off c)"
  by (simp add: cpu_ok_def)

lemma pop_off_ok:
  assumes "cpu_ok c" "c_noff c > 0"
  obtains c' where "pop_off c = Inr c'" "cpu_ok c'" "c_noff c' = c_noff c - 1"
  using assms by (simp add: pop_off_def cpu_ok_def Let_def split: if_splits)

section \<open>Mutual exclusion\<close>

definition owner :: "pc \<Rightarrow> bool" where
  "owner p \<longleftrightarrow> p = Own \<or> p = Inside \<or> p = Unlock"

text \<open>
  The lock word is set exactly when a CPU owns the lock, there is only one owner, \<open>lk->cpu\<close>
  names a CPU exactly while it is inside, and a CPU about to store with its monitor set has seen a
  free lock that is still free.
\<close>

definition lock_inv :: "lkstate \<Rightarrow> bool" where
  "lock_inv s \<longleftrightarrow>
     (lk_locked (lk s) \<longleftrightarrow> (\<exists>i. owner (pcs s i))) \<and>
     (\<forall>i j. owner (pcs s i) \<longrightarrow> owner (pcs s j) \<longrightarrow> i = j) \<and>
     (\<forall>i. lk_cpu (lk s) = Some i \<longleftrightarrow> pcs s i = Inside) \<and>
     (\<forall>i. pcs s i = Store \<longrightarrow> mon s i \<longrightarrow> \<not> lk_locked (lk s)) \<and>
     (\<forall>i. pcs s i \<noteq> Dead) \<and>
     (\<forall>i. c_noff (cpus s i) \<ge> 0) \<and>
     (\<forall>i. pcs s i \<noteq> Outside \<longrightarrow> c_noff (cpus s i) > 0 \<and> cpu_ok (cpus s i))"

lemma lock_invD:
  assumes "lock_inv s"
  shows "lk_locked (lk s) \<longleftrightarrow> (\<exists>i. owner (pcs s i))"
    and "owner (pcs s i) \<Longrightarrow> owner (pcs s j) \<Longrightarrow> i = j"
    and "lk_cpu (lk s) = Some i \<longleftrightarrow> pcs s i = Inside"
    and "pcs s i = Store \<Longrightarrow> mon s i \<Longrightarrow> \<not> lk_locked (lk s)"
    and "pcs s i \<noteq> Dead" and "c_noff (cpus s i) \<ge> 0"
    and "pcs s i \<noteq> Outside \<Longrightarrow> c_noff (cpus s i) > 0"
    and "pcs s i \<noteq> Outside \<Longrightarrow> cpu_ok (cpus s i)"
  using assms unfolding lock_inv_def by blast+

lemma owner_simps [simp]:
  "owner Own" "owner Inside" "owner Unlock" "\<not> owner Outside" "\<not> owner Check" "\<not> owner Load"
  "\<not> owner Store" "\<not> owner Dead"
  by (simp_all add: owner_def)

lemma lock_inv_start: "lock_start s \<Longrightarrow> lock_inv s"
  by (auto simp: lock_start_def lock_inv_def initlock_def)

text \<open>A step that changes neither the lock nor whether CPU \<open>i\<close> owns it.\<close>

lemma lock_inv_local:
  assumes I: "lock_inv s" and o: "owner p = owner (pcs s i)" and "p = Inside \<longleftrightarrow> pcs s i = Inside"
    and "p \<noteq> Dead" and "lk t = lk s" and "pcs t = (pcs s)(i := p)"
    and "\<And>j. j \<noteq> i \<Longrightarrow> mon t j = mon s j" and "p = Store \<Longrightarrow> mon t i \<Longrightarrow> \<not> lk_locked (lk s)"
    and "\<And>j. j \<noteq> i \<Longrightarrow> cpus t j = cpus s j" and "c_noff (cpus t i) \<ge> 0"
    and "p \<noteq> Outside \<Longrightarrow> c_noff (cpus t i) > 0 \<and> cpu_ok (cpus t i)"
  shows "lock_inv t"
proof -
  have same: "owner (pcs t j) = owner (pcs s j)" for j
    using assms by simp
  note I' = lock_invD [OF I]
  have 1: "lk_locked (lk t) \<longleftrightarrow> (\<exists>i. owner (pcs t i))"
    unfolding same using I'(1) assms by simp
  have 2: "owner (pcs t i) \<Longrightarrow> owner (pcs t j) \<Longrightarrow> i = j" for i j
    unfolding same using I'(2) .
  have 3: "lk_cpu (lk t) = Some j \<longleftrightarrow> pcs t j = Inside" for j
    using I'(3) assms by simp
  have 4: "pcs t j = Store \<Longrightarrow> mon t j \<Longrightarrow> \<not> lk_locked (lk t)" for j
    using I'(4) assms by (cases "j = i") auto
  have 5: "pcs t j \<noteq> Dead" "c_noff (cpus t j) \<ge> 0" for j
    using I'(5,6) assms by (cases "j = i"; simp)+
  have 6: "pcs t j \<noteq> Outside \<Longrightarrow> c_noff (cpus t j) > 0 \<and> cpu_ok (cpus t j)" for j
    using I'(7,8) assms by (cases "j = i"; simp)
  show ?thesis
    unfolding lock_inv_def using 1 2 3 4 5 6 by blast
qed

text \<open>A step of CPU \<open>i\<close> while no other CPU owns the lock.\<close>

lemma lock_inv_alone:
  assumes I: "lock_inv s" and others: "\<And>j. j \<noteq> i \<Longrightarrow> \<not> owner (pcs s j)"
    and pcs: "pcs t = (pcs s)(i := p)" and p: "p \<noteq> Dead" "p \<noteq> Store"
    and lk: "lk_locked (lk t) = owner p" "lk_cpu (lk t) = (if p = Inside then Some i else None)"
    and mon: "\<And>j. j \<noteq> i \<Longrightarrow> pcs s j = Store \<Longrightarrow> mon t j \<Longrightarrow> \<not> owner p"
    and cpus: "\<And>j. j \<noteq> i \<Longrightarrow> cpus t j = cpus s j" "c_noff (cpus t i) \<ge> 0"
      "p \<noteq> Outside \<Longrightarrow> c_noff (cpus t i) > 0 \<and> cpu_ok (cpus t i)"
  shows "lock_inv t"
proof -
  note I' = lock_invD [OF I]
  have same: "owner (pcs t j) \<longleftrightarrow> j = i \<and> owner p" for j
    using others [of j] by (simp add: pcs)
  have 1: "lk_locked (lk t) \<longleftrightarrow> (\<exists>i. owner (pcs t i))"
    unfolding same lk by simp
  have 2: "owner (pcs t i) \<Longrightarrow> owner (pcs t j) \<Longrightarrow> i = j" for i j
    unfolding same by simp
  have 3: "lk_cpu (lk t) = Some j \<longleftrightarrow> pcs t j = Inside" for j
    using others [of j] by (cases "j = i") (auto simp: pcs lk)
  have 4: "pcs t j = Store \<Longrightarrow> mon t j \<Longrightarrow> \<not> lk_locked (lk t)" for j
    using mon [of j] p by (cases "j = i") (simp_all add: pcs lk)
  have 5: "pcs t j \<noteq> Dead" "c_noff (cpus t j) \<ge> 0" for j
    using I'(5,6) p cpus by (cases "j = i"; simp add: pcs)+
  have 6: "pcs t j \<noteq> Outside \<Longrightarrow> c_noff (cpus t j) > 0 \<and> cpu_ok (cpus t j)" for j
    using I'(7,8) [of j] cpus by (cases "j = i"; simp add: pcs)
  show ?thesis
    unfolding lock_inv_def using 1 2 3 4 5 6 by blast
qed

text \<open>The owner is alone, and the lock word is set.\<close>

lemma lock_inv_owner:
  assumes I: "lock_inv s" and o: "owner (pcs s i)"
  shows "\<And>j. j \<noteq> i \<Longrightarrow> \<not> owner (pcs s j)" and "lk_locked (lk s)"
    and "lk_cpu (lk s) = (if pcs s i = Inside then Some i else None)"
    and "\<And>j. pcs s j = Store \<Longrightarrow> \<not> mon s j"
    and "c_noff (cpus s i) > 0" and "cpu_ok (cpus s i)"
proof -
  note I' = lock_invD [OF I]
  show a: "\<And>j. j \<noteq> i \<Longrightarrow> \<not> owner (pcs s j)"
    using I'(2) o by blast
  show l: "lk_locked (lk s)"
    using I'(1) o by blast
  show "\<And>j. pcs s j = Store \<Longrightarrow> \<not> mon s j"
    using I'(4) l by blast
  have "pcs s i \<noteq> Outside"
    using o by auto
  then show "c_noff (cpus s i) > 0" "cpu_ok (cpus s i)"
    using I'(7,8) [of i] by simp_all
  show "lk_cpu (lk s) = (if pcs s i = Inside then Some i else None)"
  proof (cases "lk_cpu (lk s)")
    case (Some j)
    then have "pcs s j = Inside"
      using I'(3) by blast
    then show ?thesis
      using a [of j] Some by (cases "j = i") auto
  next
    case None
    then show ?thesis
      using I'(3) [of i] by simp
  qed
qed

lemma lock_inv_step:
  assumes I: "lock_inv s" and step: "lock_step i s t"
  shows "lock_inv t"
  using step
proof (cases rule: lock_step.cases)
  case enter
  then show ?thesis
    using lock_invD(6) [OF I, of i] by (intro lock_inv_local [OF I, of Check i]) (auto intro: cpu_ok_push_off add_nonneg_pos)
next
  case check
  have "\<not> holding i (lk s)"
    using lock_invD(3) [OF I, of i] check by (simp add: holding_def)
  then show ?thesis
    using check lock_invD(6-8) [OF I, of i] by (intro lock_inv_local [OF I, of Load i]) auto
next
  case load
  then show ?thesis
    using lock_invD(6-8) [OF I, of i]
    by (intro lock_inv_local [OF I, of "if lk_locked (lk s) then Load else Store" i]) auto
next
  case store_fail
  then show ?thesis
    using lock_invD(6-8) [OF I, of i] by (intro lock_inv_local [OF I, of Load i]) auto
next
  case store_ok
  have l: "\<not> lk_locked (lk s)"
    using lock_invD(4) [OF I] store_ok by blast
  then have free: "\<not> owner (pcs s j)" for j
    using lock_invD(1) [OF I] by blast
  have no: "lk_cpu (lk s) = None"
  proof (cases "lk_cpu (lk s)")
    case (Some j)
    then show ?thesis
      using lock_invD(3) [OF I, of j] free [of j] by auto
  qed
  show ?thesis
    using free no store_ok lock_invD(6-8) [OF I, of i]
    by (intro lock_inv_alone [OF I, of i _ Own]) auto
next
  case own
  then have o: "owner (pcs s i)"
    by simp
  show ?thesis
    using lock_inv_owner [OF I o] own lock_invD(6) [OF I, of i]
    by (intro lock_inv_alone [OF I, of i _ Inside]) auto
next
  case release
  then have o: "owner (pcs s i)"
    by simp
  have "holding i (lk s)"
    using lock_inv_owner(2,3) [OF I o] release by (simp add: holding_def)
  then show ?thesis
    using lock_inv_owner [OF I o] release lock_invD(6) [OF I, of i]
    by (intro lock_inv_alone [OF I, of i _ Unlock]) auto
next
  case unlock
  then have o: "owner (pcs s i)"
    by simp
  obtain c where "pop_off (cpus s i) = Inr c" "cpu_ok c" "c_noff c = c_noff (cpus s i) - 1"
    using pop_off_ok [OF lock_inv_owner(6,5) [OF I o]] .
  then show ?thesis
    using lock_inv_owner [OF I o] unlock
    by (intro lock_inv_alone [OF I, of i _ Outside]) auto
qed

lemma lock_inv_reach: "lock_reach s t \<Longrightarrow> lock_inv s \<Longrightarrow> lock_inv t"
  by (induction rule: lock_reach.induct) (auto intro: lock_inv_step)

section \<open>Properties\<close>

text \<open>
  Property C14. Mutual exclusion: whatever the interleaving of the CPUs, no two of them are in the
  critical section at the same time; the one inside has its interrupts off, and \<open>holding\<close> tells
  it, and only it, that it has the lock.
\<close>

theorem spinlock_mutual_exclusion:
  assumes "lock_start s" and "lock_reach s t" and "pcs t i = Inside"
  shows "(pcs t j = Inside \<longleftrightarrow> j = i) \<and> (holding j (lk t) \<longleftrightarrow> j = i) \<and> \<not> c_intr (cpus t i)"
proof -
  have I: "lock_inv t"
    using assms lock_inv_start lock_inv_reach by blast
  have o: "owner (pcs t i)"
    using assms by simp
  note O = lock_inv_owner [OF I o]
  have "pcs t j = Inside \<longleftrightarrow> j = i"
    using O(1) [of j] assms by (cases "j = i") auto
  moreover have "holding j (lk t) \<longleftrightarrow> j = i"
    using O(2,3) assms by (auto simp: holding_def)
  moreover have "\<not> c_intr (cpus t i)"
    using O(5,6) by (simp add: cpu_ok_def)
  ultimately show ?thesis
    by blast
qed

text \<open>
  Property C15. Neither \<open>acquire\<close> nor \<open>release\<close> nor \<open>pop_off\<close> panics, whatever the
  interleaving, when each CPU calls \<open>acquire\<close> and \<open>release\<close> in turn.
\<close>

theorem spinlock_no_panic:
  assumes "lock_start s" and "lock_reach s t"
  shows "pcs t i \<noteq> Dead"
  using assms lock_inv_start lock_inv_reach lock_invD(5) by blast

text \<open>
  A CPU that is on its way to the lock, from the outside to the store, takes a lock that no CPU owns by
  steps of its own. It is always at a step that brings it nearer: a store whose monitor another CPU has
  cleared fails, and the load before it is done again.
\<close>

lemma lock_alone_reach: "lock_alone i s t \<Longrightarrow> lock_reach s t"
  by (induction rule: lock_alone.induct) (auto intro: lock_reach.intros)

lemma lock_alone_trans: "lock_alone i t u \<Longrightarrow> lock_alone i s t \<Longrightarrow> lock_alone i s u"
  by (induction rule: lock_alone.induct) (auto intro: lock_alone.step)

lemma alone_store:
  assumes "pcs s i = Store" and "mon s i"
  shows "\<exists>t. lock_alone i s t \<and> pcs t i = Inside"
proof -
  let ?s1 = "s\<lparr>lk := (lk s)\<lparr>lk_locked := True\<rparr>, mon := \<lambda>_. False, pcs := (pcs s)(i := Own)\<rparr>"
  let ?s2 = "?s1\<lparr>lk := (lk ?s1)\<lparr>lk_cpu := Some i\<rparr>, pcs := (pcs ?s1)(i := Inside)\<rparr>"
  have "lock_alone i s ?s1"
    using assms by (intro lock_alone.step [OF lock_alone.start lock_step.store_ok])
  then have "lock_alone i s ?s2"
    by (rule lock_alone.step [OF _ lock_step.own]) simp
  then show ?thesis
    by (intro exI [of _ ?s2] conjI) simp_all
qed

lemma alone_load:
  assumes "pcs s i = Load" and "\<not> lk_locked (lk s)"
  shows "\<exists>t. lock_alone i s t \<and> pcs t i = Inside"
proof -
  let ?t = "s\<lparr>mon := (mon s)(i := True), pcs := (pcs s)(i := if lk_locked (lk s) then Load else Store)\<rparr>"
  have "lock_alone i s ?t"
    by (rule lock_alone.step [OF lock_alone.start lock_step.load]) (rule assms(1))
  moreover obtain u where "lock_alone i ?t u" "pcs u i = Inside"
    using alone_store [of ?t i] assms(2) by auto
  ultimately show ?thesis
    using lock_alone_trans by blast
qed

lemma alone_check:
  assumes "pcs s i = Check" and "\<not> lk_locked (lk s)"
  shows "\<exists>t. lock_alone i s t \<and> pcs t i = Inside"
proof -
  let ?t = "s\<lparr>pcs := (pcs s)(i := if holding i (lk s) then Dead else Load)\<rparr>"
  have "lock_alone i s ?t"
    by (rule lock_alone.step [OF lock_alone.start lock_step.check]) (rule assms(1))
  moreover obtain u where "lock_alone i ?t u" "pcs u i = Inside"
    using alone_load [of ?t i] assms(2) by (auto simp: holding_def)
  ultimately show ?thesis
    using lock_alone_trans by blast
qed

lemma lock_available:
  assumes free: "\<not> lk_locked (lk s)" and i: "pcs s i \<noteq> Dead" "\<not> owner (pcs s i)"
  shows "\<exists>t. lock_alone i s t \<and> pcs t i = Inside"
proof (cases "pcs s i")
  case Outside
  let ?t = "s\<lparr>cpus := (cpus s)(i := push_off (cpus s i)), pcs := (pcs s)(i := Check)\<rparr>"
  have "lock_alone i s ?t"
    by (rule lock_alone.step [OF lock_alone.start lock_step.enter]) (rule Outside)
  moreover obtain u where "lock_alone i ?t u" "pcs u i = Inside"
    using alone_check [of ?t i] free by auto
  ultimately show ?thesis
    using lock_alone_trans by blast
next
  case Store
  let ?t = "s\<lparr>mon := (mon s)(i := False), pcs := (pcs s)(i := Load)\<rparr>"
  have "lock_alone i s ?t"
    by (rule lock_alone.step [OF lock_alone.start lock_step.store_fail]) (rule Store)
  moreover obtain u where "lock_alone i ?t u" "pcs u i = Inside"
    using alone_load [of ?t i] free by auto
  ultimately show ?thesis
    using lock_alone_trans by blast
qed (use assms alone_check alone_load in auto)

text \<open>The initial state of a lock after \<open>initlock\<close>, on idle CPUs with interrupts on.\<close>

definition idle_cpus :: lkstate where
  "idle_cpus = \<lparr>lk = initlock, cpus = \<lambda>_. \<lparr>c_noff = 0, c_intena = False, c_intr = True\<rparr>,
     pcs = \<lambda>_. Outside, mon = \<lambda>_. False\<rparr>"

lemma lock_start_idle: "lock_start idle_cpus"
  by (simp add: lock_start_def idle_cpus_def)

theorem spinlock_mutual_exclusion_witness:
  "\<exists>t. lock_reach idle_cpus t \<and> pcs t 0 = Inside \<and> pcs t 1 \<noteq> Inside \<and> \<not> c_intr (cpus t 0)"
proof -
  obtain t where t: "lock_reach idle_cpus t" "pcs t 0 = Inside"
    using lock_available [of idle_cpus 0] by (auto simp: idle_cpus_def initlock_def dest: lock_alone_reach)
  then show ?thesis
    using spinlock_mutual_exclusion [OF lock_start_idle t, of 1] by auto
qed

theorem spinlock_no_panic_witness:
  "\<exists>t. lock_reach idle_cpus t \<and> pcs t 0 = Inside \<and> pcs t 1 \<noteq> Dead"
proof -
  obtain t where t: "lock_reach idle_cpus t" "pcs t 0 = Inside"
    using lock_available [of idle_cpus 0] by (auto simp: idle_cpus_def initlock_def dest: lock_alone_reach)
  then show ?thesis
    using spinlock_no_panic [OF lock_start_idle t(1), of 1] by auto
qed

text \<open>
  Property C16. When no CPU owns the lock, every CPU can get inside by its own steps alone, wherever it is on
  the way: nothing that the other CPUs have done before, such as a half-finished attempt of theirs or a
  monitor that they have cleared, stands in its way, and they need not take another step.
\<close>

theorem spinlock_available:
  assumes "lock_start s" and "lock_reach s t" and "\<forall>j. \<not> owner (pcs t j)"
  shows "\<exists>u. lock_alone i t u \<and> pcs u i = Inside"
proof -
  have I: "lock_inv t"
    using assms lock_inv_start lock_inv_reach by blast
  then show ?thesis
    using lock_available [of t i] lock_invD(1,5) [OF I] assms(3) by blast
qed

theorem spinlock_available_witness: "\<exists>u. lock_alone 3 idle_cpus u \<and> pcs u 3 = Inside"
  using spinlock_available [OF lock_start_idle lock_reach.init, of 3] by (simp add: idle_cpus_def)

text \<open>
  \<open>pop_off\<close> undoes \<open>push_off\<close>: after a matching pair the nesting depth and the
  hardware's interrupt state are what they were, so nested critical sections turn interrupts back
  on only when the outermost one ends.
\<close>

theorem pop_off_push_off:
  assumes "cpu_ok c"
  shows "\<exists>c'. pop_off (push_off c) = Inr c' \<and> c_noff c' = c_noff c \<and> c_intr c' = c_intr c \<and>
    (c_noff c > 0 \<longrightarrow> c' = c)"
  using assms by (auto simp: pop_off_def push_off_def cpu_ok_def Let_def)

theorem pop_off_push_off_witness:
  "\<exists>c'. pop_off (push_off \<lparr>c_noff = 0, c_intena = False, c_intr = True\<rparr>) = Inr c' \<and> c_intr c'"
  using pop_off_push_off [of "\<lparr>c_noff = 0, c_intena = False, c_intr = True\<rparr>"]
  by (auto simp: cpu_ok_def)

end
