(* ===== verification/Kstruct.thy ===== *)
theory Kstruct
  imports Vm
begin

text \<open>
  The kernel's own page tables, the initialised arrays of \<open>kernel/kstruct.c\<close>, which
  \<open>kernel/entry.S\<close> installs before it turns the MMU on. An array that the C initialiser gives
  fewer than 512 values is zero from there on.
\<close>

unbundle bit_operations_syntax

section \<open>The tables\<close>

definition MM_TYPE_BLOCK :: u64 where
  "MM_TYPE_BLOCK = 1"

definition MT_DEVICE_nGnRnE :: u64 where
  "MT_DEVICE_nGnRnE = 0"

definition KERNEL_2M_PAGE :: u64 where
  "KERNEL_2M_PAGE = MM_TYPE_BLOCK OR push_bit 2 MT_NORMAL_NC OR AF_USED OR UXN"

definition KERNEL_2M_DEVICE :: u64 where
  "KERNEL_2M_DEVICE = MM_TYPE_BLOCK OR push_bit 2 MT_DEVICE_nGnRnE OR AF_USED OR UXN"

definition init512 :: "u64 list \<Rightarrow> u64 list" where
  "init512 xs = xs @ replicate (512 - length xs) 0"

definition kpmddvc :: "u64 list" where
  "kpmddvc = init512 (replicate 64 0 @ [
    0x8000000 OR KERNEL_2M_DEVICE, 0x8200000 OR KERNEL_2M_DEVICE, 0x8400000 OR KERNEL_2M_DEVICE,
    0x8600000 OR KERNEL_2M_DEVICE, 0x8800000 OR KERNEL_2M_DEVICE, 0x8a00000 OR KERNEL_2M_DEVICE,
    0x8c00000 OR KERNEL_2M_DEVICE, 0x8e00000 OR KERNEL_2M_DEVICE, 0x9000000 OR KERNEL_2M_DEVICE,
    0x9200000 OR KERNEL_2M_DEVICE, 0x9400000 OR KERNEL_2M_DEVICE, 0x9600000 OR KERNEL_2M_DEVICE,
    0x9800000 OR KERNEL_2M_DEVICE, 0x9a00000 OR KERNEL_2M_DEVICE, 0x9c00000 OR KERNEL_2M_DEVICE,
    0x9e00000 OR KERNEL_2M_DEVICE, 0xa000000 OR KERNEL_2M_DEVICE, 0xa200000 OR KERNEL_2M_DEVICE,
    0xa400000 OR KERNEL_2M_DEVICE, 0xa600000 OR KERNEL_2M_DEVICE, 0xa800000 OR KERNEL_2M_DEVICE,
    0xaa00000 OR KERNEL_2M_DEVICE, 0xac00000 OR KERNEL_2M_DEVICE, 0xae00000 OR KERNEL_2M_DEVICE])"

definition kpmdram :: "u64 list" where
  "kpmdram = init512 [
    0x40000000 OR KERNEL_2M_PAGE, 0x40200000 OR KERNEL_2M_PAGE, 0x40400000 OR KERNEL_2M_PAGE,
    0x40600000 OR KERNEL_2M_PAGE, 0x40800000 OR KERNEL_2M_PAGE, 0x40a00000 OR KERNEL_2M_PAGE,
    0x40c00000 OR KERNEL_2M_PAGE, 0x40e00000 OR KERNEL_2M_PAGE, 0x41000000 OR KERNEL_2M_PAGE,
    0x41200000 OR KERNEL_2M_PAGE, 0x41400000 OR KERNEL_2M_PAGE, 0x41600000 OR KERNEL_2M_PAGE,
    0x41800000 OR KERNEL_2M_PAGE, 0x41a00000 OR KERNEL_2M_PAGE, 0x41c00000 OR KERNEL_2M_PAGE,
    0x41e00000 OR KERNEL_2M_PAGE, 0x42000000 OR KERNEL_2M_PAGE, 0x42200000 OR KERNEL_2M_PAGE,
    0x42400000 OR KERNEL_2M_PAGE, 0x42600000 OR KERNEL_2M_PAGE, 0x42800000 OR KERNEL_2M_PAGE,
    0x42a00000 OR KERNEL_2M_PAGE, 0x42c00000 OR KERNEL_2M_PAGE, 0x42e00000 OR KERNEL_2M_PAGE,
    0x43000000 OR KERNEL_2M_PAGE, 0x43200000 OR KERNEL_2M_PAGE, 0x43400000 OR KERNEL_2M_PAGE,
    0x43600000 OR KERNEL_2M_PAGE, 0x43800000 OR KERNEL_2M_PAGE, 0x43a00000 OR KERNEL_2M_PAGE,
    0x43c00000 OR KERNEL_2M_PAGE, 0x43e00000 OR KERNEL_2M_PAGE, 0x44000000 OR KERNEL_2M_PAGE,
    0x44200000 OR KERNEL_2M_PAGE, 0x44400000 OR KERNEL_2M_PAGE, 0x44600000 OR KERNEL_2M_PAGE,
    0x44800000 OR KERNEL_2M_PAGE, 0x44a00000 OR KERNEL_2M_PAGE, 0x44c00000 OR KERNEL_2M_PAGE,
    0x44e00000 OR KERNEL_2M_PAGE, 0x45000000 OR KERNEL_2M_PAGE, 0x45200000 OR KERNEL_2M_PAGE,
    0x45400000 OR KERNEL_2M_PAGE, 0x45600000 OR KERNEL_2M_PAGE, 0x45800000 OR KERNEL_2M_PAGE,
    0x45a00000 OR KERNEL_2M_PAGE, 0x45c00000 OR KERNEL_2M_PAGE, 0x45e00000 OR KERNEL_2M_PAGE,
    0x46000000 OR KERNEL_2M_PAGE, 0x46200000 OR KERNEL_2M_PAGE, 0x46400000 OR KERNEL_2M_PAGE,
    0x46600000 OR KERNEL_2M_PAGE, 0x46800000 OR KERNEL_2M_PAGE, 0x46a00000 OR KERNEL_2M_PAGE,
    0x46c00000 OR KERNEL_2M_PAGE, 0x46e00000 OR KERNEL_2M_PAGE, 0x47000000 OR KERNEL_2M_PAGE,
    0x47200000 OR KERNEL_2M_PAGE, 0x47400000 OR KERNEL_2M_PAGE, 0x47600000 OR KERNEL_2M_PAGE,
    0x47800000 OR KERNEL_2M_PAGE, 0x47a00000 OR KERNEL_2M_PAGE, 0x47c00000 OR KERNEL_2M_PAGE,
    0x47e00000 OR KERNEL_2M_PAGE]"

text \<open>The addresses of the other tables are the linker's.\<close>

definition kpud :: "u64 \<Rightarrow> u64 \<Rightarrow> u64 list" where
  "kpud dvc ram = init512 [dvc + MM_TYPE_TABLE, ram + MM_TYPE_TABLE]"

definition kpgdir :: "u64 \<Rightarrow> u64 list" where
  "kpgdir pud = init512 [pud + MM_TYPE_TABLE]"

section \<open>Translation\<close>

text \<open>
  The hardware's walk through these tables, for a virtual address of the kernel: \<open>tables\<close>
  gives the table at a physical address. A block descriptor at level 2 maps 2 MB; the result is
  the physical address with the descriptor's memory attribute.
\<close>

definition next_table :: "(u64 \<rightharpoonup> u64 list) \<Rightarrow> u64 \<Rightarrow> u64 list option" where
  "next_table tables e =
     (if e AND MM_TYPE_MASK = MM_TYPE_TABLE then tables (e AND PG_ADDR_MASK) else None)"

definition block_addr :: "u64 \<Rightarrow> u64 \<Rightarrow> (u64 \<times> u64) option" where
  "block_addr e va =
     (if e AND MM_TYPE_MASK = MM_TYPE_BLOCK
      then Some ((e AND 0xffffffe00000) + (va AND 0x1fffff), drop_bit 2 e AND 7) else None)"

definition kernel_translate :: "(u64 \<rightharpoonup> u64 list) \<Rightarrow> u64 list \<Rightarrow> u64 \<Rightarrow> (u64 \<times> u64) option" where
  "kernel_translate tables root va =
     Option.bind (next_table tables (root ! unat (PX 0 va))) (\<lambda>pud.
     Option.bind (next_table tables (pud ! unat (PX 1 va))) (\<lambda>pmd.
     block_addr (pmd ! unat (PX 2 va)) va))"

text \<open>The entries, by index.\<close>

lemma kpmdram_eq: "kpmdram = map (\<lambda>i. (0x40000000 + of_nat i * 0x200000) OR KERNEL_2M_PAGE) [0..<64] @ replicate 448 0"
  by (simp add: kpmdram_def init512_def upt_conv_Cons)

lemma kpmddvc_eq: "kpmddvc = replicate 64 0 @
    map (\<lambda>i. (0x8000000 + of_nat i * 0x200000) OR KERNEL_2M_DEVICE) [0..<24] @ replicate 424 0"
  by (simp add: kpmddvc_def init512_def upt_conv_Cons)

text \<open>The parts of an entry: its type, the address of its block, and its memory attribute.\<close>

definition block_entry :: "u64 \<Rightarrow> u64 \<Rightarrow> u64 \<Rightarrow> bool" where
  "block_entry e base attr \<longleftrightarrow>
     e AND MM_TYPE_MASK = MM_TYPE_BLOCK \<and> e AND 0xffffffe00000 = base \<and> drop_bit 2 e AND 7 = attr"

lemma block_entry_OR:
  assumes "base AND 0xffffffe00000 = base" and "base AND 3 = 0" and "drop_bit 2 base AND 7 = 0"
  shows "block_entry (base OR KERNEL_2M_PAGE) base MT_NORMAL_NC"
    and "block_entry (base OR KERNEL_2M_DEVICE) base MT_DEVICE_nGnRnE"
  using assms
  by (simp_all add: block_entry_def bit.conj_disj_distrib2 drop_bit_or KERNEL_2M_PAGE_def KERNEL_2M_DEVICE_def
      MM_TYPE_BLOCK_def MM_TYPE_MASK_def MT_NORMAL_NC_def MT_DEVICE_nGnRnE_def AF_USED_def UXN_def)

lemma block_entry_ram:
  assumes "i < 64"
  shows "block_entry (kpmdram ! i) (0x40000000 + of_nat i * 0x200000) MT_NORMAL_NC"
proof -
  let ?b = "\<lambda>i. 0x40000000 + of_nat i * 0x200000 :: u64"
  have "list_all (\<lambda>i. ?b i AND 0xffffffe00000 = ?b i \<and> ?b i AND 3 = 0 \<and> drop_bit 2 (?b i) AND 7 = 0) [0..<64]"
    by (simp add: upt_conv_Cons)
  then show ?thesis
    using assms by (simp add: list_all_iff kpmdram_eq nth_append block_entry_OR)
qed

lemma block_entry_dvc:
  assumes "i < 24"
  shows "block_entry (kpmddvc ! (64 + i)) (0x8000000 + of_nat i * 0x200000) MT_DEVICE_nGnRnE"
proof -
  let ?b = "\<lambda>i. 0x8000000 + of_nat i * 0x200000 :: u64"
  have "list_all (\<lambda>i. ?b i AND 0xffffffe00000 = ?b i \<and> ?b i AND 3 = 0 \<and> drop_bit 2 (?b i) AND 7 = 0) [0..<24]"
    by (simp add: upt_conv_Cons)
  then show ?thesis
    using assms by (simp add: list_all_iff kpmddvc_eq nth_append block_entry_OR)
qed

lemma block_addr_entry: "block_entry e base attr \<Longrightarrow> block_addr e va = Some (base + (va AND 0x1fffff), attr)"
  by (simp add: block_entry_def block_addr_def)

lemma block_addr_0: "block_addr 0 va = None"
  by (simp add: block_addr_def MM_TYPE_BLOCK_def)

lemma next_table_0: "next_table tables 0 = None"
  by (simp add: next_table_def MM_TYPE_TABLE_def)

lemma kpmdram_zero: "64 \<le> i \<Longrightarrow> i < 512 \<Longrightarrow> kpmdram ! i = 0"
  by (simp add: kpmdram_eq nth_append)

lemma kpmddvc_zero: "i < 512 \<Longrightarrow> i < 64 \<or> 88 \<le> i \<Longrightarrow> kpmddvc ! i = 0"
  by (auto simp: kpmddvc_eq nth_append)

text \<open>A table descriptor made from the address of a page.\<close>

lemma next_table_desc:
  assumes "a AND PG_ADDR_MASK = a"
  shows "next_table tables (a + MM_TYPE_TABLE) = tables a"
proof -
  have "a AND MM_TYPE_TABLE = a AND (PG_ADDR_MASK AND MM_TYPE_TABLE)"
    using assms by (metis and.assoc)
  then have 0: "a AND MM_TYPE_TABLE = 0"
    by (simp add: PG_ADDR_MASK_def MM_TYPE_TABLE_def)
  then have sum: "a + MM_TYPE_TABLE = a OR MM_TYPE_TABLE"
    by (rule disjunctive_add_eq_or)
  have "(a OR MM_TYPE_TABLE) AND MM_TYPE_MASK = MM_TYPE_TABLE"
    using 0 by (simp add: bit.conj_disj_distrib2 MM_TYPE_MASK_def MM_TYPE_TABLE_def)
  moreover have "(a OR MM_TYPE_TABLE) AND PG_ADDR_MASK = a"
    using assms by (simp add: bit.conj_disj_distrib2 PG_ADDR_MASK_def MM_TYPE_TABLE_def)
  ultimately show ?thesis
    by (simp add: next_table_def sum)
qed

lemma unat_PX: "unat (PX level va) = unat va div 2 ^ PX_OFFSET level mod 512"
proof -
  have "PX level va = take_bit 9 (drop_bit (PX_OFFSET level) va)"
    by (simp add: PX_def take_bit_eq_mask mask_eq_exp_minus_1)
  then have "unat (PX level va) = take_bit 9 (drop_bit (PX_OFFSET level) (unat va))"
    by (simp only: unsigned_take_bit_eq unat_drop_bit_eq)
  then show ?thesis
    by (simp add: take_bit_eq_mod drop_bit_eq_div)
qed

lemma unat_P2V: "pa < 0x1000000000000 \<Longrightarrow> unat (P2V pa) = 0xffff000000000000 + unat pa"
  by (simp add: P2V_def KERN_BASE_def unat_plus_if' word_less_nat_alt)

lemma high_part:
  "(c * 512 * 2 ^ k + n) div 2 ^ k mod 512 = n div 2 ^ k mod (512 :: nat)"
  "(c * 2 ^ k + n) mod 2 ^ k = n mod (2 ^ k :: nat)"
  by simp_all

lemma kernel_index:
  assumes "pa < 0x1000000000000"
  shows "unat (PX 0 (P2V pa)) = unat pa div 2 ^ 39 mod 512"
    and "unat (PX 1 (P2V pa)) = unat pa div 2 ^ 30 mod 512"
    and "unat (PX 2 (P2V pa)) = unat pa div 2 ^ 21 mod 512"
    and "unat (P2V pa AND 0x1fffff) = unat pa mod 2 ^ 21"
proof -
  note u = unat_P2V [OF assms]
  show "unat (PX 0 (P2V pa)) = unat pa div 2 ^ 39 mod 512"
    using high_part(1) [of 65535 39 "unat pa"] by (simp add: unat_PX PX_OFFSET_def u)
  show "unat (PX 1 (P2V pa)) = unat pa div 2 ^ 30 mod 512"
    using high_part(1) [of 33553920 30 "unat pa"] by (simp add: unat_PX PX_OFFSET_def u)
  show "unat (PX 2 (P2V pa)) = unat pa div 2 ^ 21 mod 512"
    using high_part(1) [of 17179607040 21 "unat pa"] by (simp add: unat_PX PX_OFFSET_def u)
  have a: "(0x1fffff :: u64) = mask 21"
    by (simp add: mask_eq_exp_minus_1)
  have "unat (P2V pa AND 0x1fffff) = take_bit 21 (unat (P2V pa))"
    by (simp only: a take_bit_eq_mask [symmetric] unsigned_take_bit_eq)
  then show "unat (P2V pa AND 0x1fffff) = unat pa mod 2 ^ 21"
    using high_part(2) [of 8795958804480 21 "unat pa"] by (simp add: take_bit_eq_mod u)
qed

text \<open>The walk, by the number \<open>q\<close> of the 2 MB block.\<close>

lemma kernel_walk:
  fixes pa :: u64
  defines "q \<equiv> unat pa div 2097152"
  assumes "pud AND PG_ADDR_MASK = pud" and "dvc AND PG_ADDR_MASK = dvc" and "ram AND PG_ADDR_MASK = ram"
    and t: "tables pud = Some (kpud dvc ram)" "tables dvc = Some kpmddvc" "tables ram = Some kpmdram"
    and pa: "pa < 0x1000000000000"
  shows "kernel_translate tables (kpgdir pud) (P2V pa) =
    (if q < 512 then block_addr (kpmddvc ! q) (P2V pa)
     else if q < 1024 then block_addr (kpmdram ! (q - 512)) (P2V pa)
     else None)"
proof -
  have q: "q < 134217728"
    using pa by (simp add: q_def div_less_iff_less_mult word_less_nat_alt)
  have "unat pa div 549755813888 = q div 262144" and "unat pa div 1073741824 = q div 512"
    by (simp_all add: q_def div_mult2_eq [symmetric])
  moreover have "q div 262144 < 512"
    using q by (simp add: div_less_iff_less_mult)
  ultimately have i: "unat (PX 0 (P2V pa)) = q div 262144" "unat (PX 1 (P2V pa)) = q div 512 mod 512"
      "unat (PX 2 (P2V pa)) = q mod 512"
    using kernel_index [OF pa] by (simp_all add: q_def)
  have root: "kpgdir pud ! k = (if k = 0 then pud + MM_TYPE_TABLE else 0)" if "k < 512" for k
    using that by (cases k) (simp_all add: kpgdir_def init512_def)
  have table: "kpud dvc ram ! k = (if k = 0 then dvc + MM_TYPE_TABLE else if k = 1 then ram + MM_TYPE_TABLE else 0)"
    if "k < 512" for k
    using that by (cases k; cases "k - 1") (simp_all add: kpud_def init512_def)
  note N = next_table_desc [OF assms(2)] next_table_desc [OF assms(3)] next_table_desc [OF assms(4)] next_table_0
  consider (high) "262144 \<le> q" | (dvc) "q < 512" | (ram) "512 \<le> q" "q < 1024" | (none) "1024 \<le> q" "q < 262144"
    by linarith
  then show ?thesis
  proof cases
    case high
    then have "q div 262144 \<noteq> 0"
      by simp
    then show ?thesis
      using high q unfolding kernel_translate_def i by (simp add: root N div_less_iff_less_mult)
  next
    case none
    then have "q div 262144 = 0" "q div 512 < 512" "2 \<le> q div 512"
      by (simp_all add: div_less_iff_less_mult less_eq_div_iff_mult_less_eq)
    then show ?thesis
      using none t unfolding kernel_translate_def i by (simp add: root table N)
  next
    case dvc
    then show ?thesis
      using t unfolding kernel_translate_def i by (simp add: root table N)
  next
    case ram
    then have "q mod 512 = q - 512" "q div 512 = 1" "q div 262144 = 0"
      by (auto simp: mod_if div_if)
    then show ?thesis
      using ram t unfolding kernel_translate_def i by (simp add: root table N)
  qed
qed

text \<open>The address of a block with the offset in it.\<close>

lemma block_offset:
  assumes pa: "pa < 0x1000000000000" and c: "unat pa div 2097152 = unat c div 2097152 + i" "unat c mod 2097152 = 0"
  shows "c + of_nat i * 0x200000 + (P2V pa AND 0x1fffff) = pa"
proof -
  have "unat c div 2097152 * 2097152 = unat c"
    using c(2) by (simp add: dvd_div_mult_self mod_0_imp_dvd)
  moreover have "unat pa = (unat c div 2097152 + i) * 2097152 + unat pa mod 2097152"
    unfolding c(1) [symmetric] by simp
  ultimately have "unat c + i * 2097152 + unat pa mod 2097152 = unat pa"
    by (simp only: add_mult_distrib)
  then have "of_nat (unat c + i * 2097152 + unat pa mod 2097152) = pa"
    by simp
  moreover have "P2V pa AND 0x1fffff = of_nat (unat pa mod 2097152)"
  proof -
    have "unat pa mod 2097152 = unat (P2V pa AND 0x1fffff)"
      using kernel_index(4) [OF pa] by simp
    then show ?thesis
      by simp
  qed
  ultimately show ?thesis
    by simp
qed

text \<open>
  Property C17. The kernel's page tables map exactly the devices and the memory: the virtual address
  \<open>P2V pa\<close> goes to \<open>pa\<close>, with the attribute of device memory from 0x8000000 to 0xb000000 and
  of normal memory from \<open>PHY_BASE\<close> to \<open>PHY_STOP\<close>, and every other address is not mapped.
\<close>

theorem kernel_map_correct:
  assumes "pud AND PG_ADDR_MASK = pud" and "dvc AND PG_ADDR_MASK = dvc" and "ram AND PG_ADDR_MASK = ram"
    and "tables pud = Some (kpud dvc ram)" and "tables dvc = Some kpmddvc" and "tables ram = Some kpmdram"
    and "pa < 0x1000000000000"
  shows "kernel_translate tables (kpgdir pud) (P2V pa) =
    (if 0x8000000 \<le> pa \<and> pa < 0xb000000 then Some (pa, MT_DEVICE_nGnRnE)
     else if PHY_BASE \<le> pa \<and> pa < PHY_STOP then Some (pa, MT_NORMAL_NC)
     else None)"
proof -
  define q where "q = unat pa div 2097152"
  have dev: "0x8000000 \<le> pa \<and> pa < 0xb000000 \<longleftrightarrow> 64 \<le> q \<and> q < 88"
    by (simp add: q_def word_less_nat_alt word_le_nat_alt div_less_iff_less_mult less_eq_div_iff_mult_less_eq)
  have mem: "PHY_BASE \<le> pa \<and> pa < PHY_STOP \<longleftrightarrow> 512 \<le> q \<and> q < 576"
    by (simp add: q_def PHY_BASE_def PHY_STOP_def word_less_nat_alt word_le_nat_alt div_less_iff_less_mult
        less_eq_div_iff_mult_less_eq)
  note W = kernel_walk [OF assms(1-7), folded q_def] and O = block_offset [OF assms(7), folded q_def]
  consider (dev) "64 \<le> q" "q < 88" | (mem) "512 \<le> q" "q < 576" | (dvc0) "q < 64 \<or> 88 \<le> q" "q < 512"
    | (ram0) "576 \<le> q" "q < 1024" | (none) "1024 \<le> q"
    by linarith
  then show ?thesis
  proof cases
    case dev
    then have "block_addr (kpmddvc ! q) (P2V pa) = Some (pa, MT_DEVICE_nGnRnE)"
      using block_addr_entry [OF block_entry_dvc [of "q - 64"], of "P2V pa"] O [where c = "0x8000000" and i = "q - 64"] by simp
    then show ?thesis
      unfolding W \<open>0x8000000 \<le> pa \<and> pa < 0xb000000 \<longleftrightarrow> 64 \<le> q \<and> q < 88\<close> using dev by simp
  next
    case mem
    then have "block_addr (kpmdram ! (q - 512)) (P2V pa) = Some (pa, MT_NORMAL_NC)"
      using block_addr_entry [OF block_entry_ram [of "q - 512"], of "P2V pa"] O [where c = "0x40000000" and i = "q - 512"] by simp
    then show ?thesis
      unfolding W dev \<open>PHY_BASE \<le> pa \<and> pa < PHY_STOP \<longleftrightarrow> 512 \<le> q \<and> q < 576\<close> using mem by simp
  next
    case dvc0
    then show ?thesis
      unfolding W dev mem using kpmddvc_zero [of q] block_addr_0 by auto
  next
    case ram0
    then show ?thesis
      unfolding W dev mem using kpmdram_zero [of "q - 512"] block_addr_0 by auto
  next
    case none
    then show ?thesis
      unfolding W dev mem by auto
  qed
qed

text \<open>Tables at three consecutive pages of the kernel image.\<close>

theorem kernel_map_correct_witness:
  "kernel_translate [0x40001000 \<mapsto> kpud 0x40002000 0x40003000, 0x40002000 \<mapsto> kpmddvc, 0x40003000 \<mapsto> kpmdram]
     (kpgdir 0x40001000) (P2V 0x09000018) = Some (0x09000018, MT_DEVICE_nGnRnE)"
  by (subst kernel_map_correct [where pud = "0x40001000" and dvc = "0x40002000" and ram = "0x40003000"])
    (simp_all add: PG_ADDR_MASK_def)

end
