(* ===== verification/Fs_Blocks.thy ===== *)
theory Fs_Blocks
  imports Fs
begin

text \<open>
  The blocks of the file system inside a transaction: the idioms in which \<open>kernel/fs.c\<close> uses the
  cache and the log, with a count of the buffers and log entries an operation may still take, and the
  correctness of the block allocator \<open>balloc\<close>, \<open>bfree\<close> and \<open>bzero\<close> on the bitmap.
\<close>

unbundle bit_operations_syntax

section \<open>Steps of an operation\<close>

text \<open>
  An operation that holds the buffers in \<open>H\<close> and may take \<open>k\<close> more places: a buffer that it holds
  takes one until it is released, a block that it logs takes one to the end of the transaction.
\<close>

definition fs_op :: "nat \<Rightarrow> (nat \<rightharpoonup> u32) \<Rightarrow> 'a lstate_scheme \<Rightarrow> bool" where
  "fs_op k H s \<longleftrightarrow> log_inv H s \<and> 1 \<le> log_outstanding (thelog s) \<and>
     int (card (dom H) + lh_count s + k) < sint (log_size (thelog s))"

lemma fs_op_inv: "fs_op k H s \<Longrightarrow> log_inv H s"
  by (simp add: fs_op_def)

lemma fs_op_less: "fs_op k H s \<Longrightarrow> j \<le> k \<Longrightarrow> fs_op j H s"
  by (simp add: fs_op_def)

lemma fs_op_room: "fs_op k H s \<Longrightarrow> log_room H s"
  by (auto simp: fs_op_def log_room_def log_inv_def log_ok_def LOGSIZE_NBUF)

lemma fs_op_space: "fs_op (Suc k) H s \<Longrightarrow> log_space s"
  by (simp add: fs_op_def log_space_def)

lemma length_bview_inv: "log_inv H s \<Longrightarrow> length (bview s c) = BSIZE"
  using bc.view_length by (auto simp: log_inv_def)

lemma lh_count_logged: "log_inv H s \<Longrightarrow> lh_count s = length (logged s)"
  using log_okD(4) [of s] by (simp add: log_inv_def)

lemma fs_op_step:
  assumes "fs_op k H s" and "log_inv H' s'" and "txn_step s s'"
    and "card (dom H') + length (logged s') + k' \<le> card (dom H) + length (logged s) + k"
  shows "fs_op k' H' s'"
proof -
  have "1 \<le> log_outstanding (thelog s)" "int (card (dom H) + length (logged s) + k) < sint (log_size (thelog s))"
    using assms(1) lh_count_logged [of H s] by (auto simp: fs_op_def)
  then show ?thesis
    using assms(2,4) txn_step_sel [OF assms(3)] lh_count_logged [OF assms(2)] by (simp add: fs_op_def)
qed

text \<open>A block whose buffer may be released: it is in the transaction, or not changed.\<close>

definition settled :: "u32 \<Rightarrow> 'a lstate_scheme \<Rightarrow> bool" where
  "settled c s \<longleftrightarrow> c \<in> set (logged s) \<or> bview s c = disk s c"

lemma settled_step:
  assumes "settled c s" and "txn_step s s'" and "bview s' c = bview s c"
  shows "settled c s'"
  using assms(1,3) txn_step_sel(1,9) [OF assms(2)] by (auto simp: settled_def)

lemma card_dom_held:
  assumes "log_inv H s" and "b \<notin> dom H"
  shows "card (insert b (dom H)) = Suc (card (dom H))"
proof -
  have "finite (dom H)"
    using assms(1) finite_dom_held by (auto simp: log_inv_def)
  then show ?thesis
    using assms(2) by (rule card_insert_disjoint)
qed

lemma op_bread:
  assumes I: "fs_op (Suc k) H s" and c: "c \<notin> ran H"
  obtains b s' where "bread ROOTDEV c s = Inr (b, s')" "fs_op k (H(b \<mapsto> c)) s'" "b \<notin> dom H"
    "buf_data b s' = bview s c" "bview s' = bview s" "txn_step s s'" "settled c s'"
proof -
  note L = fs_op_inv [OF I]
  obtain b s' where b: "bread ROOTDEV c s = Inr (b, s')" "log_inv (H(b \<mapsto> c)) s'" "b \<notin> dom H"
    "buf_data b s' = bview s c" "bview s' = bview s" "txn_step s s'" "thelog s' = thelog s"
    "logged s' = logged s"
    by (rule log_bread [OF L c fs_op_room [OF I]])
  have "settled c s'"
    using log_inv_clean [OF L c] b(5,8) txn_step_sel(1) [OF b(6)] by (simp add: settled_def)
  moreover have "fs_op k (H(b \<mapsto> c)) s'"
    by (rule fs_op_step [OF I b(2,6)]) (simp add: b(8) card_dom_held [OF L b(3)])
  ultimately show thesis
    using that b by blast
qed

lemma op_brelse:
  assumes I: "fs_op k (H(b \<mapsto> c)) s" and b: "b \<notin> dom H" and d: "settled c s"
  obtains s' where "brelse b s = Inr s'" "fs_op (Suc k) H s'" "bview s' = bview s" "txn_step s s'"
    "logged s' = logged s"
proof -
  note L = fs_op_inv [OF I]
  have H: "(H(b \<mapsto> c))(b := None) = H"
    using b by (auto simp: fun_upd_idem domIff)
  obtain s' where s': "brelse b s = Inr s'" "log_inv H s'" "bview s' = bview s" "txn_step s s'" "logged s' = logged s"
    using log_brelse [OF L _ d [unfolded settled_def], of b] H by (metis fun_upd_same)
  have "fs_op (Suc k) H s'"
    by (rule fs_op_step [OF I s'(2,4)]) (use card_dom_held [OF s'(2) b] in \<open>simp add: s'(5)\<close>)
  then show thesis
    using that s' by blast
qed

lemma op_read_block:
  assumes I: "fs_op (Suc k) H s" and c: "c \<notin> ran H"
  obtains b s1 s2 where "bread ROOTDEV c s = Inr (b, s1)" "buf_data b s1 = bview s c" "txn_step s s1"
    "brelse b s1 = Inr s2" "fs_op (Suc k) H s2" "bview s2 = bview s" "txn_step s s2"
proof -
  obtain b s1 where 1: "bread ROOTDEV c s = Inr (b, s1)" "fs_op k (H(b \<mapsto> c)) s1" "b \<notin> dom H"
    "buf_data b s1 = bview s c" "bview s1 = bview s" "txn_step s s1" "settled c s1"
    by (rule op_bread [OF I c])
  obtain s2 where 2: "brelse b s1 = Inr s2" "fs_op (Suc k) H s2" "bview s2 = bview s1" "txn_step s1 s2"
    by (rule op_brelse [OF 1(2,3,7)])
  show thesis
    by (rule that [OF 1(1,4,6) 2(1,2)]) (use 1(5) 2(3) txn_step_trans [OF 1(6) 2(4)] in simp_all)
qed

text \<open>A logged change of a buffer that is held.\<close>

lemma op_log_write:
  assumes I: "fs_op (Suc k) H s" and b: "H b = Some c" and d: "length d = BSIZE"
    and c: "\<not> in_log (log_start (thelog s)) c"
  obtains s' where "log_write b (set_data b d s) = Inr s'" "fs_op k H s'" "bview s' = (bview s)(c := d)"
    "txn_step s s'" "settled c s'"
proof -
  let ?t = "set_data b d s"
  note P = log_put [OF fs_op_inv [OF I] b d]
  have "lh_count ?t = lh_count s"
    using P(4) by (simp add: lh_count_def)
  then have "1 \<le> log_outstanding (thelog ?t)" "int (lh_count ?t) < sint (log_size (thelog ?t)) - 1"
    "\<not> in_log (log_start (thelog ?t)) c"
    using fs_op_space [OF I] c P(4) by (auto simp: log_space_def)
  then obtain s' where s': "log_write b ?t = Inr s'" "log_inv H s'" "bview s' = bview ?t" "disk s' = disk ?t"
    "dwrites s' = dwrites ?t" "log_frame ?t s'"
    "logged s' = (if c \<in> set (logged ?t) then logged ?t else logged ?t @ [c])"
    "thelog s' = (thelog ?t)\<lparr>log_lh := log_lh (thelog s')\<rparr>"
    using log_write_ok [OF P(1) b] by metis
  have "set (logged ?t) \<subseteq> set (logged s')"
    using s'(7) by auto
  then have t: "txn_step s s'"
    using txn_step_trans [OF P(3), of s'] s'(4-6,8) by (simp add: txn_step_def)
  have "fs_op k H s'"
    by (rule fs_op_step [OF I s'(2) t]) (simp add: s'(7) P(5))
  moreover have "settled c s'"
    using s'(7) by (simp add: settled_def)
  ultimately show thesis
    using that [OF s'(1) _ _ t] s'(3) P(2) by simp
qed

text \<open>The idiom \<open>bread\<close>, change, \<open>log_write\<close>, \<open>brelse\<close>.\<close>

lemma op_update_block:
  assumes I: "fs_op (Suc (Suc k)) H s" and c: "c \<notin> ran H" and d: "length (f (bview s c)) = BSIZE"
    and l: "\<not> in_log (log_start (thelog s)) c"
  obtains b s1 s2 s3 where "bread ROOTDEV c s = Inr (b, s1)" "buf_data b s1 = bview s c" "txn_step s s1"
    "log_write b (set_data b (f (bview s c)) s1) = Inr s2" "brelse b s2 = Inr s3" "fs_op (Suc k) H s3"
    "bview s3 = (bview s)(c := f (bview s c))" "txn_step s s3"
proof -
  obtain b s1 where 1: "bread ROOTDEV c s = Inr (b, s1)" "fs_op (Suc k) (H(b \<mapsto> c)) s1" "b \<notin> dom H"
    "buf_data b s1 = bview s c" "bview s1 = bview s" "txn_step s s1" "settled c s1"
    by (rule op_bread [OF I c])
  have "\<not> in_log (log_start (thelog s1)) c"
    using l txn_step_sel(4) [OF 1(6)] by simp
  then obtain s2 where 2: "log_write b (set_data b (f (bview s c)) s1) = Inr s2" "fs_op k (H(b \<mapsto> c)) s2"
    "bview s2 = (bview s1)(c := f (bview s c))" "txn_step s1 s2" "settled c s2"
    using op_log_write [OF 1(2) _ d, of b c] by auto
  obtain s3 where 3: "brelse b s2 = Inr s3" "fs_op (Suc k) H s3" "bview s3 = bview s2" "txn_step s2 s3"
    by (rule op_brelse [OF 2(2) 1(3) 2(5)])
  show thesis
    by (rule that [OF 1(1,4,6) 2(1) 3(1,2)])
      (use 1 2 3 txn_step_trans [OF 1(6) txn_step_trans [OF 2(4) 3(4)]] in simp_all)
qed

lemma txn_step_fs:
  fixes s s' :: "'a fstate_scheme"
  assumes "txn_step s s'"
  shows "sb s' = sb s" "inodes s' = inodes s" "cur s' = cur s" "mem s' = mem s" "fstate.more s' = fstate.more s"
proof -
  have "lstate.more s' = lstate.more s" "woken s s'" "mem s' = mem s"
    using txn_step_sel(3) [OF assms] by (auto simp: log_frame_def)
  then show "sb s' = sb s" "inodes s' = inodes s" "cur s' = cur s" "mem s' = mem s" "fstate.more s' = fstate.more s"
    by (cases s; cases s'; simp add: woken_def)+
qed

lemma upd_log_fs [simp]: "sb (upd_log f s) = sb s" "inodes (upd_log f s) = inodes s"
  by (simp_all add: upd_log_def)

section \<open>The bitmap\<close>

lemma block_free_bit: "block_free d bi \<longleftrightarrow> \<not> bit (d ! (bi div 8)) (bi mod 8)"
  by (simp add: block_free_def bit_mask_def bit_iff_and_push_bit_not_eq_0)

lemma same_bit: "(bi :: nat) = bj \<longleftrightarrow> bi div 8 = bj div 8 \<and> bi mod 8 = bj mod 8"
  by (metis div_mult_mod_eq)

lemma bit_bit_mask: "bit (bit_mask bi) (bj mod 8) \<longleftrightarrow> bi mod 8 = bj mod 8"
  by (auto simp: bit_mask_def bit_exp_iff)

lemma block_free_set:
  assumes "bi < BPB" and "length d = BSIZE"
  shows "block_free (set_bit_in bi d) bj \<longleftrightarrow> block_free d bj \<and> bj \<noteq> bi"
proof -
  have l: "bi div 8 < length d"
    using assms by (simp add: BPB_def BSIZE_def)
  show ?thesis
    using l bit_bit_mask [of bi bj] by (auto simp: block_free_bit set_bit_in_def nth_list_update bit_or_iff same_bit [of bj bi])
qed

lemma block_free_clear:
  assumes "bi < BPB" and "length d = BSIZE"
  shows "block_free (clear_bit_in bi d) bj \<longleftrightarrow> block_free d bj \<or> bj = bi"
proof -
  have l: "bi div 8 < length d"
    using assms by (simp add: BPB_def BSIZE_def)
  have b: "bit (NOT (bit_mask bi)) (bj mod 8) \<longleftrightarrow> bi mod 8 \<noteq> bj mod 8"
    using mod_less_divisor [of 8 bj] by (simp add: bit_not_iff_eq bit_bit_mask not_le)
  show ?thesis
    using l b by (auto simp: block_free_bit clear_bit_in_def nth_list_update bit_and_iff same_bit [of bj bi])
qed

lemma length_set_bit_in [simp]: "length (set_bit_in bi d) = length d" "length (clear_bit_in bi d) = length d"
  by (simp_all add: set_bit_in_def clear_bit_in_def)

text \<open>
  The blocks that the bitmap has as free, for the contents \<open>V\<close> of the blocks: those below the size of
  the file system whose bit is clear.
\<close>

definition free_in :: "superblock \<Rightarrow> (u32 \<Rightarrow> u8 list) \<Rightarrow> u32 \<Rightarrow> bool" where
  "free_in x V b \<longleftrightarrow> block_free (V (BBLOCK b x)) (unat b mod BPB)"

definition free_blocks :: "superblock \<Rightarrow> (u32 \<Rightarrow> u8 list) \<Rightarrow> u32 set" where
  "free_blocks x V = {b. b < sb_size x \<and> free_in x V b}"

text \<open>
  What the file system relies on: block contents are whole; the bitmap and the inodes do not overlap each
  other or the log; and the blocks of the log, the super block, the inodes and the bitmap, and block 0,
  are never free. \<open>mkfs\<close> sets this up.
\<close>

definition metadata :: "superblock \<Rightarrow> u32 \<Rightarrow> u32 \<Rightarrow> bool" where
  "metadata x start b \<longleftrightarrow> in_log start b \<or> b = 0 \<or> b = 1 \<or> (\<exists>d < sb_size x. b = BBLOCK d x) \<or>
     (\<exists>i < sb_ninodes x. b = IBLOCK i x)"

definition fs_layout :: "superblock \<Rightarrow> u32 \<Rightarrow> (u32 \<Rightarrow> u8 list) \<Rightarrow> bool" where
  "fs_layout x start V \<longleftrightarrow> unat (sb_size x) + BPB < 2 ^ 32 \<and> (\<forall>c. length (V c) = BSIZE) \<and>
     (\<forall>b < sb_size x. \<not> in_log start (BBLOCK b x)) \<and>
     (\<forall>i < sb_ninodes x. \<not> in_log start (IBLOCK i x) \<and> (\<forall>b < sb_size x. IBLOCK i x \<noteq> BBLOCK b x)) \<and>
     (\<forall>b < sb_size x. metadata x start b \<longrightarrow> \<not> free_in x V b)"

lemma BPB_val: "BPB = 8192"
  by (simp add: BPB_def BSIZE_def)

lemma unat_div_BPB: "unat (b div of_nat BPB :: u32) = unat b div BPB"
  by (simp add: unat_div BPB_val)

lemma BBLOCK_eq: "BBLOCK b x = BBLOCK c x \<longleftrightarrow> unat b div BPB = unat c div BPB"
  by (metis BBLOCK_def add_right_imp_eq unat_div_BPB word_unat_eq_iff)

lemma free_in_cong: "V (BBLOCK b x) = V' (BBLOCK b x) \<Longrightarrow> free_in x V b = free_in x V' b"
  by (simp add: free_in_def)

text \<open>Taking and returning a block.\<close>

definition take_block :: "superblock \<Rightarrow> u32 \<Rightarrow> (u32 \<Rightarrow> u8 list) \<Rightarrow> u32 \<Rightarrow> u8 list" where
  "take_block x b V = V(BBLOCK b x := set_bit_in (unat b mod BPB) (V (BBLOCK b x)))"

definition give_block :: "superblock \<Rightarrow> u32 \<Rightarrow> (u32 \<Rightarrow> u8 list) \<Rightarrow> u32 \<Rightarrow> u8 list" where
  "give_block x b V = V(BBLOCK b x := clear_bit_in (unat b mod BPB) (V (BBLOCK b x)))"

lemma unat_eq_BPB: "b = c \<longleftrightarrow> unat b div BPB = unat c div BPB \<and> unat b mod BPB = unat c mod BPB" for b c :: u32
  by (metis div_mult_mod_eq word_unat_eq_iff)

lemma mod_BPB_less: "n mod BPB < BPB"
  by (simp add: BPB_val)

lemma free_in_take:
  assumes "\<And>c. length (V c) = BSIZE"
  shows "free_in x (take_block x b V) c \<longleftrightarrow> free_in x V c \<and> c \<noteq> b"
  using block_free_set [OF mod_BPB_less assms, of "unat b"] unat_eq_BPB [of c b] BBLOCK_eq [of c x b]
  by (cases "BBLOCK c x = BBLOCK b x") (auto simp: free_in_def take_block_def)

lemma free_in_give:
  assumes "\<And>c. length (V c) = BSIZE"
  shows "free_in x (give_block x b V) c \<longleftrightarrow> free_in x V c \<or> c = b"
  using block_free_clear [OF mod_BPB_less assms, of "unat b"] unat_eq_BPB [of c b] BBLOCK_eq [of c x b]
  by (cases "BBLOCK c x = BBLOCK b x") (auto simp: free_in_def give_block_def)

section \<open>Allocating\<close>

lemma bzero_ok:
  assumes I: "fs_op (Suc (Suc k)) H s" and c: "c \<notin> ran H" and l: "\<not> in_log (log_start (thelog s)) c"
  obtains s' where "bzero ROOTDEV c s = Inr s'" "fs_op (Suc k) H s'"
    "bview s' = (bview s)(c := replicate BSIZE 0)" "txn_step s s'"
proof -
  obtain b s1 s2 s3 where "bread ROOTDEV c s = Inr (b, s1)" "buf_data b s1 = bview s c" "txn_step s s1"
    "log_write b (set_data b (replicate BSIZE 0) s1) = Inr s2" "brelse b s2 = Inr s3" "fs_op (Suc k) H s3"
    "bview s3 = (bview s)(c := replicate BSIZE 0)" "txn_step s s3"
    by (rule op_update_block [where f = "\<lambda>_. replicate BSIZE 0", OF I c _ l]) simp
  then show thesis
    by (intro that [of s3]) (simp_all add: bzero_def)
qed

lemma find_append: "List.find P (xs @ ys) = (case List.find P xs of Some x \<Rightarrow> Some x | None \<Rightarrow> List.find P ys)"
  by (induction xs) auto

lemma find_map: "List.find P (map f xs) = map_option f (List.find (\<lambda>x. P (f x)) xs)"
  by (induction xs) auto

lemma find_cong: "(\<And>x. x \<in> set xs \<Longrightarrow> P x = Q x) \<Longrightarrow> List.find P xs = List.find Q xs"
  by (induction xs) auto

text \<open>The block that \<open>balloc\<close> takes, from the bitmap blocks \<open>ks\<close>.\<close>

definition free_nr :: "superblock \<Rightarrow> (u32 \<Rightarrow> u8 list) \<Rightarrow> nat \<Rightarrow> bool" where
  "free_nr x V n \<longleftrightarrow> n < unat (sb_size x) \<and> free_in x V (of_nat n)"

definition bits_of :: "nat \<Rightarrow> nat list" where
  "bits_of k = map (\<lambda>bi. k * BPB + bi) [0..<BPB]"

text \<open>What the holder of a buffer must not hold when it allocates.\<close>

definition held_ok :: "superblock \<Rightarrow> (u32 \<Rightarrow> u8 list) \<Rightarrow> (nat \<rightharpoonup> u32) \<Rightarrow> bool" where
  "held_ok x V H \<longleftrightarrow> (\<forall>c\<in>ran H. \<not> free_in x V c \<and> (\<forall>d. d < sb_size x \<longrightarrow> c \<noteq> BBLOCK d x))"

lemma fs_layoutD:
  assumes "fs_layout x start V"
  shows "unat (sb_size x) + BPB < 2 ^ 32" "length (V c) = BSIZE"
    "b < sb_size x \<Longrightarrow> \<not> in_log start (BBLOCK b x)"
    "b < sb_size x \<Longrightarrow> free_in x V b \<Longrightarrow> \<not> in_log start b"
    "b < sb_size x \<Longrightarrow> free_in x V b \<Longrightarrow> b \<noteq> 0"
    "b < sb_size x \<Longrightarrow> free_in x V b \<Longrightarrow> d < sb_size x \<Longrightarrow> b \<noteq> BBLOCK d x"
    "b < sb_size x \<Longrightarrow> free_in x V b \<Longrightarrow> \<not> metadata x start b"
    "i < sb_ninodes x \<Longrightarrow> \<not> in_log start (IBLOCK i x)"
    "i < sb_ninodes x \<Longrightarrow> d < sb_size x \<Longrightarrow> IBLOCK i x \<noteq> BBLOCK d x"
  using assms unfolding fs_layout_def metadata_def by blast+

lemma bitmap_bit:
  assumes l: "fs_layout x start V" and k: "k * BPB < unat (sb_size x)" and bi: "bi < BPB"
  shows "free_nr x V (k * BPB + bi) \<longleftrightarrow>
      k * BPB + bi < unat (sb_size x) \<and> block_free (V (BBLOCK (of_nat (k * BPB)) x)) bi"
    and "BBLOCK (of_nat (k * BPB + bi)) x = BBLOCK (of_nat (k * BPB)) x"
    and "unat (of_nat (k * BPB + bi) :: u32) = k * BPB + bi"
proof -
  have b: "k * BPB + bi < 2 ^ 32" "k * BPB < 2 ^ 32"
    using fs_layoutD(1) [OF l] k bi by simp_all
  show u: "unat (of_nat (k * BPB + bi) :: u32) = k * BPB + bi"
    using b(1) by (subst unat_of_nat_lt) simp_all
  have u': "unat (of_nat (k * BPB) :: u32) = k * BPB"
    using b(2) by (subst unat_of_nat_lt) simp_all
  have d: "(k * BPB + bi) div BPB = k" "(k * BPB + bi) mod BPB = bi" "k * BPB div BPB = k"
    using bi by simp_all
  show B: "BBLOCK (of_nat (k * BPB + bi)) x = BBLOCK (of_nat (k * BPB)) x"
    unfolding BBLOCK_eq u u' d ..
  show "free_nr x V (k * BPB + bi) \<longleftrightarrow>
      k * BPB + bi < unat (sb_size x) \<and> block_free (V (BBLOCK (of_nat (k * BPB)) x)) bi"
    unfolding free_nr_def free_in_def B u d ..
qed

text \<open>One round: the block with the first clear bit of a bitmap block, if there is one.\<close>

definition first_free :: "superblock \<Rightarrow> (u32 \<Rightarrow> u8 list) \<Rightarrow> nat list \<Rightarrow> nat option" where
  "first_free x V ks = List.find (free_nr x V) (concat (map bits_of ks))"

lemma first_free_Cons:
  assumes "fs_layout x start V" and "k * BPB < unat (sb_size x)"
  shows "first_free x V (k # ks) =
    (case List.find (\<lambda>bi. k * BPB + bi < unat (sb_size x) \<and> block_free (V (BBLOCK (of_nat (k * BPB)) x)) bi) [0..<BPB] of
       Some bi \<Rightarrow> Some (k * BPB + bi) | None \<Rightarrow> first_free x V ks)"
proof -
  have "List.find (\<lambda>bi. free_nr x V (k * BPB + bi)) [0..<BPB] =
      List.find (\<lambda>bi. k * BPB + bi < unat (sb_size x) \<and> block_free (V (BBLOCK (of_nat (k * BPB)) x)) bi) [0..<BPB]"
    using bitmap_bit(1) [OF assms] by (intro find_cong) simp
  then show ?thesis
    by (simp add: first_free_def find_append bits_of_def find_map split: option.splits)
qed

lemma find_SomeD: "List.find P xs = Some y \<Longrightarrow> y \<in> set xs \<and> P y"
  by (induction xs) (auto split: if_splits)

lemma free_nrD:
  assumes "free_nr x V n" and "fs_layout x start V"
  shows "(of_nat n :: u32) < sb_size x" "free_in x V (of_nat n)" "n < 2 ^ 32" "(of_nat n :: u32) \<noteq> 0"
proof -
  show f: "free_in x V (of_nat n)"
    using assms(1) by (simp add: free_nr_def)
  have n: "n < unat (sb_size x)"
    using assms(1) by (simp add: free_nr_def)
  then show "n < 2 ^ 32"
    using fs_layoutD(1) [OF assms(2)] by simp
  then show l: "(of_nat n :: u32) < sb_size x"
    using n by (simp add: word_less_nat_alt)
  show "(of_nat n :: u32) \<noteq> 0"
    by (rule fs_layoutD(5) [OF assms(2) l f])
qed

lemma balloc_loop_ok:
  assumes "fs_op (Suc (Suc (Suc k))) H s" and "fs_layout (sb s) (log_start (thelog s)) (bview s)"
    and "held_ok (sb s) (bview s) H" and "\<forall>k\<in>set ks. k * BPB < unat (sb_size (sb s))"
  shows "\<exists>s'. txn_step s s' \<and> (case first_free (sb s) (bview s) ks of
      None \<Rightarrow> balloc_loop ROOTDEV (map (\<lambda>k. k * BPB) ks) s = Inr (0, s') \<and> fs_op (Suc (Suc (Suc k))) H s' \<and>
        bview s' = bview s
    | Some a \<Rightarrow> balloc_loop ROOTDEV (map (\<lambda>k. k * BPB) ks) s = Inr (of_nat a, s') \<and> fs_op (Suc k) H s' \<and>
        bview s' = (take_block (sb s) (of_nat a) (bview s))(of_nat a := replicate BSIZE 0))"
  using assms
proof (induction ks arbitrary: s)
  case Nil
  then show ?case
    by (simp add: first_free_def)
next
  case (Cons k0 ks)
  note I = Cons.prems(1) and lay = Cons.prems(2) and held = Cons.prems(3)
  let ?x = "sb s" and ?V = "bview s"
  let ?B = "BBLOCK (of_nat (k0 * BPB)) ?x"
  have k0: "k0 * BPB < unat (sb_size ?x)"
    using Cons.prems(4) by simp
  then have k0': "(of_nat (k0 * BPB) :: u32) < sb_size ?x"
    using fs_layoutD(1) [OF lay] by (subst word_less_nat_alt, subst unat_of_nat_lt) simp_all
  have Bh: "?B \<notin> ran H" and Bl: "\<not> in_log (log_start (thelog s)) ?B"
    using held k0' fs_layoutD(3) [OF lay k0'] by (auto simp: held_ok_def)
  obtain b s1 where 1: "bread ROOTDEV ?B s = Inr (b, s1)" "fs_op (Suc (Suc k)) (H(b \<mapsto> ?B)) s1" "b \<notin> dom H"
    "buf_data b s1 = ?V ?B" "bview s1 = ?V" "txn_step s s1" "settled ?B s1"
    by (rule op_bread [OF I Bh])
  note f1 = txn_step_fs(1) [OF 1(6)]
  let ?find = "List.find (\<lambda>bi. k0 * BPB + bi < unat (sb_size ?x) \<and> block_free (?V ?B) bi) [0..<BPB]"
  note ff = first_free_Cons [OF lay k0, of ks]
  show ?case
  proof (cases ?find)
    case None
    obtain s2 where 2: "brelse b s1 = Inr s2" "fs_op (Suc (Suc (Suc k))) H s2" "bview s2 = bview s1" "txn_step s1 s2"
      by (rule op_brelse [OF 1(2,3,7)])
    have t: "txn_step s s2"
      by (rule txn_step_trans [OF 1(6) 2(4)])
    then have s2: "sb s2 = sb s" "log_start (thelog s2) = log_start (thelog s)" "bview s2 = ?V"
      using txn_step_fs(1) txn_step_sel(4) 1(5) 2(3) by auto
    have r: "balloc_loop ROOTDEV (map (\<lambda>k. k * BPB) (k0 # ks)) s = balloc_loop ROOTDEV (map (\<lambda>k. k * BPB) ks) s2"
      using 1(1,4) 2(1) None by (simp add: f1)
    have ks: "\<forall>k\<in>set ks. k * BPB < unat (sb_size (sb s))"
      using Cons.prems(4) by simp
    show ?thesis
      unfolding r ff None option.case using Cons.IH [OF 2(2), unfolded s2, OF lay held ks]
      by (elim exE conjE) (intro exI conjI, erule txn_step_trans [OF t], assumption)
  next
    case (Some bi)
    let ?a = "of_nat (k0 * BPB + bi) :: u32"
    have bi: "bi < BPB" and fa: "free_nr ?x ?V (k0 * BPB + bi)"
      using find_SomeD [OF Some] bitmap_bit(1) [OF lay k0] by auto
    note a = free_nrD [OF fa lay] and ab = bitmap_bit(2,3) [OF lay k0 bi]
    have w: "(H(b \<mapsto> ?B)) b = Some ?B" "length (set_bit_in bi (?V ?B)) = BSIZE"
      "\<not> in_log (log_start (thelog s1)) ?B"
      using fs_layoutD(2) [OF lay] Bl txn_step_sel(4) [OF 1(6)] by simp_all
    obtain s2 where 2: "log_write b (set_data b (set_bit_in bi (?V ?B)) s1) = Inr s2"
      "fs_op (Suc k) (H(b \<mapsto> ?B)) s2" "bview s2 = (bview s1)(?B := set_bit_in bi (?V ?B))" "txn_step s1 s2"
      "settled ?B s2"
      by (rule op_log_write [OF 1(2) w])
    obtain s3 where 3: "brelse b s2 = Inr s3" "fs_op (Suc (Suc k)) H s3" "bview s3 = bview s2" "txn_step s2 s3"
      by (rule op_brelse [OF 2(2) 1(3) 2(5)])
    have t: "txn_step s s3"
      by (rule txn_step_trans [OF 1(6) txn_step_trans [OF 2(4) 3(4)]])
    have "?a \<notin> ran H"
      using held a(2) by (auto simp: held_ok_def)
    moreover have "\<not> in_log (log_start (thelog s3)) ?a"
      using fs_layoutD(4) [OF lay a(1,2)] txn_step_sel(4) [OF t] by simp
    ultimately obtain s4 where 4: "bzero ROOTDEV ?a s3 = Inr s4" "fs_op (Suc k) H s4"
      "bview s4 = (bview s3)(?a := replicate BSIZE 0)" "txn_step s3 s4"
      by (rule bzero_ok [OF 3(2)])
    have "(k0 * BPB + bi) mod BPB = bi"
      using bi by simp
    then have "take_block ?x ?a ?V = bview s3"
      unfolding take_block_def ab 3(3) 2(3) 1(5) by simp
    moreover have "balloc_loop ROOTDEV (map (\<lambda>k. k * BPB) (k0 # ks)) s = Inr (?a, s4)"
      using 1(1,4) 2(1) 3(1) 4(1) Some by (simp add: f1)
    ultimately show ?thesis
      unfolding ff Some using 4 txn_step_trans [OF t 4(4)] by (intro exI [of _ s4]) simp
  qed
qed

lemma concat_bits: "concat (map bits_of [0..<n]) = [0..<n * BPB]"
proof (induction n)
  case (Suc n)
  have "[0..<Suc n * BPB] = [0..<n * BPB] @ [n * BPB..<n * BPB + BPB]"
    using upt_add_eq_append [of 0 "n * BPB" BPB] by (simp add: add.commute)
  moreover have "bits_of n = [n * BPB..<n * BPB + BPB]"
    by (simp add: bits_of_def map_add_upt add.commute [of "n * BPB"])
  ultimately show ?case
    using Suc by simp
qed simp

lemma find_upt: "List.find P [0..<n] = Some a \<Longrightarrow> P a \<and> a < n \<and> (\<forall>b<a. \<not> P b)"
  by (induction n) (auto simp: find_append find_None_iff split: option.splits if_splits dest: find_SomeD)

lemma find_upt_None: "List.find P [0..<n] = None \<Longrightarrow> b < n \<Longrightarrow> \<not> P b"
  by (auto simp: find_None_iff)

lemma bitmap_count:
  assumes "fs_layout x start V"
  defines "n \<equiv> (unat (sb_size x) + BPB - 1) div BPB"
  shows "\<forall>k\<in>set [0..<n]. k * BPB < unat (sb_size x)" and "unat (sb_size x) \<le> n * BPB"
proof -
  have "k * BPB < unat (sb_size x)" if "k < n" for k
  proof -
    have "Suc k * BPB \<le> n * BPB" "n * BPB \<le> unat (sb_size x) + BPB - 1"
      using that by (simp_all add: n_def mult_le_mono1 Suc_le_eq del: mult_Suc)
    then show ?thesis
      by (simp add: BPB_val)
  qed
  then show "\<forall>k\<in>set [0..<n]. k * BPB < unat (sb_size x)"
    by simp
  show "unat (sb_size x) \<le> n * BPB"
    unfolding n_def BPB_val by linarith
qed

lemma free_nr_unat: "free_nr x V (unat b) \<longleftrightarrow> b \<in> free_blocks x V"
  by (simp add: free_nr_def free_blocks_def word_less_nat_alt)

lemma balloc_ok:
  assumes I: "fs_op (Suc (Suc (Suc k))) H s" and lay: "fs_layout (sb s) (log_start (thelog s)) (bview s)"
    and held: "held_ok (sb s) (bview s) H"
  obtains (full) s' where "free_blocks (sb s) (bview s) = {}" "balloc ROOTDEV s = Inr (0, s')"
      "bview s' = bview s" "fs_op (Suc (Suc (Suc k))) H s'" "txn_step s s'"
  | (some) a s' where "a \<in> free_blocks (sb s) (bview s)" "\<forall>b\<in>free_blocks (sb s) (bview s). a \<le> b"
      "balloc ROOTDEV s = Inr (a, s')" "a \<noteq> 0" "fs_op (Suc k) H s'" "txn_step s s'"
      "bview s' = (take_block (sb s) a (bview s))(a := replicate BSIZE 0)"
proof -
  let ?n = "(unat (sb_size (sb s)) + BPB - 1) div BPB"
  note n = bitmap_count [OF lay]
  obtain s' where s': "txn_step s s'" "case first_free (sb s) (bview s) [0..<?n] of
      None \<Rightarrow> balloc ROOTDEV s = Inr (0, s') \<and> fs_op (Suc (Suc (Suc k))) H s' \<and> bview s' = bview s
    | Some a \<Rightarrow> balloc ROOTDEV s = Inr (of_nat a, s') \<and> fs_op (Suc k) H s' \<and>
        bview s' = (take_block (sb s) (of_nat a) (bview s))(of_nat a := replicate BSIZE 0)"
    using balloc_loop_ok [OF I lay held n(1)] unfolding balloc_def by blast
  have ff: "first_free (sb s) (bview s) [0..<?n] = List.find (free_nr (sb s) (bview s)) [0..<?n * BPB]"
    by (simp add: first_free_def concat_bits)
  have less: "unat b < ?n * BPB" if "b \<in> free_blocks (sb s) (bview s)" for b
    using that n(2) by (simp add: free_blocks_def word_less_nat_alt)
  show thesis
  proof (cases "first_free (sb s) (bview s) [0..<?n]")
    case None
    then have "b \<notin> free_blocks (sb s) (bview s)" for b
      using find_upt_None [of "free_nr (sb s) (bview s)" _ "unat b"] less [of b] ff free_nr_unat by metis
    then have "free_blocks (sb s) (bview s) = {}"
      by blast
    then show thesis
      using full s' None by simp
  next
    case (Some a)
    then have a: "free_nr (sb s) (bview s) a" "\<forall>b<a. \<not> free_nr (sb s) (bview s) b"
      using find_upt [of "free_nr (sb s) (bview s)" _ a] ff by auto
    note d = free_nrD [OF a(1) lay]
    have u: "unat (of_nat a :: u32) = a"
      using d(3) by (subst unat_of_nat_lt) simp_all
    have "(of_nat a :: u32) \<in> free_blocks (sb s) (bview s)"
      using d by (simp add: free_blocks_def)
    moreover have "\<forall>b\<in>free_blocks (sb s) (bview s). (of_nat a :: u32) \<le> b"
      using a(2) u by (metis free_nr_unat not_le word_le_nat_alt)
    ultimately show thesis
      using some s' Some d(4) by simp
  qed
qed

text \<open>The layout is kept by both directions; a block that is given back must not be one of the metadata.\<close>

lemma fs_layout_take:
  assumes "fs_layout x start V" and "a \<in> free_blocks x V"
  shows "fs_layout x start ((take_block x a V)(a := replicate BSIZE 0))"
    and "free_blocks x ((take_block x a V)(a := replicate BSIZE 0)) = free_blocks x V - {a}"
proof -
  let ?V = "(take_block x a V)(a := replicate BSIZE 0)"
  have a: "a < sb_size x" "free_in x V a"
    using assms(2) by (simp_all add: free_blocks_def)
  have f: "free_in x ?V b \<longleftrightarrow> free_in x V b \<and> b \<noteq> a" if "b < sb_size x" for b
    using free_in_cong [where V = ?V and b = b and x = x and V' = "take_block x a V"] free_in_take [of V x a b, OF fs_layoutD(2) [OF assms(1)]]
      fs_layoutD(6) [OF assms(1) a that] by simp
  then show "free_blocks x ?V = free_blocks x V - {a}"
    by (auto simp: free_blocks_def)
  show "fs_layout x start ?V"
    using assms(1) f unfolding fs_layout_def by (auto simp: take_block_def)
qed

lemma fs_layout_give:
  assumes "fs_layout x start V" and "a < sb_size x" and "\<not> metadata x start a"
  shows "fs_layout x start (give_block x a V)" and "free_blocks x (give_block x a V) = insert a (free_blocks x V)"
proof -
  have f: "free_in x (give_block x a V) b \<longleftrightarrow> free_in x V b \<or> b = a" for b
    by (rule free_in_give [OF fs_layoutD(2) [OF assms(1)]])
  then show "free_blocks x (give_block x a V) = insert a (free_blocks x V)"
    using assms(2) by (auto simp: free_blocks_def)
  show "fs_layout x start (give_block x a V)"
    using assms f unfolding fs_layout_def by (auto simp: give_block_def)
qed

section \<open>Freeing\<close>

lemma bfree_ok:
  assumes I: "fs_op (Suc (Suc k)) H s" and lay: "fs_layout (sb s) (log_start (thelog s)) (bview s)"
    and held: "held_ok (sb s) (bview s) H" and b: "b < sb_size (sb s)"
  shows "if free_in (sb s) (bview s) b then bfree ROOTDEV b s = Inl (Panic ''freeing free block'')
    else \<exists>s'. bfree ROOTDEV b s = Inr s' \<and> fs_op (Suc k) H s' \<and> txn_step s s' \<and>
      bview s' = give_block (sb s) b (bview s)"
proof -
  let ?B = "BBLOCK b (sb s)" and ?f = "clear_bit_in (unat b mod BPB)"
  have Bh: "?B \<notin> ran H"
    using held b by (auto simp: held_ok_def)
  have "length (?f (bview s ?B)) = BSIZE"
    using fs_layoutD(2) [OF lay] by simp
  then obtain c s1 s2 s3 where 1: "bread ROOTDEV ?B s = Inr (c, s1)" "buf_data c s1 = bview s ?B" "txn_step s s1"
    "log_write c (set_data c (?f (bview s ?B)) s1) = Inr s2" "brelse c s2 = Inr s3" "fs_op (Suc k) H s3"
    "bview s3 = (bview s)(?B := ?f (bview s ?B))" "txn_step s s3"
    by (rule op_update_block [where f = ?f, OF I Bh _ fs_layoutD(3) [OF lay b]])
  show ?thesis
    using 1 by (simp add: bfree_def free_in_def give_block_def Let_def)
qed

section \<open>An example\<close>

text \<open>A disk of 100 blocks, of which the bitmap has the first 64 in use, and the first operation after start-up.\<close>

definition example_disk :: "u32 \<Rightarrow> u8 list" where
  "example_disk = zero_disk(45 := replicate 8 255 @ replicate (BSIZE - 8) 0)"

definition example_sb :: superblock where
  "example_sb = mkfs_sb\<lparr>sb_size := 100\<rparr>"

lemma BBLOCK_example: "b < 100 \<Longrightarrow> BBLOCK b example_sb = 45"
proof -
  assume "b < 100"
  then have "unat b div BPB = 0"
    by (simp add: word_less_nat_alt BPB_val)
  then have "b div of_nat BPB = 0"
    by (simp add: unat_div_BPB [symmetric] unat_eq_zero)
  then show ?thesis
    by (simp add: BBLOCK_def example_sb_def mkfs_sb_def)
qed

lemma IBLOCK_example:
  assumes "i < sb_ninodes example_sb"
  shows "32 \<le> unat (IBLOCK i example_sb)" "unat (IBLOCK i example_sb) < 45"
proof -
  have "unat i < 200"
    using assms by (simp add: example_sb_def mkfs_sb_def word_less_nat_alt)
  then have "unat (i div of_nat IPB) < 13"
    by (simp add: unat_div IPB_def BSIZE_def)
  then show "32 \<le> unat (IBLOCK i example_sb)" "unat (IBLOCK i example_sb) < 45"
    by (simp_all add: IBLOCK_def example_sb_def mkfs_sb_def unat_plus_if')
qed

lemma fs_layout_example:
  assumes "V 45 = example_disk 45" and "\<And>c. length (V c) = BSIZE"
  shows "fs_layout example_sb 2 V"
proof -
  have size: "sb_size example_sb = 100"
    by (simp add: example_sb_def)
  have nf: "\<not> free_in example_sb V b" if "unat b < 64" for b
  proof -
    have "unat b div 8 < 8"
      using that by presburger
    then have "example_disk 45 ! (unat b div 8) = 255"
      by (simp add: example_disk_def nth_append)
    moreover have "b < 100" "unat b mod BPB = unat b"
      using that by (simp_all add: word_less_nat_alt BPB_val)
    moreover have "(255 :: u8) = - 1"
      by simp
    then have "bit (255 :: u8) (unat b mod 8)"
      by (simp only: bit_minus_1_iff possible_bit_word) simp
    ultimately show ?thesis
      by (simp add: free_in_def BBLOCK_example assms(1) block_free_bit)
  qed
  note i = IBLOCK_example
  have "unat b < 64" if "metadata example_sb 2 b" for b
  proof -
    have "unat b \<le> unat (b - 2) + 2"
      using mod_less_eq_dividend [of "unat (b - 2) + 2" "2 ^ 32"] unat_word_ariths(1) [of "b - 2" 2] by simp
    then show ?thesis
      using that i BBLOCK_example
      by (fastforce simp: metadata_def size in_log_def LOGSIZE_def MAXOPBLOCKS_def)
  qed
  moreover have "\<not> in_log 2 (IBLOCK i example_sb)" "IBLOCK i example_sb \<noteq> 45" if "i < sb_ninodes example_sb" for i
  proof -
    have "unat (IBLOCK i example_sb - 2) = unat (IBLOCK i example_sb) - 2"
      using i(1) [OF that] by (subst unat_sub) (simp_all add: word_le_nat_alt)
    then show "\<not> in_log 2 (IBLOCK i example_sb)"
      using i [OF that] by (simp add: in_log_def LOGSIZE_def MAXOPBLOCKS_def)
    show "IBLOCK i example_sb \<noteq> 45"
      using i(2) [OF that] by auto
  qed
  ultimately show ?thesis
    using nf BBLOCK_example assms(2) unfolding fs_layout_def size
    by (auto simp: BPB_val in_log_def LOGSIZE_def MAXOPBLOCKS_def)
qed

lemma fs_boot_example:
  obtains s :: "fstate" where "fs_op 20 Map.empty s" "sb s = example_sb" "log_start (thelog s) = 2"
    "bview s 45 = example_disk 45" "\<And>c. length (bview s c) = BSIZE" "\<And>c. c \<noteq> 2 \<Longrightarrow> bview s c = example_disk c"
    "fs_layout example_sb 2 (bview s)" "inodes s = replicate NINODE bss_inode" "cur s = 0"
proof -
  let ?b = "(bss_fstate ())\<lparr>disk := example_disk, sb := example_sb\<rparr>"
  have boots: "boots example_disk ?b"
    by (simp add: boots_def bss_fstate_def bss_state_def NPROC_def)
  have z: "example_disk 2 = replicate BSIZE 0" "length (example_disk c) = BSIZE" for c
    by (auto simp: example_disk_def zero_disk_def BSIZE_def)
  have "log_disk_ok (sb_logstart example_sb) example_disk"
    by (simp add: log_disk_ok_def example_sb_def mkfs_sb_def z hdr_n_zeros hdr_blocks_def)
  note ok = this
  have n: "sb_logstart example_sb = 2" "sb_nlog example_sb = 30"
    by (simp_all add: example_sb_def mkfs_sb_def)
  with ok obtain t where t: "initlog ROOTDEV example_sb (binit ?b) = Inr t" "log_inv Map.empty t" "logged t = []"
    "log_start (thelog t) = 2" "log_size (thelog t) = 30"
    "disk t = apply_writes (recovery_writes 2 example_disk) example_disk" "bview t = disk t"
    using initlog_inv [OF boots, of example_sb] by (auto simp: LOGSIZE_def MAXOPBLOCKS_def)
  have d: "bview t c = example_disk c" if "c \<noteq> 2" for c
    using that unfolding t(6,7) recovery_writes_def by (simp add: install_writes_def hdr_blocks_def z hdr_n_zeros)
  let ?s = "upd_log (\<lambda>l. l\<lparr>log_outstanding := 1\<rparr>) t"
  have "log_frame ?b t"
    using initlog_boots [OF boots ok] t(1) by (metis sum.inject(2))
  then have f: "lstate.more t = lstate.more ?b" "woken ?b t"
    by (auto simp: log_frame_def)
  have fs: "sb t = sb ?b" "inodes t = inodes ?b"
    using f(1) by (cases t; simp add: bss_fstate_def bss_state_def)+
  have I: "fs_op 20 Map.empty ?s"
    using t lh_count_logged [OF t(2)] by (simp add: fs_op_def log_inv_outstanding lh_count_def)
  have l: "length (bview ?s c) = BSIZE" for c
    by (rule length_bview_inv [OF fs_op_inv [OF I]])
  show thesis
    by (rule that [OF I]) (use fs d l f(2) t(4) fs_layout_example [of "bview ?s"] in
        \<open>simp_all add: woken_def bss_fstate_def bss_state_def\<close>)
qed

lemma free_in_example:
  assumes "V 45 = example_disk 45"
  shows "64 \<in> free_blocks example_sb V" and "63 \<notin> free_blocks example_sb V" and "\<not> metadata example_sb 2 63"
proof -
  have size: "sb_size example_sb = 100"
    by (simp add: example_sb_def)
  have d: "example_disk 45 ! 8 = 0" "example_disk 45 ! 7 = 255"
    by (simp_all add: example_disk_def nth_append BSIZE_def)
  show "64 \<in> free_blocks example_sb V" "63 \<notin> free_blocks example_sb V"
    by (simp_all add: free_blocks_def size free_in_def BBLOCK_example assms BPB_val block_free_bit d)
  have "unat (IBLOCK i example_sb) \<noteq> 63" if "i < sb_ninodes example_sb" for i
    using IBLOCK_example(2) [OF that] by simp
  then show "\<not> metadata example_sb 2 63"
    using BBLOCK_example by (force simp: metadata_def size in_log_def LOGSIZE_def MAXOPBLOCKS_def)
qed

lemma held_ok_empty [simp]: "held_ok x V Map.empty"
  by (simp add: held_ok_def)

section \<open>Properties\<close>

text \<open>
  Property C29. Allocating a block. In an operation with room in the log, \<open>balloc\<close> returns 0 and changes
  nothing when the bitmap has no free block. Otherwise it returns the free block with the least number,
  which from then on is in use and all zeros; no other block is taken or given back, no block but that
  one and its bitmap block changes, and the layout of the file system is kept.
\<close>

theorem balloc_correct:
  assumes "fs_op (k + 3) H s" and "fs_layout (sb s) (log_start (thelog s)) (bview s)"
    and "held_ok (sb s) (bview s) H"
  shows "if free_blocks (sb s) (bview s) = {}
    then \<exists>s'. balloc ROOTDEV s = Inr (0, s') \<and> bview s' = bview s \<and> fs_op (k + 3) H s'
    else \<exists>a s'. balloc ROOTDEV s = Inr (a, s') \<and> a \<in> free_blocks (sb s) (bview s) \<and>
      (\<forall>b\<in>free_blocks (sb s) (bview s). a \<le> b) \<and> bview s' a = replicate BSIZE 0 \<and>
      free_blocks (sb s) (bview s') = free_blocks (sb s) (bview s) - {a} \<and>
      (\<forall>c. c \<noteq> a \<and> c \<noteq> BBLOCK a (sb s) \<longrightarrow> bview s' c = bview s c) \<and>
      fs_layout (sb s) (log_start (thelog s)) (bview s') \<and> fs_op (k + 1) H s' \<and> sb s' = sb s \<and> inodes s' = inodes s"
proof -
  have I: "fs_op (Suc (Suc (Suc k))) H s"
    using assms(1) by (simp add: numeral_3_eq_3)
  show ?thesis
  proof (rule balloc_ok [OF I assms(2,3)])
    fix s' :: "'a fstate_scheme"
    assume "free_blocks (sb s) (bview s) = {}" "balloc ROOTDEV s = Inr (0, s')" "bview s' = bview s"
      "fs_op (Suc (Suc (Suc k))) H s'"
    then show ?thesis
      by (simp add: numeral_3_eq_3)
  next
    fix a and s' :: "'a fstate_scheme"
    assume a: "a \<in> free_blocks (sb s) (bview s)" "\<forall>b\<in>free_blocks (sb s) (bview s). a \<le> b"
      "balloc ROOTDEV s = Inr (a, s')" "fs_op (Suc k) H s'" "txn_step s s'"
      "bview s' = (take_block (sb s) a (bview s))(a := replicate BSIZE 0)"
    have "\<forall>c. c \<noteq> a \<and> c \<noteq> BBLOCK a (sb s) \<longrightarrow> bview s' c = bview s c" "bview s' a = replicate BSIZE 0"
      by (simp_all add: a(6) take_block_def)
    moreover have "free_blocks (sb s) (bview s) \<noteq> {}"
      using a(1) by blast
    ultimately show ?thesis
      using a(1-4) fs_layout_take [OF assms(2) a(1)] txn_step_fs(1,2) [OF a(5)]
      by (auto simp: a(6) [symmetric] intro!: exI [of _ a] exI [of _ s'])
  qed
qed

theorem balloc_correct_witness:
  "\<exists>(s :: fstate) a s'. balloc ROOTDEV s = Inr (a, s') \<and> a \<in> free_blocks example_sb (bview s) \<and>
    a \<notin> free_blocks example_sb (bview s') \<and> bview s' a = replicate BSIZE 0"
proof -
  obtain s :: fstate where s: "fs_op 20 Map.empty s" "sb s = example_sb" "log_start (thelog s) = 2"
    "bview s 45 = example_disk 45" "fs_layout example_sb 2 (bview s)"
    by (rule fs_boot_example)
  have h: "fs_op (17 + 3) Map.empty s" "fs_layout (sb s) (log_start (thelog s)) (bview s)"
    using s by simp_all
  have ne: "free_blocks (sb s) (bview s) \<noteq> {}"
    using free_in_example(1) [of "bview s", OF s(4)] s(2) by auto
  obtain a s' where "balloc ROOTDEV s = Inr (a, s')" "a \<in> free_blocks (sb s) (bview s)"
    "free_blocks (sb s) (bview s') = free_blocks (sb s) (bview s) - {a}" "bview s' a = replicate BSIZE 0"
    using balloc_correct [OF h held_ok_empty] unfolding if_not_P [OF ne] by blast
  then show ?thesis
    using s(2) by (intro exI [of _ s] exI [of _ a] exI [of _ s']) simp
qed

text \<open>
  Property C30. Freeing a block. \<open>bfree\<close> of a block that is not in use panics. Otherwise the block joins
  the free ones and nothing but its bit changes.
\<close>

theorem bfree_correct:
  assumes "fs_op (k + 2) H s" and "fs_layout (sb s) (log_start (thelog s)) (bview s)"
    and "held_ok (sb s) (bview s) H" and "b < sb_size (sb s)" and "\<not> metadata (sb s) (log_start (thelog s)) b"
  shows "if b \<in> free_blocks (sb s) (bview s) then bfree ROOTDEV b s = Inl (Panic ''freeing free block'')
    else \<exists>s'. bfree ROOTDEV b s = Inr s' \<and> free_blocks (sb s) (bview s') = insert b (free_blocks (sb s) (bview s)) \<and>
      (\<forall>c. c \<noteq> BBLOCK b (sb s) \<longrightarrow> bview s' c = bview s c) \<and>
      fs_layout (sb s) (log_start (thelog s)) (bview s') \<and> fs_op (k + 1) H s' \<and> sb s' = sb s \<and> inodes s' = inodes s"
proof -
  have I: "fs_op (Suc (Suc k)) H s"
    using assms(1) by (simp add: numeral_2_eq_2)
  have m: "b \<in> free_blocks (sb s) (bview s) \<longleftrightarrow> free_in (sb s) (bview s) b"
    using assms(4) by (simp add: free_blocks_def)
  show ?thesis
    using bfree_ok [OF I assms(2-4)] fs_layout_give [OF assms(2,4,5)] txn_step_fs(1,2)
    by (auto simp: m give_block_def)
qed

theorem bfree_correct_witness:
  "\<exists>(s :: fstate) s'. bfree ROOTDEV 63 s = Inr s' \<and> 63 \<notin> free_blocks example_sb (bview s) \<and>
    63 \<in> free_blocks example_sb (bview s')"
proof -
  obtain s :: fstate where s: "fs_op 20 Map.empty s" "sb s = example_sb" "log_start (thelog s) = 2"
    "bview s 45 = example_disk 45" "fs_layout example_sb 2 (bview s)"
    by (rule fs_boot_example)
  have h: "fs_op (18 + 2) Map.empty s" "fs_layout (sb s) (log_start (thelog s)) (bview s)" "63 < sb_size (sb s)"
    "\<not> metadata (sb s) (log_start (thelog s)) 63"
    using s free_in_example(3) [of "bview s", OF s(4)] by (simp_all add: example_sb_def)
  have nf: "63 \<notin> free_blocks (sb s) (bview s)"
    using free_in_example(2) [of "bview s", OF s(4)] s(2) by simp
  obtain s' where "bfree ROOTDEV 63 s = Inr s'" "free_blocks (sb s) (bview s') = insert 63 (free_blocks (sb s) (bview s))"
    using bfree_correct [OF h(1,2) held_ok_empty h(3,4)] unfolding if_not_P [OF nf] by blast
  then show ?thesis
    using nf s(2) by (intro exI [of _ s] exI [of _ s']) simp
qed

end
