(* ===== verification/Fs_Inode.thy ===== *)
theory Fs_Inode
  imports Fs_Blocks
begin

text \<open>
  Inodes: the encoding of a \<open>struct dinode\<close> in the bytes of a block, the table of inodes in memory with
  its reference counts, and the way of an inode's fields from the table to the disk with \<open>iupdate\<close>
  and back with \<open>ilock\<close>.
\<close>

section \<open>Encoding\<close>

lemma fold_put32_at:
  fixes f :: "nat \<Rightarrow> u32"
  assumes "b + 4 * k \<le> length d"
  defines "e \<equiv> fold (\<lambda>i. put32 (b + 4 * i) (f i)) [0..<k] d"
  shows "length e = length d" and "i < k \<Longrightarrow> get32 (b + 4 * i) e = f i"
    and "o' + n \<le> b \<or> b + 4 * k \<le> o' \<Longrightarrow> o' + n \<le> length d \<Longrightarrow> seg o' n e = seg o' n d"
proof -
  have "length e = length d \<and> (\<forall>i<k. get32 (b + 4 * i) e = f i) \<and>
      (\<forall>o' n. (o' + n \<le> b \<or> b + 4 * k \<le> o') \<and> o' + n \<le> length d \<longrightarrow> seg o' n e = seg o' n d)"
    using assms(1) unfolding e_def
  proof (induction k)
    case (Suc k)
    then show ?case
      by (auto simp: get_put_disjoint less_Suc_eq seg_put_disjoint)
  qed simp
  then show "length e = length d" "i < k \<Longrightarrow> get32 (b + 4 * i) e = f i"
    "o' + n \<le> b \<or> b + 4 * k \<le> o' \<Longrightarrow> o' + n \<le> length d \<Longrightarrow> seg o' n e = seg o' n d"
    by blast+
qed

definition put_dinode_head :: "nat \<Rightarrow> dinode \<Rightarrow> u8 list \<Rightarrow> u8 list" where
  "put_dinode_head off x d = put32 (off + 8) (di_size x) (put16 (off + 6) (di_nlink x)
     (put16 (off + 4) (di_minor x) (put16 (off + 2) (di_major x) (put16 off (di_type x) d))))"

lemma put_dinode_eq:
  "put_dinode off x d =
     fold (\<lambda>i. put32 (off + 12 + 4 * i) (di_addrs x ! i)) [0..<NDIRECT + 1] (put_dinode_head off x d)"
  by (simp add: put_dinode_def put_dinode_head_def Let_def)

lemma put_dinode_head:
  assumes "off + 64 \<le> length d"
  shows "length (put_dinode_head off x d) = length d"
    and "get16 off (put_dinode_head off x d) = di_type x" and "get16 (off + 2) (put_dinode_head off x d) = di_major x"
    and "get16 (off + 4) (put_dinode_head off x d) = di_minor x"
    and "get16 (off + 6) (put_dinode_head off x d) = di_nlink x"
    and "get32 (off + 8) (put_dinode_head off x d) = di_size x"
    and "o' + n \<le> off \<or> off + 12 \<le> o' \<Longrightarrow> o' + n \<le> length d \<Longrightarrow> seg o' n (put_dinode_head off x d) = seg o' n d"
  using assms by (auto simp: put_dinode_head_def get_put_disjoint seg_put_disjoint)

lemma NDIRECT_val: "NDIRECT = 12" "NINDIRECT = 256" "MAXFILE = 268" "IPB = 16"
  by (simp_all add: NDIRECT_def NINDIRECT_def MAXFILE_def IPB_def BSIZE_def)

lemma get_put_dinode:
  assumes "off + 64 \<le> length d" and "length (di_addrs x) = NDIRECT + 1"
  shows "get_dinode off (put_dinode off x d) = x" and "length (put_dinode off x d) = length d"
proof -
  let ?h = "put_dinode_head off x d"
  note h = put_dinode_head [OF assms(1), where x = x]
  have l: "off + 12 + 4 * (NDIRECT + 1) \<le> length ?h"
    using assms(1) h(1) by (simp add: NDIRECT_val)
  note F = fold_put32_at [OF l, where f = "(!) (di_addrs x)", folded put_dinode_eq]
  show "length (put_dinode off x d) = length d"
    using F(1) h(1) by simp
  have a: "map (\<lambda>i. get32 (off + 12 + 4 * i) (put_dinode off x d)) [0..<NDIRECT + 1] = di_addrs x"
    using F(2) assms(2) by (intro nth_equalityI) (simp_all del: upt_Suc)
  have s: "seg o' n (put_dinode off x d) = seg o' n ?h" if "o' + n \<le> off + 12" for o' n
    by (rule F(3)) (use that l in auto)
  show "get_dinode off (put_dinode off x d) = x"
    unfolding get_dinode_def a using h(2-6) by (simp add: get16_def get32_def s)
qed

lemma seg_put_dinode:
  assumes "off + 64 \<le> length d" and "o' + n \<le> off \<or> off + 64 \<le> o'" and "o' + n \<le> length d"
  shows "seg o' n (put_dinode off x d) = seg o' n d"
proof -
  let ?h = "put_dinode_head off x d"
  note h = put_dinode_head [OF assms(1), where x = x]
  have l: "off + 12 + 4 * (NDIRECT + 1) \<le> length ?h"
    using assms(1) h(1) by (simp add: NDIRECT_val)
  show ?thesis
    using fold_put32_at(3) [OF l, where f = "(!) (di_addrs x)" and o' = o' and n = n, folded put_dinode_eq] h(1) h(7) [of o' n] assms(2,3)
    by (auto simp: NDIRECT_val)
qed

text \<open>An inode is determined by its 64 bytes, so that writing one leaves the others in the block alone.\<close>

lemma get_dinode_seg:
  assumes "seg off 64 d = seg off 64 e" and "off + 64 \<le> length d" and "off + 64 \<le> length e"
  shows "get_dinode off d = get_dinode off e"
proof -
  have "seg (off + k) n d = seg (off + k) n e" if "k + n \<le> 64" for k n
  proof (rule nth_equalityI)
    fix i assume "i < length (seg (off + k) n d)"
    then have i: "i < n"
      by simp
    then have "seg off 64 d ! (k + i) = seg off 64 e ! (k + i)"
      using assms(1) by simp
    then show "seg (off + k) n d ! i = seg (off + k) n e ! i"
      using i that assms(2,3) by (simp add: nth_seg add.assoc)
  qed (use assms(2,3) that in simp)
  then have g: "k + 2 \<le> 64 \<Longrightarrow> get16 (off + k) d = get16 (off + k) e"
    "k + 4 \<le> 64 \<Longrightarrow> get32 (off + k) d = get32 (off + k) e" for k
    by (simp_all add: get16_def get32_def)
  have "map (\<lambda>i. get32 (off + 12 + 4 * i) d) [0..<NDIRECT + 1] = map (\<lambda>i. get32 (off + 12 + 4 * i) e) [0..<NDIRECT + 1]"
    using g(2) [of "12 + 4 * i" for i] by (intro map_cong refl) (simp add: NDIRECT_val add.assoc)
  then show ?thesis
    unfolding get_dinode_def using g(1) [of 0] g(1) [of 2] g(1) [of 4] g(1) [of 6] g(2) [of 8] by simp
qed

lemma get_dinode_other:
  assumes "off + 64 \<le> length d" and "o' + 64 \<le> off \<or> off + 64 \<le> o'" and "o' + 64 \<le> length d"
    and "length (di_addrs x) = NDIRECT + 1"
  shows "get_dinode o' (put_dinode off x d) = get_dinode o' d"
  using seg_put_dinode [OF assms(1-3)] get_put_dinode(2) [OF assms(1,4)] assms(3) by (intro get_dinode_seg) simp_all

section \<open>The inode table\<close>

text \<open>
  The invariant of the table: reference counts are not negative, and no inode is there twice.
\<close>

definition itable_ok :: "inode list \<Rightarrow> bool" where
  "itable_ok xs \<longleftrightarrow> length xs = NINODE \<and> (\<forall>i<NINODE. 0 \<le> i_ref (xs ! i)) \<and>
     (\<forall>i<NINODE. \<forall>j<NINODE. 0 < i_ref (xs ! i) \<and> 0 < i_ref (xs ! j) \<and> i_dev (xs ! i) = i_dev (xs ! j) \<and>
        i_inum (xs ! i) = i_inum (xs ! j) \<longrightarrow> i = j)"

text \<open>Slot \<open>i\<close> refers to the inode.\<close>

definition refers :: "u32 \<Rightarrow> u32 \<Rightarrow> inode \<Rightarrow> bool" where
  "refers dev inum x \<longleftrightarrow> 0 < i_ref x \<and> i_dev x = dev \<and> i_inum x = inum"

lemma upd_inode_sel [simp]:
  "inodes (upd_inode i f s) = (inodes s)[i := f (inodes s ! i)]" "sb (upd_inode i f s) = sb s"
  "thelog (upd_inode i f s) = thelog s" "bufs (upd_inode i f s) = bufs s" "disk (upd_inode i f s) = disk s"
  "procs (upd_inode i f s) = procs s" "cur (upd_inode i f s) = cur s" "dwrites (upd_inode i f s) = dwrites s"
  "fstate.more (upd_inode i f s) = fstate.more s" "mem (upd_inode i f s) = mem s"
  by (simp_all add: upd_inode_def)

lemma itable_ok_upd:
  assumes "itable_ok xs" and "i < NINODE" and "0 \<le> i_ref x"
    and "\<And>j. j < NINODE \<Longrightarrow> j \<noteq> i \<Longrightarrow> 0 < i_ref x \<Longrightarrow> \<not> refers (i_dev x) (i_inum x) (xs ! j)"
  shows "itable_ok (xs[i := x])"
proof -
  have no: "False" if "j < NINODE" "j \<noteq> i" "0 < i_ref x" "0 < i_ref (xs ! j)" "i_dev x = i_dev (xs ! j)"
    "i_inum x = i_inum (xs ! j)" for j
    using assms(4) [of j] that by (simp add: refers_def)
  show ?thesis
    unfolding itable_ok_def
  proof (intro conjI allI impI)
    fix j k
    assume "j < NINODE" "k < NINODE" "0 < i_ref (xs[i := x] ! j) \<and> 0 < i_ref (xs[i := x] ! k) \<and>
      i_dev (xs[i := x] ! j) = i_dev (xs[i := x] ! k) \<and> i_inum (xs[i := x] ! j) = i_inum (xs[i := x] ! k)"
    then show "j = k"
      using assms(1,2) no [of j] no [of k]
      by (cases "j = i"; cases "k = i") (auto simp: itable_ok_def nth_list_update)
  qed (use assms(1-3) in \<open>auto simp: itable_ok_def nth_list_update\<close>)
qed

lemma itable_okD:
  assumes "itable_ok xs"
  shows "length xs = NINODE" and "i < NINODE \<Longrightarrow> 0 \<le> i_ref (xs ! i)"
    and "i < NINODE \<Longrightarrow> j < NINODE \<Longrightarrow> refers dev inum (xs ! i) \<Longrightarrow> refers dev inum (xs ! j) \<Longrightarrow> i = j"
  using assms by (auto simp: itable_ok_def refers_def)

lemma iget_ok:
  assumes ok: "itable_ok (inodes s)"
  obtains (hit) i where "i < NINODE" "refers dev inum (inode_at s i)"
      "iget dev inum s = Inr (i, upd_inode i (\<lambda>x. x\<lparr>i_ref := i_ref x + 1\<rparr>) s)"
  | (fresh) i where "i < NINODE" "i_ref (inode_at s i) = 0" "\<forall>j<NINODE. \<not> refers dev inum (inode_at s j)"
      "iget dev inum s = Inr (i, upd_inode i (\<lambda>x. x\<lparr>i_dev := dev, i_inum := inum, i_ref := 1, i_valid := False\<rparr>) s)"
  | (full) "\<forall>j<NINODE. \<not> refers dev inum (inode_at s j)" "\<forall>j<NINODE. 0 < i_ref (inode_at s j)"
      "iget dev inum s = Inl (Panic ''iget: no inodes'')"
proof -
  let ?P = "\<lambda>i. i_ref (inode_at s i) > 0 \<and> i_dev (inode_at s i) = dev \<and> i_inum (inode_at s i) = inum"
  let ?Q = "\<lambda>i. i_ref (inode_at s i) = 0"
  show thesis
  proof (cases "List.find ?P [0..<NINODE]")
    case (Some i)
    then show thesis
      using find_SomeD [OF Some] by (intro hit [of i]) (auto simp: iget_def refers_def)
  next
    case None
    then have none: "\<forall>j<NINODE. \<not> refers dev inum (inode_at s j)"
      by (auto simp: find_None_iff refers_def)
    show thesis
    proof (cases "List.find ?Q [0..<NINODE]")
      case (Some i)
      then show thesis
        using find_SomeD [OF Some] none None by (intro fresh [of i]) (auto simp: iget_def)
    next
      case None': None
      then have "\<forall>j<NINODE. 0 < i_ref (inode_at s j)"
        using itable_okD(2) [OF ok] by (force simp: find_None_iff)
      then show thesis
        using none None None' by (intro full) (simp_all add: iget_def)
    qed
  qed
qed

section \<open>Inodes on disk\<close>

definition disk_inode :: "superblock \<Rightarrow> (u32 \<Rightarrow> u8 list) \<Rightarrow> u32 \<Rightarrow> dinode" where
  "disk_inode x V inum = get_dinode (inode_off inum) (V (IBLOCK inum x))"

lemma inode_off_bound: "inode_off inum + 64 \<le> BSIZE"
proof -
  have "unat inum mod IPB < IPB"
    by (simp add: NDIRECT_val)
  then show ?thesis
    by (simp add: inode_off_def NDIRECT_val BSIZE_def)
qed

lemma inode_off_disjoint:
  assumes "inode_off i \<noteq> inode_off j"
  shows "inode_off i + 64 \<le> inode_off j \<or> inode_off j + 64 \<le> inode_off i"
  using assms by (simp add: inode_off_def) linarith

lemma same_inode: "IBLOCK i x = IBLOCK j x \<Longrightarrow> inode_off i = inode_off j \<Longrightarrow> i = j"
proof -
  assume "IBLOCK i x = IBLOCK j x" and o: "inode_off i = inode_off j"
  then have "i div of_nat IPB = j div of_nat IPB"
    by (simp add: IBLOCK_def)
  then have "unat (i div of_nat IPB) = unat (j div of_nat IPB)"
    by simp
  then have "unat i div IPB = unat j div IPB"
    by (simp add: unat_div NDIRECT_val)
  moreover have "unat i mod IPB = unat j mod IPB"
    using o by (simp add: inode_off_def)
  ultimately show "i = j"
    by (metis div_mult_mod_eq word_unat_eq_iff)
qed

lemma disk_inode_put:
  fixes i :: u32 and x :: superblock
  assumes "\<And>c. length (V c) = BSIZE" and "length (di_addrs d) = NDIRECT + 1"
  defines "V' \<equiv> V(IBLOCK i x := put_dinode (inode_off i) d (V (IBLOCK i x)))"
  shows "disk_inode x V' j = (if j = i then d else disk_inode x V j)"
proof -
  have b: "inode_off n + 64 \<le> length (V c)" for n c
    using inode_off_bound assms(1) by simp
  have "get_dinode (inode_off j) (put_dinode (inode_off i) d (V c)) = get_dinode (inode_off j) (V c)"
    if "inode_off j \<noteq> inode_off i" for c
    by (rule get_dinode_other [OF b inode_off_disjoint [OF that] b assms(2)])
  then show ?thesis
    using get_put_dinode(1) [OF b assms(2), of i] same_inode [of j x i]
    by (cases "IBLOCK j x = IBLOCK i x") (auto simp: disk_inode_def V'_def)
qed

lemma log_inv_cong:
  assumes "bufs s' = bufs s" and "disk s' = disk s" and "procs s' = procs s" and "cur s' = cur s"
    and "thelog s' = thelog s"
  shows "log_inv H s' = log_inv H s" and "bview s' = bview s" and "logged s' = logged s" and "lh_count s' = lh_count s"
    and "log_room H s' = log_room H s" and "fs_op k H s' = fs_op k H s" and "settled c s' = settled c s"
proof -
  have c: "cache Q H s' = cache Q H s" for Q H
    using cache_cong [of s' s] assms by simp
  show "bview s' = bview s"
    using assms by (intro bview_cong) simp_all
  then show "log_inv H s' = log_inv H s" "logged s' = logged s" "lh_count s' = lh_count s"
    "log_room H s' = log_room H s" "fs_op k H s' = fs_op k H s" "settled c s' = settled c s"
    using assms c by (simp_all add: log_inv_def logged_def lh_count_def log_room_def fs_op_def settled_def)
qed

lemma log_inv_upd_inode [simp]:
  "log_inv H (upd_inode i f s) = log_inv H s" "bview (upd_inode i f s) = bview s" "logged (upd_inode i f s) = logged s"
  "lh_count (upd_inode i f s) = lh_count s" "log_room H (upd_inode i f s) = log_room H s"
  "fs_op k H (upd_inode i f s) = fs_op k H s" "settled c (upd_inode i f s) = settled c s"
  by (rule log_inv_cong; simp)+

text \<open>\<open>iupdate\<close> writes the fields of the inode to its place on the disk, and to no other.\<close>

lemma iupdate_ok:
  fixes s :: "'a fstate_scheme"
  defines "x \<equiv> \<lambda>s ip. inode_at s ip"
  assumes I: "fs_op (Suc (Suc k)) H s" and c: "IBLOCK (i_inum (x s ip)) (sb s) \<notin> ran H"
    and l: "\<not> in_log (log_start (thelog s)) (IBLOCK (i_inum (x s ip)) (sb s))"
    and a: "length (i_addrs (x s ip)) = NDIRECT + 1" and d: "i_dev (x s ip) = ROOTDEV"
  obtains s' where "iupdate ip s = Inr s'" "fs_op (Suc k) H s'" "txn_step s s'"
    "\<forall>b. b \<noteq> IBLOCK (i_inum (x s ip)) (sb s) \<longrightarrow> bview s' b = bview s b"
    "\<forall>j. disk_inode (sb s) (bview s') j =
      (if j = i_inum (x s ip) then dinode_of (x s ip) else disk_inode (sb s) (bview s) j)"
proof -
  let ?x = "inode_at s ip"
  let ?B = "IBLOCK (i_inum ?x) (sb s)" and ?f = "put_dinode (inode_off (i_inum ?x)) (dinode_of ?x)"
  have la: "length (di_addrs (dinode_of ?x)) = NDIRECT + 1"
    using a by (simp add: dinode_of_def x_def)
  note len = length_bview_inv [OF fs_op_inv [OF I]]
  have "inode_off (i_inum ?x) + 64 \<le> length (bview s ?B)"
    using inode_off_bound len by simp
  then have "length (?f (bview s ?B)) = BSIZE"
    using get_put_dinode(2) [OF _ la] len by simp
  then obtain b s1 s2 s3 where 1: "bread ROOTDEV ?B s = Inr (b, s1)" "buf_data b s1 = bview s ?B" "txn_step s s1"
    "log_write b (set_data b (?f (bview s ?B)) s1) = Inr s2" "brelse b s2 = Inr s3" "fs_op (Suc k) H s3"
    "bview s3 = (bview s)(?B := ?f (bview s ?B))" "txn_step s s3"
    by (rule op_update_block [where f = ?f, OF I c [unfolded x_def] _ l [unfolded x_def]])
  note P = disk_inode_put [where V = "bview s" and i = "i_inum ?x" and x = "sb s", OF len la]
  have u: "iupdate ip s = Inr s3"
    using 1(1,2,4,5) d by (simp add: iupdate_def x_def)
  show thesis
    by (rule that [OF u 1(6,8)]) (simp_all add: 1(7) x_def P)
qed

text \<open>\<open>ilock\<close> of an inode whose lock is free.\<close>

lemma ilock_ok:
  assumes I: "log_inv H s" and r: "log_room H s" and ip: "ip < length (inodes s)"
    and c: "IBLOCK (i_inum (inode_at s ip)) (sb s) \<notin> ran H" and ref: "1 \<le> i_ref (inode_at s ip)"
    and free: "\<not> sl_locked (i_lock (inode_at s ip))" and d: "i_dev (inode_at s ip) = ROOTDEV"
  defines "x \<equiv> (inode_at s ip)\<lparr>i_lock := (i_lock (inode_at s ip))\<lparr>sl_locked := True, sl_pid := mypid s\<rparr>\<rparr>"
  defines "e \<equiv> disk_inode (sb s) (bview s) (i_inum (inode_at s ip))"
  shows "if i_valid (inode_at s ip) then ilock ip s = Inr (s\<lparr>inodes := (inodes s)[ip := x]\<rparr>)
    else if di_type e = 0 then ilock ip s = Inl (Panic ''ilock: no type'')
    else \<exists>s'. ilock ip s = Inr s' \<and> log_inv H s' \<and> bview s' = bview s \<and> thelog s' = thelog s \<and>
      inodes s' = (inodes s)[ip := (load_dinode e x)\<lparr>i_valid := True\<rparr>] \<and> sb s' = sb s \<and> cur s' = cur s \<and>
      fstate.more s' = fstate.more s"
proof -
  let ?lk = "(i_lock (inode_at s ip))\<lparr>sl_locked := True, sl_pid := mypid s\<rparr>"
  let ?t = "upd_inode ip (\<lambda>x. x\<lparr>i_lock := ?lk\<rparr>) s"
  let ?B = "IBLOCK (i_inum (inode_at s ip)) (sb s)"
  have acq: "acquiresleep (Chan_inode_lock ip) (i_lock (inode_at s ip)) s = Inr ?lk"
    using free by (simp add: acquiresleep_def)
  have xt: "inode_at ?t ip = x"
    using ip by (simp add: x_def)
  show ?thesis
  proof (cases "i_valid (inode_at s ip)")
    case True
    then show ?thesis
      using acq ref ip by (simp add: ilock_def Let_def x_def) (simp add: upd_inode_def)
  next
    case False
    have It: "log_inv H ?t" "?B \<notin> ran H" "log_room H ?t"
      using I r c by simp_all
    obtain b s1 where 1: "bread ROOTDEV ?B ?t = Inr (b, s1)" "log_inv (H(b \<mapsto> ?B)) s1" "b \<notin> dom H"
      "buf_data b s1 = bview ?t ?B" "bview s1 = bview ?t" "txn_step ?t s1" "thelog s1 = thelog ?t" "logged s1 = logged ?t"
      by (rule log_bread [OF It])
    let ?s1 = "upd_inode ip (load_dinode e) s1"
    have "?B \<in> set (logged ?s1) \<or> bview ?s1 ?B = disk ?s1 ?B"
      using log_inv_clean [OF It(1,2)] 1(5,8) txn_step_sel(1) [OF 1(6)] by simp
    moreover have "log_inv (H(b \<mapsto> ?B)) ?s1"
      using 1(2) by simp
    ultimately obtain s2 where 2: "brelse b ?s1 = Inr s2" "log_inv H s2" "bview s2 = bview ?s1" "txn_step ?s1 s2"
      "thelog s2 = thelog ?s1"
      using log_brelse [of "H(b \<mapsto> ?B)" ?s1 b ?B] 1(3) by (auto simp: fun_upd_idem domIff)
    have i2: "inodes s2 = (inodes s)[ip := load_dinode e x]" "sb s2 = sb s" "cur s2 = cur s" "fstate.more s2 = fstate.more s"
      using txn_step_fs [OF 1(6)] txn_step_fs [OF 2(4)] ip xt by simp_all
    let ?s3 = "upd_inode ip (\<lambda>x. x\<lparr>i_valid := True\<rparr>) s2"
    have "ilock ip s = (if i_type (inode_at ?s3 ip) = 0 then Inl (Panic ''ilock: no type'') else Inr ?s3)"
      using acq ref False 1(1,4) 2(1) d ip by (simp add: ilock_def Let_def e_def disk_inode_def)
    moreover have "i_type (inode_at ?s3 ip) = di_type e"
      using ip i2(1) by (simp add: load_dinode_def)
    ultimately show ?thesis
      using False 2 i2 1(5,7) ip by auto
  qed
qed

section \<open>Properties\<close>

text \<open>
  Property C31. The inode table. \<open>iget\<close> returns the slot that refers to the inode, with one more
  reference, and keeps what is loaded there; when there is no such slot it takes one without references
  and marks it as not loaded. No inode gets two slots, no other slot changes, and it panics only when
  every slot is in use by other inodes.
\<close>

theorem iget_correct:
  assumes "itable_ok (inodes s)"
  shows "if (\<exists>j<NINODE. refers dev inum (inode_at s j)) \<or> (\<exists>j<NINODE. i_ref (inode_at s j) = 0)
    then \<exists>i s'. iget dev inum s = Inr (i, s') \<and> i < NINODE \<and> itable_ok (inodes s') \<and>
      refers dev inum (inode_at s' i) \<and> (\<forall>j. j \<noteq> i \<longrightarrow> inode_at s' j = inode_at s j) \<and>
      (if refers dev inum (inode_at s i) then inode_at s' i = (inode_at s i)\<lparr>i_ref := i_ref (inode_at s i) + 1\<rparr>
       else i_ref (inode_at s i) = 0 \<and> i_ref (inode_at s' i) = 1 \<and> \<not> i_valid (inode_at s' i))
    else iget dev inum s = Inl (Panic ''iget: no inodes'')"
  using assms
proof (cases rule: iget_ok [where dev = dev and inum = inum])
  case (hit i)
  let ?x = "inode_at s i"
  have "itable_ok ((inodes s)[i := ?x\<lparr>i_ref := i_ref ?x + 1\<rparr>])"
  proof (rule itable_ok_upd [OF assms hit(1)])
    fix j assume "j < NINODE" "j \<noteq> i"
    then show "\<not> refers (i_dev (?x\<lparr>i_ref := i_ref ?x + 1\<rparr>)) (i_inum (?x\<lparr>i_ref := i_ref ?x + 1\<rparr>)) (inode_at s j)"
      using itable_okD(3) [OF assms _ hit(1) _ hit(2), of j] hit(2) by (auto simp: refers_def)
  qed (use hit(2) in \<open>simp add: refers_def\<close>)
  moreover have "refers dev inum (?x\<lparr>i_ref := i_ref ?x + 1\<rparr>)"
    using hit(2) by (simp add: refers_def)
  moreover have c: "(\<exists>j<NINODE. refers dev inum (inode_at s j)) \<or> (\<exists>j<NINODE. i_ref (inode_at s j) = 0)"
    using hit(1,2) by blast
  ultimately show ?thesis
    unfolding if_P [OF c] hit(3) using hit(1,2) itable_okD(1) [OF assms]
    by (intro exI [of _ i] exI [of _ "upd_inode i (\<lambda>x. x\<lparr>i_ref := i_ref x + 1\<rparr>) s"]) simp
next
  case (fresh i)
  let ?x = "(inode_at s i)\<lparr>i_dev := dev, i_inum := inum, i_ref := 1, i_valid := False\<rparr>"
  have "itable_ok ((inodes s)[i := ?x])"
    using fresh(1,3) by (intro itable_ok_upd [OF assms fresh(1)]) auto
  moreover have "refers dev inum ?x"
    by (simp add: refers_def)
  moreover have c: "(\<exists>j<NINODE. refers dev inum (inode_at s j)) \<or> (\<exists>j<NINODE. i_ref (inode_at s j) = 0)"
      and "\<not> refers dev inum (inode_at s i)"
    using fresh(1-3) by blast+
  ultimately show ?thesis
    unfolding if_P [OF c] fresh(4) using fresh(1,2) itable_okD(1) [OF assms]
    by (intro exI [of _ i] exI [of _ "upd_inode i (\<lambda>x. x\<lparr>i_dev := dev, i_inum := inum, i_ref := 1, i_valid := False\<rparr>) s"])
      simp
next
  case full
  then have "\<not> ((\<exists>j<NINODE. refers dev inum (inode_at s j)) \<or> (\<exists>j<NINODE. i_ref (inode_at s j) = 0))"
    by force
  then show ?thesis
    using full(3) by simp
qed

theorem iget_correct_witness:
  "\<exists>i s'. iget ROOTDEV ROOTINO (bss_fstate ()) = Inr (i, s') \<and> itable_ok (inodes s') \<and>
    refers ROOTDEV ROOTINO (inode_at s' i)"
proof -
  have i: "inodes (bss_fstate ()) = replicate NINODE bss_inode"
    by (simp add: bss_fstate_def bss_state_def)
  then have ok: "itable_ok (inodes (bss_fstate ()))"
    by (simp add: itable_ok_def bss_inode_def)
  have "i_ref (inode_at (bss_fstate ()) 0) = 0" "0 < NINODE"
    by (simp_all add: i NINODE_def bss_inode_def)
  then have c: "(\<exists>j<NINODE. refers ROOTDEV ROOTINO (inode_at (bss_fstate ()) j)) \<or>
      (\<exists>j<NINODE. i_ref (inode_at (bss_fstate ()) j) = 0)"
    by blast
  show ?thesis
    using iget_correct [OF ok, of ROOTDEV ROOTINO] unfolding if_P [OF c] by blast
qed

text \<open>
  Property C32. An inode's way to the disk and back. \<open>iupdate\<close> in an operation with room in the log
  writes the inode's fields to its own place, and the other inodes on the disk stay as they are; when
  the inode is later loaded again, \<open>ilock\<close> gets the very same fields.
\<close>

theorem iupdate_ilock_roundtrip:
  assumes "fs_op (k + 2) Map.empty s" and "ip < length (inodes s)" and "i_dev (inode_at s ip) = ROOTDEV"
    and "\<not> in_log (log_start (thelog s)) (IBLOCK (i_inum (inode_at s ip)) (sb s))"
    and "length (i_addrs (inode_at s ip)) = NDIRECT + 1" and "i_type (inode_at s ip) \<noteq> 0"
    and "i_dev y = ROOTDEV" and "i_inum y = i_inum (inode_at s ip)" and "1 \<le> i_ref y" and "\<not> i_valid y"
    and "\<not> sl_locked (i_lock y)"
  shows "\<exists>s1 s2. iupdate ip s = Inr s1 \<and>
    (\<forall>j. j \<noteq> i_inum (inode_at s ip) \<longrightarrow> disk_inode (sb s) (bview s1) j = disk_inode (sb s) (bview s) j) \<and>
    ilock ip (s1\<lparr>inodes := (inodes s1)[ip := y]\<rparr>) = Inr s2 \<and>
    dinode_of (inode_at s2 ip) = dinode_of (inode_at s ip) \<and> i_valid (inode_at s2 ip) \<and>
    bview s2 = bview s1 \<and> (\<forall>j. j \<noteq> ip \<longrightarrow> inode_at s2 j = inode_at s1 j)"
proof -
  have I: "fs_op (Suc (Suc k)) Map.empty s"
    using assms(1) by (simp add: numeral_2_eq_2)
  have c: "IBLOCK (i_inum (inode_at s ip)) (sb s) \<notin> ran (Map.empty :: nat \<rightharpoonup> u32)"
    by simp
  obtain s1 where 1: "iupdate ip s = Inr s1" "fs_op (Suc k) Map.empty s1" "txn_step s s1"
    "\<forall>b. b \<noteq> IBLOCK (i_inum (inode_at s ip)) (sb s) \<longrightarrow> bview s1 b = bview s b"
    "\<forall>j. disk_inode (sb s) (bview s1) j =
      (if j = i_inum (inode_at s ip) then dinode_of (inode_at s ip) else disk_inode (sb s) (bview s) j)"
    by (rule iupdate_ok [OF I c assms(4,5,3)])
  let ?t = "upd_inode ip (\<lambda>_. y) s1"
  note f = txn_step_fs [OF 1(3)]
  have t: "log_inv Map.empty ?t" "log_room Map.empty ?t" "ip < length (inodes ?t)" "inode_at ?t ip = y" "sb ?t = sb s"
    using fs_op_inv [OF 1(2)] fs_op_room [OF 1(2)] assms(2) f by simp_all
  have e: "disk_inode (sb ?t) (bview ?t) (i_inum (inode_at ?t ip)) = dinode_of (inode_at s ip)"
    using 1(5) assms(8) t by simp
  have nz: "di_type (dinode_of (inode_at s ip)) \<noteq> 0"
    using assms(6) by (simp add: dinode_of_def)
  obtain s2 lk where s2: "ilock ip ?t = Inr s2" "bview s2 = bview ?t"
    "inodes s2 = (inodes ?t)[ip := (load_dinode (dinode_of (inode_at s ip)) (y\<lparr>i_lock := lk\<rparr>))\<lparr>i_valid := True\<rparr>]"
    using ilock_ok [OF t(1-3)] assms(7-11) nz unfolding t(4) e [unfolded t(4)] by auto
  have l: "dinode_of (inode_at s2 ip) = dinode_of (inode_at s ip) \<and> i_valid (inode_at s2 ip)"
    using t(3) by (simp add: s2(3) dinode_of_def load_dinode_def)
  have t': "?t = s1\<lparr>inodes := (inodes s1)[ip := y]\<rparr>"
    by (simp add: upd_inode_def)
  show ?thesis
    by (rule exI [of _ s1], rule exI [of _ s2]) (use 1 s2 l in \<open>simp add: t' [symmetric]\<close>)
qed

text \<open>An inode with number 7 in the first slot, with its block 38 outside the log.\<close>

theorem iupdate_ilock_roundtrip_witness:
  "\<exists>(s :: fstate) s1 s2. iupdate 0 s = Inr s1 \<and>
    ilock 0 (s1\<lparr>inodes := (inodes s1)[0 := bss_inode\<lparr>i_dev := ROOTDEV, i_inum := 7, i_ref := 1\<rparr>]\<rparr>) = Inr s2 \<and>
    i_size (inode_at s2 0) = 1234"
proof -
  obtain s :: fstate where s: "fs_op 20 Map.empty s" "sb s = example_sb" "log_start (thelog s) = 2"
    "bview s 45 = example_disk 45" "inodes s = replicate NINODE bss_inode"
    by (rule fs_boot_example)
  let ?x = "bss_inode\<lparr>i_dev := ROOTDEV, i_inum := 7, i_ref := 1, i_type := T_FILE, i_size := 1234, i_valid := True\<rparr>"
  let ?y = "bss_inode\<lparr>i_dev := ROOTDEV, i_inum := 7, i_ref := 1\<rparr>"
  let ?s = "upd_inode 0 (\<lambda>_. ?x) s"
  have h: "fs_op (18 + 2) Map.empty ?s" "0 < length (inodes ?s)" "inode_at ?s 0 = ?x" "sb ?s = example_sb"
    using s by (simp_all add: NINODE_def)
  have h': "i_dev (inode_at ?s 0) = ROOTDEV" "length (i_addrs (inode_at ?s 0)) = NDIRECT + 1" "i_type (inode_at ?s 0) \<noteq> 0"
    "\<not> in_log (log_start (thelog ?s)) (IBLOCK (i_inum (inode_at ?s 0)) (sb ?s))" "i_inum ?y = i_inum (inode_at ?s 0)"
    using s(3) unfolding h(3,4) by (simp_all add: bss_inode_def T_FILE_def in_log_def IBLOCK_def example_sb_def
        mkfs_sb_def LOGSIZE_def MAXOPBLOCKS_def NDIRECT_val)
  have y: "i_dev ?y = ROOTDEV" "1 \<le> i_ref ?y" "\<not> i_valid ?y" "\<not> sl_locked (i_lock ?y)"
    by (simp_all add: bss_inode_def)
  obtain s1 s2 where "iupdate 0 ?s = Inr s1" "ilock 0 (s1\<lparr>inodes := (inodes s1)[0 := ?y]\<rparr>) = Inr s2"
    "dinode_of (inode_at s2 0) = dinode_of (inode_at ?s 0)"
    using iupdate_ilock_roundtrip [OF h(1,2) h'(1,4,2,3) y(1) h'(5) y(2-4)] by blast
  then show ?thesis
    unfolding h(3) by (intro exI [of _ ?s] exI [of _ s1] exI [of _ s2]) (simp add: dinode_of_def)
qed

end
