(* ===== verification/Fs_Data.thy ===== *)
theory Fs_Data
  imports Fs_Inode
begin

text \<open>
  The contents of files: the blocks of an inode, direct and through the indirect block, the bytes they
  make up, and \<open>readi\<close> as a copy of those bytes to its destination.
\<close>

section \<open>Copying to a destination\<close>

text \<open>
  The effect of \<open>either_copyout\<close> as a function of the memory and the page table of the process, and the
  delivery of several pieces one after the other, up to the first that fails.
\<close>

fun copy_to :: "u64 \<Rightarrow> uptr \<Rightarrow> u8 list \<Rightarrow> bmem \<Rightarrow> (int \<times> uptr \<times> bmem) res" where
  "copy_to pde (User va) src m =
     (let (r, t) = copyout pde va src \<lparr>mem = m, freelist = 0, kend = 0\<rparr> in Inr (r, User va, mem t))"
| "copy_to pde (Kern a) src m = Inr (0, Kern a, put_bytes m a src)"
| "copy_to pde (Klocal off xs) src m =
     (if length xs < off + length src then Inl Fault else Inr (0, Klocal off (upd_seg off src xs), m))"

primrec deliver :: "u64 \<Rightarrow> u8 list list \<Rightarrow> uptr \<Rightarrow> nat \<Rightarrow> bmem \<Rightarrow> (int \<times> uptr \<times> bmem) res" where
  "deliver pde [] dst tot m = Inr (int tot, dst, m)"
| "deliver pde (c # cs) dst tot m =
     bindE (copy_to pde dst c m) (\<lambda>(r, dst, m).
     if r = - 1 then Inr (- 1, dst, m) else deliver pde cs (uptr_add dst (length c)) (tot + length c) m)"

lemma copyout_eq:
  "copyout pde va src s =
     (let (r, t) = copyout pde va src \<lparr>mem = mem s, freelist = 0, kend = 0\<rparr> in (r, s\<lparr>mem := mem t\<rparr>))"
proof -
  let ?t = "\<lparr>mem = mem s, freelist = 0, kend = 0\<rparr> :: kmem"
  have "fst (copyout pde va src s) = fst (copyout pde va src ?t)"
    "mem (snd (copyout pde va src s)) = mem (snd (copyout pde va src ?t))"
    using copyout_mem [of s ?t] by auto
  then show ?thesis
    using copyout_only_mem [of pde va src s] by (simp add: case_prod_beta Let_def prod_eq_iff)
qed

lemma either_copyout_eq:
  "either_copyout dst src s =
     (case copy_to (p_pagetable (myproc s)) dst src (mem s) of
        Inl h \<Rightarrow> Inl h | Inr (r, dst, m) \<Rightarrow> Inr (r, dst, s\<lparr>mem := m\<rparr>))"
proof (cases dst)
  case (User va)
  then show ?thesis
    by (simp add: copyout_eq [of _ va src s] case_prod_beta Let_def)
qed (simp_all add: upd_mem_def)

text \<open>A variable of the kernel gets the pieces one behind the other.\<close>

lemma deliver_Klocal:
  assumes "off + length (concat css) \<le> length xs"
  shows "deliver pde css (Klocal off xs) tot m =
    Inr (int (tot + length (concat css)), Klocal (off + length (concat css)) (upd_seg off (concat css) xs), m)"
  using assms
proof (induction css arbitrary: off xs tot)
  case Nil
  then show ?case
    by (simp add: upd_seg_def)
next
  case (Cons c css)
  have "upd_seg (off + length c) (concat css) (upd_seg off c xs) = upd_seg off (c @ concat css) xs"
    by (rule nth_equalityI) (use Cons.prems in \<open>auto simp: nth_upd_seg nth_append\<close>)
  then show ?case
    using Cons.IH [of "off + length c" "upd_seg off c xs" "tot + length c"] Cons.prems by (simp add: add.assoc)
qed

section \<open>Reading without changing the file system\<close>

definition quiet :: "'a fstate_scheme \<Rightarrow> 'a fstate_scheme \<Rightarrow> bool" where
  "quiet s s' \<longleftrightarrow> bview s' = bview s \<and> disk s' = disk s \<and> dwrites s' = dwrites s \<and> thelog s' = thelog s \<and>
     sb s' = sb s \<and> inodes s' = inodes s \<and> cur s' = cur s \<and> myproc s' = myproc s \<and>
     fstate.more s' = fstate.more s"

lemma quiet_refl [simp]: "quiet s s"
  by (simp add: quiet_def)

lemma quiet_trans: "quiet s t \<Longrightarrow> quiet t u \<Longrightarrow> quiet s u"
  by (simp add: quiet_def)

lemma quiet_logged: "quiet s s' \<Longrightarrow> logged s' = logged s" "quiet s s' \<Longrightarrow> log_room H s' = log_room H s"
  by (simp_all add: quiet_def logged_def lh_count_def log_room_def)

lemma log_inv_cur: "log_inv H s \<Longrightarrow> cur s < length (procs s)"
  unfolding log_inv_def by (metis bcache_invD(2) cacheD(1))

lemma txn_step_quiet:
  assumes "txn_step s s'" and "log_inv H s" and "bview s' = bview s" and "thelog s' = thelog s"
  shows "quiet s s'"
proof -
  have w: "woken s s'"
    using txn_step_sel(3) [OF assms(1)] by (simp add: log_frame_def)
  have "myproc s' = myproc s"
    using woken_sel(1,3) [OF w] log_inv_cur [OF assms(2)] by (simp add: myproc_def)
  then show ?thesis
    using assms(3,4) txn_step_fs [OF assms(1)] txn_step_sel(1,2) [OF assms(1)] by (simp add: quiet_def)
qed

lemma quiet_mem [simp]: "quiet s (s\<lparr>mem := m\<rparr>)"
proof -
  have "bview (s\<lparr>mem := m\<rparr>) = bview s"
    by (rule bview_cong) simp_all
  then show ?thesis
    by (simp add: quiet_def myproc_def)
qed

lemma log_inv_mem [simp]: "log_inv H (s\<lparr>mem := m\<rparr>) = log_inv H s"
  by (rule log_inv_cong) simp_all

lemma quiet_bread:
  assumes "log_inv H s" and "c \<notin> ran H" and "log_room H s"
  obtains b s' where "bread ROOTDEV c s = Inr (b, s')" "log_inv (H(b \<mapsto> c)) s'" "b \<notin> dom H"
    "buf_data b s' = bview s c" "quiet s s'" "mem s' = mem s" "c \<in> set (logged s) \<or> bview s c = disk s c"
proof -
  obtain b s' where b: "bread ROOTDEV c s = Inr (b, s')" "log_inv (H(b \<mapsto> c)) s'" "b \<notin> dom H"
    "buf_data b s' = bview s c" "bview s' = bview s" "txn_step s s'" "thelog s' = thelog s" "logged s' = logged s"
    by (rule log_bread [OF assms])
  show thesis
    by (rule that [OF b(1-4) txn_step_quiet [OF b(6) assms(1) b(5,7)] txn_step_fs(4) [OF b(6)]])
      (use log_inv_clean [OF assms(1,2)] in simp)
qed

lemma quiet_brelse:
  assumes "log_inv (H(b \<mapsto> c)) s" and "b \<notin> dom H" and "c \<in> set (logged s) \<or> bview s c = disk s c"
  obtains s' where "brelse b s = Inr s'" "log_inv H s'" "quiet s s'" "mem s' = mem s"
proof -
  have H: "(H(b \<mapsto> c))(b := None) = H" "(H(b \<mapsto> c)) b = Some c"
    using assms(2) by (auto simp: fun_upd_idem domIff)
  obtain s' where s': "brelse b s = Inr s'" "log_inv H s'" "bview s' = bview s" "txn_step s s'" "thelog s' = thelog s"
    using log_brelse [OF assms(1) H(2) assms(3)] unfolding H(1) by blast
  show thesis
    by (rule that [OF s'(1,2) txn_step_quiet [OF s'(4) assms(1) s'(3,5)] txn_step_fs(4) [OF s'(4)]])
qed

section \<open>The blocks of a file\<close>

text \<open>
  The slots of an inode: the 12 direct blocks, the indirect block, and the 256 entries of the latter.
  Block \<open>bn\<close> of the file is in slot \<open>slot_of bn\<close>; 0 means that there is none.
\<close>

definition slot :: "inode \<Rightarrow> (u32 \<Rightarrow> u8 list) \<Rightarrow> nat \<Rightarrow> u32" where
  "slot x V k = (if k \<le> NDIRECT then i_addrs x ! k
     else if i_addrs x ! NDIRECT = 0 then 0 else get32 (4 * (k - NDIRECT - 1)) (V (i_addrs x ! NDIRECT)))"

definition slot_of :: "nat \<Rightarrow> nat" where
  "slot_of bn = (if bn < NDIRECT then bn else Suc bn)"

definition file_block :: "inode \<Rightarrow> (u32 \<Rightarrow> u8 list) \<Rightarrow> nat \<Rightarrow> u32" where
  "file_block x V bn = slot x V (slot_of bn)"

definition file_byte :: "inode \<Rightarrow> (u32 \<Rightarrow> u8 list) \<Rightarrow> nat \<Rightarrow> u8" where
  "file_byte x V i = V (file_block x V (i div BSIZE)) ! (i mod BSIZE)"

text \<open>The \<open>n\<close> bytes from \<open>off\<close> on, in the pieces in which they lie in blocks.\<close>

definition file_bytes :: "inode \<Rightarrow> (u32 \<Rightarrow> u8 list) \<Rightarrow> nat \<Rightarrow> nat \<Rightarrow> u8 list" where
  "file_bytes x V off n = map (file_byte x V) [off..<off + n]"

function pieces :: "nat \<Rightarrow> nat \<Rightarrow> (nat \<times> nat) list" where
  "pieces off n = (if n = 0 then []
     else (let m = min n (BSIZE - off mod BSIZE) in (off, m) # pieces (off + m) (n - m)))"
  by pat_completeness auto

termination pieces
  by (relation "measure snd") (use block_rest_pos in auto)

declare pieces.simps [simp del]

lemma pieces_0 [simp]: "pieces off 0 = []"
  by (subst pieces.simps) simp

definition file_pieces :: "inode \<Rightarrow> (u32 \<Rightarrow> u8 list) \<Rightarrow> nat \<Rightarrow> nat \<Rightarrow> u8 list list" where
  "file_pieces x V off n = map (\<lambda>(o', m). file_bytes x V o' m) (pieces off n)"

lemma file_bytes_append: "file_bytes x V off (m + n) = file_bytes x V off m @ file_bytes x V (off + m) n"
  using upt_add_eq_append [of off "off + m" n] by (simp add: file_bytes_def add.assoc)

lemma length_file_bytes [simp]: "length (file_bytes x V off n) = n"
  by (simp add: file_bytes_def)

lemma concat_file_pieces: "concat (file_pieces x V off n) = file_bytes x V off n"
proof (induction off n rule: pieces.induct)
  case (1 off n)
  show ?case
  proof (cases "n = 0")
    case True
    then show ?thesis
      by (simp add: file_pieces_def file_bytes_def)
  next
    case False
    let ?m = "min n (BSIZE - off mod BSIZE)"
    have "file_pieces x V off n = file_bytes x V off ?m # file_pieces x V (off + ?m) (n - ?m)"
      using False by (simp add: file_pieces_def pieces.simps [of off n] Let_def)
    moreover have "file_bytes x V off (?m + (n - ?m)) = file_bytes x V off ?m @ file_bytes x V (off + ?m) (n - ?m)"
      by (rule file_bytes_append)
    ultimately show ?thesis
      using 1 [OF False refl] by simp
  qed
qed

lemma BSIZE_pos [simp]: "0 < BSIZE"
  by (simp add: BSIZE_def)

lemma block_shift:
  assumes "off mod BSIZE + i < BSIZE"
  shows "(off + i) div BSIZE = off div BSIZE" and "(off + i) mod BSIZE = off mod BSIZE + i"
proof -
  have "off + i = (off mod BSIZE + i) + off div BSIZE * BSIZE"
    by simp
  then show "(off + i) div BSIZE = off div BSIZE" "(off + i) mod BSIZE = off mod BSIZE + i"
    using assms by (metis add.right_neutral add_0 div_less div_mult_self1 less_nat_zero_code,
        metis mod_less mod_mult_self1)
qed

lemma file_bytes_seg:
  assumes "off mod BSIZE + m \<le> BSIZE" and "length (V (file_block x V (off div BSIZE))) = BSIZE"
  shows "seg (off mod BSIZE) m (V (file_block x V (off div BSIZE))) = file_bytes x V off m"
proof (rule nth_equalityI)
  fix i assume "i < length (seg (off mod BSIZE) m (V (file_block x V (off div BSIZE))))"
  then have i: "i < m"
    by simp
  then have "off mod BSIZE + i < BSIZE"
    using assms(1) by simp
  then show "seg (off mod BSIZE) m (V (file_block x V (off div BSIZE))) ! i = file_bytes x V off m ! i"
    using i assms by (simp add: nth_seg file_bytes_def file_byte_def block_shift)
qed (use assms in simp)

section \<open>Reading\<close>

text \<open>Every block of the file below byte \<open>e\<close> is there.\<close>

definition mapped_to :: "inode \<Rightarrow> (u32 \<Rightarrow> u8 list) \<Rightarrow> nat \<Rightarrow> bool" where
  "mapped_to x V e \<longleftrightarrow> (\<forall>bn. bn * BSIZE < e \<longrightarrow> bn < MAXFILE \<and> file_block x V bn \<noteq> 0)"

lemma bmap_present:
  assumes I: "log_inv Map.empty s" and r: "log_room Map.empty s" and d: "i_dev (inode_at s ip) = ROOTDEV"
    and bn: "bn < MAXFILE" and ne: "file_block (inode_at s ip) (bview s) bn \<noteq> 0"
  obtains s' where "bmap ip (of_nat bn) s = Inr (file_block (inode_at s ip) (bview s) bn, s')"
    "log_inv Map.empty s'" "quiet s s'" "mem s' = mem s"
proof -
  let ?x = "inode_at s ip"
  have u: "unat (of_nat bn :: u32) = bn"
    using bn by (intro unat_of_nat_lt) (simp add: NDIRECT_val)
  show thesis
  proof (cases "bn < NDIRECT")
    case True
    then have "bmap ip (of_nat bn) s = Inr (file_block ?x (bview s) bn, s)"
      using ne u by (simp add: bmap_def bmap_slot_def file_block_def slot_def slot_of_def)
    then show thesis
      using I by (intro that [of s]) simp_all
  next
    case False
    let ?i = "i_addrs ?x ! NDIRECT" and ?n = "bn - NDIRECT"
    have fb: "file_block ?x (bview s) bn = get32 (4 * ?n) (bview s ?i)" "?i \<noteq> 0"
      using ne False by (auto simp: file_block_def slot_def slot_of_def split: if_splits)
    have "?i \<notin> ran (Map.empty :: nat \<rightharpoonup> u32)"
      by simp
    then obtain b s1 where 1: "bread ROOTDEV ?i s = Inr (b, s1)" "log_inv [b \<mapsto> ?i] s1" "b \<notin> dom (Map.empty :: nat \<rightharpoonup> u32)"
      "buf_data b s1 = bview s ?i" "quiet s s1" "mem s1 = mem s" "?i \<in> set (logged s) \<or> bview s ?i = disk s ?i"
      by (rule quiet_bread [OF I _ r])
    have "?i \<in> set (logged s1) \<or> bview s1 ?i = disk s1 ?i"
      using 1(5,7) quiet_logged(1) [OF 1(5)] by (simp add: quiet_def)
    then obtain s2 where 2: "brelse b s1 = Inr s2" "log_inv Map.empty s2" "quiet s1 s2" "mem s2 = mem s1"
      using quiet_brelse [OF 1(2,3)] by blast
    have "?n < NINDIRECT"
      using bn False by (simp add: NDIRECT_val)
    then have "bmap ip (of_nat bn) s = Inr (file_block ?x (bview s) bn, s2)"
      using False u fb ne 1(1,4) 2(1) d by (simp add: bmap_def bmap_slot_def Let_def)
    then show thesis
      using 2 1(6) quiet_trans [OF 1(5) 2(3)] by (intro that [of s2]) simp_all
  qed
qed

lemma readi_loop_ok:
  assumes "log_inv Map.empty s" and "log_room Map.empty s" and "i_dev (inode_at s ip) = ROOTDEV"
    and "mapped_to (inode_at s ip) (bview s) (off + rem)" and "off + rem < 2 ^ 32"
  shows "case deliver (p_pagetable (myproc s)) (file_pieces (inode_at s ip) (bview s) off rem) dst tot (mem s) of
      Inl h \<Rightarrow> readi_loop ip dst off rem tot s = Inl h
    | Inr (r, dst', m) \<Rightarrow> \<exists>s'. readi_loop ip dst off rem tot s = Inr (r, dst', s') \<and> log_inv Map.empty s' \<and>
        quiet s s' \<and> mem s' = m"
  using assms
proof (induction off rem arbitrary: dst tot s rule: pieces.induct)
  case (1 off rem)
  let ?x = "inode_at s ip" and ?V = "bview s" and ?pde = "p_pagetable (myproc s)"
  show ?case
  proof (cases "rem = 0")
    case True
    then show ?thesis
      using 1(2) by (simp add: file_pieces_def readi_loop.simps [of ip dst off])
  next
    case False
    let ?m = "min rem (BSIZE - off mod BSIZE)" and ?bn = "off div BSIZE"
    have fp: "file_pieces ?x ?V off rem = file_bytes ?x ?V off ?m # file_pieces ?x ?V (off + ?m) (rem - ?m)"
      using False by (simp add: file_pieces_def pieces.simps [of off rem] Let_def)
    have "?bn * BSIZE \<le> off"
      by simp
    then have "?bn * BSIZE < off + rem"
      using False by linarith
    then have bn: "?bn < MAXFILE" "file_block ?x ?V ?bn \<noteq> 0"
      using 1(5) unfolding mapped_to_def by blast+
    obtain s1 where b: "bmap ip (of_nat ?bn) s = Inr (file_block ?x ?V ?bn, s1)" "log_inv Map.empty s1"
      "quiet s s1" "mem s1 = mem s"
      by (rule bmap_present [OF 1(2-4) bn])
    have x1: "inode_at s1 ip = ?x" "bview s1 = ?V" "myproc s1 = myproc s" "log_room Map.empty s1"
      using b(3) 1(3) quiet_logged(2) [OF b(3)] by (simp_all add: quiet_def)
    let ?a = "file_block ?x ?V ?bn"
    have "?a \<notin> ran (Map.empty :: nat \<rightharpoonup> u32)"
      by simp
    then obtain c s2 where 2: "bread ROOTDEV ?a s1 = Inr (c, s2)" "log_inv [c \<mapsto> ?a] s2" "c \<notin> dom (Map.empty :: nat \<rightharpoonup> u32)"
      "buf_data c s2 = bview s1 ?a" "quiet s1 s2" "mem s2 = mem s1" "?a \<in> set (logged s1) \<or> bview s1 ?a = disk s1 ?a"
      by (rule quiet_bread [OF b(2) _ x1(4)])
    have m2: "myproc s2 = myproc s" "mem s2 = mem s"
      using 2(5,6) b(4) x1(3) by (simp_all add: quiet_def)
    have "off mod BSIZE + ?m \<le> BSIZE"
      using block_rest_pos [of off] by linarith
    then have sg: "seg (off mod BSIZE) ?m (buf_data c s2) = file_bytes ?x ?V off ?m"
      using file_bytes_seg [of off ?m ?V ?x] length_bview_inv [OF 1(2)] 2(4) x1(2) by simp
    have step: "readi_loop ip dst off rem tot s =
        bindE (either_copyout dst (file_bytes ?x ?V off ?m) s2) (\<lambda>(r, dst, s).
        bindE (brelse c s) (\<lambda>s. if r = - 1 then Inr (- 1, dst, s)
          else readi_loop ip (uptr_add dst ?m) (off + ?m) (rem - ?m) (tot + ?m) s))"
      using False b(1) bn(2) 2(1) x1(1) 1(4) sg by (subst readi_loop.simps) (simp add: Let_def)
    show ?thesis
    proof (cases "copy_to ?pde dst (file_bytes ?x ?V off ?m) (mem s)")
      case (Inl h)
      then show ?thesis
        unfolding fp step by (simp add: either_copyout_eq m2)
    next
      case (Inr p)
      obtain r dst' m where p: "p = (r, dst', m)"
        by (cases p)
      let ?s3 = "s2\<lparr>mem := m\<rparr>"
      have q3: "quiet s ?s3"
        using quiet_trans [OF b(3) quiet_trans [OF 2(5) quiet_mem]] .
      have "?a \<in> set (logged ?s3) \<or> bview ?s3 ?a = disk ?s3 ?a"
        using 2(7) quiet_logged(1) [OF q3] quiet_logged(1) [OF b(3)] q3 b(3) by (simp add: quiet_def)
      moreover have "log_inv [c \<mapsto> ?a] ?s3"
        using 2(2) by simp
      ultimately obtain s4 where 4: "brelse c ?s3 = Inr s4" "log_inv Map.empty s4" "quiet ?s3 s4" "mem s4 = mem ?s3"
        using quiet_brelse [of Map.empty c ?a ?s3] 2(3) by blast
      have q4: "quiet s s4"
        by (rule quiet_trans [OF q3 4(3)])
      then have x4: "inode_at s4 ip = ?x" "bview s4 = ?V" "myproc s4 = myproc s" "mem s4 = m" "log_room Map.empty s4"
        using 1(3) 4(4) quiet_logged(2) [OF q4] by (simp_all add: quiet_def)
      have e: "either_copyout dst (file_bytes ?x ?V off ?m) s2 = Inr (r, dst', ?s3)"
        using Inr by (simp add: either_copyout_eq m2 p)
      show ?thesis
      proof (cases "r = - 1")
        case True
        then show ?thesis
          unfolding fp step e using Inr 4 q4 by (simp add: p)
      next
        case False': False
        have rest: "mapped_to ?x ?V (off + ?m + (rem - ?m))" "off + ?m + (rem - ?m) < 2 ^ 32" "i_dev (inode_at s4 ip) = ROOTDEV"
          using 1(4-6) x4(1) by simp_all
        show ?thesis
          using 1(1) [OF False refl 4(2) x4(5) rest(3), of "uptr_add dst' ?m" "tot + ?m"] rest(1,2) quiet_trans [OF q4]
          unfolding fp step e x4 by (auto simp: Inr p False' 4(1) split: sum.splits)
      qed
    qed
  qed
qed

text \<open>How many bytes \<open>readi\<close> delivers.\<close>

definition read_count :: "inode \<Rightarrow> u32 \<Rightarrow> u32 \<Rightarrow> nat" where
  "read_count x off n = (if i_size x < off \<or> off + n < off then 0 else min (unat n) (unat (i_size x) - unat off))"

lemma unat_add_no_wrap: "\<not> off + n < off \<Longrightarrow> unat (off + n) = unat off + unat n" for off n :: u32
  by (metis not_less unat_plus_simple)

lemma readi_eq:
  assumes "\<not> (i_size (inode_at s ip) < off \<or> off + n < off)"
  shows "readi ip dst off n s = readi_loop ip dst (unat off) (read_count (inode_at s ip) off n) 0 s"
proof -
  let ?size = "i_size (inode_at s ip)"
  have o: "off \<le> ?size" and u: "unat (off + n) = unat off + unat n"
    using assms unat_add_no_wrap by auto
  have "unat (if ?size < off + n then ?size - off else n) = read_count (inode_at s ip) off n"
    using assms u unat_sub [OF o] o
    by (auto simp: read_count_def word_less_nat_alt word_le_nat_alt min_def)
  then show ?thesis
    using assms by (simp add: readi_def Let_def)
qed

lemma readi_ok:
  assumes "log_inv Map.empty s" and "log_room Map.empty s" and "i_dev (inode_at s ip) = ROOTDEV"
    and "mapped_to (inode_at s ip) (bview s) (unat (i_size (inode_at s ip)))"
  shows "case deliver (p_pagetable (myproc s))
        (file_pieces (inode_at s ip) (bview s) (unat off) (read_count (inode_at s ip) off n)) dst 0 (mem s) of
      Inl h \<Rightarrow> readi ip dst off n s = Inl h
    | Inr (r, dst', m) \<Rightarrow> \<exists>s'. readi ip dst off n s = Inr (r, dst', s') \<and> log_inv Map.empty s' \<and>
        quiet s s' \<and> mem s' = m"
proof (cases "i_size (inode_at s ip) < off \<or> off + n < off")
  case True
  then show ?thesis
    using assms(1) by (simp add: read_count_def file_pieces_def readi_def Let_def)
next
  case False
  let ?k = "read_count (inode_at s ip) off n"
  have "unat off + ?k \<le> unat (i_size (inode_at s ip))"
    using False by (auto simp: read_count_def word_less_nat_alt)
  then have "mapped_to (inode_at s ip) (bview s) (unat off + ?k)" "unat off + ?k < 2 ^ 32"
    using assms(4) unsigned_less [of "i_size (inode_at s ip)", where ?'a = nat]
    by (auto simp: mapped_to_def intro: order.strict_trans2)
  then show ?thesis
    unfolding readi_eq [OF False] by (rule readi_loop_ok [OF assms(1-3)])
qed

text \<open>Reading into a variable of the kernel.\<close>

lemma readi_Klocal:
  fixes off :: u32
  assumes "log_inv Map.empty s" and "log_room Map.empty s" and "i_dev (inode_at s ip) = ROOTDEV"
    and "mapped_to (inode_at s ip) (bview s) (unat (i_size (inode_at s ip)))" and "unat n \<le> length xs"
  defines "k \<equiv> read_count (inode_at s ip) off n"
  obtains s' where "readi ip (Klocal 0 xs) off n s =
      Inr (int k, Klocal k (file_bytes (inode_at s ip) (bview s) (unat off) k @ drop k xs), s')"
    "log_inv Map.empty s'" "quiet s s'" "mem s' = mem s"
proof -
  have "k \<le> length xs"
    using assms(5) by (auto simp: k_def read_count_def)
  then show thesis
    using readi_ok [OF assms(1-4), where off = off and n = n and dst = "Klocal 0 xs"] that
    by (auto simp: deliver_Klocal concat_file_pieces k_def [symmetric] upd_seg_def)
qed

section \<open>Properties\<close>

text \<open>
  Property C28. Reading a file. On an inode whose blocks are all there up to its size, \<open>readi\<close> does to
  its destination what delivering the pieces of the file one after the other does, with the result and
  the memory of that delivery, including the case of a destination that cannot be written; the pieces
  put together are the bytes of the file from \<open>off\<close> on, as many as asked for and there are; and the
  file system is left as it was.
\<close>

theorem readi_correct:
  assumes "log_inv Map.empty s" and "log_room Map.empty s" and "i_dev (inode_at s ip) = ROOTDEV"
    and "mapped_to (inode_at s ip) (bview s) (unat (i_size (inode_at s ip)))"
  shows "concat (file_pieces (inode_at s ip) (bview s) (unat off) (read_count (inode_at s ip) off n)) =
      file_bytes (inode_at s ip) (bview s) (unat off) (read_count (inode_at s ip) off n) \<and>
    (case deliver (p_pagetable (myproc s))
        (file_pieces (inode_at s ip) (bview s) (unat off) (read_count (inode_at s ip) off n)) dst 0 (mem s) of
      Inl h \<Rightarrow> readi ip dst off n s = Inl h
    | Inr (r, dst', m) \<Rightarrow> \<exists>s'. readi ip dst off n s = Inr (r, dst', s') \<and> log_inv Map.empty s' \<and>
        quiet s s' \<and> mem s' = m)"
  using concat_file_pieces readi_ok [OF assms] by (intro conjI)

text \<open>A file of three bytes in block 63; two of them are read into a variable.\<close>

lemma pieces_one: "0 < n \<Longrightarrow> off mod BSIZE + n \<le> BSIZE \<Longrightarrow> pieces off n = [(off, n)]"
  by (subst pieces.simps) (simp add: Let_def min_absorb1)

theorem readi_correct_witness:
  "\<exists>(s :: fstate) s'. readi 0 (Klocal 0 [9, 9]) 1 2 s = Inr (2, Klocal 2 [bview s 63 ! 1, bview s 63 ! 2], s')"
proof -
  obtain s :: fstate where s: "fs_op 20 Map.empty s" "inodes s = replicate NINODE bss_inode"
    by (rule fs_boot_example)
  let ?x = "bss_inode\<lparr>i_dev := ROOTDEV, i_size := 3, i_addrs := (replicate 13 0)[0 := 63]\<rparr>"
  let ?s = "upd_inode 0 (\<lambda>_. ?x) s"
  have x: "inode_at ?s 0 = ?x" "log_inv Map.empty ?s" "log_room Map.empty ?s" "i_dev (inode_at ?s 0) = ROOTDEV"
    using s fs_op_inv [OF s(1)] fs_op_room [OF s(1)] by (simp_all add: NINODE_def)
  have fb: "file_block ?x V 0 = 63" for V
    by (simp add: file_block_def slot_def slot_of_def NDIRECT_val)
  have "bn * BSIZE < 3 \<longleftrightarrow> bn = 0" for bn
    by (cases bn) (simp_all add: BSIZE_def)
  then have m: "mapped_to (inode_at ?s 0) (bview ?s) (unat (i_size (inode_at ?s 0)))"
    unfolding x(1) mapped_to_def by (simp add: fb NDIRECT_val)
  have rc: "read_count (inode_at ?s 0) 1 2 = 2"
    unfolding x(1) by (simp add: read_count_def)
  have "file_bytes ?x (bview s) 1 2 = [bview s 63 ! 1, bview s 63 ! 2]"
    by (simp add: file_bytes_def file_byte_def fb upt_rec BSIZE_def numeral_2_eq_2)
  then have fp: "file_pieces (inode_at ?s 0) (bview ?s) (unat (1 :: u32)) 2 = [[bview s 63 ! 1, bview s 63 ! 2]]"
    unfolding x(1) by (simp add: file_pieces_def pieces_one BSIZE_def)
  have "\<exists>s'. readi 0 (Klocal 0 [9, 9]) 1 2 ?s = Inr (2, Klocal 2 [bview s 63 ! 1, bview s 63 ! 2], s')"
    using conjunct2 [OF readi_correct [OF x(2-4) m, of 1 2 "Klocal 0 [9, 9]"]] unfolding rc fp
    by (auto simp: upd_seg_def)
  then show ?thesis
    by - (rule exI [of _ ?s], simp)
qed

end
