(* ===== verification/Fs_Write.thy ===== *)
theory Fs_Write
  imports Fs_Data
begin

text \<open>
  Writing to files: \<open>bmap\<close> with the allocation of blocks, and \<open>writei\<close> as the replacement of bytes of
  the file, with every other file and the layout of the file system left as they were.
\<close>

section \<open>Well-formed inodes\<close>

text \<open>
  The blocks of an inode are in use, none of them is a block of the file system's own, and no two slots
  have the same block.
\<close>

definition owned :: "inode \<Rightarrow> (u32 \<Rightarrow> u8 list) \<Rightarrow> u32 set" where
  "owned x V = {b. b \<noteq> 0 \<and> (\<exists>k\<le>MAXFILE. slot x V k = b)}"

definition inode_wf :: "superblock \<Rightarrow> u32 \<Rightarrow> inode \<Rightarrow> (u32 \<Rightarrow> u8 list) \<Rightarrow> bool" where
  "inode_wf y start x V \<longleftrightarrow> length (i_addrs x) = NDIRECT + 1 \<and>
     (\<forall>b\<in>owned x V. b < sb_size y \<and> \<not> free_in y V b \<and> \<not> metadata y start b) \<and>
     (\<forall>k\<le>MAXFILE. \<forall>l\<le>MAXFILE. k \<noteq> l \<and> slot x V k = slot x V l \<longrightarrow> slot x V k = 0)"

lemma slot_owned: "k \<le> MAXFILE \<Longrightarrow> slot x V k \<noteq> 0 \<Longrightarrow> slot x V k \<in> owned x V"
  by (auto simp: owned_def)

lemma inode_wfD:
  assumes "inode_wf y start x V"
  shows "length (i_addrs x) = NDIRECT + 1" "b \<in> owned x V \<Longrightarrow> b < sb_size y" "b \<in> owned x V \<Longrightarrow> \<not> free_in y V b"
    "b \<in> owned x V \<Longrightarrow> \<not> metadata y start b"
    "k \<le> MAXFILE \<Longrightarrow> l \<le> MAXFILE \<Longrightarrow> k \<noteq> l \<Longrightarrow> slot x V k \<noteq> 0 \<Longrightarrow> slot x V k \<noteq> slot x V l"
  using assms unfolding inode_wf_def by blast+

text \<open>
  What writing to one inode may do to the file system: it takes free blocks for the inode, keeps the
  blocks the inode has, and changes no other block than those and the bitmap.
\<close>

definition evolves :: "superblock \<Rightarrow> u32 \<Rightarrow> inode \<Rightarrow> (u32 \<Rightarrow> u8 list) \<Rightarrow> inode \<Rightarrow> (u32 \<Rightarrow> u8 list) \<Rightarrow> bool" where
  "evolves y start x V x' V' \<longleftrightarrow> inode_wf y start x' V' \<and> fs_layout y start V' \<and>
     x' = x\<lparr>i_addrs := i_addrs x'\<rparr> \<and> free_blocks y V' \<subseteq> free_blocks y V \<and>
     owned x' V' \<subseteq> owned x V \<union> free_blocks y V \<and>
     (\<forall>k\<le>MAXFILE. slot x V k \<noteq> 0 \<longrightarrow> slot x' V' k = slot x V k) \<and>
     (\<forall>c. c \<notin> free_blocks y V \<and> c \<notin> owned x V \<and> (\<forall>d < sb_size y. c \<noteq> BBLOCK d y) \<longrightarrow> V' c = V c)"

lemma evolves_refl: "inode_wf y start x V \<Longrightarrow> fs_layout y start V \<Longrightarrow> evolves y start x V x V"
  by (auto simp: evolves_def)

lemma evolves_trans:
  assumes "evolves y start x V x1 V1" and "evolves y start x1 V1 x2 V2"
  shows "evolves y start x V x2 V2"
proof -
  have a: "x1 = x\<lparr>i_addrs := i_addrs x1\<rparr>" "free_blocks y V1 \<subseteq> free_blocks y V" "owned x1 V1 \<subseteq> owned x V \<union> free_blocks y V"
    "\<And>k. k \<le> MAXFILE \<Longrightarrow> slot x V k \<noteq> 0 \<Longrightarrow> slot x1 V1 k = slot x V k"
    "\<And>c. c \<notin> free_blocks y V \<Longrightarrow> c \<notin> owned x V \<Longrightarrow> (\<forall>d < sb_size y. c \<noteq> BBLOCK d y) \<Longrightarrow> V1 c = V c"
    using assms(1) unfolding evolves_def by blast+
  have b: "inode_wf y start x2 V2" "fs_layout y start V2" "x2 = x1\<lparr>i_addrs := i_addrs x2\<rparr>"
    "free_blocks y V2 \<subseteq> free_blocks y V1" "owned x2 V2 \<subseteq> owned x1 V1 \<union> free_blocks y V1"
    "\<And>k. k \<le> MAXFILE \<Longrightarrow> slot x1 V1 k \<noteq> 0 \<Longrightarrow> slot x2 V2 k = slot x1 V1 k"
    "\<And>c. c \<notin> free_blocks y V1 \<Longrightarrow> c \<notin> owned x1 V1 \<Longrightarrow> (\<forall>d < sb_size y. c \<noteq> BBLOCK d y) \<Longrightarrow> V2 c = V1 c"
    using assms(2) unfolding evolves_def by blast+
  have "x2 = x\<lparr>i_addrs := i_addrs x2\<rparr>"
    using a(1) b(3) by (metis inode.surjective inode.update_convs(11))
  moreover have "V2 c = V c" if "c \<notin> free_blocks y V" "c \<notin> owned x V" "\<forall>d < sb_size y. c \<noteq> BBLOCK d y" for c
    using a(2,3) a(5) [OF that] b(7) [OF _ _ that(3)] that by auto
  ultimately show ?thesis
    unfolding evolves_def using a(2-4) b(1,2,4,5) b(6) by (intro conjI allI impI) (blast, blast, blast, blast, blast, metis, blast)
qed

section \<open>Taking a block for a slot\<close>

definition alloc_view :: "superblock \<Rightarrow> u32 \<Rightarrow> (u32 \<Rightarrow> u8 list) \<Rightarrow> u32 \<Rightarrow> u8 list" where
  "alloc_view y a V = (take_block y a V)(a := replicate BSIZE 0)"

lemma alloc_view_other:
  assumes "c \<noteq> a" and "\<forall>d < sb_size y. c \<noteq> BBLOCK d y" and "a < sb_size y"
  shows "alloc_view y a V c = V c"
  using assms by (auto simp: alloc_view_def take_block_def)

lemma get32_zeros: "get32 i (replicate n 0) = 0"
proof -
  have "bit (get32 i (replicate n 0)) j = False" for j
    by (auto simp: get32_def bit_le_word seg_def)
  then show ?thesis
    by (intro bit_eqI) simp
qed

lemma not_metadata:
  assumes "\<not> metadata y start b" 
  shows "b \<noteq> 0" "d < sb_size y \<Longrightarrow> b \<noteq> BBLOCK d y" "\<not> in_log start b" "i < sb_ninodes y \<Longrightarrow> b \<noteq> IBLOCK i y"
  using assms by (auto simp: metadata_def)

lemma evolves_grow:
  assumes wf: "inode_wf y start x V" and lay: "fs_layout y start V" and a: "a \<in> free_blocks y V"
    and n: "n \<le> MAXFILE" "slot x V n = 0" "slot x' V' n = a"
    and sk: "\<And>k. k \<le> MAXFILE \<Longrightarrow> k \<noteq> n \<Longrightarrow> slot x' V' k = slot x V k"
    and lay': "fs_layout y start V'" and free: "free_blocks y V' = free_blocks y V - {a}"
    and same: "\<And>c. c \<notin> free_blocks y V \<Longrightarrow> c \<notin> owned x V \<Longrightarrow> (\<forall>d < sb_size y. c \<noteq> BBLOCK d y) \<Longrightarrow> V' c = V c"
    and x': "x' = x\<lparr>i_addrs := i_addrs x'\<rparr>" "length (i_addrs x') = NDIRECT + 1"
  shows "evolves y start x V x' V'"
proof -
  have a': "a < sb_size y" "free_in y V a" "\<not> metadata y start a" "a \<noteq> 0"
    using a fs_layoutD(7) [OF lay] not_metadata(1) by (auto simp: free_blocks_def)
  have own: "owned x' V' = insert a (owned x V)"
    using n sk a'(4) unfolding owned_def by (auto) metis+
  have nf: "\<not> free_in y V' b" if "b < sb_size y" "b \<notin> free_blocks y V - {a}" for b
    using that free by (auto simp: free_blocks_def)
  have "b < sb_size y \<and> \<not> free_in y V' b \<and> \<not> metadata y start b" if "b \<in> owned x' V'" for b
    using that own a' nf inode_wfD(2-4) [OF wf] by (auto simp: free_blocks_def)
  moreover have "slot x' V' k = 0" if "k \<le> MAXFILE" "l \<le> MAXFILE" "k \<noteq> l" "slot x' V' k = slot x' V' l" for k l
  proof -
    have na: "slot x V m \<noteq> a" if "m \<le> MAXFILE" for m
      using slot_owned [OF that, of x V] inode_wfD(3) [OF wf, of a] a' by metis
    then show ?thesis
      using that sk n inode_wfD(5) [OF wf, of k l] by metis
  qed
  ultimately have wf': "inode_wf y start x' V'"
    using x'(2) unfolding inode_wf_def by blast
  show ?thesis
    unfolding evolves_def
  proof (intro conjI allI impI)
    fix k assume "k \<le> MAXFILE" "slot x V k \<noteq> 0"
    then show "slot x' V' k = slot x V k"
      using sk n(2) by metis
  qed (use wf' lay' x'(1) free own a same in auto)
qed

text \<open>A block for one of the slots in the inode itself.\<close>

lemma evolves_addr:
  assumes wf: "inode_wf y start x V" and lay: "fs_layout y start V" and a: "a \<in> free_blocks y V"
    and n: "n \<le> NDIRECT" "i_addrs x ! n = 0"
  defines "x' \<equiv> x\<lparr>i_addrs := (i_addrs x)[n := a]\<rparr>"
  shows "evolves y start x V x' (alloc_view y a V)" and "slot x' (alloc_view y a V) n = a"
    and "\<And>k. k \<le> MAXFILE \<Longrightarrow> k \<noteq> n \<Longrightarrow> slot x' (alloc_view y a V) k = slot x V k"
proof -
  have N: "n \<le> MAXFILE"
    using n(1) by (simp add: NDIRECT_val)
  have len: "length (i_addrs x) = NDIRECT + 1"
    by (rule inode_wfD(1) [OF wf])
  have a': "a < sb_size y" "a \<noteq> 0"
    using a fs_layoutD(5) [OF lay] by (auto simp: free_blocks_def)
  show sn: "slot x' (alloc_view y a V) n = a"
    using n len by (simp add: slot_def x'_def)
  show sk: "slot x' (alloc_view y a V) k = slot x V k" if "k \<le> MAXFILE" "k \<noteq> n" for k
  proof (cases "k \<le> NDIRECT \<or> n = NDIRECT")
    case True
    then show ?thesis
      using that n len a'(2) by (auto simp: slot_def x'_def alloc_view_def get32_zeros)
  next
    case False
    have "alloc_view y a V (i_addrs x ! NDIRECT) = V (i_addrs x ! NDIRECT)" if nz: "i_addrs x ! NDIRECT \<noteq> 0"
    proof (rule alloc_view_other)
      have o: "i_addrs x ! NDIRECT \<in> owned x V"
        using slot_owned [of NDIRECT x V] nz by (simp add: slot_def NDIRECT_val)
      show "i_addrs x ! NDIRECT \<noteq> a"
        using inode_wfD(3) [OF wf o] a by (auto simp: free_blocks_def)
      show "\<forall>d < sb_size y. i_addrs x ! NDIRECT \<noteq> BBLOCK d y"
        using not_metadata(2) [OF inode_wfD(4) [OF wf o]] by blast
    qed (rule a'(1))
    then show ?thesis
      using False n len by (simp add: slot_def x'_def)
  qed
  show "evolves y start x V x' (alloc_view y a V)"
  proof (rule evolves_grow [OF wf lay a N _ sn sk])
    show "slot x V n = 0"
      using n by (simp add: slot_def)
    show "fs_layout y start (alloc_view y a V)" "free_blocks y (alloc_view y a V) = free_blocks y V - {a}"
      using fs_layout_take [OF lay a] by (simp_all add: alloc_view_def)
    fix c assume "c \<notin> free_blocks y V" "c \<notin> owned x V" "\<forall>d < sb_size y. c \<noteq> BBLOCK d y"
    then show "alloc_view y a V c = V c"
      using a a'(1) by (intro alloc_view_other) auto
  qed (use len in \<open>simp_all add: x'_def\<close>)
qed

text \<open>A change to a block outside the bitmap keeps the layout.\<close>

lemma fs_layout_other:
  assumes "fs_layout y start V" and "\<forall>d < sb_size y. c \<noteq> BBLOCK d y" and "length e = BSIZE"
  shows "fs_layout y start (V(c := e))" and "free_blocks y (V(c := e)) = free_blocks y V"
    and "b < sb_size y \<Longrightarrow> free_in y (V(c := e)) b = free_in y V b"
proof -
  show f: "free_in y (V(c := e)) b = free_in y V b" if "b < sb_size y" for b
    using assms(2) that by (auto simp: free_in_def)
  then show "free_blocks y (V(c := e)) = free_blocks y V"
    by (auto simp: free_blocks_def)
  show "fs_layout y start (V(c := e))"
    using assms(1,3) f unfolding fs_layout_def by auto
qed

lemma indirect_owned:
  assumes "i_addrs x ! NDIRECT \<noteq> 0"
  shows "i_addrs x ! NDIRECT \<in> owned x V" and "slot x V NDIRECT = i_addrs x ! NDIRECT"
  using slot_owned [of NDIRECT x V] assms by (simp_all add: slot_def NDIRECT_val)

text \<open>A block for an entry of the indirect block.\<close>

lemma evolves_entry:
  assumes wf: "inode_wf y start x V" and lay: "fs_layout y start V" and a: "a \<in> free_blocks y V"
    and i: "i_addrs x ! NDIRECT \<noteq> 0" and j: "j < NINDIRECT" "get32 (4 * j) (V (i_addrs x ! NDIRECT)) = 0"
  defines "V' \<equiv> (alloc_view y a V)(i_addrs x ! NDIRECT := put32 (4 * j) a (V (i_addrs x ! NDIRECT)))"
  shows "evolves y start x V x V'" and "slot x V' (NDIRECT + 1 + j) = a"
    and "\<And>k. k \<le> MAXFILE \<Longrightarrow> k \<noteq> NDIRECT + 1 + j \<Longrightarrow> slot x V' k = slot x V k"
proof -
  let ?i = "i_addrs x ! NDIRECT"
  have len: "length (i_addrs x) = NDIRECT + 1" "length (V ?i) = BSIZE"
    using inode_wfD(1) [OF wf] fs_layoutD(2) [OF lay] by simp_all
  have a': "a < sb_size y" "a \<noteq> 0"
    using a fs_layoutD(5) [OF lay] by (auto simp: free_blocks_def)
  have o: "?i \<in> owned x V"
    by (rule indirect_owned(1) [OF i])
  have ib: "\<forall>d < sb_size y. ?i \<noteq> BBLOCK d y"
    using not_metadata(2) [OF inode_wfD(4) [OF wf o]] by blast
  have b: "4 * m + 4 \<le> length (V ?i)" if "m < NINDIRECT" for m
    using that len(2) by (simp add: NDIRECT_val BSIZE_def)
  show sn: "slot x V' (NDIRECT + 1 + j) = a"
    using i b [OF j(1)] by (simp add: slot_def V'_def)
  show sk: "slot x V' k = slot x V k" if k: "k \<le> MAXFILE" "k \<noteq> NDIRECT + 1 + j" for k
  proof (cases "k \<le> NDIRECT")
    case False
    then have "get32 (4 * (k - NDIRECT - 1)) (put32 (4 * j) a (V ?i)) = get32 (4 * (k - NDIRECT - 1)) (V ?i)"
      using k b [OF j(1)] b [of "k - NDIRECT - 1"] by (intro get_put_disjoint(4)) (auto simp: NDIRECT_val)
    then show ?thesis
      using False i by (simp add: slot_def V'_def)
  qed (simp add: slot_def)
  note L = fs_layout_take [OF lay a, folded alloc_view_def]
  have le: "length (put32 (4 * j) a (V ?i)) = BSIZE"
    using b [OF j(1)] len(2) by simp
  show "evolves y start x V x V'"
  proof (rule evolves_grow [OF wf lay a _ _ sn sk])
    show "NDIRECT + 1 + j \<le> MAXFILE" "slot x V (NDIRECT + 1 + j) = 0"
      using j i by (simp_all add: NDIRECT_val slot_def)
    show "fs_layout y start V'" "free_blocks y V' = free_blocks y V - {a}"
      using fs_layout_other [OF L(1) ib le] L(2) by (simp_all add: V'_def)
    fix c assume "c \<notin> free_blocks y V" "c \<notin> owned x V" "\<forall>d < sb_size y. c \<noteq> BBLOCK d y"
    then show "V' c = V c"
      using a a'(1) o alloc_view_other [of c a y V] by (auto simp: V'_def)
  qed (use len in simp_all)
qed

text \<open>The data of a file: what its blocks hold, apart from the indirect block.\<close>

definition same_data :: "inode \<Rightarrow> (u32 \<Rightarrow> u8 list) \<Rightarrow> inode \<Rightarrow> (u32 \<Rightarrow> u8 list) \<Rightarrow> bool" where
  "same_data x V x' V' \<longleftrightarrow> (\<forall>bn<MAXFILE. file_block x V bn \<noteq> 0 \<longrightarrow>
     file_block x' V' bn = file_block x V bn \<and> V' (file_block x V bn) = V (file_block x V bn))"

lemma same_data_refl [simp]: "same_data x V x V"
  by (simp add: same_data_def)

lemma same_data_trans: "same_data x V x1 V1 \<Longrightarrow> same_data x1 V1 x2 V2 \<Longrightarrow> same_data x V x2 V2"
  unfolding same_data_def by metis

lemma slot_of_le: "bn < MAXFILE \<Longrightarrow> slot_of bn \<le> MAXFILE" "slot_of bn \<noteq> NDIRECT"
  by (simp_all add: slot_of_def)

lemma slot_of_inj: "slot_of m = slot_of n \<Longrightarrow> m = n"
  by (auto simp: slot_of_def split: if_splits)

lemma file_block_owned:
  assumes "bn < MAXFILE" and "file_block x V bn \<noteq> 0"
  shows "file_block x V bn \<in> owned x V"
  using slot_owned slot_of_le(1) assms by (simp add: file_block_def)

lemma file_block_not_indirect:
  assumes "inode_wf y start x V" and "bn < MAXFILE" and "file_block x V bn \<noteq> 0"
  shows "file_block x V bn \<noteq> i_addrs x ! NDIRECT"
proof -
  have "slot x V (slot_of bn) \<noteq> slot x V NDIRECT"
    using assms slot_of_le [of bn] by (intro inode_wfD(5)) (simp_all add: file_block_def NDIRECT_val)
  then show ?thesis
    by (simp add: file_block_def slot_def [of x V NDIRECT])
qed

lemma same_data_evolves:
  assumes e: "evolves y start x V x' V'" and wf: "inode_wf y start x V"
    and same: "\<And>c. c \<in> owned x V \<Longrightarrow> c \<noteq> i_addrs x ! NDIRECT \<Longrightarrow> V' c = V c"
  shows "same_data x V x' V'"
  unfolding same_data_def
proof (intro allI impI conjI)
  fix bn assume bn: "bn < MAXFILE" "file_block x V bn \<noteq> 0"
  show "file_block x' V' bn = file_block x V bn"
    using e bn slot_of_le(1) [OF bn(1)] unfolding evolves_def file_block_def by blast
  show "V' (file_block x V bn) = V (file_block x V bn)"
    by (rule same [OF file_block_owned [OF bn] file_block_not_indirect [OF wf bn]])
qed

lemma owned_alloc_view:
  assumes wf: "inode_wf y start x V" and c: "c \<in> owned x V" and a: "a \<in> free_blocks y V"
  shows "alloc_view y a V c = V c"
  using inode_wfD(3) [OF wf c] not_metadata(2) [OF inode_wfD(4) [OF wf c]] a
  by (intro alloc_view_other) (auto simp: free_blocks_def)

section \<open>Finding the block of a file\<close>

text \<open>What a step that works on the inode in slot \<open>ip\<close> keeps.\<close>

definition wrote :: "nat \<Rightarrow> 'a fstate_scheme \<Rightarrow> 'a fstate_scheme \<Rightarrow> bool" where
  "wrote ip s s' \<longleftrightarrow> sb s' = sb s \<and> log_start (thelog s') = log_start (thelog s) \<and> disk s' = disk s \<and>
     length (inodes s') = length (inodes s) \<and> (\<forall>j. j \<noteq> ip \<longrightarrow> inode_at s' j = inode_at s j) \<and>
     mem s' = mem s \<and> cur s' = cur s \<and> myproc s' = myproc s \<and> fstate.more s' = fstate.more s"

lemma wrote_refl [simp]: "wrote ip s s"
  by (simp add: wrote_def)

lemma wrote_trans: "wrote ip s t \<Longrightarrow> wrote ip t u \<Longrightarrow> wrote ip s u"
  by (simp add: wrote_def)

lemma wrote_upd_inode [simp]: "wrote ip s (upd_inode ip f s)"
  by (simp add: wrote_def myproc_def)

lemma wrote_txn_step:
  assumes "txn_step s s'" and "log_inv H s"
  shows "wrote ip s s'"
proof -
  have w: "woken s s'"
    using txn_step_sel(3) [OF assms(1)] by (simp add: log_frame_def)
  have "myproc s' = myproc s"
    using woken_sel(1,3) [OF w] log_inv_cur [OF assms(2)] by (simp add: myproc_def)
  then show ?thesis
    using txn_step_fs [OF assms(1)] txn_step_sel(1,4) [OF assms(1)] by (simp add: wrote_def)
qed

abbreviation fs_ok :: "'a fstate_scheme \<Rightarrow> nat \<Rightarrow> bool" where
  "fs_ok s ip \<equiv> fs_layout (sb s) (log_start (thelog s)) (bview s) \<and>
     inode_wf (sb s) (log_start (thelog s)) (inode_at s ip) (bview s) \<and> ip < length (inodes s) \<and>
     i_dev (inode_at s ip) = ROOTDEV"

lemma bmap_slot_ok:
  assumes I: "fs_op (Suc (Suc (Suc k))) H s" and ok: "fs_ok s ip" and h: "held_ok (sb s) (bview s) H" and n: "n \<le> NDIRECT"
  obtains (present) "i_addrs (inode_at s ip) ! n \<noteq> 0" "bmap_slot ip n s = Inr (i_addrs (inode_at s ip) ! n, s)"
  | (full) s' where "i_addrs (inode_at s ip) ! n = 0" "free_blocks (sb s) (bview s) = {}" "bmap_slot ip n s = Inr (0, s')"
      "bview s' = bview s" "fs_op (Suc (Suc (Suc k))) H s'" "txn_step s s'"
  | (new) a s' where "i_addrs (inode_at s ip) ! n = 0" "a \<in> free_blocks (sb s) (bview s)" "bmap_slot ip n s = Inr (a, s')"
      "inode_at s' ip = (inode_at s ip)\<lparr>i_addrs := (i_addrs (inode_at s ip))[n := a]\<rparr>"
      "bview s' = alloc_view (sb s) a (bview s)" "fs_op (Suc k) H s'" "wrote ip s s'" "a \<noteq> 0"
proof (cases "i_addrs (inode_at s ip) ! n = 0")
  case False
  then show thesis
    by (intro present) (simp_all add: bmap_slot_def)
next
  case True
  have lay: "fs_layout (sb s) (log_start (thelog s)) (bview s)" and d: "i_dev (inode_at s ip) = ROOTDEV"
    and ip: "ip < length (inodes s)"
    using ok by simp_all
  show thesis
  proof (rule balloc_ok [OF I lay h])
    fix s' :: "'a fstate_scheme"
    assume s': "free_blocks (sb s) (bview s) = {}" "balloc ROOTDEV s = Inr (0, s')" "bview s' = bview s"
      "fs_op (Suc (Suc (Suc k))) H s'" "txn_step s s'"
    have "bmap_slot ip n s = Inr (0, s')"
      using True s'(2) d by (simp add: bmap_slot_def)
    then show thesis
      by (rule full [OF True s'(1) _ s'(3-5)])
  next
    fix a and s' :: "'a fstate_scheme"
    assume s': "a \<in> free_blocks (sb s) (bview s)" "balloc ROOTDEV s = Inr (a, s')" "a \<noteq> 0" "fs_op (Suc k) H s'"
      "txn_step s s'" "bview s' = (take_block (sb s) a (bview s))(a := replicate BSIZE 0)"
    have "bmap_slot ip n s = Inr (a, set_addr ip n a s')"
      using True s'(2,3) d by (simp add: bmap_slot_def)
    moreover have "inode_at (set_addr ip n a s') ip = (inode_at s ip)\<lparr>i_addrs := (i_addrs (inode_at s ip))[n := a]\<rparr>"
      using txn_step_fs(2) [OF s'(5)] ip by (simp add: set_addr_def)
    moreover have "wrote ip s (set_addr ip n a s')"
      using wrote_trans [OF wrote_txn_step [OF s'(5) fs_op_inv [OF I]] wrote_upd_inode] by (simp add: set_addr_def)
    ultimately show thesis
      using s' True by (intro new [of a "set_addr ip n a s'"]) (simp_all add: set_addr_def alloc_view_def)
  qed
qed

text \<open>The part of \<open>bmap\<close> that works on the indirect block, at address \<open>i\<close>.\<close>

definition bmap_entry :: "nat \<Rightarrow> nat \<Rightarrow> u32 \<Rightarrow> 'a fstate_scheme \<Rightarrow> (u32 \<times> 'a fstate_scheme) res" where
  "bmap_entry ip j i s =
     bindE (bread (i_dev (inode_at s ip)) i s) (\<lambda>(bp, s).
     let addr = get32 (4 * j) (buf_data bp s) in
     bindE
       (if addr = 0 then
          bindE (balloc (i_dev (inode_at s ip)) s) (\<lambda>(addr, s).
          if addr \<noteq> 0 then
            bindE (log_write bp (set_data bp (put32 (4 * j) addr (buf_data bp s)) s))
              (\<lambda>s. Inr (addr, s))
          else Inr (addr, s))
        else Inr (addr, s)) (\<lambda>(addr, s).
     bindE (brelse bp s) (\<lambda>s. Inr (addr, s))))"

lemma bmap_eq:
  assumes "bn < MAXFILE"
  shows "bmap ip (of_nat bn) s = (if bn < NDIRECT then bmap_slot ip bn s
    else bindE (bmap_slot ip NDIRECT s) (\<lambda>(addr, s). if addr = 0 then Inr (0, s) else bmap_entry ip (bn - NDIRECT) addr s))"
proof -
  have "unat (of_nat bn :: u32) = bn"
    using assms by (intro unat_of_nat_lt) (simp add: NDIRECT_val)
  moreover have "\<not> bn < NDIRECT \<Longrightarrow> bn - NDIRECT < NINDIRECT"
    using assms by (simp add: NDIRECT_val)
  ultimately show ?thesis
    by (simp add: bmap_def bmap_entry_def Let_def cong: if_cong)
qed

definition bmap_done :: "nat \<Rightarrow> nat \<Rightarrow> nat \<Rightarrow> 'a fstate_scheme \<Rightarrow> u32 \<Rightarrow> 'a fstate_scheme \<Rightarrow> bool" where
  "bmap_done k ip bn s addr s' \<longleftrightarrow>
     evolves (sb s) (log_start (thelog s)) (inode_at s ip) (bview s) (inode_at s' ip) (bview s') \<and>
     same_data (inode_at s ip) (bview s) (inode_at s' ip) (bview s') \<and> fs_op (Suc k) Map.empty s' \<and> wrote ip s s' \<and>
     (if addr = 0 then free_blocks (sb s) (bview s') = {} else addr = file_block (inode_at s' ip) (bview s') bn)"

lemma dat_held: "log_inv H s \<Longrightarrow> H b = Some c \<Longrightarrow> buf_data b s = bview s c"
  using bc.dat_held by (auto simp: log_inv_def)

lemma bmap_entry_ok:
  assumes I: "fs_op (Suc (Suc (Suc (Suc k)))) Map.empty s" and ok: "fs_ok s ip"
    and i: "i_addrs (inode_at s ip) ! NDIRECT \<noteq> 0" and j: "j < NINDIRECT"
  shows "\<exists>addr s'. bmap_entry ip j (i_addrs (inode_at s ip) ! NDIRECT) s = Inr (addr, s') \<and>
    bmap_done k ip (NDIRECT + j) s addr s'"
proof -
  let ?x = "inode_at s ip" and ?V = "bview s" and ?y = "sb s" and ?st = "log_start (thelog s)"
  let ?i = "i_addrs ?x ! NDIRECT"
  have lay: "fs_layout ?y ?st ?V" and wf: "inode_wf ?y ?st ?x ?V" and d: "i_dev ?x = ROOTDEV"
    using ok by simp_all
  have io: "?i \<in> owned ?x ?V"
    by (rule indirect_owned(1) [OF i])
  note im = not_metadata [OF inode_wfD(4) [OF wf io]]
  have "?i \<notin> ran (Map.empty :: nat \<rightharpoonup> u32)"
    by simp
  then obtain b s1 where 1: "bread ROOTDEV ?i s = Inr (b, s1)" "fs_op (Suc (Suc (Suc k))) [b \<mapsto> ?i] s1"
    "b \<notin> dom (Map.empty :: nat \<rightharpoonup> u32)" "buf_data b s1 = ?V ?i" "bview s1 = ?V" "txn_step s s1" "settled ?i s1"
    by (rule op_bread [OF I])
  note f1 = txn_step_fs(1,2) [OF 1(6)] txn_step_sel(4) [OF 1(6)]
  have fb: "file_block x V (NDIRECT + j) = slot x V (NDIRECT + 1 + j)" for x V
    by (simp add: file_block_def slot_of_def)
  show ?thesis
  proof (cases "get32 (4 * j) (?V ?i) = 0")
    case False
    obtain s2 where 2: "brelse b s1 = Inr s2" "fs_op (Suc (Suc (Suc (Suc k)))) Map.empty s2" "bview s2 = bview s1" "txn_step s1 s2"
      by (rule op_brelse [OF 1(2,3,7)])
    have t: "txn_step s s2"
      by (rule txn_step_trans [OF 1(6) 2(4)])
    have "bmap_entry ip j ?i s = Inr (get32 (4 * j) (?V ?i), s2)"
      using 1(1,4) 2(1) d False by (simp add: bmap_entry_def Let_def)
    moreover have "file_block ?x ?V (NDIRECT + j) = get32 (4 * j) (?V ?i)"
      using i by (simp add: fb slot_def)
    moreover have "fs_op (Suc k) Map.empty s2"
      by (rule fs_op_less [OF 2(2)]) simp
    ultimately show ?thesis
      using False evolves_refl [OF wf lay] wrote_txn_step [OF t fs_op_inv [OF I]] txn_step_fs(2) [OF t] 1(5) 2(3)
      by (auto simp: bmap_done_def)
  next
    case True
    have lay1: "fs_layout (sb s1) (log_start (thelog s1)) (bview s1)"
      using lay f1 1(5) by simp
    have h1: "held_ok (sb s1) (bview s1) [b \<mapsto> ?i]"
      using inode_wfD(3) [OF wf io] im(2) by (auto simp: held_ok_def f1 1(5))
    show ?thesis
    proof (rule balloc_ok [OF 1(2) lay1 h1])
      fix s2 :: "'a fstate_scheme"
      assume 2: "free_blocks (sb s1) (bview s1) = {}" "balloc ROOTDEV s1 = Inr (0, s2)" "bview s2 = bview s1"
        "fs_op (Suc (Suc (Suc k))) [b \<mapsto> ?i] s2" "txn_step s1 s2"
      have st: "settled ?i s2"
        by (rule settled_step [OF 1(7) 2(5)]) (simp add: 2(3))
      obtain s3 where 3: "brelse b s2 = Inr s3" "fs_op (Suc (Suc (Suc (Suc k)))) Map.empty s3" "bview s3 = bview s2" "txn_step s2 s3"
        by (rule op_brelse [OF 2(4) 1(3) st])
      have t: "txn_step s s3"
        by (rule txn_step_trans [OF 1(6) txn_step_trans [OF 2(5) 3(4)]])
      have "bmap_entry ip j ?i s = Inr (0, s3)"
        using 1(1,4) 2(2) 3(1) d True f1 by (simp add: bmap_entry_def Let_def)
      moreover have "fs_op (Suc k) Map.empty s3"
        by (rule fs_op_less [OF 3(2)]) simp
      ultimately show ?thesis
        using evolves_refl [OF wf lay] wrote_txn_step [OF t fs_op_inv [OF I]] txn_step_fs(2) [OF t] 1(5) 2(1,3) 3(3) f1
        by (auto simp: bmap_done_def)
    next
      fix a and s2 :: "'a fstate_scheme"
      assume 2: "a \<in> free_blocks (sb s1) (bview s1)" "balloc ROOTDEV s1 = Inr (a, s2)" "a \<noteq> 0"
        "fs_op (Suc k) [b \<mapsto> ?i] s2" "txn_step s1 s2"
        "bview s2 = (take_block (sb s1) a (bview s1))(a := replicate BSIZE 0)"
      let ?e = "put32 (4 * j) a (?V ?i)" and ?V' = "(alloc_view ?y a ?V)(?i := put32 (4 * j) a (?V ?i))"
      have a: "a \<in> free_blocks ?y ?V"
        using 2(1) f1 1(5) by simp
      have v2: "bview s2 = alloc_view ?y a ?V"
        using 2(6) f1 1(5) by (simp add: alloc_view_def)
      have vi: "bview s2 ?i = ?V ?i"
        unfolding v2 by (rule owned_alloc_view [OF wf io a])
      have bd: "buf_data b s2 = ?V ?i"
        using dat_held [OF fs_op_inv [OF 2(4)], of b ?i] vi by simp
      have le: "length ?e = BSIZE"
        using j fs_layoutD(2) [OF lay] by (simp add: NDIRECT_val BSIZE_def)
      have nl: "\<not> in_log (log_start (thelog s2)) ?i"
        using im(3) f1(3) txn_step_sel(4) [OF 2(5)] by simp
      obtain s3 where 3: "log_write b (set_data b ?e s2) = Inr s3" "fs_op k [b \<mapsto> ?i] s3"
        "bview s3 = (bview s2)(?i := ?e)" "txn_step s2 s3" "settled ?i s3"
        by (rule op_log_write [OF 2(4) _ le nl, of b]) auto
      obtain s4 where 4: "brelse b s3 = Inr s4" "fs_op (Suc k) Map.empty s4" "bview s4 = bview s3" "txn_step s3 s4"
        by (rule op_brelse [OF 3(2) 1(3) 3(5)])
      have t: "txn_step s s4"
        by (rule txn_step_trans [OF 1(6) txn_step_trans [OF 2(5) txn_step_trans [OF 3(4) 4(4)]]])
      have run: "bmap_entry ip j ?i s = Inr (a, s4)"
        using 1(1,4) 2(2,3) 3(1) 4(1) d True f1 bd by (simp add: bmap_entry_def Let_def)
      note E = evolves_entry [OF wf lay a i j True]
      have v4: "bview s4 = ?V'" "inode_at s4 ip = ?x"
        using 3(3) 4(3) v2 txn_step_fs(2) [OF t] by simp_all
      have "same_data ?x ?V ?x ?V'"
        using owned_alloc_view [OF wf _ a] by (intro same_data_evolves [OF E(1) wf]) simp
      then have "bmap_done k ip (NDIRECT + j) s a s4"
        using E(1,2) v4 4(2) wrote_txn_step [OF t fs_op_inv [OF I]] 2(3) by (simp add: bmap_done_def fb)
      then show ?thesis
        using run by blast
    qed
  qed
qed

text \<open>
  \<open>bmap\<close> finds the block of the file or allocates it, and the indirect block with it; it answers
  0 only on a full disk.
\<close>

lemma bmap_ok:
  assumes I: "fs_op (Suc (Suc (Suc (Suc (Suc (Suc k)))))) Map.empty s" and ok: "fs_ok s ip" and bn: "bn < MAXFILE"
  obtains addr s' where "bmap ip (of_nat bn) s = Inr (addr, s')" "bmap_done k ip bn s addr s'"
proof -
  let ?x = "inode_at s ip" and ?V = "bview s" and ?y = "sb s" and ?st = "log_start (thelog s)"
  define n where "n = min bn NDIRECT"
  have lay: "fs_layout ?y ?st ?V" and wf: "inode_wf ?y ?st ?x ?V" and ip: "ip < length (inodes s)"
    and d: "i_dev ?x = ROOTDEV"
    using ok by simp_all
  have h: "held_ok ?y ?V Map.empty"
    by (simp add: held_ok_def)
  have n: "n \<le> NDIRECT" "bn < NDIRECT \<Longrightarrow> n = bn" "\<not> bn < NDIRECT \<Longrightarrow> n = NDIRECT"
    by (auto simp: n_def)
  have j: "\<not> bn < NDIRECT \<Longrightarrow> bn - NDIRECT < NINDIRECT" "\<not> bn < NDIRECT \<Longrightarrow> NDIRECT + (bn - NDIRECT) = bn"
    using bn by (simp_all add: NDIRECT_val)
  have fb: "bn < NDIRECT \<Longrightarrow> file_block x V bn = i_addrs x ! bn" for x V
    by (simp add: file_block_def slot_of_def slot_def)
  note run = bmap_eq [OF bn, of ip s]
  show thesis
  proof (rule bmap_slot_ok [OF I ok h n(1)])
    assume p: "i_addrs ?x ! n \<noteq> 0" "bmap_slot ip n s = Inr (i_addrs ?x ! n, s)"
    show thesis
    proof (cases "bn < NDIRECT")
      case True
      then show thesis
        using p run n evolves_refl [OF wf lay] fs_op_less [OF I, of "Suc k"] fb [OF True]
        by (intro that [of "i_addrs ?x ! n" s]) (simp_all add: bmap_done_def)
    next
      case False
      have "fs_op (Suc (Suc (Suc (Suc k)))) Map.empty s"
        by (rule fs_op_less [OF I]) simp
      then show thesis
        using bmap_entry_ok [OF _ ok, of k "bn - NDIRECT"] p run n(3) [OF False] j [OF False] False that by auto
    qed
  next
    fix s' :: "'a fstate_scheme"
    assume f: "i_addrs ?x ! n = 0" "free_blocks ?y ?V = {}" "bmap_slot ip n s = Inr (0, s')" "bview s' = ?V"
      "fs_op (Suc (Suc (Suc (Suc (Suc (Suc k)))))) Map.empty s'" "txn_step s s'"
    have "bmap ip (of_nat bn) s = Inr (0, s')"
      using run f(3) n(2,3) by auto
    moreover have "fs_op (Suc k) Map.empty s'"
      by (rule fs_op_less [OF f(5)]) simp
    ultimately show thesis
      using f evolves_refl [OF wf lay] wrote_txn_step [OF f(6) fs_op_inv [OF I]] txn_step_fs(2) [OF f(6)]
      by (intro that [of 0 s']) (simp_all add: bmap_done_def)
  next
    fix a and s' :: "'a fstate_scheme"
    assume f: "i_addrs ?x ! n = 0" "a \<in> free_blocks ?y ?V" "bmap_slot ip n s = Inr (a, s')"
      "inode_at s' ip = ?x\<lparr>i_addrs := (i_addrs ?x)[n := a]\<rparr>" "bview s' = alloc_view ?y a ?V"
      "fs_op (Suc (Suc (Suc (Suc k)))) Map.empty s'" "wrote ip s s'" "a \<noteq> 0"
    note E = evolves_addr [OF wf lay f(2) n(1) f(1), folded f(4,5)]
    have same: "same_data ?x ?V (inode_at s' ip) (bview s')"
      using owned_alloc_view [OF wf _ f(2)] f(5) by (intro same_data_evolves [OF E(1) wf]) simp
    show thesis
    proof (cases "bn < NDIRECT")
      case True
      have "fs_op (Suc k) Map.empty s'"
        by (rule fs_op_less [OF f(6)]) simp
      moreover have "file_block (inode_at s' ip) (bview s') bn = a"
        using E(2) n(2) [OF True] True by (simp add: file_block_def slot_of_def)
      ultimately have "bmap_done k ip bn s a s'"
        using E(1) same f(7,8) by (simp add: bmap_done_def)
      then show thesis
        using that [of a s'] run f(3) n(2) [OF True] True by simp
    next
      case False
      have w: "sb s' = ?y" "log_start (thelog s') = ?st" "length (inodes s') = length (inodes s)"
        using f(7) by (simp_all add: wrote_def)
      have ok': "fs_ok s' ip"
        using E(1) ip d f(4) by (simp add: w evolves_def)
      have i': "i_addrs (inode_at s' ip) ! NDIRECT = a"
        using E(2) n(3) [OF False] by (simp add: slot_def)
      obtain addr s2 where 2: "bmap_entry ip (bn - NDIRECT) a s' = Inr (addr, s2)" "bmap_done k ip bn s' addr s2"
        using bmap_entry_ok [OF f(6) ok' _ j(1) [OF False]] i' f(8) j(2) [OF False] by auto
      have "bmap_done k ip bn s addr s2"
        using 2(2) evolves_trans [OF E(1)] same_data_trans [OF same] wrote_trans [OF f(7)]
        by (simp add: bmap_done_def w cong: if_cong)
      then show thesis
        using that [of addr s2] run f(3,8) n(3) [OF False] False 2(1) by simp
    qed
  qed
qed

section \<open>Replacing bytes of a file\<close>

text \<open>
  The file has the bytes \<open>bs\<close> from \<open>off\<close> on, and every other byte that it had before.
\<close>

definition file_updated :: "inode \<Rightarrow> (u32 \<Rightarrow> u8 list) \<Rightarrow> inode \<Rightarrow> (u32 \<Rightarrow> u8 list) \<Rightarrow> nat \<Rightarrow> u8 list \<Rightarrow> bool" where
  "file_updated x V x' V' off bs \<longleftrightarrow>
     (\<forall>i<length bs. file_block x' V' ((off + i) div BSIZE) \<noteq> 0 \<and> file_byte x' V' (off + i) = bs ! i) \<and>
     (\<forall>i<MAXFILE * BSIZE. file_block x V (i div BSIZE) \<noteq> 0 \<longrightarrow> \<not> (off \<le> i \<and> i < off + length bs) \<longrightarrow>
        file_byte x' V' i = file_byte x V i)"

lemma div_MAXFILE: "i < MAXFILE * BSIZE \<Longrightarrow> i div BSIZE < MAXFILE"
  by (simp add: less_mult_imp_div_less)

lemma evolves_file_block:
  assumes "evolves y start x V x' V'" and "bn < MAXFILE" and "file_block x V bn \<noteq> 0"
  shows "file_block x' V' bn = file_block x V bn"
  using assms slot_of_le(1) [OF assms(2)] unfolding evolves_def file_block_def by blast

lemma file_updated_Nil: "same_data x V x' V' \<Longrightarrow> file_updated x V x' V' off []"
  using div_MAXFILE by (simp add: file_updated_def same_data_def file_byte_def)

lemma file_updated_append:
  assumes e: "evolves y start x V x1 V1" "evolves y start x1 V1 x2 V2"
    and u: "file_updated x V x1 V1 off bs" "file_updated x1 V1 x2 V2 (off + length bs) cs"
    and max: "off + length bs + length cs \<le> MAXFILE * BSIZE"
  shows "file_updated x V x2 V2 off (bs @ cs)"
  unfolding file_updated_def
proof (intro conjI allI impI)
  fix i assume i: "i < length (bs @ cs)"
  have m: "(off + i) div BSIZE < MAXFILE"
    using i max by (intro div_MAXFILE) simp
  have "file_block x2 V2 ((off + i) div BSIZE) \<noteq> 0 \<and> file_byte x2 V2 (off + i) = (bs @ cs) ! i"
  proof (cases "i < length bs")
    case True
    then have 1: "file_block x1 V1 ((off + i) div BSIZE) \<noteq> 0" "file_byte x1 V1 (off + i) = bs ! i"
      using u(1) by (auto simp: file_updated_def)
    then have "file_byte x2 V2 (off + i) = file_byte x1 V1 (off + i)"
      using u(2) True max unfolding file_updated_def by auto
    then show ?thesis
      using 1 True evolves_file_block [OF e(2) m 1(1)] by (simp add: nth_append)
  next
    case False
    then have "i = length bs + (i - length bs)" "i - length bs < length cs"
      using i by auto
    then show ?thesis
      using u(2) False unfolding file_updated_def by (metis add.assoc nth_append)
  qed
  then show "file_block x2 V2 ((off + i) div BSIZE) \<noteq> 0" "file_byte x2 V2 (off + i) = (bs @ cs) ! i"
    by simp_all
next
  fix i assume i: "i < MAXFILE * BSIZE" "file_block x V (i div BSIZE) \<noteq> 0" "\<not> (off \<le> i \<and> i < off + length (bs @ cs))"
  have "file_block x1 V1 (i div BSIZE) \<noteq> 0"
    using evolves_file_block [OF e(1) div_MAXFILE [OF i(1)] i(2)] i(2) by simp
  then have "file_byte x2 V2 i = file_byte x1 V1 i"
    using u(2) i(1,3) unfolding file_updated_def by auto
  moreover have "file_byte x1 V1 i = file_byte x V i"
    using u(1) i unfolding file_updated_def by auto
  ultimately show "file_byte x2 V2 i = file_byte x V i"
    by simp
qed

text \<open>Bytes written within one block of the file.\<close>

lemma file_write_block:
  assumes wf: "inode_wf y start x V" and lay: "fs_layout y start V" and bn: "off div BSIZE < MAXFILE"
    and fb: "file_block x V (off div BSIZE) \<noteq> 0" and len: "off mod BSIZE + length bs \<le> BSIZE"
  defines "b \<equiv> file_block x V (off div BSIZE)"
  defines "V' \<equiv> V(b := upd_seg (off mod BSIZE) bs (V b))"
  shows "evolves y start x V x V'" and "file_updated x V x V' off bs"
proof -
  have o: "b \<in> owned x V" and ni: "b \<noteq> i_addrs x ! NDIRECT"
    using file_block_owned [OF bn fb] file_block_not_indirect [OF wf bn fb] by (simp_all add: b_def)
  have "length (upd_seg (off mod BSIZE) bs (V b)) = BSIZE"
    using fs_layoutD(2) [OF lay] len by simp
  note L = fs_layout_other [where V = V and c = b, OF lay _ this, folded V'_def]
  have nb: "\<forall>d < sb_size y. b \<noteq> BBLOCK d y"
    using not_metadata(2) [OF inode_wfD(4) [OF wf o]] by blast
  have sl: "slot x V' k = slot x V k" for k
    using ni by (simp add: slot_def V'_def)
  then have own: "owned x V' = owned x V" and fbs: "file_block x V' n = file_block x V n" for n
    by (simp_all add: owned_def file_block_def)
  have "inode_wf y start x V'"
    using wf L(3) [OF nb] unfolding inode_wf_def own sl by blast
  then show "evolves y start x V x V'"
    using L(1,2) [OF nb] o own sl unfolding evolves_def by (auto simp: V'_def)
  show "file_updated x V x V' off bs"
    unfolding file_updated_def file_byte_def fbs
  proof (intro conjI allI impI)
    fix i assume i: "i < length bs"
    have d: "(off + i) div BSIZE = off div BSIZE" "(off + i) mod BSIZE = off mod BSIZE + i"
      using i len by (simp_all add: block_shift)
    show "file_block x V ((off + i) div BSIZE) \<noteq> 0"
      using fb d by simp
    show "V' (file_block x V ((off + i) div BSIZE)) ! ((off + i) mod BSIZE) = bs ! i"
      using i len fs_layoutD(2) [OF lay, of b] by (simp add: d V'_def nth_upd_seg flip: b_def)
  next
    fix i assume i: "i < MAXFILE * BSIZE" "file_block x V (i div BSIZE) \<noteq> 0" "\<not> (off \<le> i \<and> i < off + length bs)"
    show "V' (file_block x V (i div BSIZE)) ! (i mod BSIZE) = V (file_block x V (i div BSIZE)) ! (i mod BSIZE)"
    proof (cases "i div BSIZE = off div BSIZE")
      case True
      then have "off div BSIZE * BSIZE + i mod BSIZE = i"
        by (metis div_mult_mod_eq)
      then have "i mod BSIZE < off mod BSIZE \<or> off mod BSIZE + length bs \<le> i mod BSIZE"
        using i(3) div_mult_mod_eq [of off BSIZE] by linarith
      then show ?thesis
        using True len fs_layoutD(2) [OF lay, of b] by (auto simp: V'_def nth_upd_seg simp flip: b_def)
    next
      case False
      then have "slot_of (i div BSIZE) \<noteq> slot_of (off div BSIZE)"
        using slot_of_inj by blast
      then have "file_block x V (i div BSIZE) \<noteq> b"
        using inode_wfD(5) [OF wf slot_of_le(1) slot_of_le(1)] div_MAXFILE [OF i(1)] bn i(2)
        by (auto simp: b_def file_block_def)
      then show ?thesis
        by (simp add: V'_def)
    qed
  qed
qed

section \<open>Copying from a source\<close>

text \<open>
  What \<open>either_copyin\<close> takes from its source, as a function of the memory and the page table of the
  process, and the bytes of several pieces one after the other: \<open>None\<close> when one of them cannot be read.
\<close>

fun copy_from :: "u64 \<Rightarrow> uptr \<Rightarrow> nat \<Rightarrow> bmem \<Rightarrow> (int \<times> u8 list) res" where
  "copy_from pde (User va) n m = Inr (copyin pde va n \<lparr>mem = m, freelist = 0, kend = 0\<rparr>)"
| "copy_from pde (Kern a) n m = Inr (0, get_bytes m a n)"
| "copy_from pde (Klocal off xs) n m = (if length xs < off + n then Inl Fault else Inr (0, seg off n xs))"

primrec gather :: "u64 \<Rightarrow> (nat \<times> nat) list \<Rightarrow> uptr \<Rightarrow> bmem \<Rightarrow> u8 list option" where
  "gather pde [] src m = Some []"
| "gather pde (p # ps) src m =
     (case copy_from pde src (snd p) m of Inl h \<Rightarrow> None
      | Inr (r, bs) \<Rightarrow> if r = - 1 then None else map_option ((@) bs) (gather pde ps (uptr_add src (snd p)) m))"

lemma either_copyin_eq: "either_copyin src n s = copy_from (p_pagetable (myproc s)) src n (mem s)"
  using copyin_mem [of s "\<lparr>mem = mem s, freelist = 0, kend = 0\<rparr> :: kmem"] by (cases src) simp_all

lemma gather_Cons:
  assumes "gather pde (p # ps) src m = Some bs"
  obtains r c cs where "copy_from pde src (snd p) m = Inr (r, c)" "r \<noteq> - 1" "length c = snd p"
    "gather pde ps (uptr_add src (snd p)) m = Some cs" "bs = c @ cs"
proof -
  obtain r c cs where 1: "copy_from pde src (snd p) m = Inr (r, c)" "r \<noteq> - 1"
    "gather pde ps (uptr_add src (snd p)) m = Some cs" "bs = c @ cs"
    using assms by (auto split: sum.splits prod.splits if_splits)
  moreover have "length c = snd p"
    using 1(1,2) copyin_result by (cases src) (fastforce split: if_splits)+
  ultimately show thesis
    using that by blast
qed

lemma gather_Klocal:
  "off + sum_list (map snd ps) \<le> length xs \<Longrightarrow> gather pde ps (Klocal off xs) m = Some (seg off (sum_list (map snd ps)) xs)"
proof (induction ps arbitrary: off)
  case (Cons p ps)
  then show ?case
    by (auto simp: seg_def take_add add.commute)
qed (simp add: seg_def)

lemma sum_pieces: "sum_list (map snd (pieces off n)) = n"
proof (induction off n rule: pieces.induct)
  case (1 off n)
  then show ?case
    by (subst pieces.simps) (auto simp: Let_def)
qed

section \<open>Writing\<close>

text \<open>The budget of a write: what the log needs for \<open>p\<close> pieces, and for the inode.\<close>

definition write_budget :: "nat \<Rightarrow> nat" where
  "write_budget p = 6 * p + 2"

lemma wrote_fs:
  "wrote ip s s' \<Longrightarrow> sb s' = sb s" "wrote ip s s' \<Longrightarrow> log_start (thelog s') = log_start (thelog s)"
  "wrote ip s s' \<Longrightarrow> length (inodes s') = length (inodes s)" "wrote ip s s' \<Longrightarrow> myproc s' = myproc s"
  "wrote ip s s' \<Longrightarrow> mem s' = mem s"
  by (simp_all add: wrote_def)

lemma evolves_fs_ok:
  assumes "fs_ok s ip" and "wrote ip s s'"
    and e: "evolves (sb s) (log_start (thelog s)) (inode_at s ip) (bview s) (inode_at s' ip) (bview s')"
  shows "fs_ok s' ip"
proof -
  have "i_dev (inode_at s' ip) = i_dev (inode_at s ip)"
    using e unfolding evolves_def by (metis inode.select_convs(1) inode.surjective inode.update_convs(11))
  then show ?thesis
    using assms wrote_fs [OF assms(2)] by (simp add: evolves_def)
qed

lemma block_end:
  assumes "off div BSIZE < MAXFILE" and "off mod BSIZE + n \<le> BSIZE"
  shows "off + n \<le> MAXFILE * BSIZE"
proof -
  have "Suc (off div BSIZE) * BSIZE \<le> MAXFILE * BSIZE"
    using assms(1) by (intro mult_le_mono1) simp
  moreover have "off div BSIZE * BSIZE + off mod BSIZE = off"
    by simp
  ultimately show ?thesis
    using assms(2) unfolding mult_Suc by linarith
qed

text \<open>One block of a write: the block is found or allocated, and the bytes put into it.\<close>

definition write_done :: "nat \<Rightarrow> nat \<Rightarrow> nat \<Rightarrow> u8 list \<Rightarrow> 'a fstate_scheme \<Rightarrow> 'a fstate_scheme \<Rightarrow> bool" where
  "write_done k ip off bs s s' \<longleftrightarrow>
     evolves (sb s) (log_start (thelog s)) (inode_at s ip) (bview s) (inode_at s' ip) (bview s') \<and>
     file_updated (inode_at s ip) (bview s) (inode_at s' ip) (bview s') off bs \<and>
     fs_op k Map.empty s' \<and> wrote ip s s'"

lemma write_block_ok:
  assumes I: "fs_op (6 + Suc k) Map.empty s" and ok: "fs_ok s ip" and bn: "off div BSIZE < MAXFILE"
    and len: "off mod BSIZE + length c \<le> BSIZE"
  obtains (full) s' where "bmap ip (of_nat (off div BSIZE)) s = Inr (0, s')" "free_blocks (sb s) (bview s') = {}"
      "write_done (Suc k) ip off [] s s'"
  | (put) a b s1 s2 s3 s4 where "bmap ip (of_nat (off div BSIZE)) s = Inr (a, s1)" "a \<noteq> 0"
      "i_dev (inode_at s1 ip) = ROOTDEV" "bread ROOTDEV a s1 = Inr (b, s2)" "myproc s2 = myproc s" "mem s2 = mem s"
      "log_write b (set_data b (upd_seg (off mod BSIZE) c (buf_data b s2)) s2) = Inr s3" "brelse b s3 = Inr s4"
      "write_done (Suc k) ip off c s s4"
proof -
  let ?x = "\<lambda>s. inode_at s ip" and ?y = "sb s" and ?st = "log_start (thelog s)"
  have "fs_op (Suc (Suc (Suc (Suc (Suc (Suc (Suc k))))))) Map.empty s"
    using I by (simp add: eval_nat_numeral)
  then obtain a s1 where 1: "bmap ip (of_nat (off div BSIZE)) s = Inr (a, s1)" "bmap_done (Suc k) ip (off div BSIZE) s a s1"
    by (rule bmap_ok [OF _ ok bn])
  have e1: "evolves ?y ?st (?x s) (bview s) (?x s1) (bview s1)" "same_data (?x s) (bview s) (?x s1) (bview s1)"
    "fs_op (Suc (Suc k)) Map.empty s1" "wrote ip s s1"
    using 1(2) by (simp_all add: bmap_done_def)
  note ok1 = evolves_fs_ok [OF ok e1(4,1)] and w1 = wrote_fs [OF e1(4)]
  show thesis
  proof (cases "a = 0")
    case True
    have "fs_op (Suc k) Map.empty s1"
      by (rule fs_op_less [OF e1(3)]) simp
    then show thesis
      using full [of s1] True 1 e1 file_updated_Nil [OF e1(2)] by (simp add: bmap_done_def write_done_def)
  next
    case False
    have a: "a = file_block (?x s1) (bview s1) (off div BSIZE)"
      using 1(2) False by (simp add: bmap_done_def)
    have lay1: "fs_layout ?y ?st (bview s1)" and wf1: "inode_wf ?y ?st (?x s1) (bview s1)"
      using e1(1) by (simp_all add: evolves_def)
    note W = file_write_block [OF wf1 lay1 bn False [unfolded a] len, folded a]
    have "a \<notin> ran (Map.empty :: nat \<rightharpoonup> u32)"
      by simp
    then obtain b s2 where 2: "bread ROOTDEV a s1 = Inr (b, s2)" "fs_op (Suc k) [b \<mapsto> a] s2"
      "b \<notin> dom (Map.empty :: nat \<rightharpoonup> u32)" "buf_data b s2 = bview s1 a" "bview s2 = bview s1" "txn_step s1 s2"
      by (rule op_bread [OF e1(3)])
    let ?d = "upd_seg (off mod BSIZE) c (buf_data b s2)"
    have ld: "length ?d = BSIZE"
      using fs_layoutD(2) [OF lay1] 2(4) len by simp
    have "\<not> in_log ?st a"
      using not_metadata(3) [OF inode_wfD(4) [OF wf1 file_block_owned [OF bn]]] False a by simp
    then have nl: "\<not> in_log (log_start (thelog s2)) a"
      using txn_step_sel(4) [OF 2(6)] w1 by simp
    obtain s3 where 3: "log_write b (set_data b ?d s2) = Inr s3" "fs_op k [b \<mapsto> a] s3"
      "bview s3 = (bview s2)(a := ?d)" "txn_step s2 s3" "settled a s3"
      by (rule op_log_write [OF 2(2) _ ld nl, of b]) auto
    obtain s4 where 4: "brelse b s3 = Inr s4" "fs_op (Suc k) Map.empty s4" "bview s4 = bview s3" "txn_step s3 s4"
      by (rule op_brelse [OF 3(2) 2(3) 3(5)])
    have t: "txn_step s1 s4"
      by (rule txn_step_trans [OF 2(6) txn_step_trans [OF 3(4) 4(4)]])
    have x4: "?x s4 = ?x s1" "bview s4 = (bview s1)(a := upd_seg (off mod BSIZE) c (bview s1 a))"
      using txn_step_fs(2) [OF t] 4(3) 3(3) 2(4,5) by simp_all
    have "wrote ip s s2"
      by (rule wrote_trans [OF e1(4) wrote_txn_step [OF 2(6) fs_op_inv [OF e1(3)]]])
    moreover have "wrote ip s s4"
      by (rule wrote_trans [OF e1(4) wrote_txn_step [OF t fs_op_inv [OF e1(3)]]])
    moreover have "file_updated (?x s) (bview s) (?x s4) (bview s4) off c"
      using file_updated_append [OF e1(1) W(1) file_updated_Nil [OF e1(2)], of off c] W(2) block_end [OF bn len] x4 by simp
    then have "write_done (Suc k) ip off c s s4"
      using evolves_trans [OF e1(1) W(1)] 4(2) calculation x4 by (simp add: write_done_def)
    ultimately show thesis
      using put [OF 1(1) False _ 2(1) _ _ 3(1) 4(1)] ok1 wrote_fs(4,5) by metis
  qed
qed

lemma write_done_less: "write_done j ip off bs s s' \<Longrightarrow> k \<le> j \<Longrightarrow> write_done k ip off bs s s'"
  using fs_op_less by (auto simp: write_done_def)

lemma write_done_append:
  assumes a: "write_done j ip off bs s s1" and b: "write_done k ip (off + length bs) cs s1 s2"
    and max: "off + length bs + length cs \<le> MAXFILE * BSIZE"
  shows "write_done k ip off (bs @ cs) s s2"
proof -
  have w: "wrote ip s s1"
    using a by (simp add: write_done_def)
  note e = a [unfolded write_done_def] b [unfolded write_done_def wrote_fs(1,2) [OF w]]
  show ?thesis
    using e file_updated_append [OF conjunct1 [OF e(1)] conjunct1 [OF e(2)] _ _ max] evolves_trans wrote_trans
    unfolding write_done_def by blast
qed

lemma length_gather: "gather pde ps src m = Some bs \<Longrightarrow> length bs = sum_list (map snd ps)"
proof (induction ps arbitrary: src bs)
  case (Cons p ps)
  from Cons.prems obtain r c cs where "length c = snd p" "gather pde ps (uptr_add src (snd p)) m = Some cs" "bs = c @ cs"
    by (rule gather_Cons)
  then show ?case
    using Cons.IH by simp
qed simp

lemma writei_loop_ok:
  assumes "gather (p_pagetable (myproc s)) (pieces off rem) src (mem s) = Some bs"
    and "fs_op (6 * length (pieces off rem) + Suc k) Map.empty s" and "fs_ok s ip" and "off + rem \<le> MAXFILE * BSIZE"
  shows "\<exists>d s'. d \<le> rem \<and> writei_loop ip src off rem tot s = Inr (tot + d, off + d, s') \<and>
    write_done (Suc k) ip off (take d bs) s s' \<and> (d = rem \<or> free_blocks (sb s) (bview s') = {})"
  using assms
proof (induction off rem arbitrary: src bs tot s rule: pieces.induct)
  case (1 off rem)
  let ?pde = "p_pagetable (myproc s)"
  show ?case
  proof (cases "rem = 0")
    case True
    have "write_done (Suc k) ip off [] s s"
      using 1(3,4) evolves_refl file_updated_Nil True by (simp add: write_done_def)
    then show ?thesis
      using True 1(2) by (simp add: writei_loop.simps [of ip src off 0])
  next
    case False
    let ?m = "min rem (BSIZE - off mod BSIZE)"
    have ps: "pieces off rem = (off, ?m) # pieces (off + ?m) (rem - ?m)"
      using False by (simp add: pieces.simps [of off rem] Let_def)
    obtain r c cs where c: "copy_from ?pde src ?m (mem s) = Inr (r, c)" "r \<noteq> - 1" "length c = ?m"
      "gather ?pde (pieces (off + ?m) (rem - ?m)) (uptr_add src ?m) (mem s) = Some cs" "bs = c @ cs"
      using gather_Cons [OF 1(2) [unfolded ps]] by auto
    have m: "off mod BSIZE + length c \<le> BSIZE" "off div BSIZE < MAXFILE"
      using mod_less_divisor [OF BSIZE_pos, of off] 1(5) False unfolding c(3) by (linarith, intro div_MAXFILE, linarith)
    have I: "fs_op (6 + Suc (6 * length (pieces (off + ?m) (rem - ?m)) + k)) Map.empty s"
      using 1(3) by (simp add: ps)
    show ?thesis
    proof (rule write_block_ok [OF I 1(4) m(2,1)])
      fix s' :: "'a fstate_scheme"
      assume f: "bmap ip (of_nat (off div BSIZE)) s = Inr (0, s')" "free_blocks (sb s) (bview s') = {}"
        "write_done (Suc (6 * length (pieces (off + ?m) (rem - ?m)) + k)) ip off [] s s'"
      have "writei_loop ip src off rem tot s = Inr (tot + 0, off + 0, s')"
        using False f(1) by (subst writei_loop.simps) simp
      then show ?thesis
        using f(2) write_done_less [OF f(3), of "Suc k"] by (intro exI [of _ 0] exI [of _ s']) simp
    next
      fix a b and s1 s2 s3 s4 :: "'a fstate_scheme"
      assume p: "bmap ip (of_nat (off div BSIZE)) s = Inr (a, s1)" "a \<noteq> 0"
        "i_dev (inode_at s1 ip) = ROOTDEV" "bread ROOTDEV a s1 = Inr (b, s2)" "myproc s2 = myproc s" "mem s2 = mem s"
        "log_write b (set_data b (upd_seg (off mod BSIZE) c (buf_data b s2)) s2) = Inr s3" "brelse b s3 = Inr s4"
        "write_done (Suc (6 * length (pieces (off + ?m) (rem - ?m)) + k)) ip off c s s4"
      have step: "writei_loop ip src off rem tot s = writei_loop ip (uptr_add src ?m) (off + ?m) (rem - ?m) (tot + ?m) s4"
        using False p(1-4,7,8) c(1,2) by (subst writei_loop.simps) (simp add: Let_def either_copyin_eq p(5,6))
      have w: "wrote ip s s4"
        using p(9) by (simp add: write_done_def)
      have ok4: "fs_ok s4 ip"
        using evolves_fs_ok [OF 1(4) w] p(9) by (simp add: write_done_def)
      have I4: "fs_op (6 * length (pieces (off + ?m) (rem - ?m)) + Suc k) Map.empty s4"
        using p(9) by (simp add: write_done_def)
      have g4: "gather (p_pagetable (myproc s4)) (pieces (off + ?m) (rem - ?m)) (uptr_add src ?m) (mem s4) = Some cs"
        using c(4) wrote_fs(4,5) [OF w] by simp
      have e4: "off + ?m + (rem - ?m) \<le> MAXFILE * BSIZE"
        using 1(5) by simp
      obtain d s' where d: "d \<le> rem - ?m"
        "writei_loop ip (uptr_add src ?m) (off + ?m) (rem - ?m) (tot + ?m) s4 = Inr (tot + ?m + d, off + ?m + d, s')"
        "write_done (Suc k) ip (off + ?m) (take d cs) s4 s'" "d = rem - ?m \<or> free_blocks (sb s4) (bview s') = {}"
        using 1(1) [OF False refl g4 I4 ok4 e4] by blast
      have "off + length c + length (take d cs) \<le> MAXFILE * BSIZE"
        using c(3) d(1) e4 by simp
      then have "write_done (Suc k) ip off (take (?m + d) bs) s s'"
        using write_done_append [OF p(9), of "Suc k" "take d cs" s'] d(3) c(3,5) by simp
      then show ?thesis
        using step d(1,2,4) wrote_fs(1) [OF w] by (intro exI [of _ "?m + d"] exI [of _ s']) auto
    qed
  qed
qed

text \<open>A change to one of the file system's own blocks leaves the inode's blocks and their bytes alone.\<close>

lemma metadata_write:
  assumes wf: "inode_wf y start x V" and c: "metadata y start c" and V: "\<forall>b. b \<noteq> c \<longrightarrow> V' b = V b"
    and x: "i_addrs x' = i_addrs x"
  shows "slot x' V' = slot x V" and "file_block x' V' = file_block x V"
    and "i < MAXFILE * BSIZE \<Longrightarrow> file_block x V (i div BSIZE) \<noteq> 0 \<Longrightarrow> file_byte x' V' i = file_byte x V i"
proof -
  have o: "V' b = V b" if "b \<in> owned x V" for b
    using V inode_wfD(4) [OF wf that] c by metis
  show s: "slot x' V' = slot x V"
    using indirect_owned(1) [of x V] o by (auto simp: slot_def x fun_eq_iff)
  then show fb: "file_block x' V' = file_block x V"
    by (simp add: file_block_def fun_eq_iff)
  show "file_byte x' V' i = file_byte x V i" if "i < MAXFILE * BSIZE" "file_block x V (i div BSIZE) \<noteq> 0"
    using o [OF file_block_owned [OF div_MAXFILE [OF that(1)] that(2)]] by (simp add: file_byte_def fb)
qed

text \<open>
  \<open>written ip off bs s s'\<close>: the file of the inode in slot \<open>ip\<close> has \<open>bs\<close> from \<open>off\<close> on, in memory and on
  the disk the inode has the new size and blocks, and every other inode on the disk, every block of
  another file and every other inode of the table is as it was.
\<close>

definition written :: "nat \<Rightarrow> nat \<Rightarrow> u8 list \<Rightarrow> 'a fstate_scheme \<Rightarrow> 'a fstate_scheme \<Rightarrow> bool" where
  "written ip off bs s s' \<longleftrightarrow>
     (let x = inode_at s ip; x' = inode_at s' ip; y = sb s; start = log_start (thelog s) in
      x' = x\<lparr>i_addrs := i_addrs x', i_size := i_size x'\<rparr> \<and>
      unat (i_size x') = max (unat (i_size x)) (off + length bs) \<and>
      file_updated x (bview s) x' (bview s') off bs \<and>
      (\<forall>k\<le>MAXFILE. slot x (bview s) k \<noteq> 0 \<longrightarrow> slot x' (bview s') k = slot x (bview s) k) \<and>
      inode_wf y start x' (bview s') \<and> fs_layout y start (bview s') \<and>
      (\<forall>j < sb_ninodes y. disk_inode y (bview s') j = (if j = i_inum x then dinode_of x' else disk_inode y (bview s) j)) \<and>
      (\<forall>c. c \<notin> free_blocks y (bview s) \<and> c \<notin> owned x (bview s) \<and> \<not> metadata y start c \<longrightarrow> bview s' c = bview s c) \<and>
      wrote ip s s')"

lemma disk_inode_cong: "V (IBLOCK j y) = V' (IBLOCK j y) \<Longrightarrow> disk_inode y V j = disk_inode y V' j"
  by (simp add: disk_inode_def)

lemma evolves_disk_inode:
  assumes "evolves y start x V x' V'" and "inode_wf y start x V" and lay: "fs_layout y start V" and j: "j < sb_ninodes y"
  shows "disk_inode y V' j = disk_inode y V j"
proof -
  have m: "metadata y start (IBLOCK j y)"
    using j by (auto simp: metadata_def)
  then have "IBLOCK j y \<notin> free_blocks y V" "IBLOCK j y \<notin> owned x V" "\<forall>d < sb_size y. IBLOCK j y \<noteq> BBLOCK d y"
    using fs_layoutD(7,9) [OF lay] inode_wfD(4) [OF assms(2)] j by (auto simp: free_blocks_def)
  then show ?thesis
    using assms(1) unfolding evolves_def by (intro disk_inode_cong) blast
qed

lemma file_updated_byte:
  assumes e: "evolves y start x V x1 V1" and u: "file_updated x V x1 V1 off bs"
  shows "i < length bs \<Longrightarrow> file_block x1 V1 ((off + i) div BSIZE) \<noteq> 0 \<and> file_byte x1 V1 (off + i) = bs ! i"
    and "i < MAXFILE * BSIZE \<Longrightarrow> file_block x V (i div BSIZE) \<noteq> 0 \<Longrightarrow> \<not> (off \<le> i \<and> i < off + length bs) \<Longrightarrow>
      file_block x1 V1 (i div BSIZE) \<noteq> 0 \<and> file_byte x1 V1 i = file_byte x V i"
  using u evolves_file_block [OF e div_MAXFILE] unfolding file_updated_def by auto

text \<open>The end of \<open>writei\<close>: the new size, and the inode on the disk.\<close>

definition grow_to :: "nat \<Rightarrow> nat \<Rightarrow> 'a fstate_scheme \<Rightarrow> 'a fstate_scheme" where
  "grow_to ip e s = (if i_size (inode_at s ip) < of_nat e then upd_inode ip (\<lambda>x. x\<lparr>i_size := of_nat e\<rparr>) s else s)"

lemma MAXFILE_bytes: "MAXFILE * BSIZE < 2 ^ 32"
  by (simp add: NDIRECT_val BSIZE_def)

lemma grow_to_inode:
  assumes "ip < length (inodes s)" and "e \<le> MAXFILE * BSIZE"
  shows "inode_at (grow_to ip e s) ip = (inode_at s ip)\<lparr>i_size := i_size (inode_at (grow_to ip e s) ip)\<rparr>"
    and "unat (i_size (inode_at (grow_to ip e s) ip)) = max (unat (i_size (inode_at s ip))) e"
proof -
  have "unat (of_nat e :: u32) = e"
    using assms(2) MAXFILE_bytes by (intro unat_of_nat_lt) simp
  then show "unat (i_size (inode_at (grow_to ip e s) ip)) = max (unat (i_size (inode_at s ip))) e"
    using assms(1) by (auto simp: grow_to_def word_less_nat_alt)
  show "inode_at (grow_to ip e s) ip = (inode_at s ip)\<lparr>i_size := i_size (inode_at (grow_to ip e s) ip)\<rparr>"
    using assms(1) by (simp add: grow_to_def)
qed

lemma grow_to_frame [simp]:
  "bview (grow_to ip e s) = bview s" "sb (grow_to ip e s) = sb s" "thelog (grow_to ip e s) = thelog s"
  "wrote ip s (grow_to ip e s)" "fs_op k H (grow_to ip e s) = fs_op k H s"
  by (simp_all add: grow_to_def)

lemma write_inode_ok:
  assumes d: "write_done (Suc 1) ip off bs s s1" and ok: "fs_ok s ip" and num: "i_inum (inode_at s ip) < sb_ninodes (sb s)"
    and max: "off + length bs \<le> MAXFILE * BSIZE"
  obtains s' where "iupdate ip (grow_to ip (off + length bs) s1) = Inr s'" "written ip off bs s s'" "fs_op 1 Map.empty s'"
    "free_blocks (sb s) (bview s') = free_blocks (sb s) (bview s1)"
proof -
  let ?x = "inode_at s ip" and ?V = "bview s" and ?y = "sb s" and ?st = "log_start (thelog s)"
  let ?s = "grow_to ip (off + length bs) s1"
  let ?x' = "inode_at ?s ip" and ?B = "IBLOCK (i_inum (inode_at s ip)) (sb s)"
  have e: "evolves ?y ?st ?x ?V (inode_at s1 ip) (bview s1)" "file_updated ?x ?V (inode_at s1 ip) (bview s1) off bs"
    "fs_op (Suc (Suc 0)) Map.empty s1" "wrote ip s s1"
    using d by (simp_all add: write_done_def)
  note w = wrote_fs(1,2) [OF e(4)]
  have ip: "ip < length (inodes s1)" and lay: "fs_layout ?y ?st ?V" and wf: "inode_wf ?y ?st ?x ?V"
    using ok wrote_fs(3) [OF e(4)] by simp_all
  note g = grow_to_inode [OF ip max]
  have x1: "inode_at s1 ip = ?x\<lparr>i_addrs := i_addrs (inode_at s1 ip)\<rparr>" "inode_wf ?y ?st (inode_at s1 ip) (bview s1)"
    "fs_layout ?y ?st (bview s1)"
    using e(1) by (simp_all add: evolves_def)
  have x': "?x' = ?x\<lparr>i_addrs := i_addrs (inode_at s1 ip), i_size := i_size ?x'\<rparr>"
    using g(1) x1(1) by (metis inode.surjective inode.update_convs(10,11))
  have f: "i_inum ?x' = i_inum ?x" "i_dev ?x' = ROOTDEV" "i_addrs ?x' = i_addrs (inode_at s1 ip)"
      "i_size (inode_at s1 ip) = i_size ?x"
    using ok by (subst x', simp)+ (subst x1(1), simp)
  have "?B \<notin> ran (Map.empty :: nat \<rightharpoonup> u32)" "\<not> in_log ?st ?B" "length (i_addrs ?x') = NDIRECT + 1"
    using fs_layoutD(8) [OF lay num] inode_wfD(1) [OF x1(2)] f by simp_all
  then obtain s' where s': "iupdate ip ?s = Inr s'" "fs_op (Suc 0) Map.empty s'" "txn_step ?s s'"
    "\<forall>b. b \<noteq> ?B \<longrightarrow> bview s' b = bview ?s b"
    "\<forall>j. disk_inode ?y (bview s') j = (if j = i_inum ?x then dinode_of ?x' else disk_inode ?y (bview ?s) j)"
    using iupdate_ok [of 0 Map.empty ?s ip] e(3) f(1,2) w by (auto cong: if_cong)
  note m = metadata_write [OF x1(2) _ s'(4) [unfolded grow_to_frame(1)] f(3)]
  have B: "metadata ?y ?st ?B" "\<forall>d < sb_size ?y. ?B \<noteq> BBLOCK d ?y"
    using num fs_layoutD(9) [OF lay num] by (auto simp: metadata_def)
  have xs: "inode_at s' ip = ?x'"
    using txn_step_fs(2) [OF s'(3)] by simp
  have V': "bview s' = (bview s1)(?B := bview s' ?B)"
    using s'(4) by (auto simp: fun_eq_iff)
  note L = fs_layout_other [where V = "bview s1" and c = ?B and e = "bview s' ?B", OF x1(3) B(2)
      length_bview_inv [OF fs_op_inv [OF s'(2)]], folded V']
  have wf': "inode_wf ?y ?st ?x' (bview s')"
    using x1(2) L(3) m(1) [OF B(1)] f(3) unfolding inode_wf_def owned_def by auto
  have up: "file_updated ?x ?V ?x' (bview s') off bs"
    using file_updated_byte [OF e(1,2)] m(2,3) [OF B(1)] max unfolding file_updated_def by auto
  have other: "bview s' c = ?V c" if "c \<notin> free_blocks ?y ?V" "c \<notin> owned ?x ?V" "\<not> metadata ?y ?st c" for c
  proof -
    have "c \<noteq> ?B" "\<forall>d < sb_size ?y. c \<noteq> BBLOCK d ?y"
      using that(3) B(1) not_metadata(2) by blast+
    then show ?thesis
      using e(1) s'(4) that(1,2) unfolding evolves_def by simp
  qed
  have sl: "\<forall>k\<le>MAXFILE. slot ?x ?V k \<noteq> 0 \<longrightarrow> slot ?x' (bview s') k = slot ?x ?V k"
    using e(1) m(1) [OF B(1)] by (simp add: evolves_def)
  have wr: "wrote ip s s'"
    using e(3) by (intro wrote_trans [OF e(4) wrote_trans [OF grow_to_frame(4) wrote_txn_step [OF s'(3)]]] fs_op_inv) simp
  have "written ip off bs s s'"
    unfolding written_def Let_def xs
    using x' [folded f(3)] g(2) [unfolded f(4)] up sl wf' L(1) other wr s'(5) evolves_disk_inode [OF e(1) wf lay] by simp
  then show thesis
    using that [OF s'(1)] s'(2) L(2) by simp
qed

lemma writei_ok:
  assumes g: "gather (p_pagetable (myproc s)) (pieces (unat off) (unat n)) src (mem s) = Some bs"
    and I: "fs_op (write_budget (length (pieces (unat off) (unat n)))) Map.empty s" and ok: "fs_ok s ip"
    and num: "i_inum (inode_at s ip) < sb_ninodes (sb s)"
    and off: "off \<le> i_size (inode_at s ip)" and max: "unat off + unat n \<le> MAXFILE * BSIZE"
  shows "\<exists>d s'. d \<le> unat n \<and> writei ip src off n s = Inr (int d, s') \<and> written ip (unat off) (take d bs) s s' \<and>
    fs_op 1 Map.empty s' \<and> (d = unat n \<or> free_blocks (sb s) (bview s') = {})"
proof -
  have u: "unat (off + n) = unat off + unat n"
    using max MAXFILE_bytes by (simp add: unat_word_ariths)
  then have guards: "\<not> (i_size (inode_at s ip) < off \<or> off + n < off)" "\<not> of_nat (MAXFILE * BSIZE) < off + n"
    using off max by (auto simp: word_less_nat_alt word_le_nat_alt NDIRECT_val BSIZE_def)
  have "fs_op (6 * length (pieces (unat off) (unat n)) + Suc 1) Map.empty s"
    using I by (simp add: write_budget_def)
  then obtain d s1 where 1: "d \<le> unat n" "writei_loop ip src (unat off) (unat n) 0 s = Inr (0 + d, unat off + d, s1)"
    "write_done (Suc 1) ip (unat off) (take d bs) s s1" "d = unat n \<or> free_blocks (sb s) (bview s1) = {}"
    using writei_loop_ok [OF g _ ok max, of 1 0] by blast
  have ld: "length (take d bs) = d"
    using 1(1) length_gather [OF g] by (simp add: sum_pieces)
  have m: "unat off + length (take d bs) \<le> MAXFILE * BSIZE"
    using 1(1) max ld by simp
  obtain s' where 2: "iupdate ip (grow_to ip (unat off + d) s1) = Inr s'" "written ip (unat off) (take d bs) s s'"
    "fs_op 1 Map.empty s'" "free_blocks (sb s) (bview s') = free_blocks (sb s) (bview s1)"
    using write_inode_ok [OF 1(3) ok num m] unfolding ld by blast
  have "writei ip src off n s = Inr (int d, s')"
    using guards 1(2) 2(1) unfolding writei_def by (simp add: Let_def flip: grow_to_def)
  then show ?thesis
    using 1(1,4) 2(2-4) by auto
qed

text \<open>A file without holes stays one, and what was written is there to be read.\<close>

lemma written_bytes:
  assumes w: "written ip off bs s s'" and m: "mapped_to (inode_at s ip) (bview s) (unat (i_size (inode_at s ip)))"
    and off: "off \<le> unat (i_size (inode_at s ip))" and max: "off + length bs \<le> MAXFILE * BSIZE" and ok: "fs_ok s ip"
  shows "mapped_to (inode_at s' ip) (bview s') (unat (i_size (inode_at s' ip)))"
    and "file_bytes (inode_at s' ip) (bview s') off (length bs) = bs"
proof -
  let ?x = "inode_at s ip" and ?x' = "inode_at s' ip" and ?V = "bview s" and ?V' = "bview s'"
  have u: "file_updated ?x ?V ?x' ?V' off bs" and sz: "unat (i_size ?x') = max (unat (i_size ?x)) (off + length bs)"
    using w by (simp_all add: written_def Let_def)
  show "file_bytes ?x' ?V' off (length bs) = bs"
    by (rule nth_equalityI) (use u in \<open>simp_all add: file_updated_def file_bytes_def\<close>)
  have keep: "file_block ?x ?V bn \<noteq> 0 \<Longrightarrow> bn < MAXFILE \<Longrightarrow> file_block ?x' ?V' bn = file_block ?x ?V bn" for bn
    using w slot_of_le(1) by (simp add: written_def Let_def file_block_def)
  show "mapped_to ?x' ?V' (unat (i_size ?x'))"
    unfolding mapped_to_def sz
  proof (intro allI impI)
    fix bn assume bn: "bn * BSIZE < max (unat (i_size ?x)) (off + length bs)"
    show "bn < MAXFILE \<and> file_block ?x' ?V' bn \<noteq> 0"
    proof (cases "bn * BSIZE < unat (i_size ?x)")
      case True
      then show ?thesis
        using m keep by (auto simp: mapped_to_def)
    next
      case False
      let ?i = "bn * BSIZE - off"
      have "off + ?i = bn * BSIZE" "?i < length bs"
        using False bn off by auto
      moreover from this have "bn * BSIZE < MAXFILE * BSIZE"
        using max by linarith
      ultimately show ?thesis
        using u unfolding file_updated_def by (metis BSIZE_pos mult_less_cancel2 nonzero_mult_div_cancel_right less_numeral_extra(3))
    qed
  qed
qed

section \<open>Properties\<close>

text \<open>
  Property C26. Writing a file. In an operation with room in the log, on a well-formed inode of a
  well-formed file system, \<open>writei\<close> of bytes that can be read, from an offset within the file and up to
  the largest file size, writes all of them, or as many as there are blocks for: the file then has those
  bytes from \<open>off\<close> on and its other bytes as before, its size grows to the end of the write if need be,
  the inode is on the disk, and no block of another file, no other inode and nothing of the layout of
  the file system has changed. Otherwise it returns -1 and changes nothing.
\<close>

theorem writei_correct:
  assumes "gather (p_pagetable (myproc s)) (pieces (unat off) (unat n)) src (mem s) = Some bs"
    and "fs_op (write_budget (length (pieces (unat off) (unat n)))) Map.empty s" and "fs_ok s ip"
    and "i_inum (inode_at s ip) < sb_ninodes (sb s)"
  shows "if i_size (inode_at s ip) < off \<or> MAXFILE * BSIZE < unat off + unat n then writei ip src off n s = Inr (- 1, s)
    else \<exists>d s'. d \<le> unat n \<and> writei ip src off n s = Inr (int d, s') \<and> written ip (unat off) (take d bs) s s' \<and>
      fs_op 1 Map.empty s' \<and> (d = unat n \<or> free_blocks (sb s) (bview s') = {})"
proof (cases "i_size (inode_at s ip) < off \<or> MAXFILE * BSIZE < unat off + unat n")
  case True
  have "of_nat (MAXFILE * BSIZE) < off + n" if "MAXFILE * BSIZE < unat off + unat n" "\<not> off + n < off"
    using that unat_add_no_wrap [OF that(2)] MAXFILE_bytes by (simp add: word_less_nat_alt NDIRECT_val BSIZE_def)
  then show ?thesis
    unfolding if_P [OF True] using True by (auto simp: writei_def)
next
  case False
  then show ?thesis
    unfolding if_not_P [OF False] by (intro writei_ok [OF assms]) auto
qed

text \<open>Three bytes for an empty file, inode 7 of the example file system.\<close>

lemma empty_file_wf: "inode_wf y start (x\<lparr>i_addrs := replicate 13 0\<rparr>) V"
  by (auto simp: inode_wf_def owned_def slot_def NDIRECT_val)

lemma write_example:
  obtains s :: fstate where "gather (p_pagetable (myproc s)) (pieces (unat (0 :: u32)) (unat (3 :: u32))) (Klocal 0 [1, 2, 3]) (mem s) = Some [1, 2, 3]"
    "fs_op (write_budget (length (pieces (unat (0 :: u32)) (unat (3 :: u32))))) Map.empty s" "fs_ok s 0"
    "i_inum (inode_at s 0) < sb_ninodes (sb s)" "i_size (inode_at s 0) = 0"
proof -
  obtain s :: fstate where s: "fs_op 20 Map.empty s" "sb s = example_sb" "log_start (thelog s) = 2"
    "fs_layout example_sb 2 (bview s)" "inodes s = replicate NINODE bss_inode"
    by (rule fs_boot_example)
  let ?x = "bss_inode\<lparr>i_dev := ROOTDEV, i_inum := 7, i_ref := 1, i_valid := True, i_addrs := replicate 13 0\<rparr>"
  let ?s = "upd_inode 0 (\<lambda>_. ?x) s"
  have x: "inode_at ?s 0 = ?x"
    using s(5) by (simp add: NINODE_def)
  have p: "pieces (unat (0 :: u32)) (unat (3 :: u32)) = [(0, 3)]"
    by (simp add: pieces_one BSIZE_def)
  have "fs_op (write_budget 1) Map.empty ?s"
    using fs_op_less [OF s(1)] by (simp add: write_budget_def)
  moreover have "fs_ok ?s 0"
    using s(2-5) empty_file_wf [of example_sb 2 ?x "bview s"] unfolding x by (simp add: NINODE_def)
  moreover have "i_inum (inode_at ?s 0) < sb_ninodes (sb ?s)"
    using s(2) unfolding x by (simp add: example_sb_def mkfs_sb_def)
  ultimately show thesis
    using that [of ?s] unfolding x p by (simp add: seg_def bss_inode_def)
qed

theorem writei_correct_witness:
  "\<exists>(s :: fstate) d s'. d \<le> 3 \<and> writei 0 (Klocal 0 [1, 2, 3]) 0 3 s = Inr (int d, s') \<and>
    written 0 0 (take d [1, 2, 3]) s s'"
proof -
  obtain s :: fstate where s: "gather (p_pagetable (myproc s)) (pieces (unat (0 :: u32)) (unat (3 :: u32))) (Klocal 0 [1, 2, 3]) (mem s) = Some [1, 2, 3]"
    "fs_op (write_budget (length (pieces (unat (0 :: u32)) (unat (3 :: u32))))) Map.empty s" "fs_ok s 0"
    "i_inum (inode_at s 0) < sb_ninodes (sb s)" "i_size (inode_at s 0) = 0"
    by (rule write_example)
  have g: "\<not> (i_size (inode_at s 0) < 0 \<or> MAXFILE * BSIZE < unat (0 :: u32) + unat (3 :: u32))"
    by (simp add: NDIRECT_val BSIZE_def)
  show ?thesis
    using writei_correct [OF s(1-4)] unfolding if_not_P [OF g] by - (rule exI [of _ s], auto)
qed

text \<open>
  Property C27. Writing and reading back. After such a write to a file without holes, \<open>readi\<close> at the
  same offset into a variable of the kernel gets the very bytes that were written.
\<close>

theorem writei_readi_roundtrip:
  assumes "gather (p_pagetable (myproc s)) (pieces (unat off) (unat n)) src (mem s) = Some bs"
    and "fs_op (write_budget (length (pieces (unat off) (unat n)))) Map.empty s" and "fs_ok s ip"
    and "i_inum (inode_at s ip) < sb_ninodes (sb s)"
    and "mapped_to (inode_at s ip) (bview s) (unat (i_size (inode_at s ip)))"
    and "off \<le> i_size (inode_at s ip)" and "unat off + unat n \<le> MAXFILE * BSIZE" and "unat n \<le> length xs"
  shows "\<exists>d s' s''. d \<le> unat n \<and> writei ip src off n s = Inr (int d, s') \<and>
    readi ip (Klocal 0 xs) off (of_nat d) s' = Inr (int d, Klocal d (take d bs @ drop d xs), s'') \<and>
    (d = unat n \<or> free_blocks (sb s) (bview s') = {})"
proof -
  obtain d s' where 1: "d \<le> unat n" "writei ip src off n s = Inr (int d, s')" "written ip (unat off) (take d bs) s s'"
    "fs_op 1 Map.empty s'" "d = unat n \<or> free_blocks (sb s) (bview s') = {}"
    using writei_ok [OF assms(1-4,6,7)] by blast
  have ld: "length (take d bs) = d"
    using 1(1) length_gather [OF assms(1)] by (simp add: sum_pieces)
  have max: "unat off + length (take d bs) \<le> MAXFILE * BSIZE"
    using 1(1) assms(7) ld by simp
  have o: "unat off \<le> unat (i_size (inode_at s ip))"
    using assms(6) by (simp add: word_le_nat_alt)
  note w = written_bytes [OF 1(3) assms(5) o max assms(3)]
  have d: "unat (of_nat d :: u32) = d"
    using 1(1) by (metis le_unat_uoi)
  have sz: "unat (i_size (inode_at s' ip)) = max (unat (i_size (inode_at s ip))) (unat off + d)"
    "i_dev (inode_at s' ip) = ROOTDEV"
    using 1(3) assms(3) ld unfolding written_def Let_def
    by (simp, metis inode.select_convs(1) inode.surjective inode.update_convs(10,11))
  have rc: "read_count (inode_at s' ip) off (of_nat d) = d"
    using sz(1) o d max ld MAXFILE_bytes by (auto simp: read_count_def word_less_nat_alt unat_word_ariths)
  obtain s'' where "readi ip (Klocal 0 xs) off (of_nat d) s' = Inr (int d, Klocal d (take d bs @ drop d xs), s'')"
    using readi_Klocal [OF fs_op_inv [OF 1(4)] fs_op_room [OF 1(4)] sz(2) w(1), of "of_nat d" xs off]
      1(1) assms(8) d w(2) unfolding rc ld by auto
  then show ?thesis
    using 1 by blast
qed

theorem writei_readi_roundtrip_witness:
  "\<exists>(s :: fstate) d s' s''. d \<le> 3 \<and> writei 0 (Klocal 0 [1, 2, 3]) 0 3 s = Inr (int d, s') \<and>
    readi 0 (Klocal 0 [0, 0, 0]) 0 (of_nat d) s' = Inr (int d, Klocal d (take d [1, 2, 3] @ drop d [0, 0, 0]), s'')"
proof -
  obtain s :: fstate where s: "gather (p_pagetable (myproc s)) (pieces (unat (0 :: u32)) (unat (3 :: u32))) (Klocal 0 [1, 2, 3]) (mem s) = Some [1, 2, 3]"
    "fs_op (write_budget (length (pieces (unat (0 :: u32)) (unat (3 :: u32))))) Map.empty s" "fs_ok s 0"
    "i_inum (inode_at s 0) < sb_ninodes (sb s)" "i_size (inode_at s 0) = 0"
    by (rule write_example)
  have m: "mapped_to (inode_at s 0) (bview s) (unat (i_size (inode_at s 0)))" "0 \<le> i_size (inode_at s 0)"
    "unat (0 :: u32) + unat (3 :: u32) \<le> MAXFILE * BSIZE" "unat (3 :: u32) \<le> length [0, 0, 0 :: u8]"
    by (simp_all add: s(5) mapped_to_def NDIRECT_val BSIZE_def)
  show ?thesis
    using writei_readi_roundtrip [OF s(1-4) m] by - (rule exI [of _ s], auto)
qed

end
