(* ===== verification/Ulib.thy ===== *)
theory Ulib
  imports Printf
begin

text \<open>
  The library of the user programs: the strings and memory of \<open>user/ulib.c\<close> and the formatted output
  of \<open>user/printf.c\<close>. A character array is the list of its bytes; a string in it ends at its first NUL,
  and reading or writing past the end of the array is \<^term>\<open>Fault\<close>. Names that the kernel's theories
  use already have the suffix \<open>_u\<close>.
\<close>

section \<open>Strings and memory\<close>

text \<open>\<open>strcpy(s, t)\<close>: what the array at \<open>s\<close> holds afterwards.\<close>

fun strcpy_u :: "u8 list \<Rightarrow> u8 list \<Rightarrow> u8 list res" where
  "strcpy_u (x # s) (c # t) = (if c = 0 then Inr (0 # s) else bindE (strcpy_u s t) (\<lambda>s. Inr (c # s)))"
| "strcpy_u _ _ = Inl Fault"

fun strcmp_u :: "u8 list \<Rightarrow> u8 list \<Rightarrow> int res" where
  "strcmp_u (p # ps) (q # qs) =
     (if p \<noteq> 0 \<and> p = q then strcmp_u ps qs else Inr (uint p - uint q))"
| "strcmp_u _ _ = Inl Fault"

primrec strlen_u :: "u8 list \<Rightarrow> nat res" where
  "strlen_u [] = Inl Fault"
| "strlen_u (c # s) = (if c = 0 then Inr 0 else bindE (strlen_u s) (\<lambda>n. Inr (Suc n)))"

text \<open>\<open>strchr\<close>: the index of the character, \<^term>\<open>None\<close> for NULL.\<close>

primrec strchr_u :: "u8 list \<Rightarrow> u8 \<Rightarrow> nat option res" where
  "strchr_u [] c = Inl Fault"
| "strchr_u (x # s) c =
     (if x = 0 then Inr None else if x = c then Inr (Some 0)
      else bindE (strchr_u s c) (\<lambda>i. Inr (map_option Suc i)))"

definition memset_u :: "bmem \<Rightarrow> u64 \<Rightarrow> u8 \<Rightarrow> nat \<Rightarrow> bmem" where
  "memset_u m dst c n = memset m dst c n"

text \<open>\<open>memmove\<close>, whose count is an \<open>int\<close>: the loops do not run for a negative one.\<close>

definition memmove_u :: "bmem \<Rightarrow> u64 \<Rightarrow> u64 \<Rightarrow> int \<Rightarrow> bmem" where
  "memmove_u m dst src n =
     (if dst < src then copy_up (nat n) m dst src
      else copy_down (nat n) m (dst + word_of_int n) (src + word_of_int n))"

text \<open>
  \<open>n = n * 10 + *s++ - '0'\<close> in \<open>atoi\<close> is arithmetic of signed \<open>int\<close>: an overflow is undefined.
\<close>

definition as_int :: "int \<Rightarrow> int res" where
  "as_int n = (if - (2 ^ 31) \<le> n \<and> n < 2 ^ 31 then Inr n else Inl Fault)"

primrec atoi_loop :: "int \<Rightarrow> u8 list \<Rightarrow> int res" where
  "atoi_loop n [] = Inl Fault"
| "atoi_loop n (c # s) =
     (if 48 \<le> c \<and> c \<le> 57
      then bindE (bindE (as_int (n * 10)) (\<lambda>n. as_int (n + uint c))) (\<lambda>n. atoi_loop (n - 48) s)
      else Inr n)"

definition atoi :: "u8 list \<Rightarrow> int res" where
  "atoi s = atoi_loop 0 s"

section \<open>Input\<close>

text \<open>
  What \<open>read\<close> delivers of an input \<open>inp\<close> of which \<open>pos\<close> bytes have been read: at most the \<open>n\<close> bytes asked
  for, and at least one unless none are asked for or the input has ended. How many it is is up to the
  kernel; \<open>k\<close> stands for its choice.
\<close>

definition read_some :: "(nat \<Rightarrow> nat) \<Rightarrow> u8 list \<Rightarrow> nat \<Rightarrow> nat \<Rightarrow> u8 list" where
  "read_some k inp pos n = take (min n (Suc (k pos))) (drop pos inp)"

text \<open>
  \<open>gets(buf, max)\<close>: the array afterwards and what is left of the input. Every \<open>read\<close> asks for one byte.
\<close>

function gets_loop :: "nat \<Rightarrow> u8 list \<Rightarrow> u8 list \<Rightarrow> nat \<Rightarrow> (u8 list \<times> u8 list) res" where
  "gets_loop mx inp buf i =
     (if Suc i < mx then
        (case inp of [] \<Rightarrow> if i < length buf then Inr (buf[i := 0], []) else Inl Fault
         | c # inp \<Rightarrow>
             if length buf \<le> i then Inl Fault
             else if c = 10 \<or> c = 13
             then (if Suc i < length buf then Inr (buf[i := c, Suc i := 0], inp) else Inl Fault)
             else gets_loop mx inp (buf[i := c]) (Suc i))
      else if i < length buf then Inr (buf[i := 0], inp) else Inl Fault)"
  by pat_completeness auto

termination gets_loop
  by (relation "measure (\<lambda>(mx, inp, buf, i). mx - i)") auto

declare gets_loop.simps [simp del]

definition gets :: "u8 list \<Rightarrow> nat \<Rightarrow> u8 list \<Rightarrow> (u8 list \<times> u8 list) res" where
  "gets buf mx inp = gets_loop mx inp buf 0"

text \<open>\<open>stat\<close>, on the system calls that it makes.\<close>

definition stat_u ::
  "('n \<Rightarrow> 'w \<Rightarrow> int \<times> 'w) \<Rightarrow> (int \<Rightarrow> 'w \<Rightarrow> int \<times> 'st \<times> 'w) \<Rightarrow> (int \<Rightarrow> 'w \<Rightarrow> 'w) \<Rightarrow>
   'n \<Rightarrow> 'st \<Rightarrow> 'w \<Rightarrow> int \<times> 'st \<times> 'w" where
  "stat_u sys_open sys_fstat sys_close n st w =
     (let (fd, w) = sys_open n w in
      if fd < 0 then (- 1, st, w)
      else (let (r, st, w) = sys_fstat fd w in (r, st, sys_close fd w)))"

section \<open>Formatted output\<close>

text \<open>
  The routines return the characters that they pass to \<open>putc\<close>. \<open>printint\<close> takes an \<open>int\<close> and prints an
  \<open>uint\<close>; the largest has ten digits, so that they fit in \<open>buf[16]\<close>. The negation of the smallest \<open>int\<close>
  is undefined.
\<close>

definition printint_u :: "u32 \<Rightarrow> nat \<Rightarrow> bool \<Rightarrow> u8 list res" where
  "printint_u xx base sign =
     (if sign \<and> sint xx < 0 then
        (if sint xx = - (2 ^ 31) then Inl Fault else Inr (45 # rev (printint_loop base (unat (- xx)))))
      else Inr (rev (printint_loop base (unat xx))))"

primrec printptr_loop :: "nat \<Rightarrow> u64 \<Rightarrow> u8 list" where
  "printptr_loop 0 x = []"
| "printptr_loop (Suc i) x = digit (unat (drop_bit 60 x)) # printptr_loop i (push_bit 4 x)"

definition printptr :: "u64 \<Rightarrow> u8 list" where
  "printptr x = [48, 120] @ printptr_loop 16 x"

text \<open>The conversion after a \<open>%\<close>. \<open>%l\<close> passes an \<open>uint64\<close> to a parameter of type \<open>int\<close>.\<close>

definition vprintf_conv_u :: "u8 \<Rightarrow> vararg list \<Rightarrow> (u8 list \<times> vararg list) res" where
  "vprintf_conv_u c ap =
     (if c = 100 then bindE (va_int64 ap) (\<lambda>(x, ap).
        bindE (printint_u (ucast x) 10 True) (\<lambda>out. Inr (out, ap)))
      else if c = 108 then bindE (va_int64 ap) (\<lambda>(x, ap).
        bindE (printint_u (ucast x) 10 False) (\<lambda>out. Inr (out, ap)))
      else if c = 120 then bindE (va_int64 ap) (\<lambda>(x, ap).
        bindE (printint_u (ucast x) 16 False) (\<lambda>out. Inr (out, ap)))
      else if c = 112 then bindE (va_int64 ap) (\<lambda>(x, ap). Inr (printptr x, ap))
      else if c = 115 then
        bindE (va_str ap) (\<lambda>(x, ap).
          Inr (case x of None \<Rightarrow> null_text | Some s \<Rightarrow> takeWhile (\<lambda>c. c \<noteq> 0) s, ap))
      else if c = 99 then bindE (va_int64 ap) (\<lambda>(x, ap). Inr ([ucast x], ap))
      else if c = 37 then Inr ([37], ap)
      else Inr ([37, c], ap))"

text \<open>The loop over the format, with \<open>state\<close> telling whether the last character was a \<open>%\<close>.\<close>

primrec vprintf_u :: "bool \<Rightarrow> u8 list \<Rightarrow> vararg list \<Rightarrow> u8 list res" where
  "vprintf_u state [] ap = Inr []"
| "vprintf_u state (c # fmt) ap =
     (if \<not> state then
        (if c = 37 then vprintf_u True fmt ap else bindE (vprintf_u False fmt ap) (\<lambda>out. Inr (c # out)))
      else
        bindE (vprintf_conv_u c ap) (\<lambda>(out, ap).
        bindE (vprintf_u False fmt ap) (\<lambda>out'. Inr (out @ out'))))"

definition fprintf :: "int \<Rightarrow> u8 list \<Rightarrow> vararg list \<Rightarrow> (int \<times> u8 list) res" where
  "fprintf fd fmt ap = bindE (vprintf_u False fmt ap) (\<lambda>out. Inr (fd, out))"

definition printf_u :: "u8 list \<Rightarrow> vararg list \<Rightarrow> (int \<times> u8 list) res" where
  "printf_u fmt ap = fprintf 1 fmt ap"

section \<open>What the routines do\<close>

text \<open>The string \<open>s\<close> in an array: its bytes, a NUL, and whatever follows.\<close>

lemma strlen_u_string: "0 \<notin> set s \<Longrightarrow> strlen_u (s @ 0 # r) = Inr (length s)"
  by (induction s) auto

lemma strcpy_u_string:
  "0 \<notin> set t \<Longrightarrow> strcpy_u s (t @ 0 # r) = (if length t < length s then Inr (t @ 0 # drop (Suc (length t)) s) else Inl Fault)"
proof (induction t arbitrary: s)
  case Nil
  then show ?case
    by (cases s) auto
next
  case (Cons c t)
  then show ?case
    by (cases s) auto
qed

lemma strcmp_u_string:
  "0 \<notin> set s \<Longrightarrow> 0 \<notin> set t \<Longrightarrow> \<exists>d. strcmp_u (s @ 0 # r) (t @ 0 # q) = Inr d \<and> (d = 0 \<longleftrightarrow> s = t)"
proof (induction s arbitrary: t)
  case Nil
  then show ?case
    by (cases t) (auto simp: uint_0_iff)
next
  case (Cons c s)
  then show ?case
    by (cases t) (auto simp: uint_0_iff simp flip: word_uint_eq_iff)
qed

lemma strchr_u_string:
  assumes "0 \<notin> set s"
  shows "strchr_u (s @ 0 # r) c = Inr (if c \<in> set s then Some (length (takeWhile (\<lambda>x. x \<noteq> c) s)) else None)"
  using assms by (induction s) auto

lemma memmove_u_apply:
  assumes "unat src + n < 2 ^ 64" and "unat dst + n < 2 ^ 64"
  shows "memmove_u m dst src (int n) a = (if unat (a - dst) < n then m (src + (a - dst)) else m a)"
proof (cases "dst < src")
  case True
  then have "n \<le> unat (dst - src)"
    using assms by (simp add: unat_sub_if' word_less_nat_alt)
  then show ?thesis
    using copy_up_apply [of n dst src m a] assms True by (simp add: memmove_u_def)
next
  case False
  then have "n \<le> unat (src + of_nat n - (dst + of_nat n)) \<or> src = dst"
    using assms by (auto simp: unat_sub_if' word_less_nat_alt word_unat_eq_iff)
  then show ?thesis
    using copy_down_apply [of n "src + of_nat n" "dst + of_nat n" m a] assms False
    by (auto simp: memmove_u_def algebra_simps)
qed

text \<open>\<open>atoi\<close> of digits whose number fits: it stops at the first other character.\<close>

definition dec_val :: "int \<Rightarrow> u8 list \<Rightarrow> int" where
  "dec_val n ds = foldl (\<lambda>a c. a * 10 + (uint c - 48)) n ds"

lemma digit_range: "48 \<le> c \<Longrightarrow> c \<le> 57 \<Longrightarrow> 48 \<le> uint c \<and> uint c \<le> 57" for c :: u8
  by (simp add: word_le_def)

lemma dec_val_mono:
  "\<forall>c\<in>set ds. 48 \<le> c \<and> c \<le> 57 \<Longrightarrow> 0 \<le> n \<Longrightarrow> n \<le> dec_val n ds"
proof (induction ds arbitrary: n)
  case (Cons c ds)
  then have "0 \<le> uint c - 48"
    using digit_range [of c] by simp
  then show ?case
    using Cons.IH [of "n * 10 + (uint c - 48)"] Cons.prems by (simp add: dec_val_def)
qed (simp add: dec_val_def)

lemma atoi_loop_digits:
  assumes "\<forall>c\<in>set ds. 48 \<le> c \<and> c \<le> 57" and "\<not> (48 \<le> e \<and> e \<le> 57)" and "0 \<le> n" and "dec_val n ds < 2 ^ 31 - 48"
  shows "atoi_loop n (ds @ e # r) = Inr (dec_val n ds)"
  using assms
proof (induction ds arbitrary: n)
  case Nil
  then show ?case
    by (auto simp: dec_val_def)
next
  case (Cons c ds)
  let ?n = "n * 10 + (uint c - 48)"
  have c: "48 \<le> uint c" "uint c \<le> 57"
    using digit_range [of c] Cons.prems(1) by auto
  have v: "dec_val n (c # ds) = dec_val ?n ds"
    by (simp add: dec_val_def)
  then have "?n < 2 ^ 31 - 48"
    using dec_val_mono [of ds ?n] Cons.prems c by simp
  then have "as_int (n * 10) = Inr (n * 10)" "as_int (n * 10 + uint c) = Inr (n * 10 + uint c)"
    using c Cons.prems(3) by (simp_all add: as_int_def)
  moreover have "atoi_loop ?n (ds @ e # r) = Inr (dec_val ?n ds)"
    using Cons.IH [of ?n] Cons.prems v c by simp
  ultimately show ?case
    using Cons.prems(1) v by (simp add: algebra_simps)
qed

text \<open>The digits that \<open>printint\<close> prints, and their value.\<close>

lemma printint_loop_digits: "c \<in> set (printint_loop 10 t) \<Longrightarrow> 48 \<le> c \<and> c \<le> 57"
proof (induction "10 :: nat" t rule: printint_loop.induct)
  case (1 t)
  have "unat (digit (t mod 10)) = 48 + t mod 10"
    by (simp add: unat_digit less_le_trans [OF mod_less_divisor])
  then have "48 \<le> digit (t mod 10) \<and> digit (t mod 10) \<le> 57"
    using mod_less_divisor [of 10 t] by (simp add: word_le_nat_alt)
  then show ?case
    using 1 by (subst (asm) (2) printint_loop.simps) (auto split: if_splits)
qed

lemma dec_val_digits:
  "\<forall>c\<in>set ds. 48 \<le> c \<and> c \<le> 57 \<Longrightarrow> dec_val (int a) ds = int (foldl (\<lambda>a c. a * 10 + digit_val c) a ds)"
proof (induction ds arbitrary: a)
  case (Cons c ds)
  have "uint c - 48 = int (digit_val c)"
    using digit_range [of c] Cons.prems by (auto simp: digit_val_def simp flip: nat_uint_eq)
  then show ?case
    using Cons.IH [of "a * 10 + digit_val c"] Cons.prems by (simp add: dec_val_def)
qed (simp add: dec_val_def)

text \<open>
  Property C38. What \<open>%d\<close> prints, \<open>atoi\<close> reads. For a number that is not negative, and so far below the
  largest \<open>int\<close> that \<open>atoi\<close>, which adds the character before it subtracts \<open>'0'\<close>, does not overflow on it,
  \<open>atoi\<close> of the printed digits followed by any character that is not a digit returns the number.
\<close>

theorem atoi_printf_roundtrip:
  assumes "uint x < 2 ^ 31 - 48" and "\<not> (48 \<le> e \<and> e \<le> 57)"
  shows "\<exists>out. vprintf_u False [37, 100] [Reg (ucast x)] = Inr out \<and> atoi (out @ e # r) = Inr (uint (x :: u32))"
proof -
  let ?ds = "rev (printint_loop 10 (unat x))"
  have "sint x = uint x"
    using assms(1) signed_take_bit_int_eq_self [of 31 "uint x"] uint_ge_0 [of x] by (simp add: sint_uint)
  then have "\<not> sint x < 0" "ucast (ucast x :: u64) = x"
    by (simp, intro bit_word_eqI) (simp add: bit_simps)
  then have "vprintf_u False [37, 100] [Reg (ucast x)] = Inr ?ds"
    by (simp add: vprintf_conv_u_def printint_u_def)
  moreover have d: "\<forall>c\<in>set ?ds. 48 \<le> c \<and> c \<le> 57"
    using printint_loop_digits by simp
  moreover have "dec_val 0 ?ds = uint x"
    using dec_val_digits [OF d, of 0] digits_val_printint_loop [of 10 "unat x"] by (simp add: digits_val_def)
  ultimately show ?thesis
    using atoi_loop_digits [OF d assms(2), of 0 r] assms(1) by (simp add: atoi_def)
qed

theorem atoi_printf_roundtrip_witness:
  "\<exists>out. vprintf_u False [37, 100] [Reg (ucast (207 :: u32))] = Inr out \<and> atoi (out @ [0]) = Inr 207"
  using atoi_printf_roundtrip [of 207 0 "[]"] by simp

end
