(* ===== verification/Mkfs.thy ===== *)
theory Mkfs
  imports Fs_Write Ulib
begin

text \<open>
  The tool that makes the file system image, \<open>mkfs/mkfs.c\<close>. The image is a list of sectors, as long as the
  file; seeking and writing succeed, reading succeeds inside the file. \<open>die\<close> and a failed \<open>assert\<close> are
  \<^term>\<open>Panic\<close>. The numbers in the image are little-endian. What is printed is left out.
\<close>

section \<open>The program\<close>

definition FSSIZE :: nat where
  "FSSIZE = 2000"

definition NINODES :: nat where
  "NINODES = 200"

definition nbitmap :: nat where
  "nbitmap = FSSIZE div (BSIZE * 8) + 1"

definition ninodeblocks :: nat where
  "ninodeblocks = NINODES div IPB + 1"

definition nlog :: nat where
  "nlog = LOGSIZE"

definition nmeta :: nat where
  "nmeta = 2 + nlog + ninodeblocks + nbitmap"

text \<open>The globals: the file \<open>fsfd\<close>, \<open>sb\<close>, \<open>freeinode\<close> and \<open>freeblock\<close>.\<close>

record mkfs =
  sects :: "u8 list list"
  msb :: superblock
  freeinode :: u32
  freeblock :: u32

text \<open>Where the file offset is after \<open>lseek(fsfd, sec * BSIZE, 0)\<close>, in sectors.\<close>

definition sect_at :: "u32 \<Rightarrow> nat" where
  "sect_at sec = unat (sec * of_nat BSIZE) div BSIZE"

definition wsect :: "u32 \<Rightarrow> u8 list \<Rightarrow> mkfs \<Rightarrow> mkfs" where
  "wsect sec buf s =
     (let k = sect_at sec; ss = sects s in
      s\<lparr>sects := (if k < length ss then ss[k := buf]
                   else ss @ replicate (k - length ss) (replicate BSIZE 0) @ [buf])\<rparr>)"

definition rsect :: "u32 \<Rightarrow> mkfs \<Rightarrow> u8 list res" where
  "rsect sec s = (if sect_at sec < length (sects s) then Inr (sects s ! sect_at sec) else Inl (Panic ''read''))"

definition winode :: "u32 \<Rightarrow> dinode \<Rightarrow> mkfs \<Rightarrow> mkfs res" where
  "winode inum ip s =
     (let bn = IBLOCK inum (msb s) in
      bindE (rsect bn s) (\<lambda>buf. Inr (wsect bn (put_dinode (inode_off inum) ip buf) s)))"

definition rinode :: "u32 \<Rightarrow> mkfs \<Rightarrow> dinode res" where
  "rinode inum s = bindE (rsect (IBLOCK inum (msb s)) s) (\<lambda>buf. Inr (get_dinode (inode_off inum) buf))"

definition ialloc_mk :: "u16 \<Rightarrow> mkfs \<Rightarrow> (u32 \<times> mkfs) res" where
  "ialloc_mk type s =
     (let inum = freeinode s; s = s\<lparr>freeinode := inum + 1\<rparr>;
          din = \<lparr>di_type = type, di_major = 0, di_minor = 0, di_nlink = 1, di_size = 0,
                 di_addrs = replicate (NDIRECT + 1) 0\<rparr> in
      bindE (winode inum din s) (\<lambda>s. Inr (inum, s)))"

definition balloc_mk :: "int \<Rightarrow> mkfs \<Rightarrow> mkfs res" where
  "balloc_mk used s =
     (if \<not> used < int (BSIZE * 8) then Inl (Panic ''used < BSIZE * 8'')
      else Inr (wsect (sb_bmapstart (msb s)) (fold set_bit_in [0..<nat used] (replicate BSIZE 0)) s))"

text \<open>\<open>iappend\<close>: the block for the block number \<open>fbn\<close> of the file, allocated if it has none.\<close>

definition new_addr :: "nat \<Rightarrow> dinode \<Rightarrow> mkfs \<Rightarrow> dinode \<times> mkfs" where
  "new_addr n din s =
     (if di_addrs din ! n = 0
      then (din\<lparr>di_addrs := (di_addrs din)[n := freeblock s]\<rparr>, s\<lparr>freeblock := freeblock s + 1\<rparr>)
      else (din, s))"

definition iappend_block :: "nat \<Rightarrow> dinode \<Rightarrow> mkfs \<Rightarrow> (u32 \<times> dinode \<times> mkfs) res" where
  "iappend_block fbn din s =
     (if fbn < NDIRECT then
        (let (din, s) = new_addr fbn din s in Inr (di_addrs din ! fbn, din, s))
      else
        (let (din, s) = new_addr NDIRECT din s; j = fbn - NDIRECT in
         bindE (rsect (di_addrs din ! NDIRECT) s) (\<lambda>indirect.
         if get32 (4 * j) indirect = 0 then
           (let x = freeblock s; s = s\<lparr>freeblock := x + 1\<rparr>;
                s = wsect (di_addrs din ! NDIRECT) (put32 (4 * j) x indirect) s in
            Inr (x, din, s))
         else Inr (get32 (4 * j) indirect, din, s))))"

function iappend_loop :: "dinode \<Rightarrow> nat \<Rightarrow> u8 list \<Rightarrow> mkfs \<Rightarrow> (dinode \<times> nat \<times> mkfs) res" where
  "iappend_loop din off p s =
     (if p = [] then Inr (din, off, s)
      else
        (let fbn = off div BSIZE in
         if \<not> fbn < MAXFILE then Inl (Panic ''fbn < MAXFILE'')
         else
           bindE (iappend_block fbn din s) (\<lambda>(x, din, s).
           let n1 = min (length p) ((fbn + 1) * BSIZE - off) in
           bindE (rsect x s) (\<lambda>buf.
           let s = wsect x (upd_seg (off - fbn * BSIZE) (take n1 p) buf) s in
           iappend_loop din (off + n1) (drop n1 p) s))))"
  by pat_completeness auto

lemma block_end_pos: "off < (off div BSIZE + 1) * BSIZE"
  using dividend_less_div_times [OF BSIZE_pos, of off] by (simp add: algebra_simps)

termination iappend_loop
  by (relation "measure (\<lambda>(din, off, p, s). length p)") (use block_end_pos in \<open>auto simp: min_def\<close>)

declare iappend_loop.simps [simp del]

definition iappend :: "u32 \<Rightarrow> u8 list \<Rightarrow> mkfs \<Rightarrow> mkfs res" where
  "iappend inum p s =
     bindE (rinode inum s) (\<lambda>din.
     bindE (iappend_loop din (unat (di_size din)) p s) (\<lambda>(din, off, s).
     winode inum (din\<lparr>di_size := of_nat off\<rparr>) s))"

text \<open>The bytes of \<open>struct dirent\<close> with this name, cut off or padded by \<open>strncpy\<close>, and of \<open>struct superblock\<close>.\<close>

definition dirent_bytes :: "u32 \<Rightarrow> u8 list \<Rightarrow> u8 list" where
  "dirent_bytes inum name = le_bytes 2 (ucast inum :: u16) @ take DIRSIZ (name @ replicate DIRSIZ 0)"

definition superblock_bytes :: "superblock \<Rightarrow> u8 list" where
  "superblock_bytes x = le_bytes 4 (sb_magic x) @ le_bytes 4 (sb_size x) @ le_bytes 4 (sb_nblocks x) @
     le_bytes 4 (sb_ninodes x) @ le_bytes 4 (sb_nlog x) @ le_bytes 4 (sb_logstart x) @
     le_bytes 4 (sb_inodestart x) @ le_bytes 4 (sb_bmapstart x)"

text \<open>The name in the image of a file given on the command line.\<close>

definition shortname :: "u8 list \<Rightarrow> u8 list res" where
  "shortname arg =
     (let name = (if take 5 arg = ascii ''user/'' then drop 5 arg else arg) in
      if of_char CHR ''/'' \<in> set name then Inl (Panic ''index(shortname)'')
      else Inr (if name \<noteq> [] \<and> hd name = of_char CHR ''_'' then tl name else name))"

text \<open>\<open>while ((cc = read(fd, buf, sizeof(buf))) > 0) iappend(inum, buf, cc)\<close>\<close>

function copy_file :: "(nat \<Rightarrow> nat) \<Rightarrow> u8 list \<Rightarrow> nat \<Rightarrow> u32 \<Rightarrow> mkfs \<Rightarrow> mkfs res" where
  "copy_file k inp pos inum s =
     (let buf = read_some k inp pos BSIZE in
      if buf = [] then Inr s
      else bindE (iappend inum buf s) (copy_file k inp (pos + length buf) inum))"
  by pat_completeness auto

termination copy_file
  by (relation "measure (\<lambda>(k, inp, pos, inum, s). length inp - pos)") (auto simp: read_some_def min_def BSIZE_def)

declare copy_file.simps [simp del]

text \<open>One file of the command line: its name, and its content, or None when it cannot be opened.\<close>

definition add_file :: "(nat \<Rightarrow> nat) \<Rightarrow> u8 list \<times> u8 list option \<Rightarrow> mkfs \<Rightarrow> mkfs res" where
  "add_file k f s =
     (case f of (arg, inp) \<Rightarrow>
        bindE (shortname arg) (\<lambda>name.
        case inp of None \<Rightarrow> Inl (Panic ''open'')
        | Some inp \<Rightarrow>
            bindE (ialloc_mk T_FILE s) (\<lambda>(inum, s).
            bindE (iappend ROOTINO (dirent_bytes inum name) s) (\<lambda>s.
            copy_file k inp 0 inum s))))"

definition fix_root :: "mkfs \<Rightarrow> mkfs res" where
  "fix_root s =
     bindE (rinode ROOTINO s) (\<lambda>din.
     let off = (di_size din div of_nat BSIZE + 1) * of_nat BSIZE in
     winode ROOTINO (din\<lparr>di_size := off\<rparr>) s)"

definition mkfs_start :: mkfs where
  "mkfs_start = \<lparr>sects = [],
     msb = \<lparr>sb_magic = FSMAGIC, sb_size = of_nat FSSIZE, sb_nblocks = of_nat (FSSIZE - nmeta),
            sb_ninodes = of_nat NINODES, sb_nlog = of_nat nlog, sb_logstart = 2,
            sb_inodestart = of_nat (2 + nlog), sb_bmapstart = of_nat (2 + nlog + ninodeblocks)\<rparr>,
     freeinode = 1, freeblock = of_nat nmeta\<rparr>"

text \<open>\<open>main\<close>, once it has checked that there are arguments and has opened the image.\<close>

definition mkfs_main :: "(nat \<Rightarrow> nat) \<Rightarrow> (u8 list \<times> u8 list option) list \<Rightarrow> mkfs res" where
  "mkfs_main k files =
     (let s = fold (\<lambda>i. wsect (of_nat i) (replicate BSIZE 0)) [0..<FSSIZE] mkfs_start;
          s = wsect 1 (upd_seg 0 (superblock_bytes (msb s)) (replicate BSIZE 0)) s in
      bindE (ialloc_mk T_DIR s) (\<lambda>(rootino, s).
      if rootino \<noteq> ROOTINO then Inl (Panic ''rootino == ROOTINO'')
      else
        bindE (iappend rootino (dirent_bytes rootino (ascii ''.'')) s) (\<lambda>s.
        bindE (iappend rootino (dirent_bytes rootino (ascii ''..'')) s) (\<lambda>s.
        bindE (foreach (add_file k) files s) (\<lambda>s.
        bindE (fix_root s) (\<lambda>s.
        balloc_mk (sint (freeblock s)) s))))))"

section \<open>The image\<close>

text \<open>
  The blocks of the image as the kernel will see them; for the bitmap, which is written last, what
  \<open>balloc\<close> would write now.
\<close>

definition marks :: "nat \<Rightarrow> u8 list" where
  "marks n = fold set_bit_in [0..<n] (replicate BSIZE 0)"

definition view :: "mkfs \<Rightarrow> u32 \<Rightarrow> u8 list" where
  "view s b = (if b = 45 then marks (unat (freeblock s))
     else if unat b < length (sects s) then sects s ! unat b else replicate BSIZE 0)"

definition img_ok :: "mkfs \<Rightarrow> bool" where
  "img_ok s \<longleftrightarrow> length (sects s) = FSSIZE \<and> (\<forall>d\<in>set (sects s). length d = BSIZE) \<and> msb s = mkfs_sb \<and>
     46 \<le> unat (freeblock s) \<and> unat (freeblock s) \<le> FSSIZE \<and>
     (\<forall>b. unat (freeblock s) \<le> unat b \<longrightarrow> view s b = replicate BSIZE 0)"

lemma length_marks [simp]: "length (marks n) = BSIZE"
  by (induction n) (simp_all add: marks_def)

lemma marks_Suc [simp]: "marks (Suc n) = set_bit_in n (marks n)"
  by (simp add: marks_def)

lemma block_free_marks: "i < BPB \<Longrightarrow> n \<le> BPB \<Longrightarrow> block_free (marks n) i \<longleftrightarrow> n \<le> i"
proof (induction n)
  case 0
  then show ?case
    by (simp add: marks_def block_free_def BPB_def)
next
  case (Suc n)
  then show ?case
    using block_free_set [of n "marks n" i] by auto
qed

lemma BBLOCK_mkfs: "unat b < BPB \<Longrightarrow> BBLOCK b mkfs_sb = 45"
proof -
  assume "unat b < BPB"
  then have "unat b div BPB = 0"
    by simp
  then have "b div of_nat BPB = 0"
    by (simp add: unat_div_BPB [symmetric] unat_eq_zero)
  then show ?thesis
    by (simp add: BBLOCK_def mkfs_sb_def)
qed

lemma size_mkfs: "b < sb_size mkfs_sb \<longleftrightarrow> unat b < FSSIZE"
  by (simp add: mkfs_sb_def FSSIZE_def word_less_nat_alt)

lemma free_in_view:
  assumes "img_ok s" and "unat b < FSSIZE"
  shows "free_in mkfs_sb (view s) b \<longleftrightarrow> unat (freeblock s) \<le> unat b"
proof -
  have "unat b < BPB" "unat (freeblock s) \<le> BPB"
    using assms by (simp_all add: img_ok_def FSSIZE_def BPB_val)
  then show ?thesis
    by (simp add: free_in_def BBLOCK_mkfs view_def block_free_marks)
qed

lemma IBLOCK_mkfs:
  assumes "i < sb_ninodes mkfs_sb"
  shows "32 \<le> unat (IBLOCK i mkfs_sb)" "unat (IBLOCK i mkfs_sb) < 45"
  using IBLOCK_example [of i] assms by (simp_all add: example_sb_def IBLOCK_def)

lemma metadata_mkfs:
  assumes "metadata mkfs_sb 2 b"
  shows "unat b < 46"
proof -
  have "unat b \<le> unat (b - 2) + 2"
    using mod_less_eq_dividend [of "unat (b - 2) + 2" "2 ^ 32"] unat_word_ariths(1) [of "b - 2" 2] by simp
  moreover have "BBLOCK d mkfs_sb = 45" if "d < sb_size mkfs_sb" for d
    using that by (intro BBLOCK_mkfs) (simp add: size_mkfs FSSIZE_def BPB_val)
  ultimately show ?thesis
    using assms IBLOCK_mkfs by (fastforce simp: metadata_def in_log_def LOGSIZE_def MAXOPBLOCKS_def)
qed

lemma length_view [simp]: "img_ok s \<Longrightarrow> length (view s b) = BSIZE"
  by (simp add: view_def img_ok_def)

lemma layout_view:
  assumes "img_ok s"
  shows "fs_layout mkfs_sb 2 (view s)"
proof -
  have b: "BBLOCK d mkfs_sb = 45" if "d < sb_size mkfs_sb" for d
    using that by (intro BBLOCK_mkfs) (simp add: size_mkfs FSSIZE_def BPB_val)
  have i: "\<not> in_log 2 (IBLOCK i mkfs_sb)" "IBLOCK i mkfs_sb \<noteq> 45" if "i < sb_ninodes mkfs_sb" for i
  proof -
    have "unat (IBLOCK i mkfs_sb - 2) = unat (IBLOCK i mkfs_sb) - 2"
      using IBLOCK_mkfs(1) [OF that] by (subst unat_sub) (simp_all add: word_le_nat_alt)
    then show "\<not> in_log 2 (IBLOCK i mkfs_sb)"
      using IBLOCK_mkfs [OF that] by (simp add: in_log_def LOGSIZE_def MAXOPBLOCKS_def)
    show "IBLOCK i mkfs_sb \<noteq> 45"
      using IBLOCK_mkfs(2) [OF that] by auto
  qed
  have "\<not> free_in mkfs_sb (view s) c" if "c < sb_size mkfs_sb" "metadata mkfs_sb 2 c" for c
    using free_in_view [OF assms, of c] metadata_mkfs [OF that(2)] that(1) assms by (simp add: size_mkfs img_ok_def)
  moreover have "unat (sb_size mkfs_sb) + BPB < 2 ^ 32" "\<not> in_log 2 45"
    by (simp_all add: mkfs_sb_def BPB_val in_log_def LOGSIZE_def MAXOPBLOCKS_def)
  ultimately show ?thesis
    using i b assms unfolding fs_layout_def by simp
qed

text \<open>Reading, writing and taking the next block.\<close>

lemma sect_at_eq: "unat b < FSSIZE \<Longrightarrow> sect_at b = unat b"
  by (simp add: sect_at_def unat_word_ariths(2) BSIZE_def FSSIZE_def)

lemma rsect_ok:
  assumes "img_ok s" and "unat b < FSSIZE" and "b \<noteq> 45"
  shows "rsect b s = Inr (view s b)"
  using assms by (simp add: rsect_def sect_at_eq view_def img_ok_def)

lemma wsect_sel [simp]: "msb (wsect b d s) = msb s" "freeinode (wsect b d s) = freeinode s" "freeblock (wsect b d s) = freeblock s"
  by (simp_all add: wsect_def Let_def)

lemma wsect_ok:
  assumes "img_ok s" and "unat b < unat (freeblock s)" and "b \<noteq> 45" and "length d = BSIZE"
  shows "view (wsect b d s) = (view s)(b := d)" and "img_ok (wsect b d s)"
proof -
  have b: "unat b < FSSIZE" "length (sects s) = FSSIZE"
    using assms by (simp_all add: img_ok_def)
  then have w: "sects (wsect b d s) = (sects s)[unat b := d]"
    by (simp add: wsect_def Let_def sect_at_eq)
  show v: "view (wsect b d s) = (view s)(b := d)"
    using b assms(3) by (auto simp: view_def w fun_eq_iff nth_list_update simp flip: word_unat_eq_iff)
  have "\<forall>x\<in>set (sects (wsect b d s)). length x = BSIZE"
    using assms(1,4) set_update_subset_insert [of "sects s" "unat b" d] unfolding w img_ok_def by blast
  then show "img_ok (wsect b d s)"
    using assms(1,2) b unfolding img_ok_def v by (auto simp: w)
qed

lemma freeblock_free:
  assumes "img_ok s" and "unat (freeblock s) < FSSIZE"
  shows "freeblock s \<in> free_blocks mkfs_sb (view s)" and "freeblock s \<noteq> 45" and "freeblock s \<noteq> 0"
    and "unat (freeblock s + 1) = Suc (unat (freeblock s))"
  using assms free_in_view [OF assms] by (auto simp: free_blocks_def size_mkfs img_ok_def FSSIZE_def unat_word_ariths(1))

lemma take_freeblock:
  assumes "img_ok s" and "unat (freeblock s) < FSSIZE"
  defines "s' \<equiv> s\<lparr>freeblock := freeblock s + 1\<rparr>"
  shows "view s' = alloc_view mkfs_sb (freeblock s) (view s)" and "img_ok s'"
proof -
  note f = freeblock_free [OF assms(1,2)]
  have u: "unat (freeblock s) < BPB" "BBLOCK (freeblock s) mkfs_sb = 45"
    using assms(2) by (simp_all add: FSSIZE_def BPB_val BBLOCK_mkfs)
  have z: "view s (freeblock s) = replicate BSIZE 0"
    using assms(1) by (simp add: img_ok_def)
  show v: "view s' = alloc_view mkfs_sb (freeblock s) (view s)"
    using f(2,4) u z by (auto simp: fun_eq_iff alloc_view_def take_block_def view_def s'_def)
  have "view s' b = replicate BSIZE 0" if "unat (freeblock s) < unat b" for b
  proof -
    have "b \<noteq> 45" "b \<noteq> freeblock s"
      using that assms(1) by (auto simp: img_ok_def)
    then have "view s' b = view s b"
      by (simp add: view_def s'_def)
    then show ?thesis
      using that assms(1) by (simp add: img_ok_def)
  qed
  then show "img_ok s'"
    using assms(1,2) f(4) unfolding img_ok_def by (simp add: s'_def Suc_le_eq)
qed

section \<open>Appending to a file\<close>

text \<open>An inode of the image, as the kernel will load it.\<close>

abbreviation ino :: "dinode \<Rightarrow> inode" where
  "ino din \<equiv> load_dinode din bss_inode"

abbreviation ino_wf :: "dinode \<Rightarrow> mkfs \<Rightarrow> bool" where
  "ino_wf din s \<equiv> inode_wf mkfs_sb 2 (ino din) (view s)"

text \<open>
  The blocks of a file with the content \<open>c\<close>: those that it needs and no others, the last one padded with
  zeros; and how many it needs, with the indirect block.
\<close>

definition blk :: "u8 list \<Rightarrow> nat \<Rightarrow> u8 list" where
  "blk c bn = take BSIZE (drop (bn * BSIZE) c @ replicate BSIZE 0)"

definition content_ok :: "dinode \<Rightarrow> (u32 \<Rightarrow> u8 list) \<Rightarrow> u8 list \<Rightarrow> bool" where
  "content_ok din V c \<longleftrightarrow> length c \<le> MAXFILE * BSIZE \<and> (di_addrs din ! NDIRECT \<noteq> 0 \<longleftrightarrow> NDIRECT * BSIZE < length c) \<and>
     (\<forall>bn<MAXFILE. if bn * BSIZE < length c
        then file_block (ino din) V bn \<noteq> 0 \<and> V (file_block (ino din) V bn) = blk c bn
        else file_block (ino din) V bn = 0)"

definition need :: "nat \<Rightarrow> nat" where
  "need n = (n + BSIZE - 1) div BSIZE + (if NDIRECT * BSIZE < n then 1 else 0)"

lemma ino_addrs [simp]: "i_addrs (ino din) = di_addrs din"
  by (simp add: load_dinode_def)

lemma ino_upd [simp]: "ino (din\<lparr>di_addrs := a\<rparr>) = (ino din)\<lparr>i_addrs := a\<rparr>"
  by (simp add: load_dinode_def)

lemma owned_below:
  assumes "img_ok s" and "inode_wf mkfs_sb 2 x (view s)" and "b \<in> owned x (view s)"
  shows "unat b < FSSIZE" and "unat b < unat (freeblock s)" and "b \<noteq> 45" and "46 \<le> unat b"
proof -
  note w = inode_wfD [OF assms(2)]
  show 1: "unat b < FSSIZE"
    using w(2) [OF assms(3)] by (simp add: size_mkfs)
  show "unat b < unat (freeblock s)"
    using w(3) [OF assms(3)] free_in_view [OF assms(1) 1] by simp
  have "metadata mkfs_sb 2 b" if m: "unat b < 46"
  proof -
    consider "unat b < 2" | "2 \<le> unat b" "unat b < 32" | "32 \<le> unat b" "unat b < 45" | "unat b = 45"
      using m by linarith
    then show ?thesis
    proof cases
      case 1
      then have "b = 0 \<or> b = 1"
        by (auto simp: word_unat_eq_iff)
      then show ?thesis
        by (auto simp: metadata_def)
    next
      case 2
      then have "unat (b - 2) < 30"
        by (subst unat_sub) (simp_all add: word_le_nat_alt)
      then show ?thesis
        by (simp add: metadata_def in_log_def LOGSIZE_def MAXOPBLOCKS_def)
    next
      case 3
      have u: "unat ((b - 32) * 16) = (unat b - 32) * 16"
        using 3 by (simp add: unat_word_ariths(2) unat_sub word_le_nat_alt)
      then have "IBLOCK ((b - 32) * 16) mkfs_sb = b"
        using 3 by (simp add: IBLOCK_def word_unat_eq_iff unat_word_ariths(1) unat_div NDIRECT_val mkfs_sb_def)
      moreover have "(b - 32) * 16 < sb_ninodes mkfs_sb"
        using 3 u by (simp add: mkfs_sb_def word_less_nat_alt)
      ultimately show ?thesis
        unfolding metadata_def by metis
    next
      case 4
      then have "b = BBLOCK 0 mkfs_sb"
        by (subst BBLOCK_mkfs) (simp_all add: BPB_val word_unat_eq_iff)
      moreover have "0 < sb_size mkfs_sb"
        by (simp add: mkfs_sb_def)
      ultimately show ?thesis
        unfolding metadata_def by blast
    qed
  qed
  then show "46 \<le> unat b" "b \<noteq> 45"
    using w(4) [OF assms(3)] by (force simp: not_less [symmetric])+
qed

lemma new_addr_ok:
  assumes "img_ok s" and "ino_wf din s" and "n \<le> NDIRECT" and "di_addrs din ! n = 0" and "unat (freeblock s) < FSSIZE"
  obtains din' s' where "new_addr n din s = (din', s')" "img_ok s'" "view s' = alloc_view mkfs_sb (freeblock s) (view s)"
    "din' = din\<lparr>di_addrs := (di_addrs din)[n := freeblock s]\<rparr>" "freeblock s' = freeblock s + 1" "freeinode s' = freeinode s"
    "evolves mkfs_sb 2 (ino din) (view s) (ino din') (view s')" "slot (ino din') (view s') n = freeblock s"
    "\<forall>k\<le>MAXFILE. k \<noteq> n \<longrightarrow> slot (ino din') (view s') k = slot (ino din) (view s) k"
proof -
  note t = take_freeblock [OF assms(1,5)]
  note e = evolves_addr [OF assms(2) layout_view [OF assms(1)] freeblock_free(1) [OF assms(1,5)] assms(3)]
  show thesis
    by (rule that [of "din\<lparr>di_addrs := (di_addrs din)[n := freeblock s]\<rparr>" "s\<lparr>freeblock := freeblock s + 1\<rparr>"])
      (use assms(4) t e in \<open>simp_all add: new_addr_def\<close>)
qed

lemma new_entry_ok:
  assumes "img_ok s" and "ino_wf din s" and i: "di_addrs din ! NDIRECT \<noteq> 0" and "j < NINDIRECT"
    and "get32 (4 * j) (view s (di_addrs din ! NDIRECT)) = 0" and "unat (freeblock s) < FSSIZE"
  defines "s' \<equiv> wsect (di_addrs din ! NDIRECT) (put32 (4 * j) (freeblock s) (view s (di_addrs din ! NDIRECT)))
    (s\<lparr>freeblock := freeblock s + 1\<rparr>)"
  shows "img_ok s'" and "evolves mkfs_sb 2 (ino din) (view s) (ino din) (view s')"
    and "view s' = (alloc_view mkfs_sb (freeblock s) (view s))(di_addrs din ! NDIRECT :=
      put32 (4 * j) (freeblock s) (view s (di_addrs din ! NDIRECT)))"
    and "slot (ino din) (view s') (NDIRECT + 1 + j) = freeblock s"
    and "\<forall>k\<le>MAXFILE. k \<noteq> NDIRECT + 1 + j \<longrightarrow> slot (ino din) (view s') k = slot (ino din) (view s) k"
proof -
  let ?i = "di_addrs din ! NDIRECT" and ?t = "s\<lparr>freeblock := freeblock s + 1\<rparr>"
  note t = take_freeblock [OF assms(1,6)]
  have o: "?i \<in> owned (ino din) (view s)"
    using indirect_owned(1) [of "ino din" "view s"] i by simp
  note b = owned_below [OF assms(1,2) o]
  have "unat ?i < unat (freeblock ?t)" "length (put32 (4 * j) (freeblock s) (view s ?i)) = BSIZE"
    using b(2) freeblock_free(4) [OF assms(1,6)] assms(1,4) by (simp_all add: NDIRECT_val BSIZE_def)
  note w = wsect_ok [OF t(2) this(1) b(3) this(2)]
  show "img_ok s'" and v: "view s' = (alloc_view mkfs_sb (freeblock s) (view s))(?i := put32 (4 * j) (freeblock s) (view s ?i))"
    using w t(1) by (simp_all add: s'_def)
  note e = evolves_entry [OF assms(2) layout_view [OF assms(1)] freeblock_free(1) [OF assms(1,6)], of j]
  show "evolves mkfs_sb 2 (ino din) (view s) (ino din) (view s')" "slot (ino din) (view s') (NDIRECT + 1 + j) = freeblock s"
    "\<forall>k\<le>MAXFILE. k \<noteq> NDIRECT + 1 + j \<longrightarrow> slot (ino din) (view s') k = slot (ino din) (view s) k"
    using e i assms(4,5) by (simp_all add: v)
qed

text \<open>How the need for blocks grows.\<close>

lemma div_up_eq: "m * BSIZE < n \<Longrightarrow> n \<le> (m + 1) * BSIZE \<Longrightarrow> (n + BSIZE - 1) div BSIZE = m + 1"
  by (intro div_nat_eqI) (simp_all add: BSIZE_def)

lemma need_old: "m * BSIZE < n \<Longrightarrow> n \<le> n' \<Longrightarrow> n' \<le> (m + 1) * BSIZE \<Longrightarrow> need n' = need n"
proof -
  assume m: "m * BSIZE < n" "n \<le> n'" "n' \<le> (m + 1) * BSIZE"
  have "(n + BSIZE - 1) div BSIZE = m + 1" "(n' + BSIZE - 1) div BSIZE = m + 1"
    using m div_up_eq [of m n] div_up_eq [of m n'] by simp_all
  moreover have "NDIRECT * BSIZE < n" if "NDIRECT * BSIZE < n'"
  proof -
    have "NDIRECT * BSIZE < (m + 1) * BSIZE"
      using that m(3) by (rule less_le_trans)
    then have "NDIRECT \<le> m"
      by (simp only: mult_less_cancel2) simp
    then have "NDIRECT * BSIZE \<le> m * BSIZE"
      by (rule mult_le_mono1)
    then show ?thesis
      using m(1) by (rule le_less_trans)
  qed
  then have "NDIRECT * BSIZE < n' \<longleftrightarrow> NDIRECT * BSIZE < n"
    using m(2) by (blast intro: less_le_trans)
  ultimately show ?thesis
    by (simp add: need_def)
qed

lemma need_new:
  assumes "0 < k" and "k \<le> BSIZE"
  shows "need (m * BSIZE + k) = need (m * BSIZE) + (if m = NDIRECT then 2 else 1)"
proof -
  have "(m * BSIZE + k + BSIZE - 1) div BSIZE = m + 1"
    using assms by (intro div_up_eq) simp_all
  moreover have "(m * BSIZE + BSIZE - 1) div BSIZE = m"
    by (intro div_nat_eqI) (simp_all add: BSIZE_def)
  moreover have "NDIRECT * BSIZE < m * BSIZE + k \<longleftrightarrow> NDIRECT \<le> m"
    using assms by (auto simp: BSIZE_def NDIRECT_val)
  ultimately show ?thesis
    by (auto simp: need_def)
qed

definition grown :: "dinode \<Rightarrow> mkfs \<Rightarrow> dinode \<Rightarrow> mkfs \<Rightarrow> bool" where
  "grown din s din' s' \<longleftrightarrow> img_ok s' \<and> evolves mkfs_sb 2 (ino din) (view s) (ino din') (view s') \<and>
     freeinode s' = freeinode s \<and> din' = din\<lparr>di_addrs := di_addrs din'\<rparr>"

lemma grown_refl: "img_ok s \<Longrightarrow> ino_wf din s \<Longrightarrow> grown din s din s"
  by (simp add: grown_def evolves_refl layout_view)

lemma grown_trans: "grown din s din1 s1 \<Longrightarrow> grown din1 s1 din2 s2 \<Longrightarrow> grown din s din2 s2"
  unfolding grown_def using evolves_trans by (metis dinode.update_convs(6) dinode.surjective)

lemma grown_wf: "grown din s din' s' \<Longrightarrow> img_ok s'" "grown din s din' s' \<Longrightarrow> ino_wf din' s'"
  unfolding grown_def evolves_def by blast+

text \<open>
  The block for the end of the file: where it is afterwards, and that all others are where they were with
  what they had.
\<close>

definition has_blocks :: "nat \<Rightarrow> u8 list \<Rightarrow> dinode \<Rightarrow> mkfs \<Rightarrow> bool" where
  "has_blocks n c din s \<longleftrightarrow> (\<forall>bn<MAXFILE. if bn < n
     then file_block (ino din) (view s) bn \<noteq> 0 \<and> view s (file_block (ino din) (view s) bn) = blk c bn
     else file_block (ino din) (view s) bn = 0)"

definition has_block :: "nat \<Rightarrow> u8 list \<Rightarrow> u32 \<Rightarrow> dinode \<Rightarrow> mkfs \<Rightarrow> bool" where
  "has_block fbn c b din s \<longleftrightarrow> b \<noteq> 0 \<and> b = file_block (ino din) (view s) fbn \<and>
     (di_addrs din ! NDIRECT \<noteq> 0 \<longleftrightarrow> NDIRECT \<le> fbn) \<and> has_blocks (Suc fbn) c din s"

lemma content_okD:
  assumes "content_ok din V c"
  shows "length c \<le> MAXFILE * BSIZE" "di_addrs din ! NDIRECT \<noteq> 0 \<longleftrightarrow> NDIRECT * BSIZE < length c"
    "bn < MAXFILE \<Longrightarrow> bn * BSIZE < length c \<Longrightarrow> file_block (ino din) V bn \<noteq> 0 \<and> V (file_block (ino din) V bn) = blk c bn"
    "bn < MAXFILE \<Longrightarrow> length c \<le> bn * BSIZE \<Longrightarrow> file_block (ino din) V bn = 0"
  using assms unfolding content_ok_def by (auto simp: not_less split: if_splits)

lemma blk_end: "length c \<le> bn * BSIZE \<Longrightarrow> blk c bn = replicate BSIZE 0"
  by (simp add: blk_def)

text \<open>The last block has room: nothing to allocate.\<close>

lemma block_present:
  assumes I: "img_ok s" "ino_wf din s" and c: "content_ok din (view s) c"
    and m: "m * BSIZE < length c" "length c < (m + 1) * BSIZE" "m < MAXFILE"
  shows "iappend_block m din s = Inr (file_block (ino din) (view s) m, din, s)"
    and "has_block m c (file_block (ino din) (view s) m) din s"
proof -
  let ?b = "file_block (ino din) (view s) m"
  have b: "?b \<noteq> 0"
    using content_okD(3) [OF c m(3,1)] by simp
  have le: "bn * BSIZE < length c \<longleftrightarrow> bn < Suc m" for bn
    using m by (auto simp: BSIZE_def)
  have i: "di_addrs din ! NDIRECT \<noteq> 0 \<longleftrightarrow> NDIRECT \<le> m"
    using content_okD(2) [OF c] m by (auto simp: BSIZE_def NDIRECT_val)
  show "has_block m c ?b din s"
    unfolding has_block_def has_blocks_def using b i c unfolding content_ok_def le by blast
  show "iappend_block m din s = Inr (?b, din, s)"
  proof (cases "m < NDIRECT")
    case True
    then show ?thesis
      using b by (simp add: iappend_block_def new_addr_def file_block_def slot_def slot_of_def)
  next
    case False
    let ?i = "di_addrs din ! NDIRECT"
    have a: "?i \<noteq> 0"
      using i False by simp
    then have "?i \<in> owned (ino din) (view s)"
      using indirect_owned(1) [of "ino din"] by simp
    then have "rsect ?i s = Inr (view s ?i)"
      using owned_below [OF I] rsect_ok [OF I(1)] by blast
    then show ?thesis
      using b a False by (simp add: iappend_block_def new_addr_def file_block_def slot_def slot_of_def Suc_diff_le)
  qed
qed

lemma has_blocks_Suc:
  assumes "has_blocks m c din s" and "m < MAXFILE" and "file_block (ino din') (view s') m = a" "a \<noteq> 0" "view s' a = blk c m"
    and "\<forall>bn<MAXFILE. bn \<noteq> m \<longrightarrow> file_block (ino din') (view s') bn = file_block (ino din) (view s) bn"
    and "\<forall>bn<m. view s' (file_block (ino din) (view s) bn) = view s (file_block (ino din) (view s) bn)"
  shows "has_blocks (Suc m) c din' s'"
  unfolding has_blocks_def
proof (intro allI impI)
  fix bn
  assume bn: "bn < MAXFILE"
  show "if bn < Suc m then file_block (ino din') (view s') bn \<noteq> 0 \<and> view s' (file_block (ino din') (view s') bn) = blk c bn
    else file_block (ino din') (view s') bn = 0"
    using assms bn unfolding has_blocks_def by (cases "bn = m") auto
qed

lemma has_blocks_owned:
  assumes "has_blocks m c din s" and "bn < m" and "m \<le> MAXFILE"
  shows "file_block (ino din) (view s) bn \<noteq> 0" and "file_block (ino din) (view s) bn \<in> owned (ino din) (view s)"
  using assms file_block_owned [of bn "ino din" "view s"] unfolding has_blocks_def by auto

text \<open>The two ways of getting a new block.\<close>

lemma block_direct:
  assumes I: "img_ok s" "ino_wf din s" and c: "has_blocks m c din s" "length c \<le> m * BSIZE" and m: "m < NDIRECT"
    and i: "di_addrs din ! NDIRECT = 0" and f: "unat (freeblock s) < FSSIZE"
  shows "\<exists>b din' s'. iappend_block m din s = Inr (b, din', s') \<and> grown din s din' s' \<and> has_block m c b din' s' \<and>
    unat (freeblock s') = unat (freeblock s) + 1"
proof -
  have M: "m < MAXFILE"
    using m by (simp add: NDIRECT_val)
  have "di_addrs din ! m = 0"
    using c(1) M m unfolding has_blocks_def file_block_def slot_def slot_of_def by auto
  then obtain din' s' where n: "new_addr m din s = (din', s')" "img_ok s'" "view s' = alloc_view mkfs_sb (freeblock s) (view s)"
    "din' = din\<lparr>di_addrs := (di_addrs din)[m := freeblock s]\<rparr>" "freeblock s' = freeblock s + 1" "freeinode s' = freeinode s"
    "evolves mkfs_sb 2 (ino din) (view s) (ino din') (view s')" "slot (ino din') (view s') m = freeblock s"
    "\<forall>k\<le>MAXFILE. k \<noteq> m \<longrightarrow> slot (ino din') (view s') k = slot (ino din) (view s) k"
    using new_addr_ok [OF I _ _ f, of m] m by (metis less_imp_le)
  note fb = freeblock_free [OF I(1) f]
  have b: "file_block (ino din') (view s') m = freeblock s"
    using n(8) m by (simp add: file_block_def slot_of_def)
  have "has_blocks (Suc m) c din' s'"
  proof (rule has_blocks_Suc [OF c(1) M b fb(3)])
    show "view s' (freeblock s) = blk c m"
      using c(2) by (simp add: n(3) alloc_view_def blk_end)
    show "\<forall>bn<MAXFILE. bn \<noteq> m \<longrightarrow> file_block (ino din') (view s') bn = file_block (ino din) (view s) bn"
      using n(9) slot_of_le(1) slot_of_inj m by (metis file_block_def slot_of_def)
    show "\<forall>bn<m. view s' (file_block (ino din) (view s) bn) = view s (file_block (ino din) (view s) bn)"
      using owned_alloc_view [OF I(2) has_blocks_owned(2) [OF c(1)] fb(1)] M unfolding n(3) by simp
  qed
  moreover have "grown din s din' s'"
    using n by (simp add: grown_def)
  moreover have "di_addrs din' ! NDIRECT = 0"
    using n(4) m i by simp
  ultimately show ?thesis
    using n(1,8) m b fb(3,4) by (simp add: iappend_block_def has_block_def n(5) slot_def)
qed

lemma block_entry:
  assumes I: "img_ok s" "ino_wf din s" and c: "has_blocks m c din s" "length c \<le> m * BSIZE" and m: "NDIRECT \<le> m" "m < MAXFILE"
    and i: "di_addrs din ! NDIRECT \<noteq> 0" and f: "unat (freeblock s) < FSSIZE"
  shows "\<exists>b s'. iappend_block m din s = Inr (b, din, s') \<and> grown din s din s' \<and> has_block m c b din s' \<and>
    unat (freeblock s') = unat (freeblock s) + 1"
proof -
  let ?i = "di_addrs din ! NDIRECT" and ?j = "m - NDIRECT"
  let ?s = "wsect ?i (put32 (4 * ?j) (freeblock s) (view s ?i)) (s\<lparr>freeblock := freeblock s + 1\<rparr>)"
  have so: "slot_of m = NDIRECT + 1 + ?j" "?j < NINDIRECT"
    using m by (simp_all add: slot_of_def NDIRECT_val)
  have "file_block (ino din) (view s) m = 0"
    using c(1) m(2) by (simp add: has_blocks_def)
  then have g: "get32 (4 * ?j) (view s ?i) = 0"
    using i m by (simp add: file_block_def so(1) slot_def)
  have o: "?i \<in> owned (ino din) (view s)"
    using indirect_owned(1) [of "ino din"] i by simp
  have r: "rsect ?i s = Inr (view s ?i)"
    using owned_below [OF I o] rsect_ok [OF I(1)] by blast
  note n = new_entry_ok [OF I i so(2) g f]
  note fb = freeblock_free [OF I(1) f]
  have b: "file_block (ino din) (view ?s) m = freeblock s"
    using n(4) by (simp add: file_block_def so(1))
  have ne: "freeblock s \<noteq> ?i"
    using owned_below(2) [OF I o] by auto
  have "has_blocks (Suc m) c din ?s"
  proof (rule has_blocks_Suc [OF c(1) m(2) b fb(3)])
    show "view ?s (freeblock s) = blk c m"
      using c(2) ne by (simp add: n(3) alloc_view_def blk_end)
    show "\<forall>bn<MAXFILE. bn \<noteq> m \<longrightarrow> file_block (ino din) (view ?s) bn = file_block (ino din) (view s) bn"
      using n(5) slot_of_le(1) slot_of_inj unfolding file_block_def so(1) [symmetric] by metis
    show "\<forall>bn<m. view ?s (file_block (ino din) (view s) bn) = view s (file_block (ino din) (view s) bn)"
    proof (intro allI impI)
      fix bn
      assume bn: "bn < m"
      note ob = has_blocks_owned [OF c(1) bn]
      have "file_block (ino din) (view s) bn \<noteq> ?i"
        using file_block_not_indirect [OF I(2), of bn] ob(1) bn m(2) by simp
      then show "view ?s (file_block (ino din) (view s) bn) = view s (file_block (ino din) (view s) bn)"
        using owned_alloc_view [OF I(2) ob(2) fb(1)] m(2) unfolding n(3) by simp
    qed
  qed
  moreover have "grown din s din ?s"
    using n(1,2) by (simp add: grown_def)
  moreover have "iappend_block m din s = Inr (freeblock s, din, ?s)"
    using m i r g by (simp add: iappend_block_def new_addr_def Let_def)
  ultimately show ?thesis
    using b fb(3,4) m i by (intro exI conjI) (assumption | simp add: has_block_def)+
qed

lemma block_indirect:
  assumes I: "img_ok s" "ino_wf din s" and c: "has_blocks NDIRECT c din s" "length c \<le> NDIRECT * BSIZE"
    and i: "di_addrs din ! NDIRECT = 0" and f: "unat (freeblock s) + 1 < FSSIZE"
  shows "\<exists>b din' s'. iappend_block NDIRECT din s = Inr (b, din', s') \<and> grown din s din' s' \<and> has_block NDIRECT c b din' s' \<and>
    unat (freeblock s') = unat (freeblock s) + 2"
proof -
  have f': "unat (freeblock s) < FSSIZE"
    using f by simp
  obtain din1 s1 where n: "new_addr NDIRECT din s = (din1, s1)" "img_ok s1" "view s1 = alloc_view mkfs_sb (freeblock s) (view s)"
    "din1 = din\<lparr>di_addrs := (di_addrs din)[NDIRECT := freeblock s]\<rparr>" "freeblock s1 = freeblock s + 1" "freeinode s1 = freeinode s"
    "evolves mkfs_sb 2 (ino din) (view s) (ino din1) (view s1)" "slot (ino din1) (view s1) NDIRECT = freeblock s"
    "\<forall>k\<le>MAXFILE. k \<noteq> NDIRECT \<longrightarrow> slot (ino din1) (view s1) k = slot (ino din) (view s) k"
    using new_addr_ok [OF I _ i f'] by blast
  note fb = freeblock_free [OF I(1) f']
  have g: "grown din s din1 s1"
    using n by (simp add: grown_def)
  have i1: "di_addrs din1 ! NDIRECT \<noteq> 0"
    using n(8) fb(3) by (simp add: slot_def)
  have same: "file_block (ino din1) (view s1) bn = file_block (ino din) (view s) bn" if "bn < MAXFILE" for bn
    using n(9) slot_of_le(1) [OF that] slot_of_le(2) [of bn] by (simp add: file_block_def)
  have "view s1 (file_block (ino din) (view s) bn) = view s (file_block (ino din) (view s) bn)" if "bn < NDIRECT" for bn
    using owned_alloc_view [OF I(2) has_blocks_owned(2) [OF c(1) that] fb(1)] unfolding n(3) by (simp add: NDIRECT_val)
  then have "has_blocks NDIRECT c din1 s1"
    using c(1) same unfolding has_blocks_def by simp
  then have "\<exists>b s'. iappend_block NDIRECT din1 s1 = Inr (b, din1, s') \<and> grown din1 s1 din1 s' \<and> has_block NDIRECT c b din1 s' \<and>
    unat (freeblock s') = unat (freeblock s1) + 1"
    using block_entry [OF n(2) grown_wf(2) [OF g]] c(2) i1 f fb(4) n(5) by (simp add: NDIRECT_val)
  then obtain b s' where b: "iappend_block NDIRECT din1 s1 = Inr (b, din1, s')" "grown din1 s1 din1 s'" "has_block NDIRECT c b din1 s'"
    "unat (freeblock s') = unat (freeblock s1) + 1"
    by blast
  have "iappend_block NDIRECT din s = iappend_block NDIRECT din1 s1"
    using n(1) i1 by (simp add: iappend_block_def new_addr_def [of NDIRECT din1])
  then show ?thesis
    using b grown_trans [OF g b(2)] n(5) fb(4) by simp
qed

text \<open>In all cases: the block at the end of the file, at the price that the file needs.\<close>

lemma end_block:
  assumes I: "img_ok s" "ino_wf din s" and c: "content_ok din (view s) c" and m: "m = length c div BSIZE" "m < MAXFILE"
    and f: "unat (freeblock s) + need (length c + 1) \<le> FSSIZE + need (length c)"
  obtains b din' s' where "iappend_block m din s = Inr (b, din', s')" "grown din s din' s'" "has_block m c b din' s'"
    "unat (freeblock s') + need (length c) = unat (freeblock s) + need (length c + 1)"
proof (cases "m * BSIZE < length c")
  case True
  have lt: "length c < (m + 1) * BSIZE"
    using block_end_pos m(1) by simp
  show thesis
    using that block_present [OF I c True lt m(2)] grown_refl [OF I] need_old [OF True, of "length c + 1"] lt by simp
next
  case False
  then have len: "length c = m * BSIZE"
    using m(1) div_times_less_eq_dividend [of "length c" BSIZE] by simp
  have h: "has_blocks m c din s"
    using c unfolding content_ok_def has_blocks_def len by simp
  have i: "di_addrs din ! NDIRECT \<noteq> 0 \<longleftrightarrow> NDIRECT < m"
    using content_okD(2) [OF c] len by simp
  have need: "need (length c + 1) = need (length c) + (if m = NDIRECT then 2 else 1)"
    using need_new [of 1 m] len by (simp add: BSIZE_def)
  consider "m < NDIRECT" | "m = NDIRECT" | "NDIRECT < m"
    by linarith
  then show thesis
  proof cases
    case 1
    then show thesis
      using block_direct [OF I h] that len i f need by fastforce
  next
    case 2
    then show thesis
      using block_indirect [OF I, of c] that len i f need h by fastforce
  next
    case 3
    then show thesis
      using block_entry [OF I h] that len i f need m(2) by fastforce
  qed
qed

lemma blk_append:
  assumes "length c mod BSIZE + length d \<le> BSIZE"
  shows "blk (c @ d) (length c div BSIZE) = upd_seg (length c mod BSIZE) d (blk c (length c div BSIZE))"
    and "bn < length c div BSIZE \<Longrightarrow> blk (c @ d) bn = blk c bn"
proof -
  let ?m = "length c div BSIZE" and ?r = "length c mod BSIZE"
  have d: "length (drop (?m * BSIZE) c) = ?r" "?m * BSIZE \<le> length c"
    by (simp_all add: minus_div_mult_eq_mod)
  have r: "?r < BSIZE"
    by simp
  have 1: "blk c ?m = drop (?m * BSIZE) c @ replicate (BSIZE - ?r) 0"
    using d r by (simp add: blk_def)
  have 2: "blk (c @ d) ?m = drop (?m * BSIZE) c @ d @ replicate (BSIZE - ?r - length d) 0"
    using d r assms by (simp add: blk_def)
  show "blk (c @ d) ?m = upd_seg ?r d (blk c ?m)"
    using d assms unfolding 1 2 upd_seg_def by simp
  show "blk (c @ d) bn = blk c bn" if "bn < ?m"
  proof -
    have "(bn + 1) * BSIZE \<le> ?m * BSIZE"
      using that by (intro mult_le_mono1) simp
    then have "bn * BSIZE + BSIZE \<le> length c"
      using d(2) by (simp only: add_mult_distrib)
    then show ?thesis
      by (simp add: blk_def)
  qed
qed

lemma append_step:
  assumes I: "img_ok s" "ino_wf din s" and b: "has_block m c b din s" and m: "m = length c div BSIZE" "m < MAXFILE"
    and d: "d \<noteq> []" "length c mod BSIZE + length d \<le> BSIZE"
  defines "s' \<equiv> wsect b (upd_seg (length c mod BSIZE) d (view s b)) s"
  shows "rsect b s = Inr (view s b)" and "grown din s din s'" and "content_ok din (view s') (c @ d)"
proof -
  let ?x = "ino din" and ?V = "view s"
  have fb: "b = file_block ?x ?V m" "b \<noteq> 0" and i: "di_addrs din ! NDIRECT \<noteq> 0 \<longleftrightarrow> NDIRECT \<le> m" and h: "has_blocks (Suc m) c din s"
    using b unfolding has_block_def by blast+
  have o: "b \<in> owned ?x ?V" and ni: "b \<noteq> di_addrs din ! NDIRECT"
    using file_block_owned [OF m(2)] file_block_not_indirect [OF I(2) m(2)] fb by auto
  note ob = owned_below [OF I o]
  show "rsect b s = Inr (view s b)"
    by (rule rsect_ok [OF I(1) ob(1,3)])
  have l: "length (upd_seg (length c mod BSIZE) d (?V b)) = BSIZE"
    using d(2) I(1) by simp
  note w = wsect_ok [OF I(1) ob(2,3) l]
  have vs: "view s' = ?V(b := upd_seg (length c mod BSIZE) d (?V b))"
    by (simp add: s'_def w(1))
  have "evolves mkfs_sb 2 ?x ?V ?x (?V(b := upd_seg (length c mod BSIZE) d (?V b)))"
    using file_write_block(1) [OF I(2) layout_view [OF I(1)], of "length c" d] m d fb by simp
  then have e: "evolves mkfs_sb 2 ?x ?V ?x (view s')"
    by (simp only: vs)
  then show "grown din s din s'"
    using w(2) by (simp add: grown_def s'_def)
  have slot: "file_block ?x (view s') bn = file_block ?x ?V bn" for bn
    using ni by (simp add: file_block_def slot_def vs)
  have other: "file_block ?x ?V bn \<noteq> b" if "bn < m" for bn
    using inode_wfD(5) [OF I(2), of "slot_of m" "slot_of bn"] slot_of_le(1) slot_of_inj [of m bn] that m(2) fb
    by (fastforce simp: file_block_def)
  have le: "bn * BSIZE < length (c @ d) \<longleftrightarrow> bn < Suc m" for bn
  proof -
    have "length c = m * BSIZE + length c mod BSIZE" "0 < length d"
      using d(1) m(1) by simp_all
    then have "m * BSIZE < length (c @ d)" "length (c @ d) \<le> (m + 1) * BSIZE"
      using d(2) unfolding length_append by (simp_all only: add_mult_distrib)
    then show ?thesis
      by (auto simp: BSIZE_def)
  qed
  have blk: "view s' (file_block ?x ?V bn) = blk (c @ d) bn" if "bn < Suc m" for bn
  proof (cases "bn = m")
    case True
    then show ?thesis
      using blk_append(1) [OF d(2)] h m fb by (simp add: vs has_blocks_def)
  next
    case False
    then have "bn < m"
      using that by simp
    then show ?thesis
      using other [of bn] blk_append(2) [OF d(2), of bn] h m by (simp add: vs has_blocks_def)
  qed
  have "length (c @ d) \<le> MAXFILE * BSIZE"
    using le [of MAXFILE] m(2) by (simp add: not_less)
  moreover have "NDIRECT * BSIZE < length (c @ d) \<longleftrightarrow> NDIRECT \<le> m"
    using le [of NDIRECT] by auto
  ultimately show "content_ok din (view s') (c @ d)"
    unfolding content_ok_def slot le using i h blk by (simp add: has_blocks_def)
qed

lemma need_mono: "m \<le> n \<Longrightarrow> need m \<le> need n"
  unfolding need_def by (intro add_mono div_le_mono) auto

lemma iappend_loop_ok:
  assumes "img_ok s" and "ino_wf din s" and "content_ok din (view s) c" and "length (c @ p) \<le> MAXFILE * BSIZE"
    and "unat (freeblock s) + need (length (c @ p)) \<le> FSSIZE + need (length c)"
  shows "\<exists>din' s'. iappend_loop din (length c) p s = Inr (din', length (c @ p), s') \<and> grown din s din' s' \<and>
    content_ok din' (view s') (c @ p) \<and> unat (freeblock s') + need (length c) = unat (freeblock s) + need (length (c @ p))"
  using assms
proof (induction "length p" arbitrary: din s c p rule: less_induct)
  case less
  note I = less.prems(1,2)
  show ?case
  proof (cases "p = []")
    case True
    then show ?thesis
      using less.prems(3) grown_refl [OF I] by (subst iappend_loop.simps) simp
  next
    case False
    define m where "m = length c div BSIZE"
    define n1 where "n1 = min (length p) ((m + 1) * BSIZE - length c)"
    define d where "d = take n1 p"
    have lt: "m * BSIZE \<le> length c" "length c < (m + 1) * BSIZE" "length c - m * BSIZE = length c mod BSIZE"
      using block_end_pos [of "length c"] by (simp_all add: m_def minus_div_mult_eq_mod)
    have n1: "0 < n1" "n1 \<le> length p" "length c + n1 \<le> (m + 1) * BSIZE" "length d = n1" "d \<noteq> []"
      using False lt(2) by (auto simp: n1_def d_def)
    have m: "m < MAXFILE"
      unfolding m_def using less.prems(4) n1(1,2) by (intro div_MAXFILE) simp
    have need: "need (length c + n1) = need (length c + 1)"
      using need_old [of m "length c + 1" "length c + n1"] lt n1 by simp
    have mono: "need (length c + n1) \<le> need (length (c @ p))"
      using n1 by (intro need_mono) simp
    obtain b din1 s1 where 1: "iappend_block m din s = Inr (b, din1, s1)" "grown din s din1 s1" "has_block m c b din1 s1"
      "unat (freeblock s1) + need (length c) = unat (freeblock s) + need (length c + 1)"
      using end_block [OF I less.prems(3) m_def m] need mono less.prems(5) by (metis (no_types, lifting) add_le_mono le_trans nat_add_left_cancel_le)
    have I1: "img_ok s1" "ino_wf din1 s1"
      by (fact grown_wf [OF 1(2)])+
    have d: "length c mod BSIZE + length d \<le> BSIZE"
      using n1(3,4) lt unfolding lt(3) [symmetric] by simp
    note 2 = append_step [OF I1 1(3) m_def m n1(5) d]
    let ?s = "wsect b (upd_seg (length c mod BSIZE) d (view s1 b)) s1"
    have I2: "img_ok ?s" "ino_wf din1 ?s"
      by (fact grown_wf [OF 2(2)])+
    have r: "length (drop n1 p) < length p" "length ((c @ d) @ drop n1 p) = length (c @ p)" "(c @ d) @ drop n1 p = c @ p"
      using n1 False by (simp_all add: d_def)
    have room: "unat (freeblock ?s) + need (length ((c @ d) @ drop n1 p)) \<le> FSSIZE + need (length (c @ d))"
      using less.prems(5) 1(4) need n1(4) r(2) by simp
    obtain din' s' where 3: "iappend_loop din1 (length (c @ d)) (drop n1 p) ?s = Inr (din', length (c @ p), s')" "grown din1 ?s din' s'"
      "content_ok din' (view s') (c @ p)"
      "unat (freeblock s') + need (length (c @ d)) = unat (freeblock ?s) + need (length (c @ p))"
      using less.hyps [OF r(1) I2 2(3) _ room] less.prems(4) r(2,3) by auto
    have "min (length p) (BSIZE + m * BSIZE - length c) = n1"
      by (simp add: n1_def)
    then have "iappend_loop din (length c) p s = iappend_loop din1 (length (c @ d)) (drop n1 p) ?s"
      using False m 1(1) 2(1) lt(3) n1(4)
      by (subst iappend_loop.simps) (simp add: m_def [symmetric] d_def [symmetric] Let_def)
    then show ?thesis
      using 3 1(4) need n1(4) grown_trans [OF 1(2) grown_trans [OF 2(2) 3(2)]] by simp
  qed
qed

section \<open>All files together\<close>

declare of_nat_Suc [simp del]

text \<open>
  The image holds the files \<open>fs\<close>, given by their types and contents, in the inodes from 1 on: no two of them
  share a block, and they take up just the blocks that they need. The other inodes are free.
\<close>

abbreviation dino :: "mkfs \<Rightarrow> nat \<Rightarrow> dinode" where
  "dino s n \<equiv> disk_inode mkfs_sb (view s) (of_nat n)"

definition file_ok :: "mkfs \<Rightarrow> dinode \<Rightarrow> u16 \<times> u8 list \<Rightarrow> bool" where
  "file_ok s din f \<longleftrightarrow> di_type din = fst f \<and> di_nlink din = 1 \<and> di_size din = of_nat (length (snd f)) \<and>
     ino_wf din s \<and> content_ok din (view s) (snd f)"

definition total_need :: "(u16 \<times> u8 list) list \<Rightarrow> nat" where
  "total_need fs = sum_list (map (\<lambda>f. need (length (snd f))) fs)"

definition img_holds :: "(u16 \<times> u8 list) list \<Rightarrow> mkfs \<Rightarrow> bool" where
  "img_holds fs s \<longleftrightarrow> img_ok s \<and> length fs < NINODES \<and> freeinode s = of_nat (Suc (length fs)) \<and>
     unat (freeblock s) = nmeta + total_need fs \<and>
     view s 1 = superblock_bytes mkfs_sb @ replicate (BSIZE - 32) 0 \<and> view s 2 = replicate BSIZE 0 \<and>
     (\<forall>n<length fs. file_ok s (dino s (Suc n)) (fs ! n)) \<and>
     (\<forall>m<length fs. \<forall>n<length fs. m \<noteq> n \<longrightarrow>
        owned (ino (dino s (Suc m))) (view s) \<inter> owned (ino (dino s (Suc n))) (view s) = {}) \<and>
     (\<forall>n<NINODES. length fs < n \<longrightarrow> di_type (dino s n) = 0)"

text \<open>What is written elsewhere does not matter for a file.\<close>

lemma owned_frame:
  assumes "\<forall>b\<in>owned x V. V' b = V b" and "length (i_addrs x) = NDIRECT + 1"
  shows "slot x V' k = slot x V k" and "owned x V' = owned x V" and "file_block x V' bn = file_block x V bn"
proof -
  have "V' (i_addrs x ! NDIRECT) = V (i_addrs x ! NDIRECT)" if "i_addrs x ! NDIRECT \<noteq> 0"
    using assms(1) indirect_owned(1) [OF that] by blast
  then show s: "slot x V' k = slot x V k" for k
    by (auto simp: slot_def)
  then show "owned x V' = owned x V" "file_block x V' bn = file_block x V bn"
    by (simp_all add: owned_def file_block_def)
qed

lemma file_frame:
  assumes I: "img_ok s" "img_ok s'" and f: "file_ok s din f" and same: "\<forall>b\<in>owned (ino din) (view s). view s' b = view s b"
    and le: "unat (freeblock s) \<le> unat (freeblock s')"
  shows "file_ok s' din f" and "owned (ino din) (view s') = owned (ino din) (view s)"
proof -
  have w: "ino_wf din s" and c: "content_ok din (view s) (snd f)"
    using f by (simp_all add: file_ok_def)
  note wd = inode_wfD [OF w]
  note fr = owned_frame [OF same wd(1)]
  show "owned (ino din) (view s') = owned (ino din) (view s)"
    by (rule fr(2))
  have "\<not> free_in mkfs_sb (view s') b" if "b \<in> owned (ino din) (view s)" for b
    using owned_below(1,2) [OF I(1) w that] free_in_view [OF I(2)] le by simp
  then have "ino_wf din s'"
    using wd unfolding inode_wf_def fr by blast
  moreover have "view s' (file_block (ino din) (view s) bn) = view s (file_block (ino din) (view s) bn)"
    if "bn < MAXFILE" "file_block (ino din) (view s) bn \<noteq> 0" for bn
    using same file_block_owned [OF that] by blast
  then have "content_ok din (view s') (snd f)"
    using c unfolding content_ok_def fr by auto
  ultimately show "file_ok s' din f"
    using f by (simp add: file_ok_def)
qed

lemma inode_block:
  assumes "img_ok s" and "n < NINODES"
  shows "unat (IBLOCK (of_nat n) mkfs_sb) < unat (freeblock s)" and "IBLOCK (of_nat n) mkfs_sb \<noteq> 45"
    and "IBLOCK (of_nat n) mkfs_sb \<noteq> 1" and "IBLOCK (of_nat n) mkfs_sb \<noteq> 2" and "unat (IBLOCK (of_nat n) mkfs_sb) < FSSIZE"
proof -
  have "(of_nat n :: u32) < sb_ninodes mkfs_sb"
    using assms(2) by (simp add: mkfs_sb_def NINODES_def word_less_nat_alt)
  note i = IBLOCK_mkfs [OF this]
  show "unat (IBLOCK (of_nat n) mkfs_sb) < unat (freeblock s)" "IBLOCK (of_nat n) mkfs_sb \<noteq> 45" "IBLOCK (of_nat n) mkfs_sb \<noteq> 1"
    "IBLOCK (of_nat n) mkfs_sb \<noteq> 2" "unat (IBLOCK (of_nat n) mkfs_sb) < FSSIZE"
    using i assms(1) by (auto simp: img_ok_def FSSIZE_def)
qed

lemma inum_inj: "k < NINODES \<Longrightarrow> n < NINODES \<Longrightarrow> (of_nat k :: u32) = of_nat n \<Longrightarrow> k = n"
proof -
  assume "k < NINODES" "n < NINODES" and e: "(of_nat k :: u32) = of_nat n"
  moreover have "unat (of_nat i :: u32) = i" if "i < NINODES" for i
    using that by (simp add: NINODES_def)
  ultimately show ?thesis
    by metis
qed

lemma winode_ok:
  assumes "img_ok s" and "n < NINODES" and "length (di_addrs din) = NDIRECT + 1"
  obtains s' where "winode (of_nat n) din s = Inr s'" "img_ok s'" "\<forall>b. b \<noteq> IBLOCK (of_nat n) mkfs_sb \<longrightarrow> view s' b = view s b"
    "freeinode s' = freeinode s" "freeblock s' = freeblock s" "dino s' n = din"
    "\<forall>k<NINODES. k \<noteq> n \<longrightarrow> dino s' k = dino s k"
proof -
  let ?b = "IBLOCK (of_nat n) mkfs_sb"
  let ?s = "wsect ?b (put_dinode (inode_off (of_nat n)) din (view s ?b)) s"
  note b = inode_block [OF assms(1,2)]
  have msb: "msb s = mkfs_sb"
    using assms(1) by (simp add: img_ok_def)
  have "length (put_dinode (inode_off (of_nat n)) din (view s ?b)) = BSIZE"
    using get_put_dinode(2) [of "inode_off (of_nat n)" "view s ?b" din] inode_off_bound assms(1,3) by simp
  note w = wsect_ok [OF assms(1) b(1,2) this]
  have d: "dino ?s k = (if (of_nat k :: u32) = of_nat n then din else dino s k)" for k
    unfolding w(1) using assms(1,3) by (intro disk_inode_put) simp_all
  have inj: "(of_nat k :: u32) \<noteq> of_nat n" if "k < NINODES" "k \<noteq> n" for k
    using inum_inj that assms(2) by blast
  show thesis
    by (rule that [of ?s])
      (use w b msb d inj rsect_ok [OF assms(1) b(5,2)] in \<open>simp_all add: winode_def Let_def\<close>)
qed

lemma img_holdsD:
  assumes "img_holds fs s"
  shows "img_ok s" "length fs < NINODES" "freeinode s = of_nat (Suc (length fs))" "unat (freeblock s) = nmeta + total_need fs"
    "view s 1 = superblock_bytes mkfs_sb @ replicate (BSIZE - 32) 0" "view s 2 = replicate BSIZE 0"
    "n < length fs \<Longrightarrow> file_ok s (dino s (Suc n)) (fs ! n)"
    "m < length fs \<Longrightarrow> n < length fs \<Longrightarrow> m \<noteq> n \<Longrightarrow>
       owned (ino (dino s (Suc m))) (view s) \<inter> owned (ino (dino s (Suc n))) (view s) = {}"
    "n < NINODES \<Longrightarrow> length fs < n \<Longrightarrow> di_type (dino s n) = 0"
  using assms unfolding img_holds_def by blast+

lemma owned_not_inode_block:
  assumes "ino_wf din s" and "b \<in> owned (ino din) (view s)" and "n < NINODES"
  shows "b \<noteq> IBLOCK (of_nat n) mkfs_sb"
proof -
  have "(of_nat n :: u32) < sb_ninodes mkfs_sb"
    using assms(3) by (simp add: mkfs_sb_def NINODES_def word_less_nat_alt)
  then show ?thesis
    using not_metadata(4) [OF inode_wfD(4) [OF assms(1,2)]] by blast
qed

lemma total_need_append [simp]: "total_need (fs @ gs) = total_need fs + total_need gs"
  by (simp add: total_need_def)

lemma need_0 [simp]: "need 0 = 0"
  by (simp add: need_def BSIZE_def)

lemma empty_file:
  assumes "img_ok s" and "di_addrs din = replicate (NDIRECT + 1) 0"
  shows "ino_wf din s" and "content_ok din (view s) []" and "owned (ino din) (view s) = {}"
proof -
  have s: "slot (ino din) (view s) k = 0" for k
    using assms(2) by (simp add: slot_def nth_append del: replicate.simps)
  then show o: "owned (ino din) (view s) = {}"
    by (simp add: owned_def)
  show "ino_wf din s"
    using o s assms(2) by (simp add: inode_wf_def)
  show "content_ok din (view s) []"
    using s assms(2) by (simp add: content_ok_def file_block_def nth_append del: replicate.simps)
qed

lemma ialloc_mk_ok:
  assumes H: "img_holds fs s" and n: "Suc (length fs) < NINODES"
  obtains s' where "ialloc_mk t s = Inr (of_nat (Suc (length fs)), s')" "img_holds (fs @ [(t, [])]) s'"
proof -
  note D = img_holdsD [OF H]
  let ?n = "Suc (length fs)" and ?t = "s\<lparr>freeinode := freeinode s + 1\<rparr>"
  let ?din = "\<lparr>di_type = t, di_major = 0, di_minor = 0, di_nlink = 1, di_size = 0, di_addrs = replicate (NDIRECT + 1) 0\<rparr>"
  have v: "view ?t = view s"
    by (simp add: view_def fun_eq_iff)
  have t: "img_ok ?t"
    using D(1) unfolding img_ok_def v by simp
  obtain s' where w: "winode (of_nat ?n) ?din ?t = Inr s'" "img_ok s'" "\<forall>b. b \<noteq> IBLOCK (of_nat ?n) mkfs_sb \<longrightarrow> view s' b = view ?t b"
    "freeinode s' = freeinode ?t" "freeblock s' = freeblock ?t" "dino s' ?n = ?din" "\<forall>k<NINODES. k \<noteq> ?n \<longrightarrow> dino s' k = dino ?t k"
    by (rule winode_ok [OF t n, of ?din]) simp_all
  have old: "file_ok s' (dino s' (Suc k)) (fs ! k)" "owned (ino (dino s' (Suc k))) (view s') = owned (ino (dino s (Suc k))) (view s)"
    if "k < length fs" for k
  proof -
    have f: "file_ok s (dino s (Suc k)) (fs ! k)" "dino s' (Suc k) = dino s (Suc k)"
      using D(7) [OF that] w(7) that n v by simp_all
    have "\<forall>b\<in>owned (ino (dino s (Suc k))) (view s). view s' b = view s b"
      using w(3) v owned_not_inode_block [OF _ _ n] f(1) by (auto simp: file_ok_def)
    then show "file_ok s' (dino s' (Suc k)) (fs ! k)" "owned (ino (dino s' (Suc k))) (view s') = owned (ino (dino s (Suc k))) (view s)"
      using file_frame [OF D(1) w(2) f(1)] w(5) f(2) by simp_all
  qed
  note new = empty_file [OF w(2), of ?din]
  have "img_holds (fs @ [(t, [])]) s'"
    unfolding img_holds_def
  proof (intro conjI allI impI)
    show "file_ok s' (dino s' (Suc k)) ((fs @ [(t, [])]) ! k)" if "k < length (fs @ [(t, [])])" for k
      using old(1) [of k] new w(6) that by (cases "k = length fs") (simp_all add: file_ok_def nth_append)
    show "owned (ino (dino s' (Suc j))) (view s') \<inter> owned (ino (dino s' (Suc k))) (view s') = {}"
      if "j < length (fs @ [(t, [])])" "k < length (fs @ [(t, [])])" "j \<noteq> k" for j k
      using old(2) [of j] old(2) [of k] new(3) w(6) D(8) [of j k] that by (cases "j = length fs"; cases "k = length fs") simp_all
    show "di_type (dino s' k) = 0" if "k < NINODES" "length (fs @ [(t, [])]) < k" for k
      using D(9) [of k] w(7) v that by simp
    show "view s' 1 = superblock_bytes mkfs_sb @ replicate (BSIZE - 32) 0" "view s' 2 = replicate BSIZE 0"
      using D(5,6) w(3) v inode_block(3,4) [OF t n] by simp_all
    show "unat (freeblock s') = nmeta + total_need (fs @ [(t, [])])"
      using D(4) w(5) by (simp add: total_need_def)
    show "freeinode s' = of_nat (Suc (length (fs @ [(t, [])])))"
      using w(4) D(3) by (simp add: of_nat_Suc)
  qed (use w D n in simp_all)
  then show thesis
    using w(1) D(3) by (intro that) (simp_all add: ialloc_mk_def Let_def)
qed

lemma total_need_update:
  assumes "n < length fs"
  shows "total_need (fs[n := f]) + need (length (snd (fs ! n))) = total_need fs + need (length (snd f))"
proof -
  have fs: "fs = take n fs @ fs ! n # drop (Suc n) fs" "fs[n := f] = take n fs @ f # drop (Suc n) fs"
    using assms by (simp_all add: id_take_nth_drop upd_conv_take_nth_drop)
  show ?thesis
    by (subst fs(2), subst (3) fs(1)) (simp add: total_need_def)
qed

lemma ino_size [simp]:
  "slot (ino (din\<lparr>di_size := z\<rparr>)) V = slot (ino din) V" "owned (ino (din\<lparr>di_size := z\<rparr>)) V = owned (ino din) V"
  "inode_wf y start (ino (din\<lparr>di_size := z\<rparr>)) V = inode_wf y start (ino din) V"
  "content_ok (din\<lparr>di_size := z\<rparr>) V c = content_ok din V c"
proof -
  show s: "slot (ino (din\<lparr>di_size := z\<rparr>)) V = slot (ino din) V"
    by (simp add: slot_def fun_eq_iff)
  then show "owned (ino (din\<lparr>di_size := z\<rparr>)) V = owned (ino din) V"
    "inode_wf y start (ino (din\<lparr>di_size := z\<rparr>)) V = inode_wf y start (ino din) V"
    "content_ok (din\<lparr>di_size := z\<rparr>) V c = content_ok din V c"
    by (simp_all add: owned_def inode_wf_def content_ok_def file_block_def)
qed

text \<open>What appending to one file leaves alone.\<close>

lemma grown_same:
  assumes I: "img_ok s" "ino_wf d s" and g: "grown d s din s1" and b: "unat b < unat (freeblock s)" "b \<noteq> 45" "b \<notin> owned (ino d) (view s)"
  shows "view s1 b = view s b"
proof -
  have "unat b < FSSIZE"
    using I(1) b(1) by (simp add: img_ok_def)
  then have "b \<notin> free_blocks mkfs_sb (view s)"
    using free_in_view [OF I(1)] b(1) by (simp add: free_blocks_def)
  moreover have "b \<noteq> BBLOCK d mkfs_sb" if "d < sb_size mkfs_sb" for d
    using that b(2) by (subst BBLOCK_mkfs) (simp_all add: size_mkfs FSSIZE_def BPB_val)
  ultimately show ?thesis
    using g b(3) unfolding grown_def evolves_def by blast
qed

lemma grown_low:
  assumes I: "img_ok s" "ino_wf d s" and g: "grown d s din s1"
  shows "unat b < 46 \<Longrightarrow> b \<noteq> 45 \<Longrightarrow> view s1 b = view s b" and "k < NINODES \<Longrightarrow> dino s1 k = dino s k"
proof -
  show low: "view s1 b = view s b" if "unat b < 46" "b \<noteq> 45" for b
    using grown_same [OF I g, of b] owned_below(4) [OF I] that I(1) by (force simp: img_ok_def)
  assume "k < NINODES"
  then have "(of_nat k :: u32) < sb_ninodes mkfs_sb"
    by (simp add: mkfs_sb_def NINODES_def word_less_nat_alt)
  note i = IBLOCK_mkfs [OF this]
  then show "dino s1 k = dino s k"
    using low [of "IBLOCK (of_nat k) mkfs_sb"] by (force simp: disk_inode_def)
qed

lemma iappend_ok:
  assumes H: "img_holds fs s" and n: "n < length fs" and f: "fs ! n = (t, c)" and max: "length (c @ p) \<le> MAXFILE * BSIZE"
    and room: "nmeta + total_need (fs[n := (t, c @ p)]) \<le> FSSIZE"
  obtains s' where "iappend (of_nat (Suc n)) p s = Inr s'" "img_holds (fs[n := (t, c @ p)]) s'"
proof -
  note D = img_holdsD [OF H]
  let ?d = "dino s (Suc n)" and ?fs = "fs[n := (t, c @ p)]"
  have N: "Suc k < NINODES" if "k < length fs" for k
    using that D(2) by simp
  have F: "file_ok s ?d (t, c)"
    using D(7) [OF n] f by simp
  then have w: "ino_wf ?d s" "content_ok ?d (view s) c" "di_size ?d = of_nat (length c)"
    by (simp_all add: file_ok_def)
  have sz: "unat (di_size ?d) = length c"
    using w(3) content_okD(1) [OF w(2)] by (simp add: NDIRECT_val BSIZE_def)
  have tn: "total_need ?fs + need (length c) = total_need fs + need (length (c @ p))"
    using total_need_update [OF n, of "(t, c @ p)"] f by simp
  obtain din s1 where 1: "iappend_loop ?d (length c) p s = Inr (din, length (c @ p), s1)" "grown ?d s din s1"
    "content_ok din (view s1) (c @ p)" "unat (freeblock s1) + need (length c) = unat (freeblock s) + need (length (c @ p))"
    using iappend_loop_ok [OF D(1) w(1,2) max] room D(4) tn by auto
  have I1: "img_ok s1" "ino_wf din s1" and ev: "evolves mkfs_sb 2 (ino ?d) (view s) (ino din) (view s1)" "freeinode s1 = freeinode s"
    "din = ?d\<lparr>di_addrs := di_addrs din\<rparr>"
    using grown_wf [OF 1(2)] 1(2) by (simp_all add: grown_def)
  let ?din = "din\<lparr>di_size := of_nat (length (c @ p))\<rparr>"
  have len: "length (di_addrs ?din) = NDIRECT + 1"
    using inode_wfD(1) [OF I1(2)] by simp
  obtain s' where 2: "winode (of_nat (Suc n)) ?din s1 = Inr s'" "img_ok s'"
    "\<forall>b. b \<noteq> IBLOCK (of_nat (Suc n)) mkfs_sb \<longrightarrow> view s' b = view s1 b"
    "freeinode s' = freeinode s1" "freeblock s' = freeblock s1" "dino s' (Suc n) = ?din" "\<forall>k<NINODES. k \<noteq> Suc n \<longrightarrow> dino s' k = dino s1 k"
    by (rule winode_ok [OF I1(1) N [OF n] len])
  have "rinode (of_nat (Suc n)) s = Inr ?d"
    using rsect_ok [OF D(1) inode_block(5,2) [OF D(1) N [OF n]]] D(1) by (simp add: rinode_def img_ok_def disk_inode_def)
  then have "iappend (of_nat (Suc n)) p s = Inr s'"
    using 1(1) 2(1) sz by (simp add: iappend_def)
  moreover have old: "dino s' (Suc k) = dino s (Suc k)" "file_ok s' (dino s' (Suc k)) (fs ! k)"
    "owned (ino (dino s' (Suc k))) (view s') = owned (ino (dino s (Suc k))) (view s)" if k: "k < length fs" "k \<noteq> n" for k
  proof -
    let ?k = "dino s (Suc k)"
    show e: "dino s' (Suc k) = ?k"
      using 2(7) grown_low(2) [OF D(1) w(1) 1(2)] N [OF k(1)] k(2) by simp
    have f: "file_ok s ?k (fs ! k)" "ino_wf ?k s"
      using D(7) [OF k(1)] by (simp_all add: file_ok_def)
    have "view s' b = view s b" if b: "b \<in> owned (ino ?k) (view s)" for b
    proof -
      have "b \<notin> owned (ino ?d) (view s)"
        using D(8) [OF k(1) n k(2)] b by blast
      then have "view s1 b = view s b"
        using grown_same [OF D(1) w(1) 1(2)] owned_below [OF D(1) f(2) b] by blast
      then show ?thesis
        using 2(3) owned_not_inode_block [OF f(2) b N [OF n]] by simp
    qed
    then show "file_ok s' (dino s' (Suc k)) (fs ! k)" "owned (ino (dino s' (Suc k))) (view s') = owned (ino ?k) (view s)"
      using file_frame [OF D(1) 2(2) f(1)] 1(4) 2(5) need_mono [of "length c" "length (c @ p)"] unfolding e by simp_all
  qed
  have new: "file_ok s1 ?din (t, c @ p)"
    using F 1(3) I1(2) ev(3) by (simp add: file_ok_def) (metis dinode.select_convs(1,4) dinode.surjective dinode.update_convs(6))
  have same: "\<forall>b\<in>owned (ino ?din) (view s1). view s' b = view s1 b"
    using 2(3) owned_not_inode_block [OF I1(2) _ N [OF n]] by auto
  note new' = file_frame [OF I1(1) 2(2) new same]
  have dis: "owned (ino ?din) (view s') \<inter> owned (ino (dino s (Suc k))) (view s) = {}" if k: "k < length fs" "k \<noteq> n" for k
  proof -
    have f: "ino_wf (dino s (Suc k)) s"
      using D(7) [OF k(1)] by (simp add: file_ok_def)
    have "owned (ino din) (view s1) \<subseteq> owned (ino ?d) (view s) \<union> free_blocks mkfs_sb (view s)"
      using ev(1) unfolding evolves_def by blast
    moreover have "b \<notin> free_blocks mkfs_sb (view s)" if "b \<in> owned (ino (dino s (Suc k))) (view s)" for b
      using owned_below(1,2) [OF D(1) f that] free_in_view [OF D(1)] by (simp add: free_blocks_def)
    ultimately show ?thesis
      using D(8) [OF n k(1)] k(2) new'(2) 2(5) by auto
  qed
  have "img_holds ?fs s'"
    unfolding img_holds_def
  proof (intro conjI allI impI)
    show "file_ok s' (dino s' (Suc k)) (?fs ! k)" if "k < length ?fs" for k
      using old(2) [of k] new'(1) 2(5,6) that by (cases "k = n") simp_all
    show "owned (ino (dino s' (Suc j))) (view s') \<inter> owned (ino (dino s' (Suc k))) (view s') = {}"
      if "j < length ?fs" "k < length ?fs" "j \<noteq> k" for j k
      using old(3) [of j] old(3) [of k] dis [of j] dis [of k] D(8) [of j k] 2(6) that
      by (cases "j = n"; cases "k = n") (simp_all add: Int_commute)
    show "di_type (dino s' k) = 0" if "k < NINODES" "length ?fs < k" for k
      using D(9) [of k] 2(7) grown_low(2) [OF D(1) w(1) 1(2)] n that by simp
    show "view s' 1 = superblock_bytes mkfs_sb @ replicate (BSIZE - 32) 0" "view s' 2 = replicate BSIZE 0"
      using D(5,6) 2(3) grown_low(1) [OF D(1) w(1) 1(2)] inode_block(3,4) [OF I1(1) N [OF n]] by simp_all
    show "unat (freeblock s') = nmeta + total_need ?fs"
      using D(4) 1(4) 2(5) tn by simp
  qed (use 2 ev(2) D in simp_all)
  ultimately show thesis
    by (rule that)
qed

section \<open>The main program\<close>

lemma mkfs_consts: "nmeta = 46" "msb mkfs_start = mkfs_sb" "freeblock mkfs_start = 46" "freeinode mkfs_start = 1"
proof -
  show n: "nmeta = 46"
    by (simp add: nmeta_def nlog_def ninodeblocks_def nbitmap_def LOGSIZE_def MAXOPBLOCKS_def NINODES_def FSSIZE_def BSIZE_def NDIRECT_val)
  show "msb mkfs_start = mkfs_sb" "freeblock mkfs_start = 46" "freeinode mkfs_start = 1"
    by (simp_all add: n mkfs_start_def mkfs_sb_def FSMAGIC_def nlog_def ninodeblocks_def LOGSIZE_def MAXOPBLOCKS_def NINODES_def
        FSSIZE_def BSIZE_def NDIRECT_val)
qed

lemma zero_sectors:
  "n \<le> FSSIZE \<Longrightarrow> fold (\<lambda>i. wsect (of_nat i) (replicate BSIZE 0)) [0..<n] mkfs_start =
    mkfs_start\<lparr>sects := replicate n (replicate BSIZE 0)\<rparr>"
proof (induction n)
  case 0
  then show ?case
    by (simp add: mkfs_start_def)
next
  case (Suc n)
  have "unat (of_nat n :: u32) = n"
    using Suc.prems by (simp add: FSSIZE_def)
  then have "sect_at (of_nat n) = n"
    using Suc.prems sect_at_eq [of "of_nat n"] by simp
  then show ?case
    using Suc by (simp add: wsect_def replicate_append_same)
qed

lemma length_superblock_bytes [simp]: "length (superblock_bytes x) = 32"
  by (simp add: superblock_bytes_def)

definition mkfs_empty :: mkfs where
  "mkfs_empty = mkfs_start\<lparr>sects := (replicate FSSIZE (replicate BSIZE 0))[1 := superblock_bytes mkfs_sb @ replicate (BSIZE - 32) 0]\<rparr>"

lemma mkfs_main_eq:
  "mkfs_main k files =
     bindE (ialloc_mk T_DIR mkfs_empty) (\<lambda>(rootino, s).
      if rootino \<noteq> ROOTINO then Inl (Panic ''rootino == ROOTINO'')
      else
        bindE (iappend rootino (dirent_bytes rootino (ascii ''.'')) s) (\<lambda>s.
        bindE (iappend rootino (dirent_bytes rootino (ascii ''..'')) s) (\<lambda>s.
        bindE (foreach (add_file k) files s) (\<lambda>s.
        bindE (fix_root s) (\<lambda>s.
        balloc_mk (sint (freeblock s)) s)))))"
proof -
  have "sect_at 1 = 1"
    using sect_at_eq [of 1] by (simp add: FSSIZE_def)
  then have "wsect 1 (upd_seg 0 (superblock_bytes mkfs_sb) (replicate BSIZE 0)) (mkfs_start\<lparr>sects := replicate FSSIZE (replicate BSIZE 0)\<rparr>) = mkfs_empty"
    by (simp add: wsect_def mkfs_empty_def upd_seg_def FSSIZE_def)
  then show ?thesis
    using zero_sectors [of FSSIZE] by (simp add: mkfs_main_def mkfs_consts(2) Let_def)
qed

lemma view_empty: "view mkfs_empty b = (if b = 45 then marks 46
  else if b = 1 then superblock_bytes mkfs_sb @ replicate (BSIZE - 32) 0 else replicate BSIZE 0)"
proof -
  have "unat b = 1 \<longleftrightarrow> b = 1"
    by (simp add: word_unat_eq_iff)
  then show ?thesis
    by (auto simp: view_def mkfs_empty_def mkfs_consts(3) nth_list_update FSSIZE_def)
qed

lemma get16_zeros: "get16 i (replicate n 0) = 0"
proof -
  have "bit (get16 i (replicate n 0)) j = False" for j
    by (auto simp: get16_def bit_le_word seg_def)
  then show ?thesis
    by (intro bit_eqI) simp
qed

lemma empty_holds: "img_holds [] mkfs_empty"
proof -
  have ok: "img_ok mkfs_empty"
    unfolding img_ok_def
  proof (intro conjI allI impI)
    show "view mkfs_empty b = replicate BSIZE 0" if "unat (freeblock mkfs_empty) \<le> unat b" for b
    proof -
      have "b \<noteq> 45" "b \<noteq> 1"
        using that by (auto simp: mkfs_empty_def mkfs_consts(3))
      then show ?thesis
        by (simp add: view_empty)
    qed
    show "\<forall>d\<in>set (sects mkfs_empty). length d = BSIZE"
      using set_update_subset_insert [of "replicate FSSIZE (replicate BSIZE (0 :: u8))" 1 "superblock_bytes mkfs_sb @ replicate (BSIZE - 32) 0"]
      by (auto simp: mkfs_empty_def BSIZE_def)
  qed (simp_all add: mkfs_empty_def mkfs_consts FSSIZE_def)
  have "di_type (dino mkfs_empty n) = 0" if "n < NINODES" for n
  proof -
    have "view mkfs_empty (IBLOCK (of_nat n) mkfs_sb) = replicate BSIZE 0"
      using inode_block [OF ok that] by (simp add: view_empty)
    then show ?thesis
      by (simp add: disk_inode_def get_dinode_def get16_zeros)
  qed
  then show ?thesis
    using ok by (simp add: img_holds_def mkfs_consts view_empty total_need_def mkfs_empty_def [THEN arg_cong, of freeinode]
        mkfs_empty_def [THEN arg_cong, of freeblock] NINODES_def of_nat_Suc)
qed

text \<open>The files in the image: the directory, and the files of the command line.\<close>

primrec dir_entries :: "nat \<Rightarrow> u8 list list \<Rightarrow> u8 list" where
  "dir_entries n [] = []"
| "dir_entries n (x # xs) = dirent_bytes (of_nat n) x @ dir_entries (Suc n) xs"

definition root_bytes :: "u8 list list \<Rightarrow> u8 list" where
  "root_bytes names = dirent_bytes 1 (ascii ''.'') @ dirent_bytes 1 (ascii ''..'') @ dir_entries 2 names"

definition image_of :: "(u8 list \<times> u8 list) list \<Rightarrow> (u16 \<times> u8 list) list" where
  "image_of fs = (T_DIR, root_bytes (map fst fs)) # map (\<lambda>f. (T_FILE, snd f)) fs"

lemma length_dirent_bytes [simp]: "length (dirent_bytes i x) = 16"
  by (simp add: dirent_bytes_def DIRSIZ_def)

lemma length_dir_entries [simp]: "length (dir_entries n xs) = 16 * length xs"
  by (induction xs arbitrary: n) simp_all

lemma total_need_mono:
  assumes "n < length fs" and "length (snd f) \<le> length (snd g)"
  shows "total_need (fs[n := f]) \<le> total_need (fs[n := g])"
  using total_need_update [OF assms(1), of f] total_need_update [OF assms(1), of g] need_mono [OF assms(2)] by simp

lemma copy_file_ok:
  assumes "img_holds fs s" and "n < length fs" and "fs ! n = (t, take pos inp)" and "pos \<le> length inp"
    and "length inp \<le> MAXFILE * BSIZE" and "nmeta + total_need (fs[n := (t, inp)]) \<le> FSSIZE"
  shows "\<exists>s'. copy_file k inp pos (of_nat (Suc n)) s = Inr s' \<and> img_holds (fs[n := (t, inp)]) s'"
  using assms
proof (induction "length inp - pos" arbitrary: pos fs s rule: less_induct)
  case less
  let ?buf = "read_some k inp pos BSIZE"
  show ?case
  proof (cases "?buf = []")
    case True
    then have "pos = length inp"
      using less.prems(4) by (simp add: read_some_def BSIZE_def)
    then have "fs[n := (t, inp)] = fs"
      using less.prems(2,3) by (simp add: list_update_same_conv)
    then show ?thesis
      using True less.prems(1) by (subst copy_file.simps) simp
  next
    case False
    let ?pos = "pos + length ?buf"
    have b: "take pos inp @ ?buf = take ?pos inp" "?pos \<le> length inp"
      using less.prems(4) by (auto simp: read_some_def take_add min_def)
    have room: "nmeta + total_need (fs[n := (t, take ?pos inp)]) \<le> FSSIZE"
      using total_need_mono [OF less.prems(2), of "(t, take ?pos inp)" "(t, inp)"] less.prems(6) by simp
    obtain s1 where 1: "iappend (of_nat (Suc n)) ?buf s = Inr s1" "img_holds (fs[n := (t, take ?pos inp)]) s1"
      using iappend_ok [OF less.prems(1,2,3), of ?buf] b less.prems(5) room by auto
    have "length inp - ?pos < length inp - pos"
      using False b(2) by (cases ?buf) simp_all
    then have "\<exists>s'. copy_file k inp ?pos (of_nat (Suc n)) s1 = Inr s' \<and> img_holds ((fs[n := (t, take ?pos inp)])[n := (t, inp)]) s'"
      using less.hyps [of ?pos "fs[n := (t, take ?pos inp)]" s1] 1(2) less.prems b(2) by simp
    then show ?thesis
      using 1(1) False by (subst copy_file.simps) (simp add: Let_def)
  qed
qed

lemma add_file_ok:
  assumes H: "img_holds (r # gs) s" and r: "r = (T_DIR, d)" and name: "shortname arg = Inr name"
    and n: "length gs + 2 < NINODES" and max: "length d + 16 \<le> MAXFILE * BSIZE" "length c \<le> MAXFILE * BSIZE"
  defines "fs \<equiv> (T_DIR, d @ dirent_bytes (of_nat (length gs + 2)) name) # gs @ [(T_FILE, c)]"
  assumes room: "nmeta + total_need fs \<le> FSSIZE"
  shows "\<exists>s'. add_file k (arg, Some c) s = Inr s' \<and> img_holds fs s'"
proof -
  let ?i = "length gs + 2" and ?d = "d @ dirent_bytes (of_nat (length gs + 2)) name"
  obtain s1 where 1: "ialloc_mk T_FILE s = Inr (of_nat ?i, s1)" "img_holds (r # gs @ [(T_FILE, [])]) s1"
    using ialloc_mk_ok [OF H, of T_FILE] n by (auto simp: numeral_2_eq_2)
  have "nmeta + total_need ((r # gs @ [(T_FILE, [])])[0 := (T_DIR, ?d)]) \<le> FSSIZE"
    using room by (simp add: fs_def total_need_def)
  then obtain s2 where 2: "iappend (of_nat (Suc 0)) (dirent_bytes (of_nat ?i) name) s1 = Inr s2"
    "img_holds ((T_DIR, ?d) # gs @ [(T_FILE, [])]) s2"
    using iappend_ok [OF 1(2), of 0 T_DIR d "dirent_bytes (of_nat ?i) name"] r max(1) by auto
  have upd: "((T_DIR, ?d) # gs @ [(T_FILE, [])])[Suc (length gs) := (T_FILE, c)] = fs"
    by (simp add: fs_def)
  obtain s3 where 3: "copy_file k c 0 (of_nat ?i) s2 = Inr s3" "img_holds fs s3"
    using copy_file_ok [OF 2(2), of "Suc (length gs)" T_FILE 0 c k] max(2) room unfolding upd by auto
  show ?thesis
    using name 1(1) 2(1) 3 by (simp add: add_file_def ROOTINO_def of_nat_Suc)
qed

definition args_ok :: "(u8 list \<times> u8 list option) list \<Rightarrow> (u8 list \<times> u8 list) list \<Rightarrow> bool" where
  "args_ok args fs \<longleftrightarrow> list_all2 (\<lambda>a f. shortname (fst a) = Inr (fst f) \<and> snd a = Some (snd f)) args fs"

lemma total_need_le: "total_need fs \<le> total_need (fs @ gs)"
  by simp

lemma add_files_ok:
  assumes "args_ok args fs" and "img_holds ((T_DIR, d) # gs) s" and "length gs + length fs + 1 < NINODES"
    and "length d + 16 * length fs \<le> MAXFILE * BSIZE" and "list_all (\<lambda>f. length (snd f) \<le> MAXFILE * BSIZE) fs"
    and "nmeta + total_need ((T_DIR, d @ dir_entries (length gs + 2) (map fst fs)) # gs @ map (\<lambda>f. (T_FILE, snd f)) fs) \<le> FSSIZE"
  shows "\<exists>s'. foreach (add_file k) args s = Inr s' \<and>
    img_holds ((T_DIR, d @ dir_entries (length gs + 2) (map fst fs)) # gs @ map (\<lambda>f. (T_FILE, snd f)) fs) s'"
  using assms unfolding args_ok_def
proof (induction arbitrary: d gs s rule: list_all2_induct)
  case Nil
  then show ?case
    by simp
next
  case (Cons a args f fs)
  let ?d = "d @ dirent_bytes (of_nat (length gs + 2)) (fst f)" and ?gs = "gs @ [(T_FILE, snd f)]"
  have "need (length ?d) \<le> need (length (d @ dir_entries (length gs + 2) (map fst (f # fs))))"
    by (intro need_mono) simp
  then have "total_need ((T_DIR, ?d) # ?gs) \<le>
    total_need ((T_DIR, d @ dir_entries (length gs + 2) (map fst (f # fs))) # gs @ map (\<lambda>f. (T_FILE, snd f)) (f # fs))"
    by (simp add: total_need_def)
  then have room: "nmeta + total_need ((T_DIR, ?d) # ?gs) \<le> FSSIZE"
    using Cons.prems(5) by simp
  obtain s1 where 1: "add_file k (fst a, Some (snd f)) s = Inr s1" "img_holds ((T_DIR, ?d) # ?gs) s1"
    using add_file_ok [OF Cons.prems(1) refl, of "fst a" "fst f" "snd f" k] Cons.hyps(1) Cons.prems(2,3,4) room by auto
  have "\<exists>s'. foreach (add_file k) args s1 = Inr s' \<and>
    img_holds ((T_DIR, ?d @ dir_entries (length ?gs + 2) (map fst fs)) # ?gs @ map (\<lambda>f. (T_FILE, snd f)) fs) s'"
    using Cons.IH [OF 1(2)] Cons.prems(2,3,4,5) by simp
  then show ?case
    using 1(1) Cons.hyps(1) by (cases a) simp
qed

section \<open>The finished image\<close>

definition disk_of :: "mkfs \<Rightarrow> u32 \<Rightarrow> u8 list" where
  "disk_of s b = (if unat b < length (sects s) then sects s ! unat b else replicate BSIZE 0)"

text \<open>
  The disk has the files \<open>fs\<close>, given by type and content, in the inodes from 1 on; the first of them, the
  root directory, has the size \<open>z\<close>. The inodes are well-formed and share no block, all other inodes are
  free, and so are all other blocks.
\<close>

definition holds_files :: "(u16 \<times> u8 list) list \<Rightarrow> nat \<Rightarrow> (u32 \<Rightarrow> u8 list) \<Rightarrow> bool" where
  "holds_files fs z D \<longleftrightarrow>
     (\<forall>n<length fs. let din = disk_inode mkfs_sb D (of_nat (Suc n)); c = snd (fs ! n) in
        di_type din = fst (fs ! n) \<and> di_nlink din = 1 \<and> di_size din = of_nat (if n = 0 then z else length c) \<and>
        inode_wf mkfs_sb 2 (ino din) D \<and> file_bytes (ino din) D 0 (length c) = c) \<and>
     (\<forall>m<length fs. \<forall>n<length fs. m \<noteq> n \<longrightarrow>
        owned (ino (disk_inode mkfs_sb D (of_nat (Suc m)))) D \<inter> owned (ino (disk_inode mkfs_sb D (of_nat (Suc n)))) D = {}) \<and>
     (\<forall>n<NINODES. length fs < n \<longrightarrow> di_type (disk_inode mkfs_sb D (of_nat n)) = 0) \<and>
     free_blocks mkfs_sb D = {b. nmeta + total_need fs \<le> unat b \<and> unat b < FSSIZE}"

lemma file_bytes_content:
  assumes "content_ok din V c"
  shows "file_bytes (ino din) V 0 (length c) = c"
proof (rule nth_equalityI)
  show "length (file_bytes (ino din) V 0 (length c)) = length c"
    by (simp add: file_bytes_def)
  fix i
  assume "i < length (file_bytes (ino din) V 0 (length c))"
  then have i: "i < length c"
    by (simp add: file_bytes_def)
  then have m: "i div BSIZE < MAXFILE"
    using content_okD(1) [OF assms] by (intro div_MAXFILE) simp
  have b: "V (file_block (ino din) V (i div BSIZE)) = blk c (i div BSIZE)"
    using content_okD(3) [OF assms m le_less_trans [OF div_times_less_eq_dividend i]] by simp
  have "i mod BSIZE < length c - i div BSIZE * BSIZE"
    using i div_mult_mod_eq [of i BSIZE] by linarith
  then have "blk c (i div BSIZE) ! (i mod BSIZE) = c ! i"
    by (simp add: blk_def nth_append)
  then show "file_bytes (ino din) V 0 (length c) ! i = c ! i"
    using i b by (simp add: file_bytes_def file_byte_def)
qed

lemma free_blocks_view:
  "img_ok s \<Longrightarrow> free_blocks mkfs_sb (view s) = {b. unat (freeblock s) \<le> unat b \<and> unat b < FSSIZE}"
  using free_in_view by (auto simp: free_blocks_def size_mkfs)

lemma resize_root:
  assumes H: "img_holds fs s" and n: "0 < length fs"
  obtains s' where "winode (of_nat (Suc 0)) ((dino s (Suc 0))\<lparr>di_size := of_nat z\<rparr>) s = Inr s'" "img_ok s'" "holds_files fs z (view s')"
    "freeblock s' = freeblock s" "view s' 1 = view s 1" "view s' 2 = view s 2"
proof -
  note D = img_holdsD [OF H]
  let ?d = "dino s (Suc 0)"
  have N: "Suc k < NINODES" if "k < length fs" for k
    using that D(2) by simp
  have F: "file_ok s (dino s (Suc k)) (fs ! k)" if "k < length fs" for k
    by (rule D(7) [OF that])
  have len: "length (di_addrs (?d\<lparr>di_size := of_nat z\<rparr>)) = NDIRECT + 1"
    using F [OF n] inode_wfD(1) [of mkfs_sb 2 "ino ?d" "view s"] by (simp add: file_ok_def)
  obtain s' where w: "winode (of_nat (Suc 0)) (?d\<lparr>di_size := of_nat z\<rparr>) s = Inr s'" "img_ok s'"
    "\<forall>b. b \<noteq> IBLOCK (of_nat (Suc 0)) mkfs_sb \<longrightarrow> view s' b = view s b"
    "freeinode s' = freeinode s" "freeblock s' = freeblock s" "dino s' (Suc 0) = ?d\<lparr>di_size := of_nat z\<rparr>"
    "\<forall>k<NINODES. k \<noteq> Suc 0 \<longrightarrow> dino s' k = dino s k"
    by (rule winode_ok [OF D(1) N [OF n] len])
  have f: "file_ok s' (dino s (Suc k)) (fs ! k)" "owned (ino (dino s (Suc k))) (view s') = owned (ino (dino s (Suc k))) (view s)"
    if "k < length fs" for k
  proof -
    have "\<forall>b\<in>owned (ino (dino s (Suc k))) (view s). view s' b = view s b"
      using w(3) owned_not_inode_block [OF _ _ N [OF n]] F [OF that] by (auto simp: file_ok_def)
    then show "file_ok s' (dino s (Suc k)) (fs ! k)" "owned (ino (dino s (Suc k))) (view s') = owned (ino (dino s (Suc k))) (view s)"
      using file_frame [OF D(1) w(2) F [OF that]] w(5) by simp_all
  qed
  have o: "owned (ino (dino s' (Suc k))) (view s') = owned (ino (dino s (Suc k))) (view s)" if "k < length fs" for k
    using f(2) [OF that] w(6,7) N [OF that] by (cases "k = 0") simp_all
  have "holds_files fs z (view s')"
    unfolding holds_files_def
  proof (intro conjI allI impI)
    show "let din = dino s' (Suc k); c = snd (fs ! k) in di_type din = fst (fs ! k) \<and> di_nlink din = 1 \<and>
      di_size din = of_nat (if k = 0 then z else length c) \<and> ino_wf din s' \<and> file_bytes (ino din) (view s') 0 (length c) = c"
      if "k < length fs" for k
      using f(1) [OF that] w(6,7) N [OF that] file_bytes_content [of "dino s' (Suc k)" "view s'" "snd (fs ! k)"]
      by (cases "k = 0") (simp_all add: Let_def file_ok_def)
    show "owned (ino (dino s' (Suc j))) (view s') \<inter> owned (ino (dino s' (Suc k))) (view s') = {}"
      if "j < length fs" "k < length fs" "j \<noteq> k" for j k
      using D(8) [OF that] o that by simp
    show "di_type (dino s' k) = 0" if "k < NINODES" "length fs < k" for k
      using D(9) [OF that] w(7) that n by (cases "k = Suc 0") auto
    show "free_blocks mkfs_sb (view s') = {b. nmeta + total_need fs \<le> unat b \<and> unat b < FSSIZE}"
      using free_blocks_view [OF w(2)] w(5) D(4) by simp
  qed
  then show thesis
    using w(1,2,3,5) inode_block(3,4) [OF D(1) N [OF n]] by (intro that [of s']) simp_all
qed

lemma balloc_mk_ok:
  assumes "img_ok s"
  obtains s' where "balloc_mk (sint (freeblock s)) s = Inr s'" "disk_of s' = view s" "length (sects s') = FSSIZE"
proof -
  let ?n = "unat (freeblock s)" and ?s = "wsect 45 (marks (unat (freeblock s))) s"
  have l: "length (sects s) = FSSIZE" "?n \<le> FSSIZE" "sb_bmapstart (msb s) = 45"
    using assms by (simp_all add: img_ok_def mkfs_sb_def)
  have "sint (freeblock s) = int ?n"
    using l(2) sint_of_nat_32 [of ?n] by (simp add: FSSIZE_def)
  moreover have "int ?n < int (BSIZE * 8)"
    using l(2) unfolding FSSIZE_def BSIZE_def by linarith
  ultimately have b: "balloc_mk (sint (freeblock s)) s = Inr ?s"
    using l(3) by (simp add: balloc_mk_def marks_def)
  have w: "sects ?s = (sects s)[45 := marks ?n]"
    using l(1) sect_at_eq [of 45] by (simp add: wsect_def FSSIZE_def)
  have "disk_of ?s b = view s b" for b
  proof -
    have "unat b = 45 \<longleftrightarrow> b = 45"
      by (simp add: word_unat_eq_iff)
    then show ?thesis
      using l(1) by (auto simp: disk_of_def view_def w nth_list_update FSSIZE_def)
  qed
  then show thesis
    using b w l(1) by (intro that [of ?s]) (auto simp: fun_eq_iff)
qed

lemma get_superblock_bytes: "get_superblock (superblock_bytes x @ d) = x"
  by (simp add: get_superblock_def get32_def seg_def superblock_bytes_def le_roundtrip32)

lemma mkfs_files:
  assumes args: "args_ok args fs" and n: "length fs + 1 < NINODES" and max: "list_all (\<lambda>f. length (snd f) \<le> MAXFILE * BSIZE) fs"
    and room: "nmeta + total_need (image_of fs) \<le> FSSIZE"
  obtains s where "img_holds (image_of fs) s" and "mkfs_main k args = bindE (fix_root s) (\<lambda>s. balloc_mk (sint (freeblock s)) s)"
proof -
  let ?d = "dirent_bytes 1 (ascii ''.'')" and ?dd = "dirent_bytes 1 (ascii ''..'')"
  have one: "(1 :: u32) = of_nat (Suc 0)" "ROOTINO = of_nat (Suc 0)"
    by (simp_all add: ROOTINO_def of_nat_Suc)
  obtain s1 where 1: "ialloc_mk T_DIR mkfs_empty = Inr (of_nat (Suc 0), s1)" "img_holds [(T_DIR, [])] s1"
    using ialloc_mk_ok [OF empty_holds, of T_DIR] by (auto simp: NINODES_def)
  have small: "nmeta + need 16 \<le> FSSIZE" "nmeta + need 32 \<le> FSSIZE" "32 \<le> MAXFILE * BSIZE"
    by (simp_all add: need_def mkfs_consts(1) FSSIZE_def BSIZE_def NDIRECT_val)
  obtain s2 where 2: "iappend (of_nat (Suc 0)) ?d s1 = Inr s2" "img_holds [(T_DIR, ?d)] s2"
    using iappend_ok [OF 1(2), of 0 T_DIR "[]" ?d] small by (auto simp: total_need_def)
  obtain s3 where 3: "iappend (of_nat (Suc 0)) ?dd s2 = Inr s3" "img_holds [(T_DIR, ?d @ ?dd)] s3"
    using iappend_ok [OF 2(2), of 0 T_DIR ?d ?dd] small by (auto simp: total_need_def)
  have "length (?d @ ?dd) + 16 * length fs \<le> MAXFILE * BSIZE"
    using n by (simp add: NINODES_def BSIZE_def NDIRECT_val)
  then obtain s4 where 4: "foreach (add_file k) args s3 = Inr s4" "img_holds (image_of fs) s4"
    using add_files_ok [OF args 3(2), of k] n max room by (auto simp: image_of_def root_bytes_def numeral_2_eq_2)
  show thesis
    by (rule that [OF 4(2)]) (use 1(1) 2(1) 3(1) 4(1) in \<open>simp add: mkfs_main_eq one\<close>)
qed

lemma fix_root_ok:
  assumes "img_holds fs s" and "fs \<noteq> []" and "length (snd (hd fs)) < 2 ^ 20"
  obtains s' where "fix_root s = Inr s'" "img_ok s'" "holds_files fs ((length (snd (hd fs)) div BSIZE + 1) * BSIZE) (view s')"
    "view s' 1 = view s 1" "view s' 2 = view s 2"
proof -
  let ?n = "length (snd (hd fs))"
  note D = img_holdsD [OF assms(1)]
  have sz: "di_size (dino s (Suc 0)) = of_nat ?n"
    using D(7) [of 0] assms(2) by (simp add: file_ok_def hd_conv_nth)
  have off: "(of_nat ?n div of_nat BSIZE + 1) * of_nat BSIZE = (of_nat ((?n div BSIZE + 1) * BSIZE) :: u32)"
    using assms(3) by (simp add: word_unat_eq_iff unat_word_ariths unat_div BSIZE_def)
  obtain s' where w: "winode (of_nat (Suc 0)) ((dino s (Suc 0))\<lparr>di_size := of_nat ((?n div BSIZE + 1) * BSIZE)\<rparr>) s = Inr s'"
    "img_ok s'" "holds_files fs ((?n div BSIZE + 1) * BSIZE) (view s')" "view s' 1 = view s 1" "view s' 2 = view s 2"
    using resize_root [OF assms(1), of "(?n div BSIZE + 1) * BSIZE"] assms(2) by blast
  have "rinode (of_nat (Suc 0)) s = Inr (dino s (Suc 0))"
    using rsect_ok [OF D(1) inode_block(5,2) [OF D(1), of "Suc 0"]] D(1) by (simp add: rinode_def img_ok_def disk_inode_def NINODES_def)
  then have "fix_root s = Inr s'"
    using w(1) sz off by (simp add: fix_root_def ROOTINO_def of_nat_Suc)
  then show thesis
    by (rule that) (use w in simp_all)
qed

lemma mkfs_ok:
  assumes args: "args_ok args fs" and n: "length fs + 1 < NINODES" and max: "list_all (\<lambda>f. length (snd f) \<le> MAXFILE * BSIZE) fs"
    and room: "nmeta + total_need (image_of fs) \<le> FSSIZE"
  obtains s where "mkfs_main k args = Inr s" "length (sects s) = FSSIZE" "get_superblock (disk_of s 1) = mkfs_sb"
    "disk_of s 2 = replicate BSIZE 0" "fs_layout mkfs_sb 2 (disk_of s)"
    "holds_files (image_of fs) ((length (root_bytes (map fst fs)) div BSIZE + 1) * BSIZE) (disk_of s)"
proof -
  obtain s1 where 1: "img_holds (image_of fs) s1" "mkfs_main k args = bindE (fix_root s1) (\<lambda>s. balloc_mk (sint (freeblock s)) s)"
    using mkfs_files [OF assms] .
  have "length (root_bytes (map fst fs)) < 2 ^ 20"
    using n by (simp add: root_bytes_def NINODES_def)
  then obtain s2 where 2: "fix_root s1 = Inr s2" "img_ok s2"
    "holds_files (image_of fs) ((length (root_bytes (map fst fs)) div BSIZE + 1) * BSIZE) (view s2)"
    "view s2 1 = view s1 1" "view s2 2 = view s1 2"
    using fix_root_ok [OF 1(1)] by (auto simp: image_of_def)
  obtain s3 where 3: "balloc_mk (sint (freeblock s2)) s2 = Inr s3" "disk_of s3 = view s2" "length (sects s3) = FSSIZE"
    using balloc_mk_ok [OF 2(2)] .
  show thesis
    by (rule that [of s3]) (use 1(2) 2 3 img_holdsD(5,6) [OF 1(1)] layout_view [OF 2(2)] in \<open>simp_all add: get_superblock_bytes\<close>)
qed

lemma empty_log: "D 2 = replicate BSIZE 0 \<Longrightarrow> \<forall>c. length (D c) = BSIZE \<Longrightarrow> log_disk_ok 2 D \<and> hdr_n (D 2) = 0"
  by (simp add: log_disk_ok_def hdr_n_zeros hdr_blocks_def)

section \<open>Properties\<close>

text \<open>
  Property C39. The image. When the files of the command line can be opened, have names without a slash,
  are not too big, and all of them fit on the disk, \<open>mkfs\<close> succeeds, however the reads deliver the files. The
  image has \<open>FSSIZE\<close> blocks; the super block describes it; the log is empty; the layout is as the kernel
  relies on. Its inode 1 is the root directory, with the entries of the files in their order, and the
  inodes that follow are the files with just their content. No block belongs to two inodes, all other
  inodes are free, and the bitmap has as free exactly the blocks that no inode and no metadata use.
\<close>

theorem mkfs_correct:
  assumes args: "args_ok args fs" and n: "length fs + 1 < NINODES" and max: "list_all (\<lambda>f. length (snd f) \<le> MAXFILE * BSIZE) fs"
    and room: "nmeta + total_need (image_of fs) \<le> FSSIZE"
  shows "\<exists>s. mkfs_main k args = Inr s \<and> length (sects s) = FSSIZE \<and> get_superblock (disk_of s 1) = mkfs_sb \<and>
    log_disk_ok 2 (disk_of s) \<and> hdr_n (disk_of s 2) = 0 \<and> fs_layout mkfs_sb 2 (disk_of s) \<and>
    holds_files (image_of fs) ((length (root_bytes (map fst fs)) div BSIZE + 1) * BSIZE) (disk_of s)"
proof -
  obtain s where s: "mkfs_main k args = Inr s" "length (sects s) = FSSIZE" "get_superblock (disk_of s 1) = mkfs_sb"
    "disk_of s 2 = replicate BSIZE 0" "fs_layout mkfs_sb 2 (disk_of s)"
    "holds_files (image_of fs) ((length (root_bytes (map fst fs)) div BSIZE + 1) * BSIZE) (disk_of s)"
    using mkfs_ok [OF assms] .
  then show ?thesis
    using empty_log [of "disk_of s"] s(4) fs_layoutD(2) [OF s(5)] by blast
qed

text \<open>Two files, read in pieces of at most three bytes.\<close>

definition example_args :: "(u8 list \<times> u8 list option) list" where
  "example_args = [(ascii ''user/_sh'', Some [1, 2, 3, 4, 5, 6, 7]), (ascii ''README'', Some [8, 9])]"

definition example_files :: "(u8 list \<times> u8 list) list" where
  "example_files = [(ascii ''sh'', [1, 2, 3, 4, 5, 6, 7]), (ascii ''README'', [8, 9])]"

lemma example_ok:
  "args_ok example_args example_files" "length example_files + 1 < NINODES"
  "list_all (\<lambda>f. length (snd f) \<le> MAXFILE * BSIZE) example_files" "nmeta + total_need (image_of example_files) \<le> FSSIZE"
  by (simp_all add: args_ok_def example_args_def example_files_def shortname_def ascii_def NINODES_def NDIRECT_val BSIZE_def
      image_of_def root_bytes_def total_need_def need_def mkfs_consts(1) FSSIZE_def)

theorem mkfs_correct_witness:
  "\<exists>s. mkfs_main (\<lambda>_. 2) example_args = Inr s \<and> length (sects s) = FSSIZE \<and> get_superblock (disk_of s 1) = mkfs_sb \<and>
    log_disk_ok 2 (disk_of s) \<and> hdr_n (disk_of s 2) = 0 \<and> fs_layout mkfs_sb 2 (disk_of s) \<and>
    holds_files (image_of example_files) ((length (root_bytes (map fst example_files)) div BSIZE + 1) * BSIZE) (disk_of s)"
  by (rule mkfs_correct [OF example_ok])

end
