(* ===== verification/Mkfs_Boot.thy ===== *)
theory Mkfs_Boot
  imports Mkfs
begin

text \<open>
  The kernel boots from the image that \<open>mkfs\<close> makes: \<open>fsinit\<close> of \<open>kernel/fs.c\<close> accepts it.
\<close>

lemma readsb_ok:
  fixes u :: "'a fstate_scheme"
  assumes c: "cache Map.empty Map.empty u"
  obtains u' where "readsb ROOTDEV u = Inr (get_superblock (disk u 1), u')" "cache Map.empty Map.empty u'" "disk u' = disk u" "io_frame u u'"
proof -
  have v: "bview u 1 = disk u 1"
    using bc.unheld_clean [OF c] by simp
  have room: "room Map.empty Map.empty (1 :: u32)"
    using room_empty [of 0 0 1] by (auto simp: room_def)
  obtain b u1 where 1: "bread ROOTDEV 1 u = Inr (b, u1)" "cache Map.empty [b \<mapsto> 1] u1" "bview u1 = bview u" "disk u1 = disk u" "io_frame u u1"
    using cache_bread [OF c, of 1] room by auto
  have d: "buf_data b u1 = bview u 1"
    using bc.dat_held [OF 1(2), of b 1] 1(3) by simp
  obtain u2 where 2: "brelse b u1 = Inr u2" "cache Map.empty Map.empty u2" "disk u2 = disk u1" "io_frame u1 u2"
    using cache_rel [OF 1(2), of b 1] 1(3,4) v by auto
  show thesis
    by (rule that [of u2]) (use 1 2 d v io_frame_trans in \<open>auto simp: readsb_def Let_def\<close>)
qed

lemma fsinit_ok:
  fixes t :: "'a fstate_scheme"
  assumes t: "boots D t" and D: "log_disk_ok (sb_logstart x) D" and x: "get_superblock (D 1) = x" "sb_magic x = FSMAGIC"
    and n: "0 < sint (sb_nlog x)" "sint (sb_nlog x) \<le> int LOGSIZE"
  obtains u where "fsinit ROOTDEV (binit t) = Inr u" "sb u = x" "log_inv Map.empty u" "logged u = []" "log_start (thelog u) = sb_logstart x"
    "bview u = apply_writes (recovery_writes (sb_logstart x) D) D"
proof -
  have B: "cache Map.empty Map.empty (binit t)" "disk (binit t) = D" "io_frame t (binit t)"
    using cache_boot [of t] t D by (auto simp: boots_def log_disk_ok_def)
  obtain u1 where 1: "readsb ROOTDEV (binit t) = Inr (x, u1)" "cache Map.empty Map.empty u1" "disk u1 = D" "io_frame (binit t) u1"
    using readsb_ok [OF B(1)] B(2) x(1) by metis
  have "thelog u1 = thelog t"
    using io_frame_trans [OF B(3) 1(4)] by (intro thelog_more(1)) (simp add: io_frame_def)
  then have u1: "cache Map.empty Map.empty (u1\<lparr>sb := x\<rparr>)" "length (lh_block (log_lh (thelog (u1\<lparr>sb := x\<rparr>)))) = LOGSIZE"
    "log_disk_ok (sb_logstart x) (disk (u1\<lparr>sb := x\<rparr>))"
    using 1(2,3) D t cache_cong [of "u1\<lparr>sb := x\<rparr>" u1] by (simp_all add: boots_def)
  obtain u where u: "initlog ROOTDEV x (u1\<lparr>sb := x\<rparr>) = Inr u" "log_inv Map.empty u" "logged u = []"
    "log_start (thelog u) = sb_logstart x" "disk u = apply_writes (recovery_writes (sb_logstart x) D) D" "bview u = disk u"
    "log_frame (u1\<lparr>sb := x\<rparr>) u"
    using initlog_cached_inv [OF u1 n] 1(3) by auto
  have "lstate.more u = lstate.more (u1\<lparr>sb := x\<rparr>)"
    using u(7) by (simp add: log_frame_def)
  then have "sb u = x"
    by (cases u; cases u1) simp
  then show thesis
    using u 1(1) x(2) by (intro that [of u]) (simp_all add: fsinit_def Let_def)
qed

lemma recovery_of_empty_log:
  assumes "D 2 = replicate BSIZE 0"
  shows "apply_writes (recovery_writes 2 D) D = D"
proof -
  have "put32 0 0 (replicate BSIZE (0 :: u8)) = replicate BSIZE 0"
    by (simp add: put32_def upd_seg_def le_bytes_def BSIZE_def numeral_eq_Suc)
  then show ?thesis
    using assms by (simp add: recovery_writes_def install_writes_def hdr_blocks_def hdr_n_zeros fun_upd_idem)
qed

section \<open>Properties\<close>

text \<open>
  Property C40. The kernel boots from the image. On a machine whose disk is the image that \<open>mkfs\<close> made of
  some files, \<open>fsinit\<close>, the first thing that the first process does, succeeds: it finds the super block of
  the image and an empty log. The invariant of the log holds, with no transaction going on, the layout of
  the disk is the one that the file system relies on, and through the buffer cache the kernel sees the
  files with their contents.
\<close>

theorem kernel_boots_from_image:
  assumes "args_ok args fs" and "length fs + 1 < NINODES" and "list_all (\<lambda>f. length (snd f) \<le> MAXFILE * BSIZE) fs"
    and "nmeta + total_need (image_of fs) \<le> FSSIZE"
  shows "\<exists>s u. mkfs_main k args = Inr s \<and> fsinit ROOTDEV (binit ((bss_fstate ())\<lparr>disk := disk_of s\<rparr>)) = Inr u \<and>
    sb u = mkfs_sb \<and> log_inv Map.empty u \<and> logged u = [] \<and> fs_layout (sb u) (log_start (thelog u)) (bview u) \<and>
    holds_files (image_of fs) ((length (root_bytes (map fst fs)) div BSIZE + 1) * BSIZE) (bview u)"
proof -
  obtain s where s: "mkfs_main k args = Inr s" "length (sects s) = FSSIZE" "get_superblock (disk_of s 1) = mkfs_sb"
    "disk_of s 2 = replicate BSIZE 0" "fs_layout mkfs_sb 2 (disk_of s)"
    "holds_files (image_of fs) ((length (root_bytes (map fst fs)) div BSIZE + 1) * BSIZE) (disk_of s)"
    using mkfs_ok [OF assms] .
  let ?t = "(bss_fstate ())\<lparr>disk := disk_of s\<rparr>"
  have boots: "boots (disk_of s) ?t"
    by (simp add: boots_def bss_fstate_def bss_state_def NPROC_def)
  have sb: "sb_logstart mkfs_sb = 2" "sb_magic mkfs_sb = FSMAGIC" "0 < sint (sb_nlog mkfs_sb)" "sint (sb_nlog mkfs_sb) \<le> int LOGSIZE"
    by (simp_all add: mkfs_sb_def FSMAGIC_def LOGSIZE_def MAXOPBLOCKS_def)
  have "log_disk_ok (sb_logstart mkfs_sb) (disk_of s)"
    using empty_log [of "disk_of s"] s(4) fs_layoutD(2) [OF s(5)] sb(1) by simp
  from fsinit_ok [OF boots this s(3) sb(2-4)]
  obtain u where u: "fsinit ROOTDEV (binit ?t) = Inr u" "sb u = mkfs_sb" "log_inv Map.empty u" "logged u = []"
    "log_start (thelog u) = 2" "bview u = disk_of s"
    using recovery_of_empty_log [of "disk_of s"] s(4) sb(1) by metis
  then show ?thesis
    using s(1,5,6) by (intro exI [of _ s] exI [of _ u]) simp
qed

theorem kernel_boots_from_image_witness:
  "\<exists>s u. mkfs_main (\<lambda>_. 2) example_args = Inr s \<and> fsinit ROOTDEV (binit ((bss_fstate ())\<lparr>disk := disk_of s\<rparr>)) = Inr u \<and>
    sb u = mkfs_sb \<and> log_inv Map.empty u \<and> logged u = [] \<and> fs_layout (sb u) (log_start (thelog u)) (bview u) \<and>
    holds_files (image_of example_files) ((length (root_bytes (map fst example_files)) div BSIZE + 1) * BSIZE) (bview u)"
  by (rule kernel_boots_from_image [OF example_ok])

end
