(* ===== verification/Grep.thy ===== *)
theory Grep
  imports Ulib
begin

text \<open>
  \<open>user/grep.c\<close>: the matcher for patterns with \<open>^\<close>, \<open>.\<close>, \<open>*\<close> and \<open>$\<close>, and the loop that reads its input in
  pieces and prints the lines that match. Patterns and texts are strings, given by their bytes without
  the final NUL.
\<close>

section \<open>The program\<close>

function matchhere :: "u8 list \<Rightarrow> u8 list \<Rightarrow> bool"
  and matchstar :: "u8 \<Rightarrow> u8 list \<Rightarrow> u8 list \<Rightarrow> bool" where
  "matchhere re text =
     (case re of [] \<Rightarrow> True
      | r # rs \<Rightarrow>
          if rs \<noteq> [] \<and> hd rs = 42 then matchstar r (tl rs) text
          else if r = 36 \<and> rs = [] then text = []
          else (case text of [] \<Rightarrow> False | t # ts \<Rightarrow> (r = 46 \<or> r = t) \<and> matchhere rs ts))"
| "matchstar c re text =
     (matchhere re text \<or> (case text of [] \<Rightarrow> False | t # ts \<Rightarrow> (t = c \<or> c = 46) \<and> matchstar c re ts))"
  by pat_completeness auto

termination
  by (relation "measures [\<lambda>x. case x of Inl (re, t) \<Rightarrow> length re | Inr (c, re, t) \<Rightarrow> length re,
      \<lambda>x. case x of Inl (re, t) \<Rightarrow> length t | Inr (c, re, t) \<Rightarrow> length t,
      \<lambda>x. case x of Inl _ \<Rightarrow> 0 | Inr _ \<Rightarrow> 1]") (auto simp: neq_Nil_conv)

declare matchhere.simps [simp del] matchstar.simps [simp del]

text \<open>The do-while loop of \<open>match\<close>, and \<open>match\<close>.\<close>

primrec match_loop :: "u8 list \<Rightarrow> u8 list \<Rightarrow> bool" where
  "match_loop re [] = matchhere re []"
| "match_loop re (t # ts) = (matchhere re (t # ts) \<or> match_loop re ts)"

definition match :: "u8 list \<Rightarrow> u8 list \<Rightarrow> bool" where
  "match re text = (if re \<noteq> [] \<and> hd re = 94 then matchhere (tl re) text else match_loop re text)"

text \<open>
  The inner loop of \<open>grep\<close> on the bytes \<open>p\<close> of the buffer, which a NUL follows: what it prints, and what is
  left. Of the line, \<open>match\<close> sees the bytes up to a NUL, which \<open>strchr\<close> has not passed.
\<close>

function grep_lines :: "u8 list \<Rightarrow> u8 list \<Rightarrow> (u8 list \<times> u8 list) res" where
  "grep_lines pattern p =
     bindE (strchr_u (p @ [0]) 10) (\<lambda>q.
     case q of None \<Rightarrow> Inr ([], p)
     | Some i \<Rightarrow>
         bindE (grep_lines pattern (drop (Suc i) p)) (\<lambda>(out, rest).
         Inr ((if match pattern (take i p) then take (Suc i) p else []) @ out, rest)))"
  by pat_completeness auto

lemma strchr_u_bound: "strchr_u s c = Inr (Some i) \<Longrightarrow> i < length s \<and> s ! i = c \<and> 0 \<notin> set (take i s)"
proof (induction s arbitrary: i)
  case (Cons x s)
  then show ?case
    by (cases i) (auto split: if_splits sum.splits simp: bindE_def)
qed simp

termination grep_lines
proof (relation "measure (\<lambda>(pattern, p). length p)")
  fix pattern p :: "u8 list" and q and i :: nat
  assume a: "strchr_u (p @ [0]) 10 = Inr q" "q = Some i"
  then have "i < length (p @ [0])" "(p @ [0]) ! i = 10"
    using strchr_u_bound by blast+
  then have "i < length p"
    by (cases "i = length p") auto
  then show "((pattern, drop (Suc i) p), pattern, p) \<in> measure (\<lambda>(pattern, p). length p)"
    by simp
qed simp

declare grep_lines.simps [simp del]

definition GREP_BUF :: nat where
  "GREP_BUF = 1024"

text \<open>
  \<open>grep\<close> on an input of which \<open>pos\<close> bytes have been read, the last ones of which are in \<open>buf\<close>: what it
  prints. \<open>m\<close> is the length of \<open>buf\<close>.
\<close>

function grep_loop :: "(nat \<Rightarrow> nat) \<Rightarrow> u8 list \<Rightarrow> u8 list \<Rightarrow> nat \<Rightarrow> u8 list \<Rightarrow> u8 list res" where
  "grep_loop k pattern inp pos buf =
     (let c = read_some k inp pos (GREP_BUF - length buf - 1) in
      if c = [] then Inr []
      else
        bindE (grep_lines pattern (buf @ c)) (\<lambda>(out, buf).
        bindE (grep_loop k pattern inp (pos + length c) buf) (\<lambda>out'. Inr (out @ out'))))"
  by pat_completeness auto

termination grep_loop
  by (relation "measure (\<lambda>(k, pattern, inp, pos, buf). length inp - pos)") (auto simp: read_some_def min_def split: if_splits)

declare grep_loop.simps [simp del]

definition grep :: "(nat \<Rightarrow> nat) \<Rightarrow> u8 list \<Rightarrow> u8 list \<Rightarrow> u8 list res" where
  "grep k pattern inp = grep_loop k pattern inp 0 []"

text \<open>
  \<open>main\<close>, for the arguments after the program's name: the standard output, the error output and the exit
  status. \<open>files\<close> tells what a name opens; \<open>k\<close> is the kernel's choice of sizes for each input.
\<close>

primrec grep_files ::
  "(u8 list option \<Rightarrow> nat \<Rightarrow> nat) \<Rightarrow> (u8 list \<Rightarrow> u8 list option) \<Rightarrow> u8 list \<Rightarrow> u8 list list \<Rightarrow> (u8 list \<times> u8 list \<times> int) res" where
  "grep_files k files pattern [] = Inr ([], [], 0)"
| "grep_files k files pattern (name # names) =
     (case files name of
        None \<Rightarrow> bindE (printf_u (ascii ''grep: cannot open %s'' @ [10]) [Str (Some name)]) (\<lambda>(fd, out). Inr (out, [], 1))
      | Some inp \<Rightarrow>
          bindE (grep (k (Some name)) pattern inp) (\<lambda>out.
          bindE (grep_files k files pattern names) (\<lambda>(out', err, st). Inr (out @ out', err, st))))"

definition grep_main ::
  "(u8 list option \<Rightarrow> nat \<Rightarrow> nat) \<Rightarrow> (u8 list \<Rightarrow> u8 list option) \<Rightarrow> u8 list \<Rightarrow> u8 list list \<Rightarrow> (u8 list \<times> u8 list \<times> int) res" where
  "grep_main k files stdin args =
     (case args of
        [] \<Rightarrow> bindE (fprintf 2 (ascii ''usage: grep pattern [file ...]'' @ [10]) []) (\<lambda>(fd, out). Inr ([], out, 1))
      | pattern # names \<Rightarrow>
          if names = [] then bindE (grep (k None) pattern stdin) (\<lambda>out. Inr (out, [], 0))
          else grep_files k files pattern names)"

section \<open>What a pattern means\<close>

text \<open>
  A pattern is a list of items, each a character or a character with a star, where \<open>.\<close> stands for any
  character; a \<open>$\<close> at its end anchors it there. A star makes any character before it a repeated one.
\<close>

datatype item = One u8 | Star u8

fun items :: "u8 list \<Rightarrow> item list" where
  "items [] = []"
| "items [r] = (if r = 36 then [] else [One r])"
| "items (r # c # rs) = (if c = 42 then Star r # items rs else One r # items (c # rs))"

fun anchored :: "u8 list \<Rightarrow> bool" where
  "anchored [] = False"
| "anchored [r] = (r = 36)"
| "anchored (r # c # rs) = (if c = 42 then anchored rs else anchored (c # rs))"

definition accepts :: "u8 \<Rightarrow> u8 \<Rightarrow> bool" where
  "accepts c t \<longleftrightarrow> c = 46 \<or> c = t"

primrec lang :: "item list \<Rightarrow> u8 list set" where
  "lang [] = {[]}"
| "lang (i # is) =
     (case i of One c \<Rightarrow> {t # w |t w. accepts c t \<and> w \<in> lang is}
      | Star c \<Rightarrow> {u @ w |u w. (\<forall>t\<in>set u. accepts c t) \<and> w \<in> lang is})"

text \<open>The text begins with something that the pattern describes.\<close>

definition begins :: "u8 list \<Rightarrow> u8 list \<Rightarrow> bool" where
  "begins re text \<longleftrightarrow> (\<exists>w rest. text = w @ rest \<and> w \<in> lang (items re) \<and> (anchored re \<longrightarrow> rest = []))"

text \<open>
  Some part of the text is what the pattern describes: the beginning for a pattern that starts with \<open>^\<close>.
\<close>

definition describes :: "u8 list \<Rightarrow> u8 list \<Rightarrow> bool" where
  "describes re text \<longleftrightarrow>
     (if re \<noteq> [] \<and> hd re = 94 then begins (tl re) text else (\<exists>pre post. text = pre @ post \<and> begins re post))"

lemma beginsI: "w \<in> lang (items re) \<Longrightarrow> (anchored re \<Longrightarrow> rest = []) \<Longrightarrow> begins re (w @ rest)"
  unfolding begins_def by blast

lemma beginsE:
  assumes "begins re tx"
  obtains w rest where "tx = w @ rest" "w \<in> lang (items re)" "anchored re \<longrightarrow> rest = []"
  using assms unfolding begins_def by blast

lemma begins_Star:
  "begins (c # 42 # re) tx \<longleftrightarrow> (\<exists>u rest. tx = u @ rest \<and> (\<forall>t\<in>set u. accepts c t) \<and> begins re rest)"
proof
  assume "begins (c # 42 # re) tx"
  then obtain v rest where v: "tx = v @ rest" "v \<in> lang (items (c # 42 # re))" "anchored (c # 42 # re) \<longrightarrow> rest = []"
    by (rule beginsE)
  then obtain u w where "v = u @ w" "\<forall>t\<in>set u. accepts c t" "w \<in> lang (items re)"
    by auto
  then have "tx = u @ (w @ rest)" "\<forall>t\<in>set u. accepts c t" "w \<in> lang (items re)" "anchored re \<Longrightarrow> rest = []"
    using v by simp_all
  then show "\<exists>u rest. tx = u @ rest \<and> (\<forall>t\<in>set u. accepts c t) \<and> begins re rest"
    using beginsI by blast
next
  assume "\<exists>u rest. tx = u @ rest \<and> (\<forall>t\<in>set u. accepts c t) \<and> begins re rest"
  then obtain u r where u: "tx = u @ r" "\<forall>t\<in>set u. accepts c t" "begins re r"
    by blast
  from u(3) obtain w rest where "r = w @ rest" "w \<in> lang (items re)" "anchored re \<longrightarrow> rest = []"
    by (rule beginsE)
  then show "begins (c # 42 # re) tx"
    using beginsI [of "u @ w" "c # 42 # re" rest] u(1,2) by auto
qed

lemma begins_One:
  assumes "rs \<noteq> [] \<Longrightarrow> hd rs \<noteq> 42" and "r = 36 \<Longrightarrow> rs \<noteq> []"
  shows "begins (r # rs) tx \<longleftrightarrow> (\<exists>t ts. tx = t # ts \<and> accepts r t \<and> begins rs ts)"
proof -
  have e: "items (r # rs) = One r # items rs" "anchored (r # rs) = anchored rs"
    using assms by (cases rs; auto)+
  show ?thesis
  proof
    assume "begins (r # rs) tx"
    then obtain w rest where "tx = w @ rest" "w \<in> lang (One r # items rs)" "anchored rs \<longrightarrow> rest = []"
      by (rule beginsE) (simp add: e)
    then obtain t w' where "tx = t # w' @ rest" "accepts r t" "w' \<in> lang (items rs)" "anchored rs \<longrightarrow> rest = []"
      by auto
    then show "\<exists>t ts. tx = t # ts \<and> accepts r t \<and> begins rs ts"
      using beginsI by blast
  next
    assume "\<exists>t ts. tx = t # ts \<and> accepts r t \<and> begins rs ts"
    then obtain t ts where t: "tx = t # ts" "accepts r t" "begins rs ts"
      by blast
    from t(3) obtain w rest where "ts = w @ rest" "w \<in> lang (items rs)" "anchored rs \<longrightarrow> rest = []"
      by (rule beginsE)
    then show "begins (r # rs) tx"
      using beginsI [of "t # w" "r # rs" rest] t(1,2) e by simp
  qed
qed

lemma split_Cons: "(\<exists>u rest. t # ts = u @ rest \<and> P u rest) \<longleftrightarrow> P [] (t # ts) \<or> (\<exists>u rest. ts = u @ rest \<and> P (t # u) rest)"
  unfolding Cons_eq_append_conv by blast

lemma matcher_correct:
  "matchhere re tx \<longleftrightarrow> begins re tx"
  "matchstar c re tx \<longleftrightarrow> (\<exists>u rest. tx = u @ rest \<and> (\<forall>t\<in>set u. accepts c t) \<and> begins re rest)"
proof (induction re tx and c re tx rule: matchhere_matchstar.induct)
  case (1 re tx)
  show ?case
  proof (cases re)
    case Nil
    then show ?thesis
      by (subst matchhere.simps) (simp add: begins_def)
  next
    case (Cons r rs)
    consider "rs \<noteq> [] \<and> hd rs = 42" | "\<not> (rs \<noteq> [] \<and> hd rs = 42)" "r = 36 \<and> rs = []"
      | "\<not> (rs \<noteq> [] \<and> hd rs = 42)" "\<not> (r = 36 \<and> rs = [])"
      by blast
    then show ?thesis
    proof cases
      case 1
      then obtain re' where rs: "rs = 42 # re'"
        by (cases rs) auto
      then show ?thesis
        using "1.IH"(1) [OF Cons 1] by (subst matchhere.simps) (simp add: Cons begins_Star)
    next
      case 2
      then show ?thesis
        by (subst matchhere.simps) (auto simp: Cons begins_def)
    next
      case 3
      have "begins (r # rs) tx \<longleftrightarrow> (\<exists>t ts. tx = t # ts \<and> accepts r t \<and> begins rs ts)"
        using 3 by (intro begins_One) auto
      then show ?thesis
        using 3 "1.IH"(2) [OF Cons] by (subst matchhere.simps) (auto simp: Cons accepts_def split: list.split)
    qed
  qed
next
  case (2 c re tx)
  show ?case
  proof (cases tx)
    case Nil
    then show ?thesis
      using 2(1) by (subst matchstar.simps) simp
  next
    case (Cons t ts)
    show ?thesis
      using 2(1) 2(2) [OF Cons] unfolding Cons split_Cons by (subst matchstar.simps) (auto simp: accepts_def)
  qed
qed

lemma match_loop_iff: "match_loop re tx \<longleftrightarrow> (\<exists>pre post. tx = pre @ post \<and> begins re post)"
proof (induction tx)
  case (Cons t ts)
  then show ?case
    unfolding split_Cons by (simp add: matcher_correct)
qed (simp add: matcher_correct)

lemma match_iff: "match re tx \<longleftrightarrow> describes re tx"
  by (simp add: match_def describes_def matcher_correct match_loop_iff)

section \<open>Lines\<close>

definition unlines :: "u8 list list \<Rightarrow> u8 list" where
  "unlines ls = concat (map (\<lambda>l. l @ [10]) ls)"

lemma unlines_simps [simp]:
  "unlines [] = []" "unlines (l # ls) = l @ 10 # unlines ls" "unlines (ls @ ls') = unlines ls @ unlines ls'"
  by (simp_all add: unlines_def)

lemma strchr_u_line:
  "0 \<notin> set l \<Longrightarrow> 10 \<notin> set l \<Longrightarrow> strchr_u (l @ 10 # r) 10 = Inr (Some (length l))"
  "0 \<notin> set l \<Longrightarrow> 10 \<notin> set l \<Longrightarrow> strchr_u (l @ [0]) 10 = Inr None"
  by (induction l) auto

lemma grep_lines_unlines:
  "\<forall>l\<in>set ls. 0 \<notin> set l \<and> 10 \<notin> set l \<Longrightarrow> 0 \<notin> set r \<Longrightarrow> 10 \<notin> set r \<Longrightarrow>
   grep_lines pattern (unlines ls @ r) = Inr (unlines (filter (match pattern) ls), r)"
proof (induction ls)
  case Nil
  then show ?case
    by (subst grep_lines.simps) (simp add: strchr_u_line)
next
  case (Cons l ls)
  then show ?case
    by (subst grep_lines.simps) (simp add: strchr_u_line)
qed

text \<open>Any beginning of a text is some whole lines and a beginning of the next.\<close>

lemma prefix_lines:
  assumes "p @ q = unlines ls @ rest" and "10 \<notin> set rest" and "\<forall>l\<in>set ls. 10 \<notin> set l"
  obtains ls1 ls2 r where "ls = ls1 @ ls2" "p = unlines ls1 @ r" "r @ q = unlines ls2 @ rest" "10 \<notin> set r"
  using assms
proof (induction ls arbitrary: p thesis)
  case Nil
  then show ?case
    by (intro Nil.prems(1) [of "[]" "[]" p]) (auto simp: append_eq_append_conv2)
next
  case (Cons l ls)
  have e: "p @ q = (l @ [10]) @ (unlines ls @ rest)"
    using Cons.prems(2) by simp
  show ?case
  proof (cases "length p \<le> length l")
    case True
    then have "p = take (length p) l"
      using arg_cong [OF e, of "take (length p)"] by simp
    then have "l = p @ drop (length p) l"
      by (metis append_take_drop_id)
    then have "set p \<subseteq> set l"
      by (metis Un_upper1 set_append)
    then show ?thesis
      using Cons.prems(2,4) by (intro Cons.prems(1) [of "[]" "l # ls" p]) auto
  next
    case False
    define p' where "p' = drop (Suc (length l)) p"
    have "take (Suc (length l)) p = l @ [10]" "p' @ q = unlines ls @ rest"
      using False arg_cong [OF e, of "take (Suc (length l))"] arg_cong [OF e, of "drop (Suc (length l))"]
      by (simp_all add: p'_def)
    then have p': "p = (l @ [10]) @ p'" "p' @ q = unlines ls @ rest"
      by (metis append_take_drop_id p'_def, simp)
    obtain ls1 ls2 r where "ls = ls1 @ ls2" "p' = unlines ls1 @ r" "r @ q = unlines ls2 @ rest" "10 \<notin> set r"
      using Cons.IH [of p'] p'(2) Cons.prems(3,4) by auto
    then show ?thesis
      using p'(1) by (intro Cons.prems(1) [of "l # ls1" ls2 r]) auto
  qed
qed

lemma take_drop_length: "take n xs @ drop (length (take n xs)) xs = xs"
  by (cases "n \<le> length xs") auto

lemma grep_loop_lines:
  assumes "buf @ drop pos inp = unlines ls @ rest" and "10 \<notin> set buf" and "10 \<notin> set rest" and "0 \<notin> set inp" and "0 \<notin> set buf"
    and "\<forall>l\<in>set ls. 0 \<notin> set l \<and> 10 \<notin> set l \<and> length l < GREP_BUF - 1"
  shows "grep_loop k pattern inp pos buf = Inr (unlines (filter (match pattern) ls))"
  using assms
proof (induction k pattern inp pos buf arbitrary: ls rule: grep_loop.induct)
  case (1 k pattern inp pos buf)
  define c where "c = read_some k inp pos (GREP_BUF - length buf - 1)"
  show ?case
  proof (cases "c = []")
    case True
    have "ls = []"
    proof (rule ccontr)
      assume "ls \<noteq> []"
      then obtain l ls' where ls: "ls = l # ls'"
        by (cases ls) auto
      have e: "buf @ drop pos inp = l @ 10 # unlines ls' @ rest"
        using 1(2) ls by simp
      have "length buf \<le> length l"
      proof (rule ccontr)
        assume "\<not> length buf \<le> length l"
        then have "buf ! length l = 10"
          using arg_cong [OF e, of "\<lambda>xs. xs ! length l"] by (simp add: nth_append)
        then show False
          using 1(3) \<open>\<not> length buf \<le> length l\<close> nth_mem [of "length l" buf] by simp
      qed
      moreover have "length l < GREP_BUF - 1"
        using 1(7) ls by simp
      ultimately have "drop pos inp = []"
        using True by (auto simp: c_def read_some_def min_def split: if_splits)
      then show False
        using arg_cong [OF e, of length] \<open>length buf \<le> length l\<close> by simp
    qed
    then show ?thesis
      using True by (subst grep_loop.simps) (simp add: c_def)
  next
    case False
    have d: "drop pos inp = c @ drop (pos + length c) inp"
      using take_drop_length [of "min (GREP_BUF - length buf - 1) (Suc (k pos))" "drop pos inp"]
      by (simp add: c_def read_some_def add.commute)
    have "(buf @ c) @ drop (pos + length c) inp = unlines ls @ rest"
      using 1(2) d by simp
    then obtain ls1 ls2 r where r: "ls = ls1 @ ls2" "buf @ c = unlines ls1 @ r" "r @ drop (pos + length c) inp = unlines ls2 @ rest"
      "10 \<notin> set r"
      by (rule prefix_lines) (use 1 in auto)
    have "0 \<notin> set (buf @ c)"
      using 1(5,6) d set_drop_subset [of pos inp] by auto
    then have nz: "0 \<notin> set r"
      using r(2) by simp
    have "grep_lines pattern (buf @ c) = Inr (unlines (filter (match pattern) ls1), r)"
      unfolding r(2) using 1(7) r(1,4) nz by (intro grep_lines_unlines) auto
    moreover from this have "grep_loop k pattern inp (pos + length c) r = Inr (unlines (filter (match pattern) ls2))"
      using 1(7) r(1) by (intro 1(1) [OF c_def False _ _ r(3,4) 1(4,5) nz]) auto
    ultimately show ?thesis
      using False r(1) by (simp add: grep_loop.simps [of k pattern inp pos buf, folded c_def] Let_def)
  qed
qed

section \<open>Properties\<close>

text \<open>
  Property C36. The matcher. \<open>match\<close> finds a pattern in a text exactly when some part of the text is what
  the pattern describes: the recursive functions that walk along the two strings are equivalent to the
  reading of the pattern as a list of single and repeated characters, with its anchors.
\<close>

theorem match_equiv: "match re tx = describes re tx"
  by (rule match_iff)

text \<open>
  Property C37. Lines. However the kernel cuts the input into pieces, \<open>grep\<close> prints the complete lines that
  match, in order and whole, and nothing else, if no line is too long for its buffer and the input has
  no NUL.
\<close>

theorem grep_prints_matching_lines:
  assumes "inp = unlines ls @ rest" and "0 \<notin> set inp" and "10 \<notin> set rest"
    and "\<forall>l\<in>set ls. 10 \<notin> set l \<and> length l < 1023"
  shows "grep k pattern inp = Inr (unlines (filter (describes pattern) ls))"
proof -
  have "\<forall>l\<in>set ls. 0 \<notin> set l"
    using assms(1,2) by (auto simp: unlines_def split: if_splits)
  then have "grep k pattern inp = Inr (unlines (filter (match pattern) ls))"
    unfolding grep_def using assms by (intro grep_loop_lines) (auto simp: GREP_BUF_def)
  moreover have "match pattern = describes pattern"
    by (simp add: match_iff fun_eq_iff)
  ultimately show ?thesis
    by simp
qed

text \<open>The pattern \<open>b*$\<close> and lines ab, c, read in pieces of one to three bytes.\<close>

theorem grep_prints_matching_lines_witness:
  "grep (\<lambda>i. i mod 3) [97, 98, 42, 36] [97, 98, 10, 99, 10, 97] = Inr (unlines (filter (describes [97, 98, 42, 36]) [[97, 98], [99]]))"
  by (rule grep_prints_matching_lines [of _ _ "[97]"]) simp_all

end
