(* ===== verification/Sh.thy ===== *)
theory Sh
  imports Ulib
begin

text \<open>
  The shell, \<open>user/sh.c\<close>. The parser works on one array with the line and the NUL behind it; it keeps
  for every word where it begins and where it ends, and in the end writes a NUL behind each of them, so
  that they become strings. Pointers into the line are indices. The routines that take \<open>char** ps\<close> return
  the new value of \<open>*ps\<close>. \<open>panic\<close>, which prints its message and exits, is \<^term>\<open>Panic\<close>; \<open>malloc\<close> is taken to
  succeed, as in the code.
\<close>

section \<open>Commands\<close>

text \<open>A word of the line: \<open>argv[i]\<close> and \<open>eargv[i]\<close>, or \<open>file\<close> and \<open>efile\<close>.\<close>

type_synonym span = "nat \<times> nat"

datatype 'w cmd =
    EXEC "'w list"
  | REDIR "'w cmd" 'w u32 nat
  | PIPE "'w cmd" "'w cmd"
  | LIST "'w cmd" "'w cmd"
  | BACK "'w cmd"

definition MAXARGS :: nat where
  "MAXARGS = 10"

section \<open>Tokens\<close>

definition whitespace :: "u8 list" where
  "whitespace = [32, 9, 13, 10, 11]"

definition symbols :: "u8 list" where
  "symbols = ascii ''<|>&;()''"

text \<open>\<open>*s\<close>: the line is followed by a NUL.\<close>

definition char_at :: "u8 list \<Rightarrow> nat \<Rightarrow> u8" where
  "char_at buf s = (if s < length buf then buf ! s else 0)"

text \<open>\<open>while (s < es && strchr(whitespace, *s)) s++\<close>\<close>

function skip_space :: "u8 list \<Rightarrow> nat \<Rightarrow> nat" where
  "skip_space buf s = (if s < length buf \<and> buf ! s \<in> set whitespace then skip_space buf (Suc s) else s)"
  by pat_completeness auto

termination skip_space
  by (relation "measure (\<lambda>(buf, s). length buf - s)") auto

declare skip_space.simps [simp del]

text \<open>\<open>while (s < es && !strchr(whitespace, *s) && !strchr(symbols, *s)) s++\<close>\<close>

function skip_word :: "u8 list \<Rightarrow> nat \<Rightarrow> nat" where
  "skip_word buf s =
     (if s < length buf \<and> buf ! s \<notin> set whitespace \<and> buf ! s \<notin> set symbols then skip_word buf (Suc s) else s)"
  by pat_completeness auto

termination skip_word
  by (relation "measure (\<lambda>(buf, s). length buf - s)") auto

declare skip_word.simps [simp del]

text \<open>The switch of \<open>gettoken\<close> at \<open>s\<close>: the kind of the token and its end.\<close>

definition token_at :: "u8 list \<Rightarrow> nat \<Rightarrow> u8 \<times> nat" where
  "token_at buf s =
     (let c = char_at buf s in
      if c = 0 then (0, s)
      else if c \<in> set (ascii ''|();&<'') then (c, Suc s)
      else if c = of_char CHR ''>'' then
        (if char_at buf (Suc s) = of_char CHR ''>'' then (of_char CHR ''+'', s + 2) else (c, Suc s))
      else (of_char CHR ''a'', skip_word buf s))"

text \<open>\<open>gettoken\<close>: the kind, where the token begins and ends, and the new \<open>*ps\<close>.\<close>

definition gettoken :: "u8 list \<Rightarrow> nat \<Rightarrow> u8 \<times> span \<times> nat" where
  "gettoken buf ps =
     (let s = skip_space buf ps; (ret, e) = token_at buf s in (ret, (s, e), skip_space buf e))"

definition peek :: "u8 list \<Rightarrow> nat \<Rightarrow> u8 list \<Rightarrow> bool \<times> nat" where
  "peek buf ps toks =
     (let s = skip_space buf ps in (char_at buf s \<noteq> 0 \<and> char_at buf s \<in> set toks, s))"

section \<open>Parsing\<close>

text \<open>
  The recursive routines have a fuel, which bounds the depth of their calls. A redirection is put around
  the command parsed so far; \<open>parseexec\<close> keeps filling in the arguments of the innermost command, so
  that its state is the arguments and the redirections around them, the outermost first.
\<close>

type_synonym redirs = "(span \<times> u32 \<times> nat) list"

definition wrap :: "('w \<times> u32 \<times> nat) list \<Rightarrow> 'w cmd \<Rightarrow> 'w cmd" where
  "wrap rs c = foldr (\<lambda>(w, mode, fd) c. REDIR c w mode fd) rs c"

definition redir_of :: "u8 \<Rightarrow> span \<Rightarrow> redirs \<Rightarrow> redirs" where
  "redir_of tok w rs =
     (if tok = of_char CHR ''<'' then (w, O_RDONLY, 0) # rs
      else if tok = of_char CHR ''>'' then (w, or (or O_WRONLY O_CREATE) O_TRUNC, 1) # rs
      else if tok = of_char CHR ''+'' then (w, or O_WRONLY O_CREATE, 1) # rs
      else rs)"

primrec parseredirs :: "nat \<Rightarrow> u8 list \<Rightarrow> redirs \<Rightarrow> nat \<Rightarrow> (redirs \<times> nat) res" where
  "parseredirs 0 buf rs ps = Inl Diverge"
| "parseredirs (Suc k) buf rs ps =
     (let (found, ps) = peek buf ps (ascii ''<>'') in
      if \<not> found then Inr (rs, ps)
      else
        (let (tok, _, ps) = gettoken buf ps;
             (kind, w, ps) = gettoken buf ps in
         if kind \<noteq> of_char CHR ''a'' then Inl (Panic ''missing file for redirection'')
         else parseredirs k buf (redir_of tok w rs) ps))"

text \<open>The loop of \<open>parseexec\<close>.\<close>

primrec parseargs :: "nat \<Rightarrow> u8 list \<Rightarrow> span list \<Rightarrow> redirs \<Rightarrow> nat \<Rightarrow> (span cmd \<times> nat) res" where
  "parseargs 0 buf argv rs ps = Inl Diverge"
| "parseargs (Suc k) buf argv rs ps =
     (let (found, ps) = peek buf ps (ascii ''|)&;'') in
      if found then Inr (wrap rs (EXEC argv), ps)
      else
        (let (tok, w, ps) = gettoken buf ps in
         if tok = 0 then Inr (wrap rs (EXEC argv), ps)
         else if tok \<noteq> of_char CHR ''a'' then Inl (Panic ''syntax'')
         else if MAXARGS \<le> Suc (length argv) then Inl (Panic ''too many args'')
         else bindE (parseredirs k buf rs ps) (\<lambda>(rs, ps). parseargs k buf (argv @ [w]) rs ps)))"

text \<open>The loop of \<open>parseline\<close> over \<open>&\<close>.\<close>

primrec parseback :: "nat \<Rightarrow> u8 list \<Rightarrow> span cmd \<Rightarrow> nat \<Rightarrow> (span cmd \<times> nat) res" where
  "parseback 0 buf c ps = Inl Diverge"
| "parseback (Suc k) buf c ps =
     (let (found, ps) = peek buf ps (ascii ''&'') in
      if \<not> found then Inr (c, ps)
      else (let (_, _, ps) = gettoken buf ps in parseback k buf (BACK c) ps))"

fun parseline :: "nat \<Rightarrow> u8 list \<Rightarrow> nat \<Rightarrow> (span cmd \<times> nat) res"
  and parsepipe :: "nat \<Rightarrow> u8 list \<Rightarrow> nat \<Rightarrow> (span cmd \<times> nat) res"
  and parseblock :: "nat \<Rightarrow> u8 list \<Rightarrow> nat \<Rightarrow> (span cmd \<times> nat) res"
  and parseexec :: "nat \<Rightarrow> u8 list \<Rightarrow> nat \<Rightarrow> (span cmd \<times> nat) res" where
  "parseline 0 buf ps = Inl Diverge"
| "parseline (Suc k) buf ps =
     bindE (parsepipe k buf ps) (\<lambda>(c, ps).
     bindE (parseback k buf c ps) (\<lambda>(c, ps).
     let (found, ps) = peek buf ps (ascii '';'') in
     if \<not> found then Inr (c, ps)
     else
       (let (_, _, ps) = gettoken buf ps in
        bindE (parseline k buf ps) (\<lambda>(d, ps). Inr (LIST c d, ps)))))"
| "parsepipe 0 buf ps = Inl Diverge"
| "parsepipe (Suc k) buf ps =
     bindE (parseexec k buf ps) (\<lambda>(c, ps).
     let (found, ps) = peek buf ps (ascii ''|'') in
     if \<not> found then Inr (c, ps)
     else
       (let (_, _, ps) = gettoken buf ps in
        bindE (parsepipe k buf ps) (\<lambda>(d, ps). Inr (PIPE c d, ps))))"
| "parseblock 0 buf ps = Inl Diverge"
| "parseblock (Suc k) buf ps =
     (let (found, ps) = peek buf ps (ascii ''('') in
      if \<not> found then Inl (Panic ''parseblock'')
      else
        (let (_, _, ps) = gettoken buf ps in
         bindE (parseline k buf ps) (\<lambda>(c, ps).
         let (found, ps) = peek buf ps (ascii '')'') in
         if \<not> found then Inl (Panic ''syntax - missing )'')
         else
           (let (_, _, ps) = gettoken buf ps in
            bindE (parseredirs k buf [] ps) (\<lambda>(rs, ps). Inr (wrap rs c, ps))))))"
| "parseexec 0 buf ps = Inl Diverge"
| "parseexec (Suc k) buf ps =
     (let (found, ps) = peek buf ps (ascii ''('') in
      if found then parseblock k buf ps
      else bindE (parseredirs k buf [] ps) (\<lambda>(rs, ps). parseargs k buf [] rs ps))"

text \<open>The NULs that \<open>nulterminate\<close> writes, in the line and its own NUL.\<close>

primrec nulterminate :: "span cmd \<Rightarrow> u8 list \<Rightarrow> u8 list" where
  "nulterminate (EXEC argv) buf = fold (\<lambda>(q, eq) buf. buf[eq := 0]) argv buf"
| "nulterminate (REDIR c w mode fd) buf = (nulterminate c buf)[snd w := 0]"
| "nulterminate (PIPE c d) buf = nulterminate d (nulterminate c buf)"
| "nulterminate (LIST c d) buf = nulterminate d (nulterminate c buf)"
| "nulterminate (BACK c) buf = nulterminate c buf"

text \<open>
  \<open>parsecmd\<close> of the string \<open>s\<close>: the command, and the array afterwards. The fuel is enough for any line of
  this length.
\<close>

definition parse_fuel :: "u8 list \<Rightarrow> nat" where
  "parse_fuel s = 4 * length s + 8"

definition parsecmd :: "u8 list \<Rightarrow> (span cmd \<times> u8 list) res" where
  "parsecmd s =
     bindE (parseline (parse_fuel s) s 0) (\<lambda>(c, ps).
     let (_, ps) = peek s ps [] in
     if ps \<noteq> length s then Inl (Panic ''syntax'')
     else Inr (c, nulterminate c (s @ [0])))"

end
