(* ===== verification/Sh_Parse.thy ===== *)
theory Sh_Parse
  imports Sh
begin

text \<open>
  The parser of the shell on the tokens of a command: given the tokens of a command, with the parentheses
  that it needs, each routine of the parser returns that command.
\<close>

section \<open>Lexing\<close>

lemma skip_space_le: "s \<le> skip_space buf s" "s \<le> length buf \<Longrightarrow> skip_space buf s \<le> length buf"
  by (induction buf s rule: skip_space.induct; subst skip_space.simps; auto)+

lemma skip_space_stop: "skip_space buf s < length buf \<Longrightarrow> buf ! skip_space buf s \<notin> set whitespace"
  by (induction buf s rule: skip_space.induct; subst (asm) skip_space.simps; subst skip_space.simps; auto split: if_splits)

lemma skip_space_idem [simp]: "skip_space buf (skip_space buf s) = skip_space buf s"
  by (subst skip_space.simps) (use skip_space_stop in auto)

lemma skip_word_le: "s \<le> skip_word buf s" "s \<le> length buf \<Longrightarrow> skip_word buf s \<le> length buf"
  by (induction buf s rule: skip_word.induct; subst skip_word.simps; auto)+

lemma skip_word_stop:
  "skip_word buf s < length buf \<Longrightarrow> buf ! skip_word buf s \<in> set whitespace \<or> buf ! skip_word buf s \<in> set symbols"
proof (induction buf s rule: skip_word.induct)
  case (1 buf s)
  then show ?case
    by (auto simp: skip_word.simps [of buf s] split: if_splits)
qed

lemma skip_word_chars:
  "s \<le> i \<Longrightarrow> i < skip_word buf s \<Longrightarrow> buf ! i \<notin> set whitespace \<and> buf ! i \<notin> set symbols"
proof (induction buf s rule: skip_word.induct)
  case (1 buf s)
  then show ?case
    using skip_word.simps [of buf s] by (cases "s = i") (auto split: if_splits)
qed


text \<open>The text \<open>w\<close> of a word in the line, and what is behind it.\<close>

definition word_char :: "u8 \<Rightarrow> bool" where
  "word_char c \<longleftrightarrow> c \<noteq> 0 \<and> c \<notin> set whitespace \<and> c \<notin> set symbols"

definition text_at :: "u8 list \<Rightarrow> span \<Rightarrow> u8 list" where
  "text_at buf w = take (snd w - fst w) (drop (fst w) buf)"

definition word_at :: "u8 list \<Rightarrow> span \<Rightarrow> u8 list \<Rightarrow> bool" where
  "word_at buf w x \<longleftrightarrow> fst w < snd w \<and> snd w \<le> length buf \<and> text_at buf w = x \<and>
     (\<forall>i\<in>{fst w..<snd w}. word_char (buf ! i)) \<and> \<not> word_char (char_at buf (snd w))"

text \<open>The tokens from \<open>i\<close> on are \<open>ts\<close>, each with its kind and its text.\<close>

primrec lexes :: "u8 list \<Rightarrow> nat \<Rightarrow> (u8 \<times> u8 list) list \<Rightarrow> bool" where
  "lexes buf i [] \<longleftrightarrow> skip_space buf i = length buf"
| "lexes buf i (t # ts) \<longleftrightarrow> (\<exists>w j. gettoken buf i = (fst t, w, j) \<and> fst t \<noteq> 0 \<and> text_at buf w = snd t \<and> fst w < snd w \<and> lexes buf j ts)"

lemma gettoken_skip [simp]: "gettoken buf (skip_space buf i) = gettoken buf i"
  by (simp add: gettoken_def)

lemma peek_skip [simp]: "peek buf (skip_space buf i) S = peek buf i S"
  by (simp add: peek_def)

lemma lexes_skip [simp]: "lexes buf (skip_space buf i) ts = lexes buf i ts"
  by (cases ts) simp_all

lemma gettokenD:
  assumes "gettoken buf i = (t, w, j)" and "t \<noteq> 0"
  shows "fst w = skip_space buf i" "token_at buf (fst w) = (t, snd w)" "j = skip_space buf (snd w)"
    "fst w < length buf" "char_at buf (fst w) \<noteq> 0"
  using assms by (auto simp: gettoken_def Let_def token_at_def char_at_def split: prod.splits if_splits)

lemma hd_text_at: "fst w < snd w \<Longrightarrow> fst w < length buf \<Longrightarrow> hd (text_at buf w) = char_at buf (fst w)"
  by (simp add: text_at_def char_at_def hd_conv_nth)

lemma peek_lexes:
  assumes "lexes buf i ts"
  shows "peek buf i S = (ts \<noteq> [] \<and> hd (snd (hd ts)) \<in> set S, skip_space buf i)"
proof (cases ts)
  case Nil
  then show ?thesis
    using assms by (simp add: peek_def char_at_def)
next
  case (Cons t ts')
  then obtain w j where w: "gettoken buf i = (fst t, w, j)" "fst t \<noteq> 0" "text_at buf w = snd t" "fst w < snd w"
    using assms by auto
  note g = gettokenD [OF w(1,2)]
  show ?thesis
    using hd_text_at [OF w(4) g(4)] g(1,5) w(3) by (simp add: peek_def Cons Let_def)
qed

lemma gettoken_word:
  assumes g: "gettoken buf i = (of_char CHR ''a'', w, j)" and "fst w < snd w" and nz: "0 \<notin> set buf"
  shows "word_at buf w (text_at buf w)"
proof -
  note g = gettokenD [OF g]
  have s: "snd w = skip_word buf (fst w)"
    using g(2) by (auto simp: token_at_def Let_def ascii_def split: if_splits)
  have "word_char (buf ! k)" if "k \<in> {fst w..<snd w}" for k
  proof -
    have "k < length buf"
      using that s skip_word_le(2) [of "fst w" buf] g(4) by simp
    then have "buf ! k \<noteq> 0"
      using nz nth_mem by metis
    then show ?thesis
      using that s skip_word_chars [of "fst w" k buf] by (simp add: word_char_def)
  qed
  moreover have "\<not> word_char (char_at buf (snd w))"
    using skip_word_stop [of buf "fst w"] by (auto simp: s word_char_def char_at_def)
  moreover have "snd w \<le> length buf"
    using skip_word_le(2) [of "fst w" buf] g(4) s by simp
  ultimately show ?thesis
    using assms(2) by (auto simp: word_at_def)
qed

lemma gettoken_lexes:
  assumes "lexes buf i (t # ts)" and nz: "0 \<notin> set buf"
  obtains w j where "gettoken buf i = (fst t, w, j)" "lexes buf j ts" "fst t \<noteq> 0"
    "fst t = of_char CHR ''a'' \<longrightarrow> word_at buf w (snd t)"
proof -
  obtain w j where w: "gettoken buf i = (fst t, w, j)" "fst t \<noteq> 0" "text_at buf w = snd t" "fst w < snd w" "lexes buf j ts"
    using assms by auto
  then show thesis
    using that gettoken_word [of buf i w j] nz by auto
qed

lemma gettoken_end: "lexes buf i [] \<Longrightarrow> fst (gettoken buf i) = 0 \<and> lexes buf (snd (snd (gettoken buf i))) []"
  by (simp add: gettoken_def token_at_def char_at_def Let_def skip_space.simps [of buf "length buf"])

section \<open>Printing\<close>

definition symb :: "char \<Rightarrow> u8 \<times> u8 list" where
  "symb c = (of_char c, [of_char c])"

definition word :: "u8 list \<Rightarrow> u8 \<times> u8 list" where
  "word x = (of_char CHR ''a'', x)"

definition paren :: "bool \<Rightarrow> (u8 \<times> u8 list) list \<Rightarrow> (u8 \<times> u8 list) list" where
  "paren p ts = (if p then symb CHR ''('' # ts @ [symb CHR '')''] else ts)"

definition redir_toks :: "u8 list \<times> u32 \<times> nat \<Rightarrow> (u8 \<times> u8 list) list" where
  "redir_toks r = (case r of (x, mode, fd) \<Rightarrow>
     [if mode = O_RDONLY then symb CHR ''<''
      else if mode = or (or O_WRONLY O_CREATE) O_TRUNC then symb CHR ''>''
      else (of_char CHR ''+'', ascii ''>>''), word x])"

text \<open>
  The tokens of a command where a line, a command with ampersands, a pipe, or an element of a pipe is
  expected (0 to 3), with parentheses where they are needed.
\<close>

primrec cmd_toks :: "u8 list cmd \<Rightarrow> nat \<Rightarrow> (u8 \<times> u8 list) list" where
  "cmd_toks (EXEC argv) n = map word argv"
| "cmd_toks (REDIR c x mode fd) n = cmd_toks c 3 @ redir_toks (x, mode, fd)"
| "cmd_toks (PIPE c d) n = paren (2 < n) (cmd_toks c 3 @ symb CHR ''|'' # cmd_toks d 2)"
| "cmd_toks (LIST c d) n = paren (0 < n) (cmd_toks c 1 @ symb CHR '';'' # cmd_toks d 0)"
| "cmd_toks (BACK c) n = paren (1 < n) (cmd_toks c 1 @ [symb CHR ''&''])"

definition valid_word :: "u8 list \<Rightarrow> bool" where
  "valid_word x \<longleftrightarrow> x \<noteq> [] \<and> (\<forall>c\<in>set x. word_char c)"

definition valid_mode :: "u32 \<Rightarrow> nat \<Rightarrow> bool" where
  "valid_mode mode fd \<longleftrightarrow> mode = O_RDONLY \<and> fd = 0 \<or>
     mode \<in> {or (or O_WRONLY O_CREATE) O_TRUNC, or O_WRONLY O_CREATE} \<and> fd = 1"

primrec valid_cmd :: "u8 list cmd \<Rightarrow> bool" where
  "valid_cmd (EXEC argv) \<longleftrightarrow> length argv < MAXARGS \<and> (\<forall>x\<in>set argv. valid_word x)"
| "valid_cmd (REDIR c x mode fd) \<longleftrightarrow> valid_cmd c \<and> valid_word x \<and> valid_mode mode fd"
| "valid_cmd (PIPE c d) \<longleftrightarrow> valid_cmd c \<and> valid_cmd d"
| "valid_cmd (LIST c d) \<longleftrightarrow> valid_cmd c \<and> valid_cmd d"
| "valid_cmd (BACK c) \<longleftrightarrow> valid_cmd c"

section \<open>Parsing what was printed\<close>

definition redir_rel :: "u8 list \<Rightarrow> span \<times> u32 \<times> nat \<Rightarrow> u8 list \<times> u32 \<times> nat \<Rightarrow> bool" where
  "redir_rel buf r r' \<longleftrightarrow> word_at buf (fst r) (fst r') \<and> snd r = snd r'"

definition next_in :: "string \<Rightarrow> (u8 \<times> u8 list) list \<Rightarrow> bool" where
  "next_in S ts \<longleftrightarrow> ts \<noteq> [] \<and> hd (snd (hd ts)) \<in> set (ascii S)"

lemma redir_toks_ok:
  assumes "valid_mode mode fd"
  obtains t where "redir_toks (x, mode, fd) = [t, word x]" "hd (snd t) \<in> set (ascii ''<>'')"
    "\<forall>w rs. redir_of (fst t) w rs = (w, mode, fd) # rs"
proof -
  have m: "mode = 0 \<and> fd = 0 \<or> mode = 0x601 \<and> fd = 1 \<or> mode = 0x201 \<and> fd = 1"
    using assms by (auto simp: valid_mode_def O_RDONLY_def O_WRONLY_def O_CREATE_def O_TRUNC_def)
  show thesis
    by (rule that [of "hd (redir_toks (x, mode, fd))"])
      (use m in \<open>auto simp: redir_toks_def redir_of_def symb_def ascii_def O_RDONLY_def O_WRONLY_def O_CREATE_def O_TRUNC_def\<close>)
qed

lemma peek_next: "lexes buf i ts \<Longrightarrow> peek buf i (ascii S) = (next_in S ts, skip_space buf i)"
  by (simp add: peek_lexes next_in_def)

lemma parseredirs_ok:
  assumes "lexes buf i (concat (map redir_toks rs) @ rest)" and "\<not> next_in ''<>'' rest"
    and "\<forall>(x, mode, fd)\<in>set rs. valid_mode mode fd" and "length rs < k" and "0 \<notin> set buf"
  shows "\<exists>rs' j. parseredirs k buf acc i = Inr (rs' @ acc, j) \<and> lexes buf j rest \<and> list_all2 (redir_rel buf) rs' (rev rs)"
  using assms
proof (induction rs arbitrary: i k acc)
  case Nil
  then obtain k' where "k = Suc k'"
    by (cases k) auto
  then show ?case
    using Nil by (simp add: peek_next lexes_skip)
next
  case (Cons r rs)
  obtain k' where k: "k = Suc k'"
    using Cons.prems(4) by (cases k) auto
  obtain x mode fd where r: "r = (x, mode, fd)"
    by (cases r)
  obtain t where t: "redir_toks r = [t, word x]" "hd (snd t) \<in> set (ascii ''<>'')"
    "\<forall>w as. redir_of (fst t) w as = (w, mode, fd) # as"
    using redir_toks_ok [of mode fd x] Cons.prems(3) unfolding r by auto
  let ?ts = "concat (map redir_toks rs) @ rest"
  have l: "lexes buf i (t # word x # ?ts)"
    using Cons.prems(1) t(1) by simp
  obtain w j where 1: "gettoken buf i = (fst t, w, j)" "lexes buf j (word x # ?ts)"
    by (rule gettoken_lexes [OF l Cons.prems(5)])
  obtain w' j' where 2: "gettoken buf j = (of_char CHR ''a'', w', j')" "lexes buf j' ?ts" "word_at buf w' x"
    by (rule gettoken_lexes [OF 1(2) Cons.prems(5)]) (auto simp: word_def)
  obtain rs' m where 3: "parseredirs k' buf ((w', mode, fd) # acc) j' = Inr (rs' @ (w', mode, fd) # acc, m)"
    "lexes buf m rest" "list_all2 (redir_rel buf) rs' (rev rs)"
    using Cons.IH [OF 2(2) Cons.prems(2), of k' "(w', mode, fd) # acc"] Cons.prems(3-5) k by auto
  have "next_in ''<>'' (t # word x # ?ts)"
    using t(2) by (simp add: next_in_def)
  then have "parseredirs k buf acc i = Inr ((rs' @ [(w', mode, fd)]) @ acc, m)"
    using 1(1) 2(1) 3(1) t(3) [rule_format, of w' acc] by (simp add: k peek_next [OF l])
  moreover have "list_all2 (redir_rel buf) (rs' @ [(w', mode, fd)]) (rev (r # rs))"
    using 3(3) 2(3) by (simp add: r redir_rel_def list_all2_appendI)
  ultimately show ?case
    using 3(2) by blast
qed

text \<open>The words of a simple command and the redirections behind them.\<close>

lemma next_in_word: "valid_word x \<Longrightarrow> \<not> next_in ''<>|)&;('' (word x # ts)"
  by (cases x) (auto simp: next_in_def word_def valid_word_def word_char_def symbols_def ascii_def)

lemma not_next_in_mono: "\<not> next_in S ts \<Longrightarrow> set S' \<subseteq> set S \<Longrightarrow> \<not> next_in S' ts"
  by (auto simp: next_in_def ascii_def)

lemma parseargs_end:
  assumes l: "lexes buf i rest" and "rest = [] \<or> next_in ''|)&;'' rest" and "0 < k"
  shows "\<exists>j. parseargs k buf argv acc i = Inr (wrap acc (EXEC argv), j) \<and> lexes buf j rest"
proof (cases "rest = []")
  case True
  then have "fst (gettoken buf i) = 0 \<and> lexes buf (snd (snd (gettoken buf i))) []" "\<not> next_in ''|)&;'' rest"
    using gettoken_end l by (auto simp: next_in_def)
  then show ?thesis
    using True assms(3) by (cases k) (auto simp: peek_next [OF l] split: prod.splits)
next
  case False
  then show ?thesis
    using assms by (cases k) (auto simp: peek_next [OF l])
qed

lemma parseargs_ok:
  assumes "lexes buf i (map word xs @ concat (map redir_toks rs) @ rest)" and "\<forall>x\<in>set xs. valid_word x"
    and "xs = [] \<Longrightarrow> rs = []" and "\<forall>(x, mode, fd)\<in>set rs. valid_mode mode fd" and "rest = [] \<or> next_in ''|)&;'' rest"
    and "length argv + length xs < MAXARGS" and "length xs + length rs < k" and "0 \<notin> set buf"
  shows "\<exists>argv' rs' j. parseargs k buf argv acc i = Inr (wrap (rs' @ acc) (EXEC (argv @ argv')), j) \<and> lexes buf j rest \<and>
    list_all2 (word_at buf) argv' xs \<and> list_all2 (redir_rel buf) rs' (rev rs)"
  using assms
proof (induction xs arbitrary: i k argv acc)
  case Nil
  then have "\<exists>j. parseargs k buf argv acc i = Inr (wrap acc (EXEC argv), j) \<and> lexes buf j rest"
    by (intro parseargs_end) auto
  then show ?case
    using Nil(3) by auto
next
  case (Cons x xs)
  obtain k' where k: "k = Suc k'"
    using Cons.prems(7) by (cases k) auto
  let ?ts = "map word xs @ concat (map redir_toks rs) @ rest"
  have l: "lexes buf i (word x # ?ts)"
    using Cons.prems(1) by simp
  obtain w j where 1: "gettoken buf i = (of_char CHR ''a'', w, j)" "lexes buf j ?ts" "word_at buf w x"
    by (rule gettoken_lexes [OF l Cons.prems(8)]) (auto simp: word_def)
  have nx: "\<not> next_in ''|)&;'' (word x # ?ts)"
    using not_next_in_mono [OF next_in_word] Cons.prems(2) by simp
  have step: "parseargs k buf argv acc i = bindE (parseredirs k' buf acc j) (\<lambda>(rs, ps). parseargs k' buf (argv @ [w]) rs ps)"
    using 1(1) nx Cons.prems(6) by (simp add: k peek_next [OF l])
  have nr: "\<not> next_in ''<>'' rest"
    using Cons.prems(5) by (auto simp: next_in_def ascii_def)
  show ?case
  proof (cases "xs = []")
    case True
    obtain rs' m where r: "parseredirs k' buf acc j = Inr (rs' @ acc, m)" "lexes buf m rest" "list_all2 (redir_rel buf) rs' (rev rs)"
      using parseredirs_ok [of buf j rs rest k' acc] 1(2) nr Cons.prems(4,7,8) True k by auto
    obtain m' where "parseargs k' buf (argv @ [w]) (rs' @ acc) m = Inr (wrap (rs' @ acc) (EXEC (argv @ [w])), m')" "lexes buf m' rest"
      using parseargs_end [OF r(2) Cons.prems(5), of k' "argv @ [w]"] Cons.prems(7) k by auto
    then show ?thesis
      using step r(1,3) 1(3) True by (intro exI [of _ "[w]"] exI [of _ rs'] exI [of _ m']) simp
  next
    case False
    then have nw: "\<not> next_in ''<>'' ?ts"
      using not_next_in_mono [OF next_in_word, of "hd xs"] Cons.prems(2) by (cases xs) auto
    obtain m where r: "parseredirs k' buf acc j = Inr (acc, m)" "lexes buf m ?ts"
      using parseredirs_ok [of buf j "[]" ?ts k' acc] 1(2) nw Cons.prems(7,8) k by auto
    obtain argv' rs' m' where "parseargs k' buf (argv @ [w]) acc m = Inr (wrap (rs' @ acc) (EXEC ((argv @ [w]) @ argv')), m')"
      "lexes buf m' rest" "list_all2 (word_at buf) argv' xs" "list_all2 (redir_rel buf) rs' (rev rs)"
      using Cons.IH [OF r(2), of "argv @ [w]" k' acc] False Cons.prems k by auto
    then show ?thesis
      using step r(1) 1(3) by (intro exI [of _ "w # argv'"] exI [of _ rs'] exI [of _ m']) simp
  qed
qed

text \<open>
  The routine \<open>P\<close>, given the tokens \<open>ts\<close> and behind them a token that starts with one of \<open>S\<close> or nothing,
  parses the command \<open>c\<close>.
\<close>

definition parses ::
  "(nat \<Rightarrow> u8 list \<Rightarrow> nat \<Rightarrow> (span cmd \<times> nat) res) \<Rightarrow> nat \<Rightarrow> string \<Rightarrow> u8 list \<Rightarrow> (u8 \<times> u8 list) list \<Rightarrow> u8 list cmd \<Rightarrow> bool" where
  "parses P b S buf ts c \<longleftrightarrow>
     (\<forall>k i rest. lexes buf i (ts @ rest) \<longrightarrow> rest = [] \<or> next_in S rest \<longrightarrow> 4 * length (ts @ rest) + b \<le> k \<longrightarrow>
        (\<exists>cmd j. P k buf i = Inr (cmd, j) \<and> lexes buf j rest \<and> rel_cmd (word_at buf) cmd c))"

lemma parsesD:
  assumes "parses P b S buf ts c" and "lexes buf i (ts @ rest)" and "rest = [] \<or> next_in S rest" and "4 * length (ts @ rest) + b \<le> k"
  obtains cmd j where "P k buf i = Inr (cmd, j)" "lexes buf j rest" "rel_cmd (word_at buf) cmd c"
  using assms unfolding parses_def by blast

text \<open>A command without the redirections around it.\<close>

primrec strip :: "'w cmd \<Rightarrow> ('w \<times> u32 \<times> nat) list \<times> 'w cmd" where
  "strip (EXEC argv) = ([], EXEC argv)"
| "strip (REDIR c w mode fd) = (fst (strip c) @ [(w, mode, fd)], snd (strip c))"
| "strip (PIPE c d) = ([], PIPE c d)"
| "strip (LIST c d) = ([], LIST c d)"
| "strip (BACK c) = ([], BACK c)"

lemma strip_wrap: "wrap (rev (fst (strip c))) (snd (strip c)) = c"
  by (induction c) (simp_all add: wrap_def)

lemma strip_toks: "cmd_toks c 3 = cmd_toks (snd (strip c)) 3 @ concat (map redir_toks (fst (strip c)))"
  by (induction c) simp_all

lemma strip_size: "size (snd (strip c)) \<le> size c"
  by (induction c) simp_all

lemma strip_valid:
  "valid_cmd c \<Longrightarrow> valid_cmd (snd (strip c)) \<and> (\<forall>(x, mode, fd)\<in>set (fst (strip c)). valid_mode mode fd)"
  by (induction c) auto

lemma rel_wrap:
  "list_all2 (redir_rel buf) rs rs' \<Longrightarrow> rel_cmd (word_at buf) c c' \<Longrightarrow> rel_cmd (word_at buf) (wrap rs c) (wrap rs' c')"
  by (induction rs rs' rule: list_all2_induct) (auto simp: wrap_def redir_rel_def split: prod.splits)

lemma length_redirs: "length (concat (map redir_toks rs)) = 2 * length rs"
  by (induction rs) (auto simp: redir_toks_def split: prod.splits)

lemma no_paren:
  assumes "\<forall>x\<in>set xs. valid_word x" and "\<forall>(x, mode, fd)\<in>set rs. valid_mode mode fd" and "rest = [] \<or> next_in '')&;|'' rest"
  shows "\<not> next_in ''('' (map word xs @ concat (map redir_toks rs) @ rest)"
proof (cases xs)
  case (Cons x xs')
  then show ?thesis
    using not_next_in_mono [OF next_in_word, of x "''(''"] assms(1) by simp
next
  case Nil
  show ?thesis
  proof (cases rs)
    case Nil': Nil
    then show ?thesis
      using Nil assms(3) by (auto simp: next_in_def ascii_def)
  next
    case (Cons r rs')
    obtain x mode fd where r: "r = (x, mode, fd)"
      by (cases r)
    then have "valid_mode mode fd"
      using assms(2) Cons by auto
    then obtain t where "redir_toks r = [t, word x]" "hd (snd t) \<in> set (ascii ''<>'')"
      unfolding r by (rule redir_toks_ok)
    then show ?thesis
      using Nil Cons by (auto simp: next_in_def ascii_def)
  qed
qed

lemma exec_simple:
  assumes nz: "0 \<notin> set buf" and v: "valid_cmd c" and s: "strip c = (rs, EXEC xs)"
  shows "parses parseexec 2 '')&;|'' buf (cmd_toks c 3) c"
  unfolding parses_def
proof (intro allI impI)
  fix k i rest
  assume l: "lexes buf i (cmd_toks c 3 @ rest)" and r: "rest = [] \<or> next_in '')&;|'' rest" and k: "4 * length (cmd_toks c 3 @ rest) + 2 \<le> k"
  have ts: "cmd_toks c 3 = map word xs @ concat (map redir_toks rs)"
    using strip_toks [of c] s by simp
  have vx: "\<forall>x\<in>set xs. valid_word x" "length xs < MAXARGS" "\<forall>(x, mode, fd)\<in>set rs. valid_mode mode fd"
    using strip_valid [OF v] s by auto
  obtain k' where k': "k = Suc k'" "length xs + length rs < k'" "0 < k'"
    using k by (cases k) (auto simp: ts length_redirs)
  have l': "lexes buf i (map word xs @ concat (map redir_toks rs) @ rest)"
    using l ts by simp
  have step: "parseexec k buf i = bindE (parseredirs k' buf [] (skip_space buf i)) (\<lambda>(rs, ps). parseargs k' buf [] rs ps)"
    using no_paren [OF vx(1,3) r] by (simp add: k'(1) peek_next [OF l'])
  have r': "rest = [] \<or> next_in ''|)&;'' rest" "\<not> next_in ''<>'' rest"
    using r by (auto simp: next_in_def ascii_def)
  have c: "c = wrap (rev rs) (EXEC xs)"
    using strip_wrap [of c] s by simp
  show "\<exists>cmd j. parseexec k buf i = Inr (cmd, j) \<and> lexes buf j rest \<and> rel_cmd (word_at buf) cmd c"
  proof (cases "xs = []")
    case True
    obtain rs' m where 1: "parseredirs k' buf [] (skip_space buf i) = Inr (rs', m)" "lexes buf m rest" "list_all2 (redir_rel buf) rs' (rev rs)"
      using parseredirs_ok [of buf "skip_space buf i" rs rest k' "[]"] l' r'(2) vx(3) k'(2) nz True by auto
    obtain j where "parseargs k' buf [] rs' m = Inr (wrap rs' (EXEC []), j)" "lexes buf j rest"
      using parseargs_end [OF 1(2) r'(1) k'(3), of "[]" rs'] by blast
    then show ?thesis
      using step 1 rel_wrap [OF 1(3), of "EXEC []" "EXEC []"] c True by auto
  next
    case False
    then have "\<not> next_in ''<>'' (map word xs @ concat (map redir_toks rs) @ rest)"
      using not_next_in_mono [OF next_in_word, of "hd xs"] vx(1) by (cases xs) auto
    then obtain m where 1: "parseredirs k' buf [] (skip_space buf i) = Inr ([], m)" "lexes buf m (map word xs @ concat (map redir_toks rs) @ rest)"
      using parseredirs_ok [of buf "skip_space buf i" "[]" "map word xs @ concat (map redir_toks rs) @ rest" k' "[]"] l' k'(3) nz by auto
    obtain argv rs' j where 2: "parseargs k' buf [] [] m = Inr (wrap rs' (EXEC argv), j)" "lexes buf j rest"
      "list_all2 (word_at buf) argv xs" "list_all2 (redir_rel buf) rs' (rev rs)"
      using parseargs_ok [OF 1(2) vx(1) _ vx(3) r'(1), of "[]" k' "[]"] False vx(2) k'(2) nz by auto
    then show ?thesis
      using step 1(1) rel_wrap [OF 2(4), of "EXEC argv" "EXEC xs"] c by auto
  qed
qed

lemma gettoken_symb:
  assumes "lexes buf i (symb c # ts)" and "0 \<notin> set buf"
  obtains w j where "gettoken buf i = (of_char c, w, j)" "lexes buf j ts"
proof -
  obtain w j where "gettoken buf i = (fst (symb c), w, j)" "lexes buf j ts"
    by (rule gettoken_lexes [OF assms])
  then show thesis
    using that by (simp add: symb_def)
qed

lemma next_in_symb: "next_in S (symb c # ts) \<longleftrightarrow> of_char c \<in> set (ascii S)"
  by (simp add: next_in_def symb_def)

lemma exec_block:
  assumes nz: "0 \<notin> set buf" and v: "valid_cmd c" and s: "strip c = (rs, d)" and p: "cmd_toks d 3 = paren True (cmd_toks d 0)"
    and line: "parses parseline 4 '')'' buf (cmd_toks d 0) d"
  shows "parses parseexec 2 '')&;|'' buf (cmd_toks c 3) c"
  unfolding parses_def
proof (intro allI impI)
  fix k i rest
  assume l: "lexes buf i (cmd_toks c 3 @ rest)" and r: "rest = [] \<or> next_in '')&;|'' rest" and k: "4 * length (cmd_toks c 3 @ rest) + 2 \<le> k"
  let ?rs = "concat (map redir_toks rs) @ rest"
  have ts: "cmd_toks c 3 @ rest = symb CHR ''('' # cmd_toks d 0 @ symb CHR '')'' # ?rs"
    using strip_toks [of c] s p by (simp add: paren_def)
  note l' = l [unfolded ts]
  obtain k' where k': "k = Suc (Suc k')" "4 * length (cmd_toks d 0 @ symb CHR '')'' # ?rs) + 4 \<le> k'" "length rs < k'"
  proof
    show "k = Suc (Suc (k - 2))" "4 * length (cmd_toks d 0 @ symb CHR '')'' # ?rs) + 4 \<le> k - 2" "length rs < k - 2"
      using k unfolding ts by (simp_all add: length_redirs)
  qed
  obtain w1 j1 where 1: "gettoken buf i = (of_char CHR ''('', w1, j1)" "lexes buf j1 (cmd_toks d 0 @ symb CHR '')'' # ?rs)"
    by (rule gettoken_symb [OF l' nz])
  obtain cmd j2 where 2: "parseline k' buf j1 = Inr (cmd, j2)" "lexes buf j2 (symb CHR '')'' # ?rs)" "rel_cmd (word_at buf) cmd d"
    by (rule parsesD [OF line 1(2) _ k'(2)]) (auto simp: next_in_symb ascii_def)
  obtain w3 j3 where 3: "gettoken buf j2 = (of_char CHR '')'', w3, j3)" "lexes buf j3 ?rs"
    by (rule gettoken_symb [OF 2(2) nz])
  have "\<not> next_in ''<>'' rest"
    using r by (auto simp: next_in_def ascii_def)
  then obtain rs' j where 4: "parseredirs k' buf [] j3 = Inr (rs', j)" "lexes buf j rest" "list_all2 (redir_rel buf) rs' (rev rs)"
    using parseredirs_ok [OF 3(2), of k' "[]"] strip_valid [OF v] s k'(3) nz by auto
  have "next_in ''('' (symb CHR ''('' # ts)" "next_in '')'' (symb CHR '')'' # ts)" for ts
    by (simp_all add: next_in_symb ascii_def)
  then have "parseexec k buf i = Inr (wrap rs' cmd, j)"
    using 1(1) 2(1) 3(1) 4(1) by (simp add: k'(1) peek_next [OF l'] peek_next [OF 2(2)])
  moreover have "rel_cmd (word_at buf) (wrap rs' cmd) c"
    using rel_wrap [OF 4(3) 2(3)] strip_wrap [of c] s by simp
  ultimately show "\<exists>cmd j. parseexec k buf i = Inr (cmd, j) \<and> lexes buf j rest \<and> rel_cmd (word_at buf) cmd c"
    using 4(2) by blast
qed

lemma pipe_atom:
  assumes "parses parseexec 2 '')&;|'' buf ts c"
  shows "parses parsepipe 3 '')&;'' buf ts c"
  unfolding parses_def
proof (intro allI impI)
  fix k i rest
  assume l: "lexes buf i (ts @ rest)" and r: "rest = [] \<or> next_in '')&;'' rest" and k: "4 * length (ts @ rest) + 3 \<le> k"
  obtain k' where k': "k = Suc k'" "4 * length (ts @ rest) + 2 \<le> k'"
    using k by (cases k) auto
  have r': "rest = [] \<or> next_in '')&;|'' rest" "\<not> next_in ''|'' rest"
    using r by (auto simp: next_in_def ascii_def)
  obtain cmd j where 1: "parseexec k' buf i = Inr (cmd, j)" "lexes buf j rest" "rel_cmd (word_at buf) cmd c"
    by (rule parsesD [OF assms l r'(1) k'(2)])
  then show "\<exists>cmd j. parsepipe k buf i = Inr (cmd, j) \<and> lexes buf j rest \<and> rel_cmd (word_at buf) cmd c"
    using r'(2) by (simp add: k'(1) peek_next [OF 1(2)])
qed

lemma pipe_pipe:
  assumes nz: "0 \<notin> set buf" and a: "parses parseexec 2 '')&;|'' buf ts c" and b: "parses parsepipe 3 '')&;'' buf us d"
  shows "parses parsepipe 3 '')&;'' buf (ts @ symb CHR ''|'' # us) (PIPE c d)"
  unfolding parses_def
proof (intro allI impI)
  fix k i rest
  assume l: "lexes buf i ((ts @ symb CHR ''|'' # us) @ rest)" and r: "rest = [] \<or> next_in '')&;'' rest"
    and k: "4 * length ((ts @ symb CHR ''|'' # us) @ rest) + 3 \<le> k"
  obtain k' where k': "k = Suc k'" "4 * length (ts @ symb CHR ''|'' # us @ rest) + 2 \<le> k'" "4 * length (us @ rest) + 3 \<le> k'"
    using k by (cases k) auto
  have l': "lexes buf i (ts @ symb CHR ''|'' # us @ rest)"
    using l by simp
  have n: "next_in ''|'' (symb CHR ''|'' # zs)" "next_in '')&;|'' (symb CHR ''|'' # zs)" for zs
    by (simp_all add: next_in_symb ascii_def)
  obtain cmd j where 1: "parseexec k' buf i = Inr (cmd, j)" "lexes buf j (symb CHR ''|'' # us @ rest)" "rel_cmd (word_at buf) cmd c"
    by (rule parsesD [OF a l' disjI2 [OF n(2)] k'(2)])
  obtain w j' where 2: "gettoken buf j = (of_char CHR ''|'', w, j')" "lexes buf j' (us @ rest)"
    by (rule gettoken_symb [OF 1(2) nz])
  obtain cmd' j'' where 3: "parsepipe k' buf j' = Inr (cmd', j'')" "lexes buf j'' rest" "rel_cmd (word_at buf) cmd' d"
    by (rule parsesD [OF b 2(2) r k'(3)])
  then show "\<exists>cmd j. parsepipe k buf i = Inr (cmd, j) \<and> lexes buf j rest \<and> rel_cmd (word_at buf) cmd (PIPE c d)"
    using 1 2 n(1) by (simp add: k'(1) peek_next [OF 1(2)])
qed

text \<open>Ampersands.\<close>

lemma parseback_ok:
  assumes "lexes buf i (replicate n (symb CHR ''&'') @ rest)" and "\<not> next_in ''&'' rest" and "n < k" and "0 \<notin> set buf"
  shows "\<exists>j. parseback k buf c i = Inr ((BACK ^^ n) c, j) \<and> lexes buf j rest"
  using assms
proof (induction n arbitrary: i k c)
  case 0
  then show ?case
    by (cases k) (simp_all add: peek_next)
next
  case (Suc n)
  obtain k' where k: "k = Suc k'" "n < k'"
    using Suc.prems(3) by (cases k) auto
  have l: "lexes buf i (symb CHR ''&'' # replicate n (symb CHR ''&'') @ rest)"
    using Suc.prems(1) by simp
  obtain w j where 1: "gettoken buf i = (of_char CHR ''&'', w, j)" "lexes buf j (replicate n (symb CHR ''&'') @ rest)"
    by (rule gettoken_symb [OF l Suc.prems(4)])
  have "next_in ''&'' (symb CHR ''&'' # zs)" for zs
    by (simp add: next_in_symb ascii_def)
  then show ?case
    using Suc.IH [OF 1(2) Suc.prems(2) k(2) Suc.prems(4), of "BACK c"] 1(1)
    by (simp add: k(1) peek_next [OF l] funpow_swap1)
qed

primrec unback :: "'w cmd \<Rightarrow> nat \<times> 'w cmd" where
  "unback (EXEC argv) = (0, EXEC argv)"
| "unback (REDIR c w mode fd) = (0, REDIR c w mode fd)"
| "unback (PIPE c d) = (0, PIPE c d)"
| "unback (LIST c d) = (0, LIST c d)"
| "unback (BACK c) = (Suc (fst (unback c)), snd (unback c))"

lemma unback_pow: "(BACK ^^ fst (unback c)) (snd (unback c)) = c"
  by (induction c) simp_all

lemma unback_toks: "cmd_toks c 1 = cmd_toks (snd (unback c)) 2 @ replicate (fst (unback c)) (symb CHR ''&'')"
  by (induction c) (simp_all add: paren_def replicate_append_same)

lemma unback_size: "size (snd (unback c)) \<le> size c"
  by (induction c) simp_all

lemma unback_valid: "valid_cmd c \<Longrightarrow> valid_cmd (snd (unback c))"
  by (induction c) simp_all

lemma rel_back: "rel_cmd R c d \<Longrightarrow> rel_cmd R ((BACK ^^ n) c) ((BACK ^^ n) d)"
  by (induction n) simp_all

lemma back_ok:
  assumes nz: "0 \<notin> set buf" and p: "parses parsepipe 3 '')&;'' buf (cmd_toks (snd (unback c)) 2) (snd (unback c))"
  shows "parses (\<lambda>k buf i. bindE (parsepipe k buf i) (\<lambda>(c, ps). parseback k buf c ps)) 3 '');'' buf (cmd_toks c 1) c"
  unfolding parses_def
proof (intro allI impI)
  fix k i rest
  let ?n = "fst (unback c)" and ?p = "snd (unback c)"
  assume l: "lexes buf i (cmd_toks c 1 @ rest)" and r: "rest = [] \<or> next_in '');'' rest" and k: "4 * length (cmd_toks c 1 @ rest) + 3 \<le> k"
  let ?r = "replicate ?n (symb CHR ''&'') @ rest"
  have r': "?r = [] \<or> next_in '')&;'' ?r" "\<not> next_in ''&'' rest"
    using r by (cases ?n; auto simp: next_in_def ascii_def symb_def)+
  have l': "lexes buf i (cmd_toks ?p 2 @ ?r)" "4 * length (cmd_toks ?p 2 @ ?r) + 3 \<le> k"
    using l k unfolding unback_toks [of c] by simp_all
  obtain cmd j where 1: "parsepipe k buf i = Inr (cmd, j)" "lexes buf j ?r" "rel_cmd (word_at buf) cmd ?p"
    by (rule parsesD [OF p l'(1) r'(1) l'(2)])
  have "?n < k"
    using l'(2) by simp
  then obtain j' where "parseback k buf cmd j = Inr ((BACK ^^ ?n) cmd, j')" "lexes buf j' rest"
    using parseback_ok [OF 1(2) r'(2) _ nz] by blast
  then show "\<exists>cmd j. bindE (parsepipe k buf i) (\<lambda>(c, ps). parseback k buf c ps) = Inr (cmd, j) \<and> lexes buf j rest \<and> rel_cmd (word_at buf) cmd c"
    using 1(1) rel_back [OF 1(3), of ?n] unback_pow [of c] by auto
qed

abbreviation parse_back :: "nat \<Rightarrow> u8 list \<Rightarrow> nat \<Rightarrow> (span cmd \<times> nat) res" where
  "parse_back k buf i \<equiv> bindE (parsepipe k buf i) (\<lambda>(c, ps). parseback k buf c ps)"

lemma parse_back_line:
  assumes "parse_back k buf i = Inr (c, j)"
  shows "parseline (Suc k) buf i =
    (let (found, ps) = peek buf j (ascii '';'') in
     if \<not> found then Inr (c, ps)
     else (let (_, _, ps) = gettoken buf ps in bindE (parseline k buf ps) (\<lambda>(d, ps). Inr (LIST c d, ps))))"
  using assms by (auto simp: bindE_def split: sum.splits)

lemma line_single:
  assumes "parses parse_back 3 '');'' buf ts c"
  shows "parses parseline 4 '')'' buf ts c"
  unfolding parses_def
proof (intro allI impI)
  fix k i rest
  assume l: "lexes buf i (ts @ rest)" and r: "rest = [] \<or> next_in '')'' rest" and k: "4 * length (ts @ rest) + 4 \<le> k"
  obtain k' where k': "k = Suc k'" "4 * length (ts @ rest) + 3 \<le> k'"
    using k by (cases k) auto
  have r': "rest = [] \<or> next_in '');'' rest" "\<not> next_in '';'' rest"
    using r by (auto simp: next_in_def ascii_def)
  obtain cmd j where 1: "parse_back k' buf i = Inr (cmd, j)" "lexes buf j rest" "rel_cmd (word_at buf) cmd c"
    by (rule parsesD [OF assms l r'(1) k'(2)])
  then show "\<exists>cmd j. parseline k buf i = Inr (cmd, j) \<and> lexes buf j rest \<and> rel_cmd (word_at buf) cmd c"
    using r'(2) unfolding k'(1) parse_back_line [OF 1(1)] by (simp add: peek_next [OF 1(2)])
qed

lemma line_list:
  assumes nz: "0 \<notin> set buf" and a: "parses parse_back 3 '');'' buf ts c" and b: "parses parseline 4 '')'' buf us d"
  shows "parses parseline 4 '')'' buf (ts @ symb CHR '';'' # us) (LIST c d)"
  unfolding parses_def
proof (intro allI impI)
  fix k i rest
  assume l: "lexes buf i ((ts @ symb CHR '';'' # us) @ rest)" and r: "rest = [] \<or> next_in '')'' rest"
    and k: "4 * length ((ts @ symb CHR '';'' # us) @ rest) + 4 \<le> k"
  obtain k' where k': "k = Suc k'" "4 * length (ts @ symb CHR '';'' # us @ rest) + 3 \<le> k'" "4 * length (us @ rest) + 4 \<le> k'"
    using k by (cases k) auto
  have l': "lexes buf i (ts @ symb CHR '';'' # us @ rest)"
    using l by simp
  have n: "next_in '';'' (symb CHR '';'' # zs)" "next_in '');'' (symb CHR '';'' # zs)" for zs
    by (simp_all add: next_in_symb ascii_def)
  obtain cmd j where 1: "parse_back k' buf i = Inr (cmd, j)" "lexes buf j (symb CHR '';'' # us @ rest)" "rel_cmd (word_at buf) cmd c"
    by (rule parsesD [OF a l' disjI2 [OF n(2)] k'(2)])
  obtain w j' where 2: "gettoken buf j = (of_char CHR '';'', w, j')" "lexes buf j' (us @ rest)"
    by (rule gettoken_symb [OF 1(2) nz])
  obtain cmd' j'' where 3: "parseline k' buf j' = Inr (cmd', j'')" "lexes buf j'' rest" "rel_cmd (word_at buf) cmd' d"
    by (rule parsesD [OF b 2(2) r k'(3)])
  then show "\<exists>cmd j. parseline k buf i = Inr (cmd, j) \<and> lexes buf j rest \<and> rel_cmd (word_at buf) cmd (LIST c d)"
    using 1(3) 2(1) n(1) unfolding k'(1) parse_back_line [OF 1(1)] by (simp add: peek_next [OF 1(2)])
qed

lemma strip_core: "(\<exists>xs. snd (strip c) = EXEC xs) \<or> cmd_toks (snd (strip c)) 3 = paren True (cmd_toks (snd (strip c)) 0)"
  by (induction c) (simp_all add: paren_def)

lemma parse_cmd:
  assumes "valid_cmd c" and nz: "0 \<notin> set buf"
  shows "parses parseline 4 '')'' buf (cmd_toks c 0) c \<and> parses parsepipe 3 '')&;'' buf (cmd_toks c 2) c \<and>
    parses parseexec 2 '')&;|'' buf (cmd_toks c 3) c"
  using assms(1)
proof (induction c rule: measure_induct_rule [where f = size])
  case (less c)
  let ?line = "\<lambda>c. parses parseline 4 '')'' buf (cmd_toks c 0) c" and ?pipe = "\<lambda>c. parses parsepipe 3 '')&;'' buf (cmd_toks c 2) c"
    and ?exec = "\<lambda>c. parses parseexec 2 '')&;|'' buf (cmd_toks c 3) c" and ?bg = "\<lambda>c. parses parse_back 3 '');'' buf (cmd_toks c 1) c"
  have ampersands: "?bg c" if "?pipe (snd (unback c))" for c
    by (rule back_ok [OF nz that])
  show ?case
  proof (cases c)
    case (EXEC xs)
    have e: "?exec c"
      by (rule exec_simple [OF nz less.prems, of "[]" xs]) (simp add: EXEC)
    have p: "?pipe c"
      using pipe_atom [OF e] by (simp add: EXEC)
    moreover have "?line c"
      using line_single [OF ampersands [of c]] p by (simp add: EXEC)
    ultimately show ?thesis
      using e by blast
  next
    case (REDIR c' w mode fd)
    let ?d = "snd (strip c)"
    have d: "size ?d < size c" "valid_cmd ?d"
      using strip_size [of c'] strip_valid [OF less.prems] by (simp_all add: REDIR)
    have s: "strip c = (fst (strip c), ?d)"
      by simp
    have e: "?exec c"
    proof (cases "\<exists>xs. ?d = EXEC xs")
      case True
      then show ?thesis
        using exec_simple [OF nz less.prems, of "fst (strip c)"] s by metis
    next
      case False
      then have "cmd_toks ?d 3 = paren True (cmd_toks ?d 0)"
        using strip_core [of c] by blast
      then show ?thesis
        using exec_block [OF nz less.prems s] less.IH [OF d] by blast
    qed
    have p: "?pipe c"
      using pipe_atom [OF e] by (simp add: REDIR)
    moreover have "?line c"
      using line_single [OF ampersands [of c]] p by (simp add: REDIR)
    ultimately show ?thesis
      using e by blast
  next
    case (PIPE a b)
    have "?exec a" "?pipe b"
      using less.IH [of a] less.IH [of b] less.prems by (simp_all add: PIPE)
    then have p: "?pipe c"
      using pipe_pipe [OF nz] by (simp add: PIPE paren_def)
    then have l: "?line c"
      using line_single [OF ampersands [of c]] by (simp add: PIPE paren_def)
    moreover have "?exec c"
      by (rule exec_block [OF nz less.prems, of "[]" c]) (use l in \<open>simp_all add: PIPE paren_def\<close>)
    ultimately show ?thesis
      using p by blast
  next
    case (LIST a b)
    have "?pipe (snd (unback a))" "?line b"
      using less.IH [of "snd (unback a)"] less.IH [of b] less.prems unback_size [of a] unback_valid [of a] by (simp_all add: LIST)
    then have l: "?line c"
      using line_list [OF nz ampersands [of a]] by (simp add: LIST paren_def)
    have e: "?exec c"
      by (rule exec_block [OF nz less.prems, of "[]" c]) (use l in \<open>simp_all add: LIST paren_def\<close>)
    moreover have "?pipe c"
      using pipe_atom [OF e] by (simp add: LIST paren_def)
    ultimately show ?thesis
      using l by blast
  next
    case (BACK a)
    have "?pipe (snd (unback c))"
      using less.IH [of "snd (unback a)"] less.prems unback_size [of a] unback_valid [of a] by (simp add: BACK)
    then have l: "?line c"
      using line_single [OF ampersands [of c]] by (simp add: BACK paren_def)
    have e: "?exec c"
      by (rule exec_block [OF nz less.prems, of "[]" c]) (use l in \<open>simp_all add: BACK paren_def\<close>)
    moreover have "?pipe c"
      using pipe_atom [OF e] by (simp add: BACK paren_def)
    ultimately show ?thesis
      using l by blast
  qed
qed

end
