(* ===== verification/Sh_Print.thy ===== *)
theory Sh_Print
  imports Sh_Parse
begin

text \<open>
  The parser of the shell on whole lines: it inverts printing, that is, a command printed as a line
  parses to the same command, with its words as strings.
\<close>

section \<open>The printed line\<close>

text \<open>The tokens, with a space behind each, and the newline.\<close>

definition print_toks :: "(u8 \<times> u8 list) list \<Rightarrow> u8 list" where
  "print_toks ts = concat (map (\<lambda>t. snd t @ [32]) ts)"

definition print_cmd :: "u8 list cmd \<Rightarrow> u8 list" where
  "print_cmd c = print_toks (cmd_toks c 0) @ [10]"

definition wf_tok :: "u8 \<times> u8 list \<Rightarrow> bool" where
  "wf_tok t \<longleftrightarrow> (\<exists>x. t = word x \<and> valid_word x) \<or> t \<in> symb ` set ''|();&<>'' \<or> t = (of_char CHR ''+'', ascii ''>>'')"

lemma skip_word_run:
  assumes "\<forall>i\<in>{s..<e}. word_char (buf ! i)" and "s \<le> e" and "e < length buf" and "buf ! e = 32"
  shows "skip_word buf s = e"
  using assms
proof (induction "e - s" arbitrary: s)
  case 0
  then show ?case
    by (subst skip_word.simps) (simp add: whitespace_def)
next
  case (Suc n)
  then have "word_char (buf ! s)" "s < length buf"
    by auto
  then have "skip_word buf s = skip_word buf (Suc s)"
    by (subst skip_word.simps) (simp add: word_char_def)
  then show ?case
    using Suc by simp
qed

lemma token_text:
  assumes "wf_tok t" and "buf = pre @ snd t @ 32 # post"
  shows "token_at buf (length pre) = (fst t, length pre + length (snd t))" and "snd t \<noteq> []" and "hd (snd t) \<notin> set whitespace"
    and "fst t \<noteq> 0" and "0 \<notin> set (snd t)"
proof -
  have c: "char_at buf (length pre + i) = (snd t @ 32 # post) ! i" if "i \<le> length (snd t)" for i
    using that assms(2) by (simp add: char_at_def nth_append)
  consider x where "t = word x" "valid_word x" | "t \<in> symb ` set ''|();&<>''" | "t = (of_char CHR ''+'', ascii ''>>'')"
    using assms(1) by (auto simp: wf_tok_def)
  then have "token_at buf (length pre) = (fst t, length pre + length (snd t)) \<and> snd t \<noteq> [] \<and> hd (snd t) \<notin> set whitespace \<and>
    fst t \<noteq> 0 \<and> 0 \<notin> set (snd t)"
  proof cases
    case 1
    have w: "skip_word buf (length pre) = length pre + length x"
      using 1 assms(2) by (intro skip_word_run) (auto simp: word_def valid_word_def nth_append)
    have h: "word_char (char_at buf (length pre))" "hd x = char_at buf (length pre)" "x \<noteq> []" "0 \<notin> set x"
      using c [of 0] 1 by (cases x; auto simp: word_def valid_word_def word_char_def)+
    have "char_at buf (length pre) \<notin> set (ascii ''|();&<'')" "char_at buf (length pre) \<noteq> of_char CHR ''>''"
      using h(1) by (auto simp: word_char_def symbols_def ascii_def)
    then have "token_at buf (length pre) = (of_char CHR ''a'', length pre + length x)"
      using h(1) w by (simp add: token_at_def Let_def word_char_def)
    then show ?thesis
      using 1(1) h by (simp add: word_def word_char_def)
  next
    case 2
    then obtain ch where ch: "t = symb ch" "ch \<in> set ''|();&<>''"
      by blast
    have "char_at buf (length pre) = of_char ch" "char_at buf (Suc (length pre)) = 32"
      using c [of 0] c [of 1] ch(1) by (simp_all add: symb_def)
    then show ?thesis
      using ch by (auto simp: token_at_def symb_def ascii_def whitespace_def)
  next
    case 3
    then have "char_at buf (length pre) = of_char CHR ''>''" "char_at buf (Suc (length pre)) = of_char CHR ''>''"
      using c [of 0] c [of 1] by (simp_all add: ascii_def)
    then show ?thesis
      using 3 by (simp add: token_at_def ascii_def whitespace_def)
  qed
  then show "token_at buf (length pre) = (fst t, length pre + length (snd t))" "snd t \<noteq> []" "hd (snd t) \<notin> set whitespace"
    "fst t \<noteq> 0" "0 \<notin> set (snd t)"
    by simp_all
qed

lemma lexes_print:
  assumes "\<forall>t\<in>set ts. wf_tok t"
  shows "lexes (pre @ print_toks ts @ [10]) (length pre) ts"
  using assms
proof (induction ts arbitrary: pre)
  case Nil
  then show ?case
    by (simp add: print_toks_def whitespace_def skip_space.simps [of "pre @ [10]" "length pre"]
        skip_space.simps [of "pre @ [10]" "Suc (length pre)"])
next
  case (Cons t ts)
  let ?buf = "pre @ print_toks (t # ts) @ [10]" and ?e = "length pre + length (snd t)"
  have b: "?buf = pre @ snd t @ 32 # print_toks ts @ [10]"
    by (simp add: print_toks_def)
  have "wf_tok t"
    using Cons.prems by simp
  note T = token_text [OF this b]
  have s0: "skip_space ?buf (length pre) = length pre"
    using T(2,3) by (subst skip_space.simps) (auto simp: b nth_append hd_conv_nth)
  have "lexes ?buf (Suc ?e) ts"
    using Cons.IH [of "pre @ snd t @ [32]"] Cons.prems by (simp add: print_toks_def)
  moreover have "skip_space ?buf ?e = skip_space ?buf (Suc ?e)"
    by (subst skip_space.simps) (simp add: b nth_append whitespace_def)
  ultimately have "lexes ?buf (skip_space ?buf ?e) ts"
    by simp
  moreover have "gettoken ?buf (length pre) = (fst t, (length pre, ?e), skip_space ?buf ?e)"
    using T(1) s0 by (simp add: gettoken_def Let_def)
  ultimately show ?case
    using T(2,4) by (simp add: text_at_def b)
qed

lemma cmd_toks_wf: "valid_cmd c \<Longrightarrow> t \<in> set (cmd_toks c n) \<Longrightarrow> wf_tok t"
  by (induction c arbitrary: n) (auto simp: paren_def redir_toks_def wf_tok_def split: if_splits)

lemma length_print_toks: "\<forall>t\<in>set ts. wf_tok t \<Longrightarrow> length ts \<le> length (print_toks ts)"
  by (induction ts) (auto simp: print_toks_def)

lemma print_toks_nonzero: "\<forall>t\<in>set ts. wf_tok t \<Longrightarrow> 0 \<notin> set (print_toks ts)"
proof (induction ts)
  case (Cons t ts)
  then have "0 \<notin> set (snd t)"
    using token_text(5) [of t "snd t @ [32]" "[]" "[]"] by simp
  then show ?case
    using Cons by (simp add: print_toks_def)
qed (simp add: print_toks_def)

section \<open>Words as strings\<close>

text \<open>The string that begins at a word, once its end is marked.\<close>

definition word_string :: "u8 list \<Rightarrow> span \<Rightarrow> u8 list" where
  "word_string buf w = takeWhile (\<lambda>c. c \<noteq> 0) (drop (fst w) buf)"

lemma length_fold_update [simp]: "length (fold (\<lambda>(q, e) b. b[e := 0]) ws b) = length b"
  by (induction ws arbitrary: b) (auto simp: case_prod_beta)

lemma length_nulterminate [simp]: "length (nulterminate c b) = length b"
  by (induction c arbitrary: b) (simp_all add: case_prod_beta)

lemma nth_fold_update:
  "i < length b \<Longrightarrow> fold (\<lambda>(q, e) b. b[e := 0]) ws b ! i = (if \<exists>w\<in>set ws. snd w = i then 0 else (b ! i :: u8))"
  by (induction ws arbitrary: b) (simp_all add: nth_list_update case_prod_beta)

lemma nth_nulterminate: "i < length b \<Longrightarrow> nulterminate c b ! i = (if \<exists>w\<in>set_cmd c. snd w = i then 0 else b ! i)"
proof (induction c arbitrary: b)
  case (REDIR c w mode fd)
  then show ?case
    by (cases "i = snd w") simp_all
qed (auto simp: nth_fold_update)

lemma rel_cmd_words: "rel_cmd R c d \<Longrightarrow> w \<in> set_cmd c \<Longrightarrow> \<exists>x. R w x"
  by (induction c d rule: cmd.rel_induct) (auto simp: list_all2_conv_all_nth in_set_conv_nth)

lemma word_string_nulterminate:
  assumes "word_at buf w x" and "w \<in> set_cmd c" and "\<forall>w'\<in>set_cmd c. \<exists>x'. word_at buf w' x'"
  shows "word_string (nulterminate c (buf @ [0])) w = x"
proof -
  let ?b = "nulterminate c (buf @ [0])" and ?n = "snd w - fst w"
  have w: "fst w < snd w" "snd w \<le> length buf" "text_at buf w = x" "\<forall>i\<in>{fst w..<snd w}. word_char (buf ! i)"
    using assms(1) by (simp_all add: word_at_def)
  have kept: "?b ! i = buf ! i \<and> ?b ! i \<noteq> 0" if "i \<in> {fst w..<snd w}" for i
  proof -
    have "\<not> (\<exists>w'\<in>set_cmd c. snd w' = i)"
    proof
      assume "\<exists>w'\<in>set_cmd c. snd w' = i"
      then obtain w' where "w' \<in> set_cmd c" "snd w' = i"
        by blast
      then have "\<not> word_char (char_at buf i)"
        using assms(3) by (auto simp: word_at_def)
      then show False
        using that w by (simp add: char_at_def)
    qed
    then show ?thesis
      using that w by (auto simp: nth_nulterminate nth_append word_char_def)
  qed
  have "takeWhile (\<lambda>c. c \<noteq> 0) (drop (fst w) ?b) = take ?n (drop (fst w) ?b)"
  proof (rule takeWhile_eq_take_P_nth)
    show "drop (fst w) ?b ! i \<noteq> 0" if "i < ?n" for i
      using kept [of "fst w + i"] that w by (auto simp: less_diff_conv add.commute)
    have "?b ! snd w = 0"
      using assms(2) w(2) by (auto simp: nth_nulterminate)
    then show "\<not> drop (fst w) ?b ! ?n \<noteq> 0"
      using w by simp
  qed
  also have "\<dots> = x"
    unfolding w(3) [symmetric] text_at_def
    by (rule nth_equalityI) (use kept w in \<open>auto simp: nth_append\<close>)
  finally show ?thesis
    by (simp add: word_string_def)
qed

lemma words_as_strings:
  assumes "rel_cmd (word_at buf) c d"
  shows "map_cmd (word_string (nulterminate c (buf @ [0]))) c = d"
proof -
  have "\<forall>w\<in>set_cmd c. \<exists>x. word_at buf w x"
    using rel_cmd_words [OF assms] by blast
  then have "rel_cmd (\<lambda>w x. word_string (nulterminate c (buf @ [0])) w = x) c d"
    by (intro cmd.rel_mono_strong [OF assms]) (blast intro: word_string_nulterminate)
  then show ?thesis
    by (simp add: cmd.rel_map(1) cmd.rel_eq flip: cmd.rel_map(1) [of "(=)"])
qed

lemma parsecmd_line:
  assumes "valid_cmd c"
  obtains cmd buf where "parsecmd (print_cmd c) = Inr (cmd, buf)" and "map_cmd (word_string buf) cmd = c"
proof -
  let ?ts = "cmd_toks c 0" and ?s = "print_cmd c"
  have wf: "\<forall>t\<in>set ?ts. wf_tok t"
    using cmd_toks_wf [OF assms] by blast
  have nz: "0 \<notin> set ?s"
    using print_toks_nonzero [OF wf] by (simp add: print_cmd_def)
  have "lexes ?s 0 (?ts @ [])" "4 * length (?ts @ []) + 4 \<le> parse_fuel ?s"
    using lexes_print [OF wf, of "[]"] length_print_toks [OF wf] by (simp_all add: print_cmd_def parse_fuel_def)
  then obtain cmd j where p: "parseline (parse_fuel ?s) ?s 0 = Inr (cmd, j)" "lexes ?s j []" "rel_cmd (word_at ?s) cmd c"
    using parsesD [OF conjunct1 [OF parse_cmd [OF assms nz]], of 0 "[]" "parse_fuel ?s"] by blast
  then have "parsecmd ?s = Inr (cmd, nulterminate cmd (?s @ [0]))"
    by (simp add: parsecmd_def peek_def Let_def)
  then show thesis
    using words_as_strings [OF p(3)] by (rule that)
qed

section \<open>Properties\<close>

text \<open>
  Property C34. Parsing inverts printing. Any command, whatever its nesting of pipes, lists, background
  commands, parentheses and redirections, printed as a line with the parentheses that it needs, a
  space behind every token and a newline, is parsed by \<open>parsecmd\<close> to the same command; and after
  \<open>nulterminate\<close> the strings at its words are the words that were printed. The words must be words for the
  shell, and no simple command may have more than nine of them.
\<close>

theorem parsecmd_print_cmd:
  assumes "valid_cmd c"
  shows "\<exists>cmd buf. parsecmd (print_cmd c) = Inr (cmd, buf) \<and> map_cmd (word_string buf) cmd = c"
  using parsecmd_line [OF assms] by blast

text \<open>The line \<open>( ls -l > out & ; b < c ) | d\<close>.\<close>

theorem parsecmd_print_cmd_witness:
  "\<exists>cmd buf. parsecmd (print_cmd (PIPE (LIST (BACK (REDIR (EXEC [ascii ''ls'', ascii ''-l'']) (ascii ''out'') 0x601 1))
      (REDIR (EXEC [ascii ''b'']) (ascii ''c'') 0 0)) (EXEC [ascii ''d'']))) = Inr (cmd, buf) \<and>
    map_cmd (word_string buf) cmd = PIPE (LIST (BACK (REDIR (EXEC [ascii ''ls'', ascii ''-l'']) (ascii ''out'') 0x601 1))
      (REDIR (EXEC [ascii ''b'']) (ascii ''c'') 0 0)) (EXEC [ascii ''d''])"
  by (rule parsecmd_print_cmd) (simp add: valid_word_def word_char_def valid_mode_def whitespace_def symbols_def ascii_def
      MAXARGS_def O_RDONLY_def O_WRONLY_def O_CREATE_def O_TRUNC_def)

end
