(* ===== verification/Sh_Total.thy ===== *)
theory Sh_Total
  imports Sh_Print
begin

text \<open>
  The parser of the shell comes to an end on every line: the recursion of its routines, which call each
  other in a circle, and their loops stop because each round takes something off the line. What it
  returns is a command whose words are words of the line.
\<close>

section \<open>Results\<close>

text \<open>A word of the line, and a command made of such words, with the redirections and the arguments that there can be.\<close>

definition is_word :: "u8 list \<Rightarrow> span \<Rightarrow> bool" where
  "is_word buf w \<longleftrightarrow> word_at buf w (text_at buf w)"

definition redirs_in :: "u8 list \<Rightarrow> redirs \<Rightarrow> bool" where
  "redirs_in buf rs \<longleftrightarrow> list_all (\<lambda>(w, mode, fd). is_word buf w \<and> valid_mode mode fd) rs"

primrec cmd_in :: "u8 list \<Rightarrow> span cmd \<Rightarrow> bool" where
  "cmd_in buf (EXEC argv) \<longleftrightarrow> length argv < MAXARGS \<and> list_all (is_word buf) argv"
| "cmd_in buf (REDIR c w mode fd) \<longleftrightarrow> cmd_in buf c \<and> is_word buf w \<and> valid_mode mode fd"
| "cmd_in buf (PIPE c d) \<longleftrightarrow> cmd_in buf c \<and> cmd_in buf d"
| "cmd_in buf (LIST c d) \<longleftrightarrow> cmd_in buf c \<and> cmd_in buf d"
| "cmd_in buf (BACK c) \<longleftrightarrow> cmd_in buf c"

lemma cmd_in_wrap: "redirs_in buf rs \<Longrightarrow> cmd_in buf c \<Longrightarrow> cmd_in buf (wrap rs c)"
  by (induction rs) (auto simp: redirs_in_def wrap_def)

lemma redirs_in_redir_of: "redirs_in buf rs \<Longrightarrow> is_word buf w \<Longrightarrow> redirs_in buf (redir_of tok w rs)"
  by (auto simp: redirs_in_def redir_of_def valid_mode_def)

lemma valid_text: "is_word buf w \<Longrightarrow> valid_word (text_at buf w)"
  by (auto simp: is_word_def word_at_def valid_word_def text_at_def in_set_conv_nth)

lemma cmd_in_valid:
  assumes "cmd_in buf c"
  shows "rel_cmd (word_at buf) c (map_cmd (text_at buf) c)" and "valid_cmd (map_cmd (text_at buf) c)"
  using assms by (induction c) (auto simp: valid_text list_all_iff is_word_def list_all2_map2 list_all2_same)

text \<open>
  A routine of the parser that starts at \<open>i\<close> is fine when it returns something that has the property \<open>P\<close>, with
  a position in the line not before \<open>i\<close>, or panics with one of these messages. The panic of \<open>parseblock\<close> is
  not among them: it is called at an opening parenthesis only.
\<close>

definition messages :: "string list" where
  "messages = [''missing file for redirection'', ''syntax'', ''too many args'', ''syntax - missing )'']"

definition fine :: "('c \<Rightarrow> bool) \<Rightarrow> u8 list \<Rightarrow> nat \<Rightarrow> ('c \<times> nat) res \<Rightarrow> bool" where
  "fine P buf i r \<longleftrightarrow> (\<exists>m\<in>set messages. r = Inl (Panic m)) \<or> (\<exists>c j. r = Inr (c, j) \<and> P c \<and> i \<le> j \<and> j \<le> length buf)"

lemma fine_simps [simp]:
  "fine P buf i (Inl (Panic m)) \<longleftrightarrow> m \<in> set messages" "fine P buf i (Inr (c, j)) \<longleftrightarrow> P c \<and> i \<le> j \<and> j \<le> length buf"
  by (simp_all add: fine_def)

lemma messages_simps [simp]:
  "''missing file for redirection'' \<in> set messages" "''syntax'' \<in> set messages" "''too many args'' \<in> set messages"
  "''syntax - missing )'' \<in> set messages"
  by (simp_all add: messages_def)

lemma fine_mono: "fine P buf j r \<Longrightarrow> i \<le> j \<Longrightarrow> fine P buf i r"
  by (auto simp: fine_def)

lemma fine_bind:
  assumes "fine P buf i r" and "\<And>c j. P c \<Longrightarrow> i \<le> j \<Longrightarrow> j \<le> length buf \<Longrightarrow> fine Q buf j (f (c, j))"
  shows "fine Q buf i (bindE r f)"
proof -
  consider m where "r = Inl (Panic m)" "m \<in> set messages" | c j where "r = Inr (c, j)" "P c" "i \<le> j" "j \<le> length buf"
    using assms(1) by (auto simp: fine_def)
  then show ?thesis
  proof cases
    case 2
    then show ?thesis
      using fine_mono [OF assms(2) [OF 2(2-4)] 2(3)] by simp
  qed simp
qed

section \<open>Tokens\<close>

lemma token_at_pos:
  assumes "s \<le> length buf" and "s < length buf \<Longrightarrow> buf ! s \<notin> set whitespace" and "0 \<notin> set buf"
  shows "s \<le> snd (token_at buf s)" and "snd (token_at buf s) \<le> length buf" and "fst (token_at buf s) \<noteq> 0 \<Longrightarrow> s < snd (token_at buf s)"
proof -
  have c: "char_at buf s \<noteq> 0 \<longleftrightarrow> s < length buf" "char_at buf (Suc s) \<noteq> 0 \<longleftrightarrow> Suc s < length buf"
    using assms(3) by (auto simp: char_at_def in_set_conv_nth)
  have w: "s < skip_word buf s" if "char_at buf s \<noteq> 0" "char_at buf s \<notin> set symbols"
    using that assms(2) c(1) skip_word_le(1) [of "Suc s" buf] by (subst skip_word.simps) (simp add: char_at_def)
  have sy: "set symbols = insert (of_char CHR ''>'') (set (ascii ''|();&<''))"
    by (auto simp: symbols_def ascii_def)
  show "s \<le> snd (token_at buf s)"
    using skip_word_le(1) by (simp add: token_at_def Let_def)
  show "snd (token_at buf s) \<le> length buf"
    using assms(1) c skip_word_le(2) [OF assms(1)] by (auto simp: token_at_def Let_def Suc_le_eq)
  show "s < snd (token_at buf s)" if "fst (token_at buf s) \<noteq> 0"
    using that w sy by (auto simp: token_at_def Let_def split: if_splits)
qed

lemma gettoken_pos:
  assumes "i \<le> length buf" and "0 \<notin> set buf" and "gettoken buf i = (t, w, j)"
  shows "i \<le> j" and "j \<le> length buf" and "t \<noteq> 0 \<Longrightarrow> i < j"
proof -
  let ?s = "skip_space buf i"
  have s: "?s \<le> length buf" "i \<le> ?s"
    using skip_space_le [of i buf] assms(1) by simp_all
  note T = token_at_pos [OF s(1) skip_space_stop assms(2)]
  have j: "t = fst (token_at buf ?s)" "j = skip_space buf (snd (token_at buf ?s))"
    using assms(3) by (auto simp: gettoken_def Let_def split: prod.splits)
  show "i \<le> j" "j \<le> length buf" "t \<noteq> 0 \<Longrightarrow> i < j"
    using j T s skip_space_le [of "snd (token_at buf ?s)" buf] by auto
qed

lemma gettoken_is_word:
  assumes "i \<le> length buf" and "0 \<notin> set buf" and g: "gettoken buf i = (of_char CHR ''a'', w, j)"
  shows "is_word buf w"
proof -
  have a: "of_char CHR ''a'' \<noteq> (0 :: u8)"
    by simp
  note G = gettokenD [OF g a]
  have "fst w \<le> length buf" "fst w < length buf \<Longrightarrow> buf ! fst w \<notin> set whitespace"
    using G(1,4) skip_space_stop [of buf i] by simp_all
  then have "fst w < snd w"
    using token_at_pos(3) [of "fst w" buf] G(2) a assms(2) by simp
  then show ?thesis
    unfolding is_word_def by (rule gettoken_word [OF g _ assms(2)])
qed

text \<open>After \<open>peek\<close> has found something, \<open>gettoken\<close> takes at least one character.\<close>

lemma peek_pos:
  assumes "i \<le> length buf" and "peek buf i S = (found, j)"
  shows "i \<le> j" and "j \<le> length buf"
  using assms skip_space_le [of i buf] by (auto simp: peek_def Let_def)

lemma peek_gettoken:
  assumes "i \<le> length buf" and "0 \<notin> set buf" and "peek buf i S = (True, j)" and "gettoken buf j = (t, w, k)"
  shows "i < k" and "k \<le> length buf"
proof -
  have j: "j = skip_space buf i" "char_at buf j \<noteq> 0"
    using assms(3) by (auto simp: peek_def Let_def)
  then have "t \<noteq> 0"
    using assms(4) by (auto simp: gettoken_def token_at_def Let_def ascii_def split: if_splits)
  then show "i < k" "k \<le> length buf"
    using gettoken_pos [OF _ assms(2,4)] peek_pos [OF assms(1,3)] by auto
qed

section \<open>Routines\<close>

lemma parseredirs_fine:
  "i \<le> length buf \<Longrightarrow> 0 \<notin> set buf \<Longrightarrow> length buf - i < k \<Longrightarrow> redirs_in buf rs \<Longrightarrow>
    fine (redirs_in buf) buf i (parseredirs k buf rs i)"
proof (induction k arbitrary: rs i)
  case (Suc k)
  obtain found j where p: "peek buf i (ascii ''<>'') = (found, j)"
    by (cases "peek buf i (ascii ''<>'')")
  obtain t w m where g: "gettoken buf j = (t, w, m)"
    by (cases "gettoken buf j")
  obtain t' w' m' where g': "gettoken buf m = (t', w', m')"
    by (cases "gettoken buf m")
  note P = peek_pos [OF Suc.prems(1) p]
  show ?case
  proof (cases found)
    case True
    have m: "i < m" "m \<le> length buf"
      using peek_gettoken [OF Suc.prems(1,2) _ g] p True by auto
    note G = gettoken_pos [OF m(2) Suc.prems(2) g']
    have "fine (redirs_in buf) buf i (parseredirs k buf (redir_of t w' rs) m')" if "t' = of_char CHR ''a''"
    proof (rule fine_mono [OF Suc.IH])
      show "redirs_in buf (redir_of t w' rs)"
        using gettoken_is_word [OF m(2) Suc.prems(2)] g' that Suc.prems(4) by (auto intro: redirs_in_redir_of)
    qed (use m G Suc.prems in auto)
    then show ?thesis
      using True by (simp add: p g g')
  qed (use P Suc.prems in \<open>simp add: p\<close>)
qed simp

lemma parseargs_fine:
  "i \<le> length buf \<Longrightarrow> 0 \<notin> set buf \<Longrightarrow> length buf - i < k \<Longrightarrow> redirs_in buf rs \<Longrightarrow> cmd_in buf (EXEC argv) \<Longrightarrow>
    fine (cmd_in buf) buf i (parseargs k buf argv rs i)"
proof (induction k arbitrary: argv rs i)
  case (Suc k)
  obtain found j where p: "peek buf i (ascii ''|)&;'') = (found, j)"
    by (cases "peek buf i (ascii ''|)&;'')")
  obtain t w m where g: "gettoken buf j = (t, w, m)"
    by (cases "gettoken buf j")
  note P = peek_pos [OF Suc.prems(1) p]
  note G = gettoken_pos [OF P(2) Suc.prems(2) g]
  let ?rest = "bindE (parseredirs k buf rs m) (\<lambda>(rs, ps). parseargs k buf (argv @ [w]) rs ps)"
  have "fine (cmd_in buf) buf i ?rest" if t: "t = of_char CHR ''a''" and l: "\<not> MAXARGS \<le> Suc (length argv)"
  proof (rule fine_mono)
    have "cmd_in buf (EXEC (argv @ [w]))"
      using gettoken_is_word [OF P(2) Suc.prems(2)] g t l Suc.prems(5) by simp
    moreover have "i < m"
      using P(1) G(3) t by simp
    ultimately show "fine (cmd_in buf) buf m ?rest"
      using P G Suc.prems by (intro fine_bind [OF parseredirs_fine]) (auto intro!: Suc.IH simp del: cmd_in.simps)
  qed (use P G in simp)
  then show ?case
    using P G Suc.prems cmd_in_wrap [OF Suc.prems(4,5)] by (simp add: p g)
qed simp

lemma parseback_fine:
  "i \<le> length buf \<Longrightarrow> 0 \<notin> set buf \<Longrightarrow> length buf - i < k \<Longrightarrow> cmd_in buf c \<Longrightarrow>
    fine (cmd_in buf) buf i (parseback k buf c i)"
proof (induction k arbitrary: c i)
  case (Suc k)
  obtain found j where p: "peek buf i (ascii ''&'') = (found, j)"
    by (cases "peek buf i (ascii ''&'')")
  obtain t w m where g: "gettoken buf j = (t, w, m)"
    by (cases "gettoken buf j")
  note P = peek_pos [OF Suc.prems(1) p]
  show ?case
  proof (cases found)
    case True
    have m: "i < m" "m \<le> length buf"
      using peek_gettoken [OF Suc.prems(1,2) _ g] p True by auto
    have "fine (cmd_in buf) buf i (parseback k buf (BACK c) m)"
      using m Suc.prems by (intro fine_mono [OF Suc.IH [OF m(2)]]) auto
    then show ?thesis
      using True by (simp add: p g)
  qed (use P Suc.prems in \<open>simp add: p\<close>)
qed simp

text \<open>A token that \<open>peek\<close> has found, and what comes behind it.\<close>

lemma fine_token:
  assumes "i \<le> length buf" and "0 \<notin> set buf"
    and "\<And>j. i < j \<Longrightarrow> j \<le> length buf \<Longrightarrow> fine P buf j (f j)"
    and "\<And>j. \<not> fst (peek buf i S) \<Longrightarrow> i \<le> j \<Longrightarrow> j \<le> length buf \<Longrightarrow> fine P buf i (h j)"
  shows "fine P buf i (let (found, ps) = peek buf i S in if \<not> found then h ps else (let (_, _, ps) = gettoken buf ps in f ps))"
proof -
  obtain found j where p: "peek buf i S = (found, j)"
    by (cases "peek buf i S")
  obtain t w m where g: "gettoken buf j = (t, w, m)"
    by (cases "gettoken buf j")
  show ?thesis
  proof (cases found)
    case True
    then have m: "i < m" "m \<le> length buf"
      using peek_gettoken [OF assms(1,2) _ g] p by auto
    then have "fine P buf i (f m)"
      using fine_mono [OF assms(3) [OF m], of i] by simp
    then show ?thesis
      using True by (simp add: p g)
  next
    case False
    then show ?thesis
      using assms(4) peek_pos [OF assms(1) p] by (simp add: p)
  qed
qed

text \<open>
  The routine \<open>f\<close> is fine with a fuel of \<open>k\<close> wherever the rest of the line is short enough for it, and one of
  the characters \<open>S\<close>, if there are any, comes next.
\<close>

definition fine_upto ::
  "string \<Rightarrow> (nat \<Rightarrow> u8 list \<Rightarrow> nat \<Rightarrow> (span cmd \<times> nat) res) \<Rightarrow> nat \<Rightarrow> u8 list \<Rightarrow> nat \<Rightarrow> bool" where
  "fine_upto S f b buf k \<longleftrightarrow> (\<forall>i\<le>length buf. 4 * (length buf - i) + b \<le> k \<longrightarrow> (S \<noteq> [] \<longrightarrow> fst (peek buf i (ascii S))) \<longrightarrow>
     fine (cmd_in buf) buf i (f k buf i))"

lemma fine_uptoD:
  "fine_upto S f b buf k \<Longrightarrow> i \<le> length buf \<Longrightarrow> 4 * (length buf - i) + b \<le> k \<Longrightarrow> S = [] \<or> fst (peek buf i (ascii S)) \<Longrightarrow>
    fine (cmd_in buf) buf i (f k buf i)"
  by (auto simp: fine_upto_def)

lemma parseline_step:
  assumes nz: "0 \<notin> set buf" and p: "fine_upto [] parsepipe 3 buf k" and l: "fine_upto [] parseline 4 buf k"
  shows "fine_upto [] parseline 4 buf (Suc k)"
  unfolding fine_upto_def
proof (intro allI impI)
  fix i assume i: "i \<le> length buf" "4 * (length buf - i) + 4 \<le> Suc k"
  have tail: "fine (cmd_in buf) buf j (let (found, ps) = peek buf j (ascii '';'') in
     if \<not> found then Inr (c, ps)
     else (let (_, _, ps) = gettoken buf ps in bindE (parseline k buf ps) (\<lambda>(d, ps). Inr (LIST c d, ps))))"
    if j: "i \<le> j" "j \<le> length buf" "cmd_in buf c" for c j
  proof (rule fine_token [OF j(2) nz])
    show "fine (cmd_in buf) buf m (bindE (parseline k buf m) (\<lambda>(d, ps). Inr (LIST c d, ps)))" if "j < m" "m \<le> length buf" for m
      using that j i by (intro fine_bind [OF fine_uptoD [OF l]]) auto
  qed (use j in simp)
  have "fine (cmd_in buf) buf i (parsepipe k buf i)"
    using i by (intro fine_uptoD [OF p]) auto
  then show "fine (cmd_in buf) buf i (parseline (Suc k) buf i)"
    unfolding parseline.simps
  proof (rule fine_bind)
    fix c j assume j: "cmd_in buf c" "i \<le> j" "j \<le> length buf"
    have "fine (cmd_in buf) buf j (parseback k buf c j)"
      using j i by (intro parseback_fine nz) auto
    then show "fine (cmd_in buf) buf j (case (c, j) of (c, ps) \<Rightarrow>
       bindE (parseback k buf c ps) (\<lambda>(c, ps).
       let (found, ps) = peek buf ps (ascii '';'') in
       if \<not> found then Inr (c, ps)
       else (let (_, _, ps) = gettoken buf ps in bindE (parseline k buf ps) (\<lambda>(d, ps). Inr (LIST c d, ps)))))"
      unfolding prod.case by (rule fine_bind) (use j tail in simp)
  qed
qed

lemma parsepipe_step:
  assumes nz: "0 \<notin> set buf" and e: "fine_upto [] parseexec 2 buf k" and p: "fine_upto [] parsepipe 3 buf k"
  shows "fine_upto [] parsepipe 3 buf (Suc k)"
  unfolding fine_upto_def
proof (intro allI impI)
  fix i assume i: "i \<le> length buf" "4 * (length buf - i) + 3 \<le> Suc k"
  have "fine (cmd_in buf) buf i (parseexec k buf i)"
    using i by (intro fine_uptoD [OF e]) auto
  then show "fine (cmd_in buf) buf i (parsepipe (Suc k) buf i)"
    unfolding parsepipe.simps
  proof (rule fine_bind)
    fix c j assume j: "cmd_in buf c" "i \<le> j" "j \<le> length buf"
    have "fine (cmd_in buf) buf m (bindE (parsepipe k buf m) (\<lambda>(d, ps). Inr (PIPE c d, ps)))" if "j < m" "m \<le> length buf" for m
      using that j i by (intro fine_bind [OF fine_uptoD [OF p]]) auto
    then show "fine (cmd_in buf) buf j (case (c, j) of (c, ps) \<Rightarrow>
       let (found, ps) = peek buf ps (ascii ''|'') in
       if \<not> found then Inr (c, ps)
       else (let (_, _, ps) = gettoken buf ps in bindE (parsepipe k buf ps) (\<lambda>(d, ps). Inr (PIPE c d, ps))))"
      unfolding prod.case by (intro fine_token j nz) (use j in auto)
  qed
qed

lemma parseblock_step:
  assumes nz: "0 \<notin> set buf" and l: "fine_upto [] parseline 4 buf k"
  shows "fine_upto ''('' parseblock 1 buf (Suc k)"
  unfolding fine_upto_def
proof (intro allI impI)
  fix i assume i: "i \<le> length buf" "4 * (length buf - i) + 1 \<le> Suc k"
    and paren: "''('' \<noteq> [] \<longrightarrow> fst (peek buf i (ascii ''(''))"
  show "fine (cmd_in buf) buf i (parseblock (Suc k) buf i)"
    unfolding parseblock.simps
  proof (rule fine_token [OF i(1) nz])
    fix j assume j: "i < j" "j \<le> length buf"
    have "fine (cmd_in buf) buf j (parseline k buf j)"
      using j i by (intro fine_uptoD [OF l]) auto
    then show "fine (cmd_in buf) buf j (bindE (parseline k buf j) (\<lambda>(c, ps).
       let (found, ps) = peek buf ps (ascii '')'') in
       if \<not> found then Inl (Panic ''syntax - missing )'')
       else (let (_, _, ps) = gettoken buf ps in bindE (parseredirs k buf [] ps) (\<lambda>(rs, ps). Inr (wrap rs c, ps)))))"
    proof (rule fine_bind)
      fix c m assume m: "cmd_in buf c" "j \<le> m" "m \<le> length buf"
      have "fine (cmd_in buf) buf n (bindE (parseredirs k buf [] n) (\<lambda>(rs, ps). Inr (wrap rs c, ps)))"
        if "m < n" "n \<le> length buf" for n
        using that m j i by (intro fine_bind [OF parseredirs_fine] nz) (auto simp: redirs_in_def [of _ "[]"] intro: cmd_in_wrap)
      then show "fine (cmd_in buf) buf m (case (c, m) of (c, ps) \<Rightarrow>
         let (found, ps) = peek buf ps (ascii '')'') in
         if \<not> found then Inl (Panic ''syntax - missing )'')
         else (let (_, _, ps) = gettoken buf ps in bindE (parseredirs k buf [] ps) (\<lambda>(rs, ps). Inr (wrap rs c, ps))))"
        unfolding prod.case by (intro fine_token m nz) auto
    qed
  qed (use paren in simp)
qed

lemma parseexec_step:
  assumes nz: "0 \<notin> set buf" and b: "fine_upto ''('' parseblock 1 buf k"
  shows "fine_upto [] parseexec 2 buf (Suc k)"
  unfolding fine_upto_def
proof (intro allI impI)
  fix i assume i: "i \<le> length buf" "4 * (length buf - i) + 2 \<le> Suc k"
  obtain found j where p: "peek buf i (ascii ''('') = (found, j)"
    by (cases "peek buf i (ascii ''('')")
  note P = peek_pos [OF i(1) p]
  have j: "j = skip_space buf i"
    using p by (simp add: peek_def Let_def)
  have "fine (cmd_in buf) buf i (parseblock k buf j)" if found
    using P i that p by (intro fine_mono [OF fine_uptoD [OF b]]) (auto simp: j)
  moreover have "fine (cmd_in buf) buf j (bindE (parseredirs k buf [] j) (\<lambda>(rs, ps). parseargs k buf [] rs ps))"
    using P i by (intro fine_bind [OF parseredirs_fine] nz)
      (auto simp: redirs_in_def [of _ "[]"] MAXARGS_def intro!: parseargs_fine nz)
  then have "fine (cmd_in buf) buf i (bindE (parseredirs k buf [] j) (\<lambda>(rs, ps). parseargs k buf [] rs ps))"
    by (rule fine_mono [OF _ P(1)])
  ultimately show "fine (cmd_in buf) buf i (parseexec (Suc k) buf i)"
    by (simp add: p)
qed

lemma parser_fine:
  assumes "0 \<notin> set buf"
  shows "fine_upto [] parseline 4 buf k \<and> fine_upto [] parsepipe 3 buf k \<and> fine_upto ''('' parseblock 1 buf k \<and>
    fine_upto [] parseexec 2 buf k"
proof (induction k)
  case 0
  then show ?case
    by (simp add: fine_upto_def)
next
  case (Suc k)
  then show ?case
    using parseline_step parsepipe_step parseblock_step parseexec_step assms by blast
qed

lemma parsecmd_cases:
  assumes "0 \<notin> set s"
  obtains m where "parsecmd s = Inl (Panic m)" and "m \<in> set messages"
    | cmd where "parsecmd s = Inr (cmd, nulterminate cmd (s @ [0]))" and "cmd_in s cmd"
proof -
  have "fine (cmd_in s) s 0 (parseline (parse_fuel s) s 0)"
    using fine_uptoD [OF conjunct1 [OF parser_fine [OF assms]], of 0 "parse_fuel s"] by (simp add: parse_fuel_def)
  then consider m where "parseline (parse_fuel s) s 0 = Inl (Panic m)" "m \<in> set messages"
    | c j where "parseline (parse_fuel s) s 0 = Inr (c, j)" "cmd_in s c"
    by (auto simp: fine_def)
  then show thesis
  proof cases
    case 1
    then show thesis
      using that(1) by (simp add: parsecmd_def)
  next
    case 2
    then show thesis
      using that by (cases "snd (peek s j []) = length s") (simp_all add: parsecmd_def Let_def case_prod_beta)
  qed
qed

section \<open>Properties\<close>

text \<open>
  Property C35. The parser of the shell terminates: the bound on the depth of its calls is never reached. On
  every line \<open>parsecmd\<close> panics with one of four messages, or returns a command each of whose words is a word
  of the line, not empty, inside the line, of ordinary characters only and not continued behind; after
  \<open>nulterminate\<close> the strings at the words are these words; no simple command has more than nine of them,
  and the redirections are those of the three operators.
\<close>

theorem parsecmd_total:
  assumes "0 \<notin> set s"
  shows "case parsecmd s of
      Inl h \<Rightarrow> h \<in> Panic ` {''missing file for redirection'', ''syntax'', ''too many args'', ''syntax - missing )''}
    | Inr (cmd, buf) \<Rightarrow> rel_cmd (word_at s) cmd (map_cmd (word_string buf) cmd) \<and> valid_cmd (map_cmd (word_string buf) cmd)"
  using assms
proof (cases s rule: parsecmd_cases)
  case (1 m)
  then show ?thesis
    by (auto simp: messages_def)
next
  case (2 cmd)
  then show ?thesis
    using cmd_in_valid [OF 2(2)] words_as_strings [OF cmd_in_valid(1) [OF 2(2)]] by simp
qed

text \<open>An unfinished line.\<close>

theorem parsecmd_total_witness:
  "case parsecmd (ascii ''(a | b >'') of
      Inl h \<Rightarrow> h \<in> Panic ` {''missing file for redirection'', ''syntax'', ''too many args'', ''syntax - missing )''}
    | Inr (cmd, buf) \<Rightarrow> rel_cmd (word_at (ascii ''(a | b >'')) cmd (map_cmd (word_string buf) cmd) \<and>
        valid_cmd (map_cmd (word_string buf) cmd)"
  by (rule parsecmd_total) (simp add: ascii_def)

end
