(* ===== verification/Sh_Run.thy ===== *)
theory Sh_Run
  imports Sh_Total
begin

text \<open>
  Running commands, \<open>runcmd\<close> of \<open>user/sh.c\<close>. What a process of the shell does is the tree of its system
  calls, which branches on their results; at a \<open>fork\<close> the child goes on with the result 0. The words of the
  command are the strings that the parser has left in the line.
\<close>

section \<open>The program\<close>

datatype act =
    Exit int
  | Exec "u8 list" "u8 list list" act
  | Close nat act
  | Open "u8 list" u32 "int \<Rightarrow> act"
  | Dup nat act
  | Pipe "(nat \<times> nat) option \<Rightarrow> act"
  | Fork "int \<Rightarrow> act"
  | Wait act
  | Write int "u8 list" act
  | Chdir "u8 list" "int \<Rightarrow> act"

text \<open>\<open>fprintf(2, ...)\<close> with a string; the format has no other conversion.\<close>

definition message :: "u8 list \<Rightarrow> u8 list \<Rightarrow> u8 list" where
  "message fmt s = (case fprintf 2 (fmt @ [10]) [Str (Some s)] of Inr (fd, out) \<Rightarrow> out | Inl _ \<Rightarrow> [])"

definition panic_sh :: "u8 list \<Rightarrow> act" where
  "panic_sh s = Write 2 (message (ascii ''%s'') s) (Exit 1)"

definition fork1 :: "(int \<Rightarrow> act) \<Rightarrow> act" where
  "fork1 k = Fork (\<lambda>pid. if pid = - 1 then panic_sh (ascii ''fork'') else k pid)"

primrec runcmd :: "u8 list cmd \<Rightarrow> act" where
  "runcmd (EXEC argv) =
     (case argv of [] \<Rightarrow> Exit 1
      | path # _ \<Rightarrow> Exec path argv (Write 2 (message (ascii ''exec %s failed'') path) (Exit 0)))"
| "runcmd (REDIR c f mode fd) =
     Close fd (Open f mode (\<lambda>r.
       if r < 0 then Write 2 (message (ascii ''open %s failed'') f) (Exit 1) else runcmd c))"
| "runcmd (LIST c d) = fork1 (\<lambda>pid. if pid = 0 then runcmd c else Wait (runcmd d))"
| "runcmd (PIPE c d) =
     Pipe (\<lambda>p. case p of None \<Rightarrow> panic_sh (ascii ''pipe'')
       | Some (p0, p1) \<Rightarrow>
           fork1 (\<lambda>pid. if pid = 0 then Close 1 (Dup p1 (Close p0 (Close p1 (runcmd c))))
             else fork1 (\<lambda>pid. if pid = 0 then Close 0 (Dup p0 (Close p0 (Close p1 (runcmd d))))
               else Close p0 (Close p1 (Wait (Wait (Exit 0)))))))"
| "runcmd (BACK c) = fork1 (\<lambda>pid. if pid = 0 then runcmd c else Exit 0)"

text \<open>What \<open>parsecmd\<close> prints before it panics when something is left of the line.\<close>

definition leftovers :: "u8 list \<Rightarrow> u8 list" where
  "leftovers s =
     (case parseline (parse_fuel s) s 0 of
        Inl _ \<Rightarrow> []
      | Inr (c, ps) \<Rightarrow>
          (let (_, ps) = peek s ps [] in
           if ps \<noteq> length s then message (ascii ''leftovers: %s'') (drop ps s) else []))"

text \<open>
  One round of the loop of \<open>main\<close>, with the line in \<open>buf\<close>, a string: a \<open>cd\<close> is done by the shell itself,
  everything else by a child. \<open>next\<close> is what the shell does afterwards. The parser returns or panics, so
  that the last case of the child does not arise.
\<close>

definition shell_round :: "u8 list \<Rightarrow> act \<Rightarrow> act" where
  "shell_round buf next =
     (if take 3 buf = ascii ''cd '' then
        (let dir = butlast (drop 3 buf) in
         Chdir dir (\<lambda>r. if r < 0 then Write 2 (message (ascii ''cannot cd %s'') dir) next else next))
      else
        fork1 (\<lambda>pid. if pid = 0 then
            (case parsecmd buf of
               Inr (c, buf') \<Rightarrow> runcmd (map_cmd (word_string buf') c)
             | Inl (Panic m) \<Rightarrow>
                 (if leftovers buf = [] then panic_sh (ascii m) else Write 2 (leftovers buf) (panic_sh (ascii m)))
             | Inl _ \<Rightarrow> Exit 1)
          else Wait next))"

lemma gets_loop_rest:
  "gets_loop mx inp buf i = Inr (b, r) \<Longrightarrow> length r \<le> length inp \<and> (inp \<noteq> [] \<and> Suc i < mx \<longrightarrow> length r < length inp)"
proof (induction mx inp buf i rule: gets_loop.induct)
  case (1 mx inp buf i)
  show ?case
  proof (cases "Suc i < mx \<and> inp \<noteq> []")
    case True
    then obtain c t where "inp = c # t"
      by (cases inp) auto
    then show ?thesis
      using "1.IH" [of c t] "1.prems" True by (subst (asm) gets_loop.simps) (auto split: if_splits)
  next
    case False
    then show ?thesis
      using "1.prems" by (subst (asm) gets_loop.simps) (auto split: if_splits)
  qed
qed

text \<open>
  \<open>getcmd(buf, nbuf)\<close> on the input of the shell: the line, or None for its -1, and what is left of the
  input. The prompt is written by the caller below.
\<close>

definition getcmd :: "nat \<Rightarrow> u8 list \<Rightarrow> (u8 list \<times> u8 list) option" where
  "getcmd nbuf inp =
     (case gets (replicate nbuf 0) nbuf inp of
        Inl _ \<Rightarrow> None
      | Inr (buf, inp) \<Rightarrow> if hd buf = 0 then None else Some (takeWhile (\<lambda>c. c \<noteq> 0) buf, inp))"

definition BUF_SIZE :: nat where
  "BUF_SIZE = 100"

lemma getcmd_rest [termination_simp]:
  assumes "getcmd BUF_SIZE inp = Some (line, r)"
  shows "length r < length inp"
proof -
  have "inp \<noteq> []"
  proof
    assume "inp = []"
    moreover have "gets_loop BUF_SIZE [] (replicate BUF_SIZE 0) 0 = Inr (replicate BUF_SIZE 0, [])"
      by (subst gets_loop.simps) (simp add: BUF_SIZE_def list_update_same_conv)
    moreover have "hd (replicate BUF_SIZE (0 :: u8)) = 0"
      by (simp add: BUF_SIZE_def)
    ultimately show False
      using assms by (simp add: getcmd_def gets_def)
  qed
  then show ?thesis
    using assms by (auto simp: getcmd_def gets_def BUF_SIZE_def split: sum.splits if_splits dest!: gets_loop_rest)
qed

text \<open>The loop of \<open>main\<close>; \<open>inp\<close> is what the shell is given to read on descriptor 0.\<close>

fun sh_loop :: "u8 list \<Rightarrow> act" where
  "sh_loop inp =
     Write 2 (ascii ''$ '')
      (case getcmd BUF_SIZE inp of
         None \<Rightarrow> Exit 0
       | Some (line, inp) \<Rightarrow> shell_round line (sh_loop inp))"

declare sh_loop.simps [simp del]

section \<open>What the processes run\<close>

text \<open>
  The open files of a process: what each descriptor refers to. A pipe has a number of its own.
\<close>

datatype desc = Inherited nat | File "u8 list" u32 | PipeRead nat | PipeWrite nat

type_synonym fds = "nat \<Rightarrow> desc option"

definition NOFILE_SH :: nat where
  "NOFILE_SH = 16"

text \<open>The kernel gives out the lowest descriptor that is free.\<close>

definition lowest :: "fds \<Rightarrow> nat" where
  "lowest f = length (takeWhile (\<lambda>d. f d \<noteq> None) [0..<NOFILE_SH])"

text \<open>
  The programs that the processes exec, each with its arguments and its open files; \<open>n\<close> counts the pipes.
  The kernel is an ideal one: \<open>fork\<close>, \<open>exec\<close>, \<open>open\<close>, \<open>pipe\<close>, \<open>dup\<close> and \<open>chdir\<close> succeed, a new descriptor is the
  lowest free one, and closing a descriptor that is not open does nothing. The child of a \<open>fork\<close> is listed
  before its parent; their order in time is not part of the statement.
\<close>

primrec run_act :: "act \<Rightarrow> fds \<Rightarrow> nat \<Rightarrow> (u8 list list \<times> fds) list \<times> nat" where
  "run_act (Exit st) f n = ([], n)"
| "run_act (Exec path argv k) f n = ([(argv, f)], n)"
| "run_act (Close d k) f n = run_act k (f(d := None)) n"
| "run_act (Open name mode k) f n = run_act (k (int (lowest f))) (f(lowest f \<mapsto> File name mode)) n"
| "run_act (Dup d k) f n = run_act k (f(lowest f := f d)) n"
| "run_act (Pipe k) f n =
     (let p0 = lowest f; f = f(p0 \<mapsto> PipeRead n); p1 = lowest f; f = f(p1 \<mapsto> PipeWrite n) in
      run_act (k (Some (p0, p1))) f (Suc n))"
| "run_act (Fork k) f n =
     (let (ps, n) = run_act (k 0) f n; (qs, n) = run_act (k 1) f n in (ps @ qs, n))"
| "run_act (Wait k) f n = run_act k f n"
| "run_act (Write fd s k) f n = run_act k f n"
| "run_act (Chdir d k) f n = run_act (k 0) f n"

text \<open>What a command means: which programs run, with which files.\<close>

primrec wiring :: "u8 list cmd \<Rightarrow> fds \<Rightarrow> nat \<Rightarrow> (u8 list list \<times> fds) list \<times> nat" where
  "wiring (EXEC argv) f n = (if argv = [] then [] else [(argv, f)], n)"
| "wiring (REDIR c name mode fd) f n = wiring c (f(fd \<mapsto> File name mode)) n"
| "wiring (PIPE c d) f n =
     (let (ps, m) = wiring c (f(1 \<mapsto> PipeWrite n)) (Suc n);
          (qs, l) = wiring d (f(0 \<mapsto> PipeRead n)) m in (ps @ qs, l))"
| "wiring (LIST c d) f n = (let (ps, m) = wiring c f n; (qs, l) = wiring d f m in (ps @ qs, l))"
| "wiring (BACK c) f n = wiring c f n"

primrec redirs_ok :: "u8 list cmd \<Rightarrow> bool" where
  "redirs_ok (EXEC argv) = True"
| "redirs_ok (REDIR c name mode fd) = (fd \<le> 2 \<and> redirs_ok c)"
| "redirs_ok (PIPE c d) = (redirs_ok c \<and> redirs_ok d)"
| "redirs_ok (LIST c d) = (redirs_ok c \<and> redirs_ok d)"
| "redirs_ok (BACK c) = redirs_ok c"

text \<open>The files 0, 1 and 2 are open and no others.\<close>

definition standard :: "fds \<Rightarrow> bool" where
  "standard f \<longleftrightarrow> (\<forall>d. f d \<noteq> None \<longleftrightarrow> d \<le> 2)"

lemma lowest_eq:
  assumes "\<forall>d<k. f d \<noteq> None" and "f k = None" and "k < NOFILE_SH"
  shows "lowest f = k"
proof -
  have "takeWhile (\<lambda>d. f d \<noteq> None) [0..<NOFILE_SH] = take k [0..<NOFILE_SH]"
    using assms by (intro takeWhile_eq_take_P_nth) auto
  then show ?thesis
    using assms(3) by (simp add: lowest_def)
qed

lemma standard_upd [simp]: "standard f \<Longrightarrow> d \<le> 2 \<Longrightarrow> standard (f(d \<mapsto> x))"
  by (simp add: standard_def)

lemma standard_None: "standard f \<Longrightarrow> f d = None \<longleftrightarrow> 2 < d"
  by (metis not_le standard_def)

lemma standard_Some: "standard f \<Longrightarrow> (\<exists>x. f d = Some x) \<longleftrightarrow> d \<le> 2"
  by (metis not_None_eq standard_def)

lemma standard_lowest:
  assumes "standard f"
  shows "d \<le> 2 \<Longrightarrow> lowest (f(d := None)) = d" and "lowest f = 3" and "lowest (f(3 \<mapsto> x)) = 4"
    and "d \<le> 2 \<Longrightarrow> lowest (f(3 \<mapsto> x, 4 \<mapsto> y, d := None)) = d"
  using assms by (auto intro!: lowest_eq simp: standard_Some standard_None NOFILE_SH_def)

lemma run_runcmd:
  assumes "standard f" and "redirs_ok c"
  shows "run_act (runcmd c) f n = wiring c f n"
  using assms
proof (induction c arbitrary: f n)
  case (EXEC argv)
  then show ?case
    by (cases argv) simp_all
next
  case (REDIR c name mode fd)
  then have fd: "fd \<le> 2" and c: "redirs_ok c"
    by simp_all
  have "run_act (runcmd (REDIR c name mode fd)) f n = run_act (runcmd c) (f(fd \<mapsto> File name mode)) n"
    using REDIR.prems(1) fd by (simp add: standard_lowest)
  also have "\<dots> = wiring c (f(fd \<mapsto> File name mode)) n"
    by (rule REDIR.IH [OF standard_upd [OF REDIR.prems(1) fd] c])
  finally show ?case
    by simp
next
  case (PIPE c d)
  let ?f = "f(3 \<mapsto> PipeRead n, 4 \<mapsto> PipeWrite n)"
  have n: "f 3 = None" "f 4 = None"
    using PIPE.prems(1) by (simp_all add: standard_None)
  have "(?f(1 := None, 1 := ?f 4, 3 := None, 4 := None)) = f(1 \<mapsto> PipeWrite n)"
    "(?f(0 := None, 0 := ?f 3, 3 := None, 4 := None)) = f(0 \<mapsto> PipeRead n)"
    using n by (auto simp: fun_eq_iff)
  moreover have "\<And>m. run_act (runcmd c) (f(1 \<mapsto> PipeWrite n)) m = wiring c (f(1 \<mapsto> PipeWrite n)) m"
    "\<And>m. run_act (runcmd d) (f(0 \<mapsto> PipeRead n)) m = wiring d (f(0 \<mapsto> PipeRead n)) m"
    using PIPE.prems by (auto intro!: PIPE.IH standard_upd)
  ultimately show ?case
    using PIPE.prems(1) by (simp add: fork1_def standard_lowest Let_def)
next
  case (LIST c d)
  then show ?case
    by (simp add: fork1_def)
next
  case (BACK c)
  then show ?case
    by (simp add: fork1_def case_prod_beta)
qed

section \<open>Whole sessions\<close>

text \<open>
  \<open>main\<close> first opens the console until the descriptor it gets is above 2, which it closes again; the
  console can be opened.
\<close>

function open_console :: "fds \<Rightarrow> fds" where
  "open_console f =
     (if 3 \<le> lowest f then f else open_console (f(lowest f \<mapsto> File (ascii ''console'') O_RDWR)))"
  by pat_completeness auto

lemma lowest_free: "lowest f < NOFILE_SH \<Longrightarrow> f (lowest f) = None"
  using nth_length_takeWhile [of "\<lambda>d. f d \<noteq> None" "[0..<NOFILE_SH]"] by (simp add: lowest_def)

lemma lowest_taken: "d < lowest f \<Longrightarrow> f d \<noteq> None"
  unfolding lowest_def
  by (metis (mono_tags, lifting) add_0 length_takeWhile_le length_upt minus_nat.diff_0 nth_upt order_less_le_trans
      set_takeWhileD takeWhile_nth nth_mem)

termination open_console
proof (relation "measure (\<lambda>f. card {d. d < 3 \<and> f d = None})")
  fix f :: fds
  assume "\<not> 3 \<le> lowest f"
  then have "lowest f < 3" "f (lowest f) = None"
    using lowest_free [of f] by (simp_all add: NOFILE_SH_def)
  then have "{d. d < 3 \<and> (f(lowest f \<mapsto> File (ascii ''console'') O_RDWR)) d = None} \<subset> {d. d < 3 \<and> f d = None}"
    by auto
  then show "(f(lowest f \<mapsto> File (ascii ''console'') O_RDWR), f) \<in> measure (\<lambda>f. card {d. d < 3 \<and> f d = None})"
    by (simp add: psubset_card_mono)
qed simp

declare open_console.simps [simp del]

lemma standard_open_console: "\<forall>d>2. f d = None \<Longrightarrow> standard (open_console f)"
proof (induction f rule: open_console.induct)
  case (1 f)
  show ?case
  proof (cases "3 \<le> lowest f")
    case True
    then have "f d \<noteq> None \<longleftrightarrow> d \<le> 2" for d
      using lowest_taken [of d f] "1.prems" by (cases "d \<le> 2") auto
    then show ?thesis
      using True by (subst open_console.simps) (simp add: standard_def)
  next
    case False
    have "standard (open_console (f(lowest f \<mapsto> File (ascii ''console'') O_RDWR)))"
      by (rule "1.IH") (use False "1.prems" in auto)
    with False show ?thesis
      by (subst open_console.simps) simp
  qed
qed

text \<open>Reading one line.\<close>

lemma gets_loop_line:
  assumes "10 \<notin> set l" and "13 \<notin> set l" and "i + length l + 1 < mx" and "mx \<le> length buf"
  shows "gets_loop mx (l @ 10 # inp) buf i = Inr (take i buf @ l @ 10 # 0 # drop (i + length l + 2) buf, inp)"
  using assms
proof (induction l arbitrary: buf i)
  case Nil
  then have "buf[i := 10, Suc i := 0] = take i buf @ 10 # 0 # drop (Suc (Suc i)) buf"
    by (simp add: list_update_append upd_conv_take_nth_drop)
  then show ?case
    using Nil by (subst gets_loop.simps) simp
next
  case (Cons c l)
  then show ?case
    by (subst gets_loop.simps) (simp add: take_Suc_conv_app_nth)
qed

lemma getcmd_line:
  assumes "0 \<notin> set l" and "10 \<notin> set l" and "13 \<notin> set l" and "length l + 1 < nbuf"
  shows "getcmd nbuf (l @ 10 # inp) = Some (l @ [10], inp)"
proof -
  have "gets (replicate nbuf 0) nbuf (l @ 10 # inp) = Inr (l @ 10 # 0 # drop (length l + 2) (replicate nbuf 0), inp)"
    using assms gets_loop_line [of l 0 nbuf "replicate nbuf 0" inp] by (simp add: gets_def)
  moreover have "hd (l @ 10 # 0 # drop (length l + 2) (replicate nbuf 0)) \<noteq> (0 :: u8)"
    using assms(1) by (cases l) auto
  moreover have "takeWhile (\<lambda>c. c \<noteq> 0) (l @ 10 # 0 # xs) = l @ [10]" for xs
    using assms(1) by (subst takeWhile_append2) auto
  ultimately show ?thesis
    by (simp add: getcmd_def)
qed

lemma getcmd_end: "0 < nbuf \<Longrightarrow> getcmd nbuf [] = None"
  by (cases nbuf) (simp_all add: getcmd_def gets_def gets_loop.simps [of _ "[]"])

text \<open>What a line means: nothing is run for a \<open>cd\<close> and for a line that is not a command.\<close>

definition line_wiring :: "u8 list \<Rightarrow> fds \<Rightarrow> nat \<Rightarrow> (u8 list list \<times> fds) list \<times> nat" where
  "line_wiring line f n =
     (if take 3 line = ascii ''cd '' then ([], n)
      else (case parsecmd line of
              Inl _ \<Rightarrow> ([], n)
            | Inr (c, buf) \<Rightarrow> wiring (map_cmd (word_string buf) c) f n))"

primrec wirings :: "u8 list list \<Rightarrow> fds \<Rightarrow> nat \<Rightarrow> (u8 list list \<times> fds) list \<times> nat" where
  "wirings [] f n = ([], n)"
| "wirings (l # ls) f n = (let (ps, m) = line_wiring l f n; (qs, k) = wirings ls f m in (ps @ qs, k))"

lemma redirs_ok_valid: "valid_cmd c \<Longrightarrow> redirs_ok c"
  by (induction c) (auto simp: valid_mode_def)

lemma run_shell_round:
  assumes "0 \<notin> set line" and "standard f"
  shows "run_act (shell_round line next) f n =
    (let (ps, m) = line_wiring line f n; (qs, l) = run_act next f m in (ps @ qs, l))"
proof (cases "take 3 line = ascii ''cd ''")
  case True
  then show ?thesis
    by (simp add: shell_round_def line_wiring_def Let_def)
next
  case False
  show ?thesis
    using assms(1)
  proof (cases line rule: parsecmd_cases)
    case (1 m)
    then show ?thesis
      using False by (simp add: shell_round_def line_wiring_def fork1_def panic_sh_def case_prod_beta)
  next
    case (2 cmd)
    have "redirs_ok (map_cmd (word_string (nulterminate cmd (line @ [0]))) cmd)"
      using cmd_in_valid [OF 2(2)] words_as_strings [OF cmd_in_valid(1) [OF 2(2)]] by (simp add: redirs_ok_valid)
    then show ?thesis
      using False 2(1) assms(2) by (simp add: shell_round_def line_wiring_def fork1_def run_runcmd)
  qed
qed

lemma wiring_standard:
  "standard f \<Longrightarrow> valid_cmd c \<Longrightarrow> \<forall>(argv, g)\<in>set (fst (wiring c f n)). standard g"
proof (induction c arbitrary: f n)
  case (REDIR c x mode fd)
  then have "standard (f(fd \<mapsto> File x mode))"
    by (intro standard_upd) (auto simp: valid_mode_def)
  then show ?case
    using REDIR.IH REDIR.prems(2) by simp
next
  case (PIPE c d)
  then have "standard (f(1 \<mapsto> PipeWrite n))" "standard (f(0 \<mapsto> PipeRead n))"
    by (simp_all add: standard_upd)
  then show ?case
    using PIPE.IH PIPE.prems(2) by (fastforce simp: case_prod_beta)
next
  case (LIST c d)
  then show ?case
    by (fastforce simp: case_prod_beta)
qed auto

lemma line_wiring_standard:
  assumes "standard f" and "0 \<notin> set line"
  shows "\<forall>(argv, g)\<in>set (fst (line_wiring line f n)). standard g"
  using assms(2)
proof (cases line rule: parsecmd_cases)
  case (1 m)
  then show ?thesis
    by (simp add: line_wiring_def)
next
  case (2 cmd)
  have "valid_cmd (map_cmd (word_string (nulterminate cmd (line @ [0]))) cmd)"
    using cmd_in_valid [OF 2(2)] words_as_strings [OF cmd_in_valid(1) [OF 2(2)]] by simp
  then show ?thesis
    using 2(1) wiring_standard [OF assms(1)] by (simp add: line_wiring_def)
qed

lemma wirings_standard:
  "standard f \<Longrightarrow> \<forall>l\<in>set ls. 0 \<notin> set l \<Longrightarrow> \<forall>(argv, g)\<in>set (fst (wirings ls f n)). standard g"
proof (induction ls arbitrary: n)
  case (Cons l ls)
  then show ?case
    using line_wiring_standard [OF Cons.prems(1), of l n] by (fastforce simp: case_prod_beta)
qed simp

text \<open>A line that ends with a newline, has none before, nor a carriage return or a NUL, and fits in the buffer.\<close>

definition input_line :: "u8 list \<Rightarrow> bool" where
  "input_line line \<longleftrightarrow> line \<noteq> [] \<and> last line = 10 \<and> length line < BUF_SIZE \<and>
     list_all (\<lambda>c. c \<noteq> 0 \<and> c \<noteq> 10 \<and> c \<noteq> 13) (butlast line)"

lemma input_lineD:
  assumes "input_line line"
  shows "0 \<notin> set line" and "getcmd BUF_SIZE (line @ inp) = Some (line, inp)"
proof -
  have line: "line = butlast line @ [10]" "0 \<notin> set (butlast line)" "10 \<notin> set (butlast line)" "13 \<notin> set (butlast line)"
    "length (butlast line) + 1 < BUF_SIZE"
    using assms append_butlast_last_id [of line] by (auto simp: input_line_def list_all_iff)
  have "0 \<notin> set (butlast line @ [10])"
    using line(2) by simp
  then show "0 \<notin> set line"
    unfolding line(1) [symmetric] .
  show "getcmd BUF_SIZE (line @ inp) = Some (line, inp)"
    using getcmd_line [OF line(2-5), of inp] line(1) by (metis append.assoc append_Cons append_Nil)
qed

section \<open>Properties\<close>

text \<open>
  Property C33. What the shell runs. Given any sequence of lines, each with its newline, without a carriage
  return or a NUL and short enough for the buffer of 100 bytes, the shell execs the programs that the
  lines name, in order, each with exactly three open files: those that the command gives it. The
  two sides of a pipe are connected by a pipe of their own, a redirection replaces the file on its
  descriptor, everything else is passed on from the shell, and no other descriptor, such as an end of a
  pipe, stays open in any of them. A line that is not a command, and a \<open>cd\<close>, runs nothing, and the shell
  goes on behind it. System calls succeed; the console is opened on the descriptors up to 2 that the
  shell was not given. Which command a line is, is said by \<open>parsecmd\<close>, which inverts printing.
\<close>

theorem shell_wires_commands:
  assumes "\<forall>l\<in>set ls. input_line l" and "\<forall>d>2. f d = None"
  shows "run_act (sh_loop (concat ls)) (open_console f) n = wirings ls (open_console f) n \<and>
    list_all (\<lambda>(argv, g). standard g) (fst (wirings ls (open_console f) n))"
proof -
  let ?f = "open_console f"
  have f: "standard ?f"
    using assms(2) by (rule standard_open_console)
  have "run_act (sh_loop (concat ls)) ?f n = wirings ls ?f n"
    using assms(1)
  proof (induction ls arbitrary: n)
    case Nil
    then show ?case
      by (simp add: sh_loop.simps [of "[]"] getcmd_end BUF_SIZE_def)
  next
    case (Cons l ls)
    then show ?case
      using f input_lineD [of l] by (subst sh_loop.simps) (simp add: run_shell_round)
  qed
  moreover have "\<forall>l\<in>set ls. 0 \<notin> set l"
    using assms(1) input_lineD(1) by blast
  ultimately show ?thesis
    using wirings_standard [OF f, of ls n] by (simp add: list_all_iff)
qed

text \<open>The lines \<open>ls|wc>out\<close>, \<open>cd d\<close>, \<open>)\<close> and \<open>echo hi\<close>, for a shell that starts with no open files.\<close>

definition example_lines :: "u8 list list" where
  "example_lines = map (\<lambda>l. ascii l @ [10]) [''ls|wc>out'', ''cd d'', '')'', ''echo hi'']"

theorem shell_wires_commands_witness:
  "run_act (sh_loop (concat example_lines)) (open_console Map.empty) 0 = wirings example_lines (open_console Map.empty) 0 \<and>
    list_all (\<lambda>(argv, g). standard g) (fst (wirings example_lines (open_console Map.empty) 0))"
  by (rule shell_wires_commands) (simp_all add: example_lines_def input_line_def ascii_def BUF_SIZE_def)

end
