(* ===== verification/Spec2Isabelle.thy ===== *)
theory Spec2Isabelle
  imports Start Spinlock Kstruct Mkfs_Boot Grep Sh_Run
begin

text \<open>
  A verification of xv6 for ARMv8.

  \<^bold>\<open>The program.\<close> \<open>src/kernel\<close> is a teaching kernel in C: a page allocator and page tables at the
  bottom; processes, with a scheduler, sleep and wakeup; a file system in layers, with a disk driver, a
  buffer cache, a write-ahead log, blocks, inodes, directories and paths; open files, pipes and the
  console above it; system calls on top. A system call enters through \<open>trap.c\<close> and \<open>syscall.c\<close>, which
  call a handler of \<open>sysproc.c\<close> or \<open>sysfile.c\<close>; a handler on files brackets its work with \<open>begin_op\<close> and
  \<open>end_op\<close>, changes blocks in buffers with \<open>bread\<close>, \<open>log_write\<close> and \<open>brelse\<close>, and the last \<open>end_op\<close>
  commits them to the disk. \<open>src/user\<close> has the shell and other programs on top of a small library, and
  \<open>src/mkfs\<close> the tool that makes the disk image on the build host.

  \<^bold>\<open>The model.\<close> Each routine is a function on a state. The state is a record that grows with the layers,
  and a routine works on any extension of the record of its layer: kernel memory and the free list
  (\<open>kmem\<close>, theory \<open>Kalloc\<close>), the process table (\<open>proctab\<close>, \<open>Proctab\<close>), buffers and disk (\<open>bstate\<close>, \<open>Bio\<close>),
  the log (\<open>lstate\<close>, \<open>Log\<close>), super block and inode table (\<open>fstate\<close>, \<open>Fs\<close>), interrupt handlers (\<open>gstate\<close>,
  \<open>Gic\<close>), serial port (\<open>ustate\<close>, \<open>Uart\<close>), console (\<open>cstate\<close>, \<open>Console\<close>), open files and pipes (\<open>filestate\<close>,
  \<open>Pipe\<close>), and the rest (\<open>kstate\<close>, \<open>Proc\<close>). A routine that can panic, sleep or access memory out of range
  returns \<open>'a res\<close> of \<open>Xv6_Prelude\<close>: \<open>Inl\<close> with the panic message, the channel on which the thread goes
  to sleep, \<open>Fault\<close> for behaviour that C leaves undefined, or \<open>Diverge\<close>; \<open>bindE\<close> sequences such
  routines. Routines that go on after a sleep are split at it, with \<open>progress\<close> (\<open>Uart\<close>) telling where.
  Integers are words of their C type, so that they wrap; loop counters are natural numbers. Pointers to
  table entries are indices, with \<open>None\<close> for NULL; other pointers are 64-bit addresses. Blocks, inodes,
  directory entries, page tables and the free list have the byte layout of the C structures. Critical
  sections of spin locks are atomic steps; \<open>Spinlock\<close> proves of the lock itself what that rests on.

  \<^bold>\<open>The theories\<close>, with the files under \<open>src/\<close> that they model:
  \<^item> \<open>Xv6_Prelude\<close>: outcomes, little-endian encodings, lists; \<open>Ring\<close>: queues in arrays with wrapping
    indices, and the locale \<open>fifo\<close>.
  \<^item> \<open>Cstring\<close> (\<open>kernel/string.c\<close>): \<open>memmove\<close> copies right whatever the overlap; \<open>safestrcpy\<close> stays in bounds.
  \<^item> \<open>Kalloc\<close> (\<open>kernel/kalloc.c\<close>, \<open>mmu.h\<close>, \<open>memlayout.h\<close>): the free list in memory represents a set of
    pages, which \<open>kalloc\<close> and \<open>kfree\<close> take from and give to; locale \<open>page_allocator\<close>.
  \<^item> \<open>Proctab\<close> (\<open>kernel/proc.h\<close>, \<open>sleeplock.c\<close>, parts of \<open>proc.c\<close>): process structures, sleep locks, wakeup.
  \<^item> \<open>Bio\<close> (\<open>kernel/bio.c\<close>, \<open>buf.h\<close>): the linked recency list as a list, and each operation on it.
    \<open>Bcache\<close> states the contract of the cache as the locale \<open>block_cache\<close>, on which the log rests.
  \<^item> \<open>Log\<close> (\<open>kernel/log.c\<close>): the log invariant, and crash safety of commit and recovery at every disk write.
  \<^item> \<open>Vm\<close> (\<open>kernel/vm.c\<close>, \<open>mmu.h\<close>): page tables and copies between user and kernel memory.
  \<^item> \<open>Fs\<close> (\<open>kernel/fs.c\<close>, \<open>fs.h\<close>, \<open>stat.h\<close>): every routine. \<open>Fs_Blocks\<close> proves the block allocator correct
    inside a transaction, \<open>Fs_Inode\<close> the inode table and the way of an inode to the disk and back,
    \<open>Fs_Data\<close> that \<open>readi\<close> delivers the bytes of the file, \<open>Fs_Write\<close> that \<open>bmap\<close> and \<open>writei\<close> replace bytes of
    one file and leave all others alone.
  \<^item> \<open>Gic\<close> (\<open>kernel/gic.c\<close>), \<open>Printf\<close> (\<open>kernel/printf.c\<close>), \<open>Uart\<close> (\<open>kernel/uart.c\<close>), \<open>Console\<close> (\<open>kernel/console.c\<close>):
    printed numbers; the interrupt handler of the serial line implements a line discipline specified on
    lists, for any answers of the device about its interrupt status, which are a parameter; what is typed
    is read line by line; output keeps its order.
  \<^item> \<open>Pipe\<close> (\<open>kernel/pipe.c\<close>), \<open>File\<close> (\<open>kernel/file.c\<close>, \<open>file.h\<close>): pipes are queues of bytes; locale \<open>fifo\<close>
    of \<open>Ring\<close> is interpreted here and in \<open>Uart\<close>.
  \<^item> \<open>Virtio\<close> (\<open>kernel/virtio_disk.c\<close>, \<open>virtio.h\<close>), \<open>Proc\<close> (\<open>kernel/proc.c\<close>), \<open>Exec\<close> (\<open>kernel/exec.c\<close>, \<open>elf.h\<close>),
    \<open>Sysfile\<close> (\<open>kernel/sysfile.c\<close>), \<open>Syscall\<close> (\<open>kernel/syscall.c\<close>, \<open>sysproc.c\<close>, \<open>timer.c\<close>, \<open>trap.c\<close>), \<open>Start\<close>
    (\<open>kernel/start.c\<close>).
  \<^item> \<open>Spinlock\<close> (\<open>kernel/spinlock.c\<close>): mutual exclusion, absence of panics, and that a CPU can take a free
    lock by its own steps, for any number of CPUs, as a step relation with exclusive monitors.
  \<^item> \<open>Kstruct\<close> (\<open>kernel/kstruct.c\<close>): what the kernel's own page tables map.
  \<^item> \<open>Mkfs\<close> (\<open>mkfs/mkfs.c\<close>): the image as the list of its sectors. With the blocks and inodes of \<open>Fs_Write\<close> it
    is shown that the image holds exactly the given files. \<open>Mkfs_Boot\<close>: the kernel boots from it.
  \<^item> \<open>Ulib\<close> (\<open>user/ulib.c\<close>, \<open>user/printf.c\<close>): the library of user programs, on lists of bytes; \<open>atoi\<close> reads
    what \<open>printf\<close> writes. Input comes in pieces whose sizes are a parameter.
  \<^item> \<open>Grep\<close> (\<open>user/grep.c\<close>): the matcher against the language of its pattern, and the program against the
    list of the lines of its input.
  \<^item> \<open>Sh\<close> (\<open>user/sh.c\<close>): the parser. \<open>Sh_Parse\<close> and \<open>Sh_Print\<close> show that it inverts printing, \<open>Sh_Total\<close> that it
    ends on every line, with a message or with a command made of words of the line. \<open>Sh_Run\<close> has \<open>runcmd\<close> and
    \<open>main\<close> as the tree of the system calls of a process, and shows which programs are run with which open
    files, on a kernel whose system calls succeed.

  \<^bold>\<open>Bounds and fuel.\<close> Loops over linked lists have a fuel of the number of elements there are
  (\<open>find_next\<close> in \<open>Bio\<close>: \<open>NBUF + 1\<close>; \<open>free_chain\<close> in \<open>Virtio\<close>: \<open>NUM\<close>); the invariants show that it is never
  used up. The interrupt handler of the serial port has one round more than there are received words.
  \<open>freerange\<close> can fail to end, and does not where the theorems apply. \<open>fs_op k\<close> in \<open>Fs_Blocks\<close> is
  the room that an operation still has in the log and the cache; \<open>write_budget\<close> is what \<open>writei\<close> needs,
  six places for each block it touches and two for the inode. The parser of the shell has a fuel of
  \<open>parse_fuel\<close>, four for each byte of the line and eight; \<open>Sh_Total\<close> proves that this is always enough.

  \<^bold>\<open>Not modelled.\<close> Assembly (\<open>entry.S\<close>, \<open>swtch.S\<close>, \<open>trapasm.S\<close>) and the access to system registers, which
  have no C semantics. The devices, which are parameters or, as far as the drivers rely on them, part of
  the state with their documented behaviour; the serial port goes on sending while \<open>uartputc_sync\<close> waits
  for it. Interleavings within critical sections. The heap of user
  programs (\<open>umalloc.c\<close>), which the parser of the shell takes to succeed as the code does; the small user
  programs, most of which pass their arguments to one system call; and the test programs (\<open>usertests.c\<close>,
  \<open>grind.c\<close>, \<open>forktest.c\<close>, \<open>stressfs.c\<close>), which specify nothing but their own checks.
\<close>

end
